(* ===== verification/Prelude.thy ===== *)
theory Prelude
  imports Main "HOL-Library.Word"
begin

text \<open>
  The vocabulary the component theories share: bytes and machine words, the outcome of a
  C++ call that may hit a failed \<open>MJ_ASSERT\<close> or leave defined behaviour, the little-endian
  byte order that every \<open>reinterpret_cast\<close> of a scalar relies on, and the base-128 encoding
  that both varuint implementations of the repository are proved to compute.
\<close>

unbundle bit_operations_syntax

section \<open>Bytes and faults\<close>

type_synonym byte = "8 word"
type_synonym u16 = "16 word"
type_synonym u32 = "32 word"
type_synonym u64 = "64 word"

text \<open>
  How a call can fail to return: \<open>AssertFailed\<close> is \<open>mjlib::base::assertion_failed\<close>, which
  aborts (\<open>base/assert.cc\<close>); \<open>BufferOverrun\<close> is a store or load outside the object it
  addresses; \<open>NullDeref\<close> is a call through a null pointer or an empty callback;
  \<open>BadOptional\<close> is \<open>*x\<close> or \<open>x.value()\<close> of an empty \<open>std::optional\<close>; \<open>Terminated\<close> is
  \<open>base::Fail\<close>; \<open>Thrown\<close> is an exception that leaves the operation; \<open>BadShift\<close> is a shift by at
  least the width of the type; \<open>ErrorCode\<close> is a thrown \<open>base::system_error\<close> with its code;
  \<open>Uninit\<close> is the use of a value that was never set. \<open>OutOfFuel\<close> is no outcome of the code: a
  recursion that is modelled with a bound on its depth has hit the bound.
\<close>

datatype fault = AssertFailed | BufferOverrun | NullDeref | BadOptional | Terminated | Thrown | BadShift
  | ErrorCode nat | Uninit | OutOfFuel

type_synonym 'a res = "fault + 'a"

definition sbind :: "'a res \<Rightarrow> ('a \<Rightarrow> 'b res) \<Rightarrow> 'b res" where
  "sbind r f = (case r of Inl e \<Rightarrow> Inl e | Inr x \<Rightarrow> f x)"

definition mj_assert :: "bool \<Rightarrow> unit res" where
  "mj_assert b = (if b then Inr () else Inl AssertFailed)"

named_theorems res_simps \<open>rewriting of outcomes: sequencing and assertions\<close>
named_theorems wire_simps \<open>rewriting of encoded bytes: lengths and decoders of encodings\<close>

lemma sbind_Inr [simp, res_simps]: "sbind (Inr x) f = f x"
  by (simp add: sbind_def)

lemma sbind_Inl [simp, res_simps]: "sbind (Inl e) f = Inl e"
  by (simp add: sbind_def)

lemma sbind_assoc [res_simps]: "sbind (sbind r f) g = sbind r (\<lambda>x. sbind (f x) g)"
  by (cases r) simp_all

lemma sbind_eq_Inr_iff: "sbind r f = Inr y \<longleftrightarrow> (\<exists>x. r = Inr x \<and> f x = Inr y)"
  by (cases r) simp_all

lemma sbind_InrE [elim!]:
  assumes "sbind r f = Inr y"
  obtains x where "r = Inr x" and "f x = Inr y"
  using assms by (auto simp: sbind_eq_Inr_iff)

lemma sbind_return [simp]: "sbind r Inr = r"
  by (cases r) simp_all

lemma sbind_cong [fundef_cong]:
  "r = r' \<Longrightarrow> (\<And>x. r' = Inr x \<Longrightarrow> f x = g x) \<Longrightarrow> sbind r f = sbind r' g"
  by (cases r') simp_all

lemma mj_assert_True [simp, res_simps]: "b \<Longrightarrow> mj_assert b = Inr ()"
  by (simp add: mj_assert_def)

lemma mj_assert_False [simp, res_simps]: "\<not> b \<Longrightarrow> mj_assert b = Inl AssertFailed"
  by (simp add: mj_assert_def)

lemma mj_assert_Inr_iff [simp]: "mj_assert b = Inr u \<longleftrightarrow> b"
  by (simp add: mj_assert_def)

section \<open>Text\<close>

text \<open>String literals of the source, as the bytes \<open>std::string_view\<close> sees.\<close>

definition ascii :: "string \<Rightarrow> byte list" where
  "ascii s = map of_char s"

lemma ascii_simps [simp]:
  "ascii [] = []" "ascii (c # s) = of_char c # ascii s" "ascii (s @ t) = ascii s @ ascii t"
  by (simp_all add: ascii_def)

lemma length_ascii [simp]: "length (ascii s) = length s"
  by (simp add: ascii_def)

section \<open>Little-endian scalars\<close>

fun le_bytes :: "nat \<Rightarrow> 'a::len word \<Rightarrow> byte list" where
  "le_bytes 0 w = []"
| "le_bytes (Suc n) w = ucast w # le_bytes n (drop_bit 8 w)"

fun le_word :: "byte list \<Rightarrow> 'a::len word" where
  "le_word [] = 0"
| "le_word (b # bs) = (ucast b OR push_bit 8 (le_word bs))"

lemma length_le_bytes [simp, wire_simps]: "length (le_bytes n w) = n"
  by (induction n arbitrary: w) simp_all

lemma le_word_le_bytes: "le_word (le_bytes n w) = take_bit (8 * n) w"
  for w :: "'a::len word"
proof (induction n arbitrary: w)
  case 0
  then show ?case by simp
next
  case (Suc n)
  have "(ucast (ucast w :: byte) OR push_bit 8 (take_bit (8 * n) (drop_bit 8 w)) :: 'a word)
      = take_bit (8 * Suc n) w"
    by (rule bit_word_eqI) (auto simp: bit_simps)
  with Suc show ?case by simp
qed

lemma le_word_le_bytes_full [simp, wire_simps]:
  "8 * n = LENGTH('a) \<Longrightarrow> le_word (le_bytes n w) = (w :: 'a::len word)"
  by (simp add: le_word_le_bytes take_bit_word_eq_self)

lemma le_bytes_le_word:
  "8 * length bs \<le> LENGTH('a) \<Longrightarrow> le_bytes (length bs) (le_word bs :: 'a::len word) = bs"
proof (induction bs)
  case Nil
  then show ?case by simp
next
  case (Cons b bs)
  let ?w = "ucast b OR push_bit 8 (le_word bs) :: 'a word"
  have len: "8 \<le> LENGTH('a)" using Cons.prems by simp
  have lo: "ucast ?w = b"
    by (rule bit_word_eqI) (use len in \<open>auto simp: bit_simps\<close>)
  have "le_bytes (length bs) (drop_bit 8 ?w) = le_bytes (length bs) (le_word bs :: 'a word)"
  proof -
    have "take_bit (8 * length bs) (drop_bit 8 ?w) = take_bit (8 * length bs) (le_word bs :: 'a word)"
      by (rule bit_word_eqI)
        (use Cons.prems in \<open>auto simp: bit_simps dest: bit_imp_le_length\<close>)
    moreover have "le_bytes n v = le_bytes n (take_bit (8 * n) v)" for n and v :: "'a word"
    proof (induction n arbitrary: v)
      case (Suc n)
      have "ucast (take_bit (8 * Suc n) v) = (ucast v :: byte)"
        by (rule bit_word_eqI) (auto simp: bit_simps)
      moreover have "drop_bit 8 (take_bit (8 * Suc n) v) = take_bit (8 * n) (drop_bit 8 v)"
        by (rule bit_word_eqI) (auto simp: bit_simps)
      ultimately show ?case using Suc [of "drop_bit 8 v"] by simp
    qed simp
    ultimately show ?thesis by metis
  qed
  with Cons lo show ?case by simp
qed

section \<open>The base-128 encoding\<close>

text \<open>
  The reference the varuint routines are compared with: seven bits per byte, least
  significant first, the top bit set on every byte but the last.
\<close>

fun leb128 :: "nat \<Rightarrow> byte list" where
  "leb128 n = (if n < 128 then [of_nat n] else of_nat (n mod 128 + 128) # leb128 (n div 128))"

fun unleb128 :: "byte list \<Rightarrow> (nat \<times> byte list) option" where
  "unleb128 [] = None"
| "unleb128 (b # bs) =
     (if unat b < 128 then Some (unat b, bs)
      else map_option (\<lambda>(n, r). (unat b - 128 + 128 * n, r)) (unleb128 bs))"

declare leb128.simps [simp del]

lemma leb128_small: "n < 128 \<Longrightarrow> leb128 n = [of_nat n]"
  by (simp add: leb128.simps)

lemma leb128_big: "128 \<le> n \<Longrightarrow> leb128 n = of_nat (n mod 128 + 128) # leb128 (n div 128)"
  by (simp add: leb128.simps)

lemma leb128_not_Nil [simp]: "leb128 n \<noteq> []"
  by (simp add: leb128.simps)

lemma length_leb128_pos [simp]: "0 < length (leb128 n)"
  by simp

lemma unat_of_nat_byte: "n < 256 \<Longrightarrow> unat (of_nat n :: byte) = n"
  by (simp add: unat_of_nat take_bit_eq_mod)

lemma unleb128_leb128 [wire_simps]: "unleb128 (leb128 n @ rest) = Some (n, rest)"
proof (induction n rule: leb128.induct)
  case (1 n)
  show ?case
  proof (cases "n < 128")
    case True
    then show ?thesis by (simp add: leb128_small unat_of_nat_byte)
  next
    case False
    then have "unat (of_nat (n mod 128 + 128) :: byte) = n mod 128 + 128"
      by (intro unat_of_nat_byte) (simp add: less_diff_conv2)
    with False 1 show ?thesis by (simp add: leb128_big)
  qed
qed

lemma leb128_inj: "leb128 m @ r = leb128 n @ s \<Longrightarrow> m = n \<and> r = s"
  by (metis Pair_inject option.inject unleb128_leb128)

lemma length_leb128_le: "n < 2 ^ (7 * Suc k) \<Longrightarrow> length (leb128 n) \<le> Suc k"
proof (induction k arbitrary: n)
  case 0
  then show ?case by (simp add: leb128_small)
next
  case (Suc k)
  show ?case
  proof (cases "n < 128")
    case True
    then show ?thesis by (simp add: leb128_small)
  next
    case False
    have "n < 128 * 2 ^ (7 * Suc k)"
      using Suc.prems by (simp add: power_add)
    then have "n div 128 < 2 ^ (7 * Suc k)"
      by (simp add: less_mult_imp_div_less mult.commute)
    with Suc.IH False show ?thesis by (simp add: leb128_big)
  qed
qed

lemma length_leb128_gt: "2 ^ (7 * k) \<le> n \<Longrightarrow> k < length (leb128 n)"
proof (induction k arbitrary: n)
  case 0
  then show ?case by simp
next
  case (Suc k)
  have "(128::nat) \<le> 2 ^ (7 * Suc k)"
    by (simp add: power_add)
  with Suc.prems have big: "128 \<le> n" by (metis order.trans)
  have "2 ^ (7 * k) \<le> n div 128"
    using Suc.prems by (simp add: power_add less_eq_div_iff_mult_less_eq mult.commute)
  with Suc.IH [of "n div 128"] big show ?case by (simp add: leb128_big)
qed

lemma length_leb128_u32: "length (leb128 (unat (v :: u32))) \<le> 5"
proof -
  have "unat v < 2 ^ 32" using unsigned_less [of v] by simp
  also have "\<dots> \<le> 2 ^ (7 * Suc 4)" by simp
  finally show ?thesis using length_leb128_le [of "unat v" 4] by simp
qed

lemma length_leb128_u64: "length (leb128 (unat (v :: u64))) \<le> 10"
proof -
  have "unat v < 2 ^ 64" using unsigned_less [of v] by simp
  also have "\<dots> \<le> 2 ^ (7 * Suc 9)" by simp
  finally show ?thesis using length_leb128_le [of "unat v" 9] by simp
qed

text \<open>One seven-bit digit of a word, and the rest.\<close>

lemma of_nat_digit:
  "(of_nat (n mod 128) OR push_bit 7 (of_nat (n div 128)) :: 'a::len word) = of_nat n"
proof -
  have "(of_nat (n mod 128) OR push_bit 7 (of_nat (n div 128)) :: 'a word)
      = of_nat (n mod 128 OR push_bit 7 (n div 128))"
    by (simp add: of_nat_or_eq of_nat_push_bit)
  also have "n mod 128 OR push_bit 7 (n div 128) = n"
  proof -
    have "take_bit 7 n OR push_bit 7 (drop_bit 7 n) = n"
      by (rule bit_eqI) (metis add_diff_inverse_nat bit_drop_bit_eq bit_or_iff bit_push_bit_iff_nat
          bit_take_bit_iff comp_apply not_less)
    then show ?thesis by (simp add: take_bit_eq_mod drop_bit_eq_div)
  qed
  finally show ?thesis .
qed

lemma push_bit_digit:
  "(push_bit k (of_nat (n mod 128)) OR push_bit (k + 7) (of_nat (n div 128)) :: 'a::len word)
   = push_bit k (of_nat n)"
proof -
  have "(push_bit k (of_nat (n mod 128)) OR push_bit (k + 7) (of_nat (n div 128)) :: 'a word)
      = push_bit k (of_nat (n mod 128) OR push_bit 7 (of_nat (n div 128)))"
    by (rule bit_word_eqI) (auto simp: bit_simps)
  then show ?thesis by (simp only: of_nat_digit)
qed

lemma push_bit_digit_more:
  "r OR push_bit k (of_nat (n mod 128)) OR push_bit (k + 7) (of_nat (n div 128))
   = (r OR push_bit k (of_nat n) :: 'a::len word)"
  by (simp only: or.assoc push_bit_digit)

lemma drop_bit_7_unat: "unat (drop_bit 7 (v :: 'a::len word)) = unat v div 128"
proof -
  have "unat (drop_bit 7 v) = drop_bit 7 (unat v)"
    by (simp add: unsigned_drop_bit_eq take_bit_nat_eq_self)
  then show ?thesis by (simp add: drop_bit_eq_div)
qed

lemma drop_bit_7_zero: "drop_bit 7 (v :: 'a::len word) = 0 \<longleftrightarrow> unat v < 128"
  by (metis div_less drop_bit_7_unat div_eq_0_iff unat_eq_zero zero_neq_numeral)

lemma drop_bit_7_less: "drop_bit 7 v \<noteq> 0 \<Longrightarrow> unat (drop_bit 7 v) < unat (v :: 'a::len word)"
  by (simp add: drop_bit_7_zero drop_bit_7_unat)

end
