(* ===== verification/Byte_Streams.thy ===== *)
theory Byte_Streams
  imports Prelude
begin

text \<open>
  The byte streams of \<open>mjlib/base\<close>: the two interfaces of \<open>base/stream.h\<close> as locales, and
  the classes that implement them: \<open>BufferWriteStream\<close> and \<open>BufferReadStream\<close>
  (\<open>buffer_stream.h\<close>), \<open>FastOStringStream\<close> and \<open>FastIStringStream\<close> (\<open>fast_stream.h\<close>), the
  checksumming wrappers (\<open>crc_stream.h\<close>), \<open>RecordingStream\<close>, \<open>NullWriteStream\<close> and the
  \<open>SizeCountingStream\<close> of \<open>persistent_config.cc\<close>.

  A write takes the stream and the bytes and gives the new stream or a fault. A read takes
  the stream and the size of the caller's buffer and gives the bytes placed there (their
  number is \<open>gcount()\<close>) and the new stream. A \<open>std::streamsize\<close> that the code only ever
  adds to is a \<open>nat\<close>; differences, which can be negative, are \<open>int\<close>.
\<close>

section \<open>Definitions\<close>

text \<open>\<open>std::memcpy\<close> into the middle of an array.\<close>

definition overwrite :: "'a list \<Rightarrow> nat \<Rightarrow> 'a list \<Rightarrow> 'a list" where
  "overwrite xs i ys = take i xs @ ys @ drop (i + length ys) xs"

subsection \<open>BufferWriteStream\<close>

record bws =
  bw_mem :: "byte list"
  bw_off :: nat

definition bws_init :: "byte list \<Rightarrow> bws" where
  "bws_init mem = \<lparr>bw_mem = mem, bw_off = 0\<rparr>"

definition bws_write :: "bws \<Rightarrow> byte list \<Rightarrow> bws res" where
  "bws_write s d =
     sbind (mj_assert (bw_off s + length d \<le> length (bw_mem s))) (\<lambda>_.
     Inr (s\<lparr>bw_mem := overwrite (bw_mem s) (bw_off s) d, bw_off := bw_off s + length d\<rparr>))"

definition bws_skip :: "bws \<Rightarrow> nat \<Rightarrow> bws" where
  "bws_skip s n = s\<lparr>bw_off := bw_off s + n\<rparr>"

text \<open>\<open>reset\<close> takes a pointer; \<open>position()\<close> is the only source of one, so an offset stands for it.\<close>

definition bws_reset :: "bws \<Rightarrow> nat \<Rightarrow> bws res" where
  "bws_reset s p = sbind (mj_assert (p < length (bw_mem s))) (\<lambda>_. Inr (s\<lparr>bw_off := p\<rparr>))"

definition bws_remaining :: "bws \<Rightarrow> int" where
  "bws_remaining s = int (length (bw_mem s)) - int (bw_off s)"

text \<open>The bytes written so far.\<close>

definition bws_out :: "bws \<Rightarrow> byte list" where
  "bws_out s = take (bw_off s) (bw_mem s)"

definition bws_ok :: "bws \<Rightarrow> bool" where
  "bws_ok s = (bw_off s \<le> length (bw_mem s))"

subsection \<open>BufferReadStream\<close>

record brs =
  br_buf :: "byte list"
  br_off :: nat
  br_last :: int

definition brs_init :: "byte list \<Rightarrow> brs" where
  "brs_init buf = \<lparr>br_buf = buf, br_off = 0, br_last = 0\<rparr>"

definition brs_remaining :: "brs \<Rightarrow> int" where
  "brs_remaining s = int (length (br_buf s)) - int (br_off s)"

definition brs_fast_ignore :: "brs \<Rightarrow> int \<Rightarrow> brs" where
  "brs_fast_ignore s n = s\<lparr>br_last := n, br_off := nat (int (br_off s) + n)\<rparr>"

definition brs_ignore :: "brs \<Rightarrow> nat \<Rightarrow> brs" where
  "brs_ignore s n = brs_fast_ignore s (min (int n) (brs_remaining s))"

definition brs_read :: "brs \<Rightarrow> nat \<Rightarrow> byte list \<times> brs" where
  "brs_read s n =
     (let to_read = min (int n) (brs_remaining s)
      in (take (nat to_read) (drop (br_off s) (br_buf s)),
          s\<lparr>br_last := to_read, br_off := nat (int (br_off s) + to_read)\<rparr>))"

definition brs_avail :: "brs \<Rightarrow> byte list" where
  "brs_avail s = drop (br_off s) (br_buf s)"

definition brs_ok :: "brs \<Rightarrow> bool" where
  "brs_ok s = (br_off s \<le> length (br_buf s))"

subsection \<open>FastOStringStream and FastIStringStream\<close>

text \<open>The inner class \<open>vector\<close>: \<open>base_\<close> never shrinks, \<open>size_\<close> says how much of it is in use.\<close>

record fos =
  fo_base :: "byte list"
  fo_size :: nat

definition fos_init :: fos where
  "fos_init = \<lparr>fo_base = [], fo_size = 0\<rparr>"

definition fos_resize :: "fos \<Rightarrow> nat \<Rightarrow> fos" where
  "fos_resize s n =
     s\<lparr>fo_size := n,
       fo_base := (if n > length (fo_base s)
                   then fo_base s @ replicate (n - length (fo_base s)) 0 else fo_base s)\<rparr>"

definition fos_reserve :: "fos \<Rightarrow> nat \<Rightarrow> fos" where
  "fos_reserve s n =
     s\<lparr>fo_base := (if n > length (fo_base s)
                   then fo_base s @ replicate (n - length (fo_base s)) 0 else fo_base s)\<rparr>"

definition fos_clear :: "fos \<Rightarrow> fos" where
  "fos_clear s = s\<lparr>fo_size := 0\<rparr>"

definition fos_write :: "fos \<Rightarrow> byte list \<Rightarrow> fos res" where
  "fos_write s d =
     (let s' = fos_resize s (fo_size s + length d)
      in Inr (s'\<lparr>fo_base := overwrite (fo_base s') (fo_size s) d\<rparr>))"

definition fos_str :: "fos \<Rightarrow> byte list" where
  "fos_str s = take (fo_size s) (fo_base s)"

definition fos_ok :: "fos \<Rightarrow> bool" where
  "fos_ok s = (fo_size s \<le> length (fo_base s))"

record fis =
  fi_data :: "byte list"
  fi_off :: nat
  fi_last :: nat

definition fis_init :: "byte list \<Rightarrow> fis" where
  "fis_init d = \<lparr>fi_data = d, fi_off = 0, fi_last = 0\<rparr>"

definition fis_remaining :: "fis \<Rightarrow> nat" where
  "fis_remaining s = length (fi_data s) - fi_off s"

definition fis_ignore :: "fis \<Rightarrow> nat \<Rightarrow> fis" where
  "fis_ignore s n =
     (let l = min (fis_remaining s) n in s\<lparr>fi_last := l, fi_off := fi_off s + l\<rparr>)"

definition fis_read :: "fis \<Rightarrow> nat \<Rightarrow> byte list \<times> fis" where
  "fis_read s n =
     (let l = min (fis_remaining s) n
      in (take l (drop (fi_off s) (fi_data s)), s\<lparr>fi_last := l, fi_off := fi_off s + l\<rparr>))"

definition fis_avail :: "fis \<Rightarrow> byte list" where
  "fis_avail s = drop (fi_off s) (fi_data s)"

subsection \<open>StreambufReadStream\<close>

text \<open>
  A view of the readable bytes of a \<open>boost::asio::streambuf\<close>: the snapshot of its contents
  taken at construction, the position \<open>current_ - begin_\<close> and the last count.
\<close>

record srs =
  sr_data :: "byte list"
  sr_pos :: nat
  sr_last :: nat

definition srs_init :: "byte list \<Rightarrow> srs" where
  "srs_init d = \<lparr>sr_data = d, sr_pos = 0, sr_last = 0\<rparr>"

definition srs_remaining :: "srs \<Rightarrow> nat" where
  "srs_remaining s = length (sr_data s) - sr_pos s"

definition srs_ignore :: "srs \<Rightarrow> nat \<Rightarrow> srs" where
  "srs_ignore s n =
     (let to_ignore = min n (srs_remaining s)
      in s\<lparr>sr_pos := sr_pos s + to_ignore, sr_last := to_ignore\<rparr>)"

definition srs_read :: "srs \<Rightarrow> nat \<Rightarrow> byte list \<times> srs" where
  "srs_read s n =
     (let to_read = min n (srs_remaining s)
      in (take to_read (drop (sr_pos s) (sr_data s)),
          s\<lparr>sr_pos := sr_pos s + to_read, sr_last := to_read\<rparr>))"

definition srs_avail :: "srs \<Rightarrow> byte list" where
  "srs_avail s = drop (sr_pos s) (sr_data s)"

definition srs_ok :: "srs \<Rightarrow> bool" where
  "srs_ok s = (sr_pos s \<le> length (sr_data s))"

subsection \<open>Wrappers\<close>

text \<open>
  A checksum object of boost is the sequence of bytes fed to it; its \<open>checksum()\<close> is a
  function of that sequence, a parameter \<open>crc\<close> of the definitions that compare checksums.
\<close>

definition crc_ws_write ::
  "('s \<Rightarrow> byte list \<Rightarrow> 's res) \<Rightarrow> 's \<times> byte list \<Rightarrow> byte list \<Rightarrow> ('s \<times> byte list) res" where
  "crc_ws_write wr s d = sbind (wr (fst s) d) (\<lambda>t. Inr (t, snd s @ d))"

definition crc_rs_read ::
  "('s \<Rightarrow> nat \<Rightarrow> byte list \<times> 's) \<Rightarrow> 's \<times> byte list \<Rightarrow> nat \<Rightarrow> byte list \<times> ('s \<times> byte list)" where
  "crc_rs_read rd s n = (case rd (fst s) n of (d, t) \<Rightarrow> (d, (t, snd s @ d)))"

definition crc_rs_ignore ::
  "('s \<Rightarrow> nat \<Rightarrow> byte list \<times> 's) \<Rightarrow> 's \<times> byte list \<Rightarrow> nat \<Rightarrow> 's \<times> byte list" where
  "crc_rs_ignore rd s n = (case rd (fst s) n of (d, t) \<Rightarrow> (t, snd s @ d))"

text \<open>\<open>RecordingStream\<close>: the wrapped stream and what was recorded.\<close>

definition rec_read ::
  "('s \<Rightarrow> nat \<Rightarrow> byte list \<times> 's) \<Rightarrow> 's \<times> fos \<Rightarrow> nat \<Rightarrow> (byte list \<times> ('s \<times> fos)) res" where
  "rec_read rd s n =
     (case rd (fst s) n of (d, t) \<Rightarrow> sbind (fos_write (snd s) d) (\<lambda>o'. Inr (d, (t, o'))))"

definition rec_ignore ::
  "('s \<Rightarrow> nat \<Rightarrow> byte list \<times> 's) \<Rightarrow> 's \<times> fos \<Rightarrow> nat \<Rightarrow> ('s \<times> fos) res" where
  "rec_ignore rd s n =
     (case rd (fst s) n of (d, t) \<Rightarrow> sbind (fos_write (snd s) d) (\<lambda>o'. Inr (t, o')))"

definition null_write :: "unit \<Rightarrow> byte list \<Rightarrow> unit res" where
  "null_write s d = Inr ()"

definition size_write :: "nat \<Rightarrow> byte list \<Rightarrow> nat res" where
  "size_write s d = Inr (s + length d)"

section \<open>Overwriting part of an array\<close>

lemma length_overwrite [simp]:
  "i + length ys \<le> length xs \<Longrightarrow> length (overwrite xs i ys) = length xs"
  by (simp add: overwrite_def)

lemma take_overwrite [simp]: "i \<le> length xs \<Longrightarrow> take (i + length ys) (overwrite xs i ys) = take i xs @ ys"
  by (simp add: overwrite_def)

lemma take_overwrite_before: "j \<le> i \<Longrightarrow> i \<le> length xs \<Longrightarrow> take j (overwrite xs i ys) = take j xs"
  by (simp add: overwrite_def)

lemma overwrite_Nil [simp]: "overwrite xs i [] = xs"
  by (simp add: overwrite_def)

lemma overwrite_append:
  "i + length ys \<le> length xs \<Longrightarrow>
   overwrite (overwrite xs i ys) (i + length ys) zs = overwrite xs i (ys @ zs)"
  by (simp add: overwrite_def ac_simps)

section \<open>The interface of write streams\<close>

text \<open>
  What the encoders rely on: writing two pieces one after the other is writing their
  concatenation. Every class derived from \<open>base::WriteStream\<close> satisfies it.
\<close>

locale write_stream =
  fixes wr :: "'s \<Rightarrow> byte list \<Rightarrow> 's res"
  assumes wr_append: "wr s (a @ b) = sbind (wr s a) (\<lambda>t. wr t b)"
begin

lemma wr_seq: "sbind (wr s a) (\<lambda>t. wr t b) = wr s (a @ b)"
  by (simp add: wr_append)

lemma wr_seq_more: "sbind (wr s a) (\<lambda>t. sbind (wr t b) g) = sbind (wr s (a @ b)) g"
  by (simp add: wr_append res_simps)

end

text \<open>A write stream whose output can be looked at.\<close>

locale collecting_stream = write_stream +
  fixes out :: "'s \<Rightarrow> byte list" and ok :: "'s \<Rightarrow> bool"
  assumes wr_out: "ok s \<Longrightarrow> wr s d = Inr t \<Longrightarrow> out t = out s @ d"
    and wr_ok: "ok s \<Longrightarrow> wr s d = Inr t \<Longrightarrow> ok t"

text \<open>A stream on which writing nothing does nothing, so that loops without a round are covered.\<close>

locale steady_stream = write_stream +
  fixes ok :: "'s \<Rightarrow> bool"
  assumes wr_steady: "ok s \<Longrightarrow> wr s d = Inr t \<Longrightarrow> ok t"
    and wr_Nil: "ok s \<Longrightarrow> wr s [] = Inr s"
begin

lemma wr_then:
  assumes "ok s" and "\<And>t. ok t \<Longrightarrow> f t = wr t b"
  shows "sbind (wr s a) f = wr s (a @ b)"
  using assms wr_steady by (simp add: wr_append cong: sbind_cong)

end

text \<open>A stream of both kinds.\<close>

locale object_stream = collecting_stream +
  assumes wr_nothing: "ok s \<Longrightarrow> wr s [] = Inr s"

sublocale object_stream \<subseteq> steady_stream wr ok
  by unfold_locales (auto intro: wr_ok wr_nothing)

lemma bws_write_Inr_iff:
  "bws_write s d = Inr t \<longleftrightarrow>
     bw_off s + length d \<le> length (bw_mem s) \<and>
     t = s\<lparr>bw_mem := overwrite (bw_mem s) (bw_off s) d, bw_off := bw_off s + length d\<rparr>"
  by (auto simp: bws_write_def mj_assert_def)

interpretation bws: collecting_stream bws_write bws_out bws_ok
proof unfold_locales
  fix s :: bws and a b
  show "bws_write s (a @ b) = sbind (bws_write s a) (\<lambda>t. bws_write t b)"
    by (cases "bw_off s + length a \<le> length (bw_mem s)")
      (auto simp: bws_write_def mj_assert_def overwrite_append add.assoc)
next
  fix s d t
  assume "bws_write s d = Inr t"
  then show "bws_out t = bws_out s @ d" and "bws_ok t"
    by (auto simp: bws_write_Inr_iff bws_out_def bws_ok_def)
qed

lemma fos_base_resize:
  "fo_base (fos_resize s n) = fo_base s @ replicate (n - length (fo_base s)) 0"
  by (simp add: fos_resize_def)

lemma fos_write_eq:
  "fos_write s d = Inr \<lparr>fo_base = overwrite (fo_base s @ replicate (fo_size s + length d - length (fo_base s)) 0)
                                     (fo_size s) d,
                     fo_size = fo_size s + length d, \<dots> = fos.more s\<rparr>"
  by (simp add: fos_write_def Let_def fos_base_resize fos_resize_def)

lemma overwrite_pad_append:
  "overwrite (overwrite (xs @ replicate (i + length ys - length xs) z) i ys
              @ replicate (i + (length ys + length zs) - (length xs + (i + length ys - length xs))) z)
      (i + length ys) zs
   = overwrite (xs @ replicate (i + (length ys + length zs) - length xs) z) i (ys @ zs)"
  by (cases "i + length ys \<le> length xs") (auto simp: overwrite_def ac_simps)

interpretation fos: collecting_stream fos_write fos_str fos_ok
proof unfold_locales
  fix s :: fos and a b
  show "fos_write s (a @ b) = sbind (fos_write s a) (\<lambda>t. fos_write t b)"
    by (simp add: fos_write_eq overwrite_pad_append add.assoc)
next
  fix s d t
  assume "fos_ok s" and "fos_write s d = Inr t"
  then show "fos_str t = fos_str s @ d" and "fos_ok t"
    by (auto simp: fos_write_eq fos_str_def fos_ok_def overwrite_def)
qed

interpretation bws_obj: object_stream bws_write bws_out bws_ok
  by unfold_locales (simp add: bws_write_def bws_ok_def)

interpretation fos_obj: object_stream fos_write fos_str fos_ok
  by unfold_locales (simp add: fos_write_eq fos_ok_def)

interpretation null_ws: write_stream null_write
  by unfold_locales (simp add: null_write_def)

interpretation size_ws: steady_stream size_write "\<lambda>_. True"
  by unfold_locales (simp_all add: size_write_def)


text \<open>A checksumming wrapper around a stream with the interface has the interface.\<close>

locale crc_write_stream = write_stream

sublocale crc_write_stream \<subseteq> crc: write_stream "crc_ws_write wr"
  by unfold_locales (auto simp: crc_ws_write_def wr_append sbind_def split: sum.splits)

context crc_write_stream
begin

lemma crc_write_Inr: "wr s d = Inr t \<Longrightarrow> crc_ws_write wr (s, c) d = Inr (t, c @ d)"
  by (simp add: crc_ws_write_def)

end

interpretation bws_crc: crc_write_stream bws_write ..

interpretation fos_crc: crc_write_stream fos_write ..

interpretation null_crc: crc_write_stream null_write ..

interpretation null_crc_obj: object_stream "crc_ws_write null_write" snd "\<lambda>_. True"
  by unfold_locales (auto simp: crc_ws_write_def null_write_def)

section \<open>The interface of read streams\<close>

text \<open>
  What the decoders rely on, for a stream in a valid state: a read gives the next bytes,
  fewer only at the end, and moves past them; \<open>ignore\<close> moves past them.
\<close>

locale read_stream =
  fixes rd :: "'s \<Rightarrow> nat \<Rightarrow> byte list \<times> 's"
    and ign :: "'s \<Rightarrow> nat \<Rightarrow> 's"
    and avail :: "'s \<Rightarrow> byte list"
    and ok :: "'s \<Rightarrow> bool"
  assumes rd_data: "ok s \<Longrightarrow> fst (rd s n) = take n (avail s)"
    and rd_avail: "ok s \<Longrightarrow> avail (snd (rd s n)) = drop n (avail s)"
    and rd_ok: "ok s \<Longrightarrow> ok (snd (rd s n))"
    and ign_avail: "ok s \<Longrightarrow> avail (ign s n) = drop n (avail s)"
    and ign_ok: "ok s \<Longrightarrow> ok (ign s n)"
begin

lemma rd_one_None: "ok s \<Longrightarrow> avail s = [] \<Longrightarrow> \<exists>t. rd s (Suc 0) = ([], t) \<and> avail t = [] \<and> ok t"
  by (metis drop_Nil prod.collapse rd_avail rd_data rd_ok take_Nil)

lemma rd_one_Some:
  "ok s \<Longrightarrow> avail s = b # bs \<Longrightarrow> \<exists>t. rd s (Suc 0) = ([b], t) \<and> avail t = bs \<and> ok t"
  using rd_data [of s "Suc 0"] rd_avail [of s "Suc 0"] rd_ok [of s "Suc 0"]
  by (cases "rd s (Suc 0)") simp

lemma rd_exact:
  "ok s \<Longrightarrow> avail s = d @ rest \<Longrightarrow> \<exists>t. rd s (length d) = (d, t) \<and> avail t = rest \<and> ok t"
  using rd_data [of s "length d"] rd_avail [of s "length d"] rd_ok [of s "length d"]
  by (cases "rd s (length d)") simp

end

lemma brs_remaining_avail: "brs_ok s \<Longrightarrow> brs_remaining s = int (length (brs_avail s))"
  by (simp add: brs_ok_def brs_remaining_def brs_avail_def)

lemma brs_avail_init [simp]: "brs_avail (brs_init d) = d"
  by (simp add: brs_avail_def brs_init_def)

lemma br_buf_init [simp]: "br_buf (brs_init d) = d"
  by (simp add: brs_init_def)

lemma brs_ok_init [simp]: "brs_ok (brs_init d)"
  by (simp add: brs_ok_def brs_init_def)

interpretation brs: read_stream brs_read brs_ignore brs_avail brs_ok
proof unfold_locales
  fix s n
  assume "brs_ok s"
  then show "fst (brs_read s n) = take n (brs_avail s)"
      "brs_avail (snd (brs_read s n)) = drop n (brs_avail s)"
      "brs_ok (snd (brs_read s n))"
      "brs_avail (brs_ignore s n) = drop n (brs_avail s)"
      "brs_ok (brs_ignore s n)"
    by (auto simp: brs_ok_def brs_read_def brs_avail_def brs_remaining_def brs_ignore_def
        brs_fast_ignore_def Let_def min_def nat_add_distrib add.commute)
qed

lemma fis_avail_init [simp]: "fis_avail (fis_init d) = d"
  by (simp add: fis_avail_def fis_init_def)

interpretation fis: read_stream fis_read fis_ignore fis_avail "\<lambda>s. fi_off s \<le> length (fi_data s)"
  by unfold_locales
    (auto simp: fis_read_def fis_ignore_def fis_avail_def fis_remaining_def Let_def min_def add.commute)

lemma srs_init_simps [simp]:
  "srs_avail (srs_init d) = d" "srs_ok (srs_init d)" "sr_data (srs_init d) = d"
  "sr_pos (srs_init d) = 0"
  by (simp_all add: srs_avail_def srs_init_def srs_ok_def)

lemma srs_remaining_avail: "srs_remaining s = length (srs_avail s)"
  by (simp add: srs_remaining_def srs_avail_def)

interpretation srs: read_stream srs_read srs_ignore srs_avail srs_ok
  by unfold_locales
    (auto simp: srs_read_def srs_ignore_def srs_avail_def srs_ok_def srs_remaining_def Let_def
      min_def add.commute)

text \<open>Reading through a checksum: the interface again, and the bytes seen are remembered.\<close>

locale crc_read_stream = read_stream

sublocale crc_read_stream \<subseteq> crc: read_stream "crc_rs_read rd" "crc_rs_ignore rd"
    "\<lambda>s. avail (fst s)" "\<lambda>s. ok (fst s)"
  by unfold_locales
    (auto simp: crc_rs_read_def crc_rs_ignore_def split: prod.splits,
      (metis fst_conv snd_conv rd_data rd_avail rd_ok)+)

interpretation brs_crc: crc_read_stream brs_read brs_ignore brs_avail brs_ok ..

interpretation srs_crc: crc_read_stream srs_read srs_ignore srs_avail srs_ok ..

end
