(* ===== verification/Multiplex_Stream.thy ===== *)
theory Multiplex_Stream
  imports Byte_Streams
begin

text \<open>
  \<open>multiplex/stream.h\<close> and the varuint size of \<open>multiplex/format.h\<close>: scalars and varuints
  over any \<open>base::ReadStream\<close> or \<open>base::WriteStream\<close>, and the specialisations for
  \<open>BufferReadStream\<close> and \<open>BufferWriteStream\<close> that work on raw pointers. The generic
  routines are proved to write and read the base-128 encoding, and the specialised ones to
  agree with them.
\<close>

section \<open>Definitions\<close>

subsection \<open>Reading over any stream\<close>

definition ReadScalar ::
  "('s \<Rightarrow> nat \<Rightarrow> byte list \<times> 's) \<Rightarrow> nat \<Rightarrow> 's \<Rightarrow> 'a::len word option \<times> 's" where
  "ReadScalar rd sz s =
     (case rd s sz of (d, t) \<Rightarrow> (if length d \<noteq> sz then None else Some (le_word d), t))"

text \<open>
  The loop \<open>for (int i = 0; i < 5; i++)\<close>, with \<open>5 - i\<close> as its first argument. The shift
  \<open>(this_byte & 0x7f) << pos\<close> is done on an \<open>int\<close> and converted to \<open>uint32_t\<close>: what
  leaves the 32 bits is lost.
\<close>

fun ReadVaruint_loop ::
  "('s \<Rightarrow> nat \<Rightarrow> byte list \<times> 's) \<Rightarrow> nat \<Rightarrow> nat \<Rightarrow> u32 \<Rightarrow> 's \<Rightarrow> u32 option \<times> 's" where
  "ReadVaruint_loop rd 0 pos result s = (Some (- 1), s)"
| "ReadVaruint_loop rd (Suc k) pos result s =
     (case (ReadScalar rd 1 s :: byte option \<times> 's) of
        (None, t) \<Rightarrow> (None, t)
      | (Some this_byte, t) \<Rightarrow>
          let result' = result OR push_bit pos (ucast (this_byte AND 0x7f))
          in if this_byte AND 0x80 = 0 then (Some result', t)
             else ReadVaruint_loop rd k (pos + 7) result' t)"

definition ReadVaruint :: "('s \<Rightarrow> nat \<Rightarrow> byte list \<times> 's) \<Rightarrow> 's \<Rightarrow> u32 option \<times> 's" where
  "ReadVaruint rd s = ReadVaruint_loop rd 5 0 0 s"

subsection \<open>Reading from a buffer\<close>

definition brs_ReadScalar :: "nat \<Rightarrow> brs \<Rightarrow> 'a::len word option \<times> brs" where
  "brs_ReadScalar sz s =
     (if brs_remaining s < int sz then (None, s)
      else (Some (le_word (take sz (drop (br_off s) (br_buf s)))), brs_fast_ignore s (int sz)))"

text \<open>\<open>i\<close> counts the bytes looked at through \<open>position\<close>; the stream moves only at the end.\<close>

function brs_ReadVaruint_loop ::
  "brs \<Rightarrow> nat \<Rightarrow> nat \<Rightarrow> u32 \<Rightarrow> u32 option \<times> brs" where
  "brs_ReadVaruint_loop s i pos result =
     (if i < 5 then
        if brs_remaining s - int i = 0 then (None, brs_fast_ignore s (int i))
        else
          let this_byte = br_buf s ! (br_off s + i);
              result' = result OR push_bit pos (ucast (this_byte AND 0x7f))
          in if this_byte AND 0x80 = 0 then (Some result', brs_fast_ignore s (int (i + 1)))
             else brs_ReadVaruint_loop s (i + 1) (pos + 7) result'
      else (Some (- 1), brs_fast_ignore s (int i)))"
  by pat_completeness auto
termination
  by (relation "measure (\<lambda>(s, i, pos, result). 5 - i)") auto

definition brs_ReadVaruint :: "brs \<Rightarrow> u32 option \<times> brs" where
  "brs_ReadVaruint s = brs_ReadVaruint_loop s 0 0 0"

subsection \<open>Writing over any stream\<close>

definition WriteScalar ::
  "('s \<Rightarrow> byte list \<Rightarrow> 's res) \<Rightarrow> nat \<Rightarrow> 's \<Rightarrow> 'a::len word \<Rightarrow> 's res" where
  "WriteScalar wr sz s v = wr s (le_bytes sz v)"

function WriteVaruint :: "('s \<Rightarrow> byte list \<Rightarrow> 's res) \<Rightarrow> 's \<Rightarrow> u32 \<Rightarrow> 's res" where
  "WriteVaruint wr s v =
     (let this_byte = (ucast (v AND 0x7f) :: byte);
          v' = drop_bit 7 v;
          this_byte' = this_byte OR (if v' \<noteq> 0 then 0x80 else 0)
      in sbind (WriteScalar wr 1 s this_byte') (\<lambda>t.
         if v' \<noteq> 0 then WriteVaruint wr t v' else Inr t))"
  by pat_completeness auto

termination WriteVaruint
  by (relation "measure (\<lambda>(wr, s, v). unat v)") (auto simp: drop_bit_7_less)

text \<open>\<open>GetVaruintSize\<close> of \<open>format.h\<close>: the same do-while loop, counting.\<close>

function GetVaruintSize :: "u32 \<Rightarrow> nat" where
  "GetVaruintSize v = (let v' = drop_bit 7 v in 1 + (if v' \<noteq> 0 then GetVaruintSize v' else 0))"
  by pat_completeness auto

termination GetVaruintSize
  by (relation "measure unat") (auto simp: drop_bit_7_less)

subsection \<open>Writing to a buffer\<close>

text \<open>
  The specialisations store through \<open>position()\<close> and then call \<open>skip\<close>, which checks
  nothing (its assertion is commented out): a store past the end is an overrun.
\<close>

definition bws_store :: "byte list \<Rightarrow> nat \<Rightarrow> byte list \<Rightarrow> byte list res" where
  "bws_store mem p d =
     (if p + length d \<le> length mem then Inr (overwrite mem p d) else Inl BufferOverrun)"

definition bws_WriteScalar :: "nat \<Rightarrow> bws \<Rightarrow> 'a::len word \<Rightarrow> bws res" where
  "bws_WriteScalar sz s v =
     sbind (bws_store (bw_mem s) (bw_off s) (le_bytes sz v)) (\<lambda>m.
     Inr (bws_skip (s\<lparr>bw_mem := m\<rparr>) sz))"

function bws_WriteVaruint_loop :: "byte list \<Rightarrow> nat \<Rightarrow> u32 \<Rightarrow> (byte list \<times> nat) res" where
  "bws_WriteVaruint_loop mem position v =
     (let this_byte = (ucast (v AND 0x7f) :: byte);
          v' = drop_bit 7 v;
          this_byte' = this_byte OR (if v' \<noteq> 0 then 0x80 else 0)
      in sbind (bws_store mem position [this_byte']) (\<lambda>m.
         if v' \<noteq> 0 then bws_WriteVaruint_loop m (position + 1) v' else Inr (m, position + 1)))"
  by pat_completeness auto

termination bws_WriteVaruint_loop
  by (relation "measure (\<lambda>(mem, p, v). unat v)") (auto simp: drop_bit_7_less)

definition bws_WriteVaruint :: "bws \<Rightarrow> u32 \<Rightarrow> bws res" where
  "bws_WriteVaruint s v =
     sbind (bws_WriteVaruint_loop (bw_mem s) (bw_off s) v) (\<lambda>(m, position).
     Inr (bws_skip (s\<lparr>bw_mem := m\<rparr>) (position - bw_off s)))"

subsection \<open>References\<close>

text \<open>
  A raw store at the current position: what the buffer specialisations do, whatever they
  write. Where \<open>bws_write\<close> would have succeeded they leave the same stream.
\<close>

definition bws_poke :: "bws \<Rightarrow> byte list \<Rightarrow> bws res" where
  "bws_poke s d =
     (if bw_off s + length d \<le> length (bw_mem s)
      then Inr (s\<lparr>bw_mem := overwrite (bw_mem s) (bw_off s) d, bw_off := bw_off s + length d\<rparr>)
      else Inl BufferOverrun)"

text \<open>A stream seen as the bytes it has left: the simplest stream with the interface.\<close>

definition list_read :: "byte list \<Rightarrow> nat \<Rightarrow> byte list \<times> byte list" where
  "list_read xs n = (take n xs, drop n xs)"

declare brs_ReadVaruint_loop.simps [simp del] WriteVaruint.simps [simp del]
  GetVaruintSize.simps [simp del] bws_WriteVaruint_loop.simps [simp del]

section \<open>Seven bits of a word\<close>

lemma unat_take_bit_7: "unat (take_bit 7 (w :: 'a::len word)) = unat w mod 128"
proof -
  have "unat (take_bit 7 w) = take_bit 7 (unat w)" by (rule unsigned_take_bit_eq)
  then show ?thesis by (simp add: take_bit_eq_mod)
qed

lemma and_7f_word: "(w AND 0x7f :: 'a::len word) = of_nat (unat w mod 128)"
proof -
  have "w AND 0x7f = take_bit 7 w"
    by (simp add: take_bit_eq_mask mask_eq_exp_minus_1)
  also have "\<dots> = of_nat (unat (take_bit 7 w))" by simp
  finally show ?thesis by (simp only: unat_take_bit_7)
qed

lemma bit_7_byte: "bit (b :: byte) 7 \<longleftrightarrow> 128 \<le> unat b"
proof -
  have "bit b 7 = bit (unat b) 7" by (simp add: bit_unsigned_iff)
  also have "\<dots> = odd (unat b div 128)" by (simp add: bit_iff_odd)
  also have "\<dots> = (128 \<le> unat b)"
  proof -
    have "unat b < 256" using unsigned_less [of b] by simp
    then have "unat b div 128 < 2" by (simp add: less_mult_imp_div_less)
    then show ?thesis by (auto simp: less_2_cases_iff div_eq_0_iff not_less dest: sym)
  qed
  finally show ?thesis .
qed

lemma and_80_zero_iff: "(b :: byte) AND 0x80 = 0 \<longleftrightarrow> unat b < 128"
proof -
  have "(b AND push_bit 7 1 = 0) = (\<not> bit b 7)"
    by (metis and_exp_eq_0_iff_not_bit push_bit_of_1)
  then show ?thesis by (simp add: bit_7_byte not_le)
qed

lemma ucast_digit: "ucast (of_nat (n mod 128) :: 'a::len word) = (of_nat (n mod 128) :: 'b::len word)"
  if "7 \<le> LENGTH('a)"
proof -
  have "n mod 128 < 2 ^ 7" by simp
  also have "(2::nat) ^ 7 \<le> 2 ^ LENGTH('a)" using that by (rule power_increasing) simp
  finally have "unat (of_nat (n mod 128) :: 'a word) = n mod 128"
    by (simp add: unat_of_nat take_bit_nat_eq_self)
  then show ?thesis by (metis of_nat_unat)
qed

lemma or_80_digit: "m < 128 \<Longrightarrow> (of_nat m OR 0x80 :: byte) = of_nat (m + 128)"
proof -
  assume m: "m < 128"
  then have "unat (of_nat m :: byte) < 128" by (simp add: unat_of_nat_byte)
  then have "(of_nat m :: byte) AND 0x80 = 0" by (simp only: and_80_zero_iff)
  then have "(of_nat m OR 0x80 :: byte) = of_nat m + 0x80"
    by (simp add: disjunctive_add_eq_or)
  then show ?thesis by simp
qed

lemma varuint_byte:
  fixes v :: "'a::len word"
  assumes "7 \<le> LENGTH('a)"
  shows "(ucast (v AND 0x7f) OR (if drop_bit 7 v \<noteq> 0 then 0x80 else 0) :: byte) =
         (if unat v < 128 then of_nat (unat v) else of_nat (unat v mod 128 + 128))"
  using or_80_digit [of "unat v mod 128"]
  by (simp add: and_7f_word ucast_digit assms drop_bit_7_zero)

lemma varuint_byte_last:
  fixes v :: "'a::len word"
  assumes "7 \<le> LENGTH('a)" and "unat v < 128"
  shows "ucast (v AND 0x7f) = (ucast v :: byte)"
  using varuint_byte [of v] assms by (simp add: drop_bit_7_zero)

lemma varuint_byte_more:
  fixes v :: "'a::len word"
  assumes "7 \<le> LENGTH('a)" and "\<not> unat v < 128"
  shows "(ucast (v AND 0x7f) OR 0x80 :: byte) = of_nat (unat v mod 128 + 128)"
  using varuint_byte [of v] assms by (simp add: drop_bit_7_zero)

lemma varuint_bits:
  "(ucast ((b :: byte) AND 0x7f) :: 'a::len word) = of_nat (unat b mod 128)"
  by (simp add: and_7f_word ucast_digit)

section \<open>The encoders write the base-128 encoding\<close>

context write_stream
begin

lemma WriteVaruint_leb128: "WriteVaruint wr s v = wr s (leb128 (unat v))"
proof (induction "unat v" arbitrary: s v rule: less_induct)
  case less
  show ?case
  proof (cases "unat v < 128")
    case True
    then show ?thesis
      by (subst WriteVaruint.simps)
        (simp add: Let_def varuint_byte_last drop_bit_7_zero WriteScalar_def leb128_small)
  next
    case False
    then have nz: "drop_bit 7 v \<noteq> 0" by (simp add: drop_bit_7_zero)
    then have "WriteVaruint wr t (drop_bit 7 v) = wr t (leb128 (unat v div 128))" for t
      using less [of "drop_bit 7 v" t] drop_bit_7_less [OF nz] by (simp add: drop_bit_7_unat)
    moreover have "wr s (leb128 (unat v))
        = sbind (wr s [of_nat (unat v mod 128 + 128)]) (\<lambda>t. wr t (leb128 (unat v div 128)))"
      using False wr_append [of s "[of_nat (unat v mod 128 + 128)]" "leb128 (unat v div 128)"]
      by (simp add: leb128_big)
    ultimately show ?thesis
      using False nz
      by (subst WriteVaruint.simps) (simp add: Let_def varuint_byte_more WriteScalar_def)
  qed
qed

end

text \<open>The size computed in advance is the size written.\<close>

lemma GetVaruintSize_length: "GetVaruintSize v = length (leb128 (unat v))"
proof (induction "unat v" arbitrary: v rule: less_induct)
  case less
  show ?case
  proof (cases "unat v < 128")
    case True
    then show ?thesis
      by (subst GetVaruintSize.simps) (simp add: Let_def drop_bit_7_zero leb128_small)
  next
    case False
    then have nz: "drop_bit 7 v \<noteq> 0" by (simp add: drop_bit_7_zero)
    from less [of "drop_bit 7 v"] drop_bit_7_less [OF nz] False nz show ?thesis
      by (subst GetVaruintSize.simps) (simp add: Let_def drop_bit_7_unat leb128_big)
  qed
qed

lemma bws_store_append:
  "bws_store m p (a @ b) = sbind (bws_store m p a) (\<lambda>n. bws_store n (p + length a) b)"
  by (auto simp: bws_store_def overwrite_append)

lemma bws_WriteVaruint_loop_leb128:
  "bws_WriteVaruint_loop m p v =
     sbind (bws_store m p (leb128 (unat v))) (\<lambda>n. Inr (n, p + length (leb128 (unat v))))"
proof (induction "unat v" arbitrary: m p v rule: less_induct)
  case less
  show ?case
  proof (cases "unat v < 128")
    case True
    then show ?thesis
      by (subst bws_WriteVaruint_loop.simps)
        (simp add: Let_def varuint_byte_last drop_bit_7_zero leb128_small)
  next
    case False
    then have nz: "drop_bit 7 v \<noteq> 0" by (simp add: drop_bit_7_zero)
    then have "bws_WriteVaruint_loop n q (drop_bit 7 v) =
        sbind (bws_store n q (leb128 (unat v div 128)))
          (\<lambda>n. Inr (n, q + length (leb128 (unat v div 128))))" for n q
      using less [of "drop_bit 7 v" n q] drop_bit_7_less [OF nz] by (simp add: drop_bit_7_unat)
    with False nz show ?thesis
      using bws_store_append [of m p "[of_nat (unat v mod 128 + 128)]" "leb128 (unat v div 128)"]
      by (subst bws_WriteVaruint_loop.simps) (simp add: Let_def varuint_byte_more leb128_big res_simps)
  qed
qed

lemma bws_WriteVaruint_poke: "bws_WriteVaruint s v = bws_poke s (leb128 (unat v))"
  by (simp add: bws_WriteVaruint_def bws_WriteVaruint_loop_leb128 bws_poke_def bws_store_def
      bws_skip_def)

lemma bws_WriteScalar_poke: "bws_WriteScalar n s v = bws_poke s (le_bytes n v)"
  by (simp add: bws_WriteScalar_def bws_poke_def bws_store_def bws_skip_def)

interpretation bws_raw: collecting_stream bws_poke bws_out bws_ok
proof unfold_locales
  fix s :: bws and a b
  show "bws_poke s (a @ b) = sbind (bws_poke s a) (\<lambda>t. bws_poke t b)"
    by (auto simp: bws_poke_def overwrite_append add.assoc)
next
  fix s d t
  assume "bws_poke s d = Inr t"
  then show "bws_out t = bws_out s @ d" and "bws_ok t"
    by (auto simp: bws_poke_def bws_out_def bws_ok_def split: if_splits)
qed

lemma bws_poke_write: "bws_write s d = Inr t \<longleftrightarrow> bws_poke s d = Inr t"
  by (auto simp: bws_poke_def bws_write_Inr_iff)

section \<open>The decoders read it back\<close>

interpretation list_rs: read_stream list_read "\<lambda>xs n. drop n xs" "\<lambda>xs. xs" "\<lambda>_. True"
  by unfold_locales (simp_all add: list_read_def)

lemma ReadScalar_list:
  "ReadScalar list_read n xs = (if length xs < n then None else Some (le_word (take n xs)), drop n xs)"
  by (simp add: ReadScalar_def list_read_def)

context read_stream
begin

lemma ReadScalar_abs:
  "ok s \<Longrightarrow> apsnd avail (ReadScalar rd n s :: 'b::len word option \<times> 's)
             = ReadScalar list_read n (avail s)
           \<and> ok (snd (ReadScalar rd n s :: 'b word option \<times> 's))"
  using rd_data [of s n] rd_avail [of s n] rd_ok [of s n]
  by (cases "rd s n") (auto simp: ReadScalar_def list_read_def)

lemma ReadVaruint_loop_abs:
  "ok s \<Longrightarrow> apsnd avail (ReadVaruint_loop rd k pos r s)
             = ReadVaruint_loop list_read k pos r (avail s)
           \<and> ok (snd (ReadVaruint_loop rd k pos r s))"
proof (induction k arbitrary: pos r s)
  case (Suc k)
  obtain b t where bt: "(ReadScalar rd 1 s :: byte option \<times> _) = (b, t)"
    by (cases "ReadScalar rd 1 s :: byte option \<times> _")
  with ReadScalar_abs [OF Suc.prems, of 1, where 'b = 8]
  have "ReadScalar list_read 1 (avail s) = (b, avail t)" and "ok t"
    by simp_all
  with bt Suc.IH [of t] show ?case
    by (auto simp: Let_def split: option.splits)
qed simp

lemma ReadVaruint_abs:
  "ok s \<Longrightarrow> apsnd avail (ReadVaruint rd s) = ReadVaruint list_read (avail s)
           \<and> ok (snd (ReadVaruint rd s))"
  unfolding ReadVaruint_def by (rule ReadVaruint_loop_abs)

end

lemma ReadScalar_list_1:
  "(ReadScalar list_read (Suc 0) xs :: byte option \<times> byte list) =
     (case xs of [] \<Rightarrow> (None, []) | b # bs \<Rightarrow> (Some b, bs))"
  by (cases xs) (simp_all add: ReadScalar_list)

lemma unleb128_shrinks: "unleb128 xs = Some (n, rest) \<Longrightarrow> length rest < length xs"
  by (induction xs arbitrary: n) (fastforce split: if_splits)+

text \<open>
  What the loop computes on any input, with \<open>k\<close> rounds to go: the value of the encoding at
  the front of the input when it ends within \<open>k\<close> bytes, the error value when it does not,
  and nothing when the input ends first.
\<close>

lemma ReadVaruint_loop_list:
  "ReadVaruint_loop list_read k pos r xs =
     (case unleb128 xs of
        Some (n, rest) \<Rightarrow>
          if length xs - length rest \<le> k then (Some (r OR push_bit pos (of_nat n)), rest)
          else (Some (- 1), drop k xs)
      | None \<Rightarrow> if length xs < k then (None, []) else (Some (- 1), drop k xs))"
proof (induction k arbitrary: pos r xs)
  case 0
  show ?case
    using unleb128_shrinks [of xs] by (auto split: option.splits)
next
  case (Suc k)
  show ?case
  proof (cases xs)
    case Nil
    then show ?thesis by (simp add: ReadScalar_list_1)
  next
    case (Cons b bs)
    have lt: "unat b < 256" using unsigned_less [of b] by simp
    show ?thesis
    proof (cases "unat b < 128")
      case True
      then show ?thesis
        using Cons by (simp add: ReadScalar_list_1 and_80_zero_iff varuint_bits)
    next
      case False
      with lt obtain m where m: "unat b = m + 128" "m < 128"
        by (metis add.commute le_add_diff_inverse less_diff_conv2 not_less numeral_Bit0)
      have digit: "(unat b - 128 + 128 * n) mod 128 = unat b mod 128"
        "(unat b - 128 + 128 * n) div 128 = n" for n
        using m by simp_all
      have val: "(r OR push_bit pos (of_nat (unat b mod 128))) OR push_bit (pos + 7) (of_nat n)
          = r OR push_bit pos (of_nat (unat b - 128 + 128 * n))" for n
        using push_bit_digit_more [of r pos "unat b - 128 + 128 * n"] by (simp only: digit or.assoc)
      have "ReadVaruint_loop list_read (Suc k) pos r xs =
          ReadVaruint_loop list_read k (pos + 7) (r OR push_bit pos (of_nat (unat b mod 128))) bs"
        using Cons False by (simp add: ReadScalar_list_1 and_80_zero_iff varuint_bits)
      with Cons False Suc.IH unleb128_shrinks [of bs] show ?thesis
        by (cases "unleb128 bs") (auto simp: val)
    qed
  qed
qed

lemma ReadVaruint_list:
  "ReadVaruint list_read xs =
     (case unleb128 xs of
        Some (n, rest) \<Rightarrow>
          if length xs - length rest \<le> 5 then (Some (of_nat n), rest) else (Some (- 1), drop 5 xs)
      | None \<Rightarrow> if length xs < 5 then (None, []) else (Some (- 1), drop 5 xs))"
  by (simp add: ReadVaruint_def ReadVaruint_loop_list split: option.split)

lemma ReadVaruint_leb128 [wire_simps]:
  "ReadVaruint list_read (leb128 (unat v) @ rest) = (Some v, rest)"
  using length_leb128_u32 [of v] by (simp add: ReadVaruint_list unleb128_leb128)

lemma ReadVaruint_list_shrinks:
  "ReadVaruint list_read xs = (r, ys) \<Longrightarrow> xs \<noteq> [] \<Longrightarrow> length ys < length xs"
  by (auto simp: ReadVaruint_list split: option.splits if_splits dest: unleb128_shrinks)

lemma ReadVaruint_loop_split:
  "ReadVaruint_loop list_read k pos r xs = (Some n, rest) \<Longrightarrow>
     \<exists>vs. xs = vs @ rest \<and> (\<forall>ys. ReadVaruint_loop list_read k pos r (vs @ ys) = (Some n, ys))"
proof (induction k arbitrary: pos r xs)
  case (Suc k)
  from Suc.prems obtain b bs where xs: "xs = b # bs"
    by (cases xs) (auto simp: ReadScalar_list_1)
  show ?case
  proof (cases "b AND 0x80 = 0")
    case True
    with Suc.prems xs show ?thesis
      by (intro exI [of _ "[b]"]) (auto simp: ReadScalar_list_1 Let_def)
  next
    case False
    with Suc.prems xs have "ReadVaruint_loop list_read k (pos + 7)
        (r OR push_bit pos (ucast (b AND 0x7f))) bs = (Some n, rest)"
      by (simp add: ReadScalar_list_1 Let_def)
    from Suc.IH [OF this] obtain vs where "bs = vs @ rest"
      "\<forall>ys. ReadVaruint_loop list_read k (pos + 7) (r OR push_bit pos (ucast (b AND 0x7f))) (vs @ ys)
            = (Some n, ys)"
      by blast
    with False xs show ?thesis
      by (intro exI [of _ "b # vs"]) (auto simp: ReadScalar_list_1 Let_def)
  qed
qed auto

lemma ReadVaruint_split:
  "ReadVaruint list_read xs = (Some n, rest) \<Longrightarrow>
     \<exists>vs. xs = vs @ rest \<and> (\<forall>ys. ReadVaruint list_read (vs @ ys) = (Some n, ys))"
  unfolding ReadVaruint_def by (rule ReadVaruint_loop_split)

lemma ReadVaruint_truncated:
  assumes "j < length (leb128 (unat (v :: u32)))"
  shows "ReadVaruint list_read (take j (leb128 (unat v))) = (None, [])"
proof -
  have "unleb128 (take j (leb128 n)) = None" if "j < length (leb128 n)" for n
    using that
  proof (induction n arbitrary: j rule: leb128.induct)
    case (1 n)
    show ?case
    proof (cases "n < 128")
      case False
      have "\<not> unat (of_nat (n mod 128 + 128) :: byte) < 128"
        by (subst unat_of_nat_byte) (simp_all add: less_diff_conv2)
      with 1 False show ?thesis by (cases j) (simp_all add: leb128_big)
    qed (use 1 in \<open>simp add: leb128_small\<close>)
  qed
  with assms length_leb128_u32 [of v] show ?thesis
    by (simp add: ReadVaruint_list)
qed

section \<open>The buffer decoders agree with the generic ones\<close>

lemma brs_fast_ignore_avail:
  "brs_ok s \<Longrightarrow> int n \<le> brs_remaining s \<Longrightarrow>
     brs_avail (brs_fast_ignore s (int n)) = drop n (brs_avail s) \<and> brs_ok (brs_fast_ignore s (int n))"
  by (auto simp: brs_ok_def brs_avail_def brs_remaining_def brs_fast_ignore_def nat_add_distrib add.commute)

lemma brs_ReadVaruint_loop_abs:
  "brs_ok s \<Longrightarrow> i \<le> 5 \<Longrightarrow> int i \<le> brs_remaining s \<Longrightarrow>
     apsnd brs_avail (brs_ReadVaruint_loop s i pos r)
       = ReadVaruint_loop list_read (5 - i) pos r (drop i (brs_avail s))
     \<and> brs_ok (snd (brs_ReadVaruint_loop s i pos r))"
proof (induction s i pos r rule: brs_ReadVaruint_loop.induct)
  case (1 s i pos r)
  note ign = brs_fast_ignore_avail [OF 1(2)]
  have rem: "brs_remaining s = int (length (brs_avail s))"
    using 1(2) by (rule brs_remaining_avail)
  show ?case
  proof (cases "i < 5")
    case False
    then show ?thesis
      using 1(3,4) ign [of i] by (simp add: brs_ReadVaruint_loop.simps)
  next
    case True
    then obtain k where k: "5 - i = Suc k" "k = 5 - (i + 1)" by (cases "5 - i") auto
    show ?thesis
    proof (cases "brs_remaining s - int i = 0")
      case True
      then show ?thesis
        using \<open>i < 5\<close> k ign [of i] rem
        by (simp add: brs_ReadVaruint_loop.simps [of s i] ReadScalar_list_1)
    next
      case False
      let ?b = "br_buf s ! (br_off s + i)"
      have lt: "i < length (brs_avail s)" using False 1(4) rem by simp
      then have dr: "drop i (brs_avail s) = ?b # drop (i + 1) (brs_avail s)"
        by (metis Cons_nth_drop_Suc Suc_eq_plus1 brs_avail_def brs_ok_def 1(2) nth_drop)
      have nth: "int (i + 1) \<le> brs_remaining s" using lt rem by simp
      show ?thesis
        using 1(1) [OF True False refl refl] 1(2) True nth k dr ign [of "i + 1"] False
        by (subst (1 2) brs_ReadVaruint_loop.simps) (auto simp: ReadScalar_list_1 Let_def)
    qed
  qed
qed

lemma brs_ReadVaruint_abs:
  "brs_ok s \<Longrightarrow> apsnd brs_avail (brs_ReadVaruint s) = ReadVaruint list_read (brs_avail s)
     \<and> brs_ok (snd (brs_ReadVaruint s))"
  using brs_ReadVaruint_loop_abs [of s 0 0 0]
  by (simp add: brs_ReadVaruint_def ReadVaruint_def brs_ok_def brs_remaining_def)

lemma brs_fast_ignore_buf [simp]: "br_buf (brs_fast_ignore s n) = br_buf s"
  by (simp add: brs_fast_ignore_def)

lemma brs_ReadVaruint_loop_buf [simp]: "br_buf (snd (brs_ReadVaruint_loop s i pos r)) = br_buf s"
proof (induction s i pos r rule: brs_ReadVaruint_loop.induct)
  case (1 s i pos r)
  then show ?case
    by (subst brs_ReadVaruint_loop.simps) (simp add: Let_def)
qed

text \<open>The stream after the read, as an offset.\<close>

lemma brs_ReadVaruint_at:
  assumes "brs_ok s" and "ReadVaruint list_read (brs_avail s) = (r, rest)"
  shows "\<exists>t. brs_ReadVaruint s = (r, t) \<and> br_buf t = br_buf s \<and> brs_avail t = rest
    \<and> br_off t + length rest = length (br_buf s)"
proof -
  obtain v t where vt: "brs_ReadVaruint s = (v, t)" by (cases "brs_ReadVaruint s")
  have "br_buf t = br_buf s"
    using vt brs_ReadVaruint_loop_buf [of s 0 0 0] by (simp add: brs_ReadVaruint_def)
  with vt brs_ReadVaruint_abs [OF assms(1)] assms(2) show ?thesis
    by (auto simp: brs_ok_def brs_avail_def)
qed

lemma brs_ReadScalar_abs:
  "brs_ok s \<Longrightarrow>
     apsnd brs_avail (brs_ReadScalar n s :: 'a::len word option \<times> brs)
       = (if length (brs_avail s) < n then (None, brs_avail s)
          else ReadScalar list_read n (brs_avail s))
     \<and> brs_ok (snd (brs_ReadScalar n s :: 'a::len word option \<times> brs))"
  using brs_fast_ignore_avail [of s n]
  by (auto simp: brs_ReadScalar_def ReadScalar_list brs_remaining_avail)
    (auto simp: brs_avail_def)

section \<open>Properties\<close>

text \<open>
  C10. A varuint written into a \<open>BufferWriteStream\<close> is read back from
  a \<open>BufferReadStream\<close> over the bytes written, whatever follows them, and the number of
  bytes written is what \<open>GetVaruintSize\<close> announces: between one and five.
\<close>

theorem varuint_buffer_roundtrip:
  assumes "bws_WriteVaruint (bws_init mem) v = Inr s"
  shows "apsnd brs_avail (brs_ReadVaruint (brs_init (bws_out s @ rest))) = (Some v, rest)
    \<and> length (bws_out s) = GetVaruintSize v \<and> GetVaruintSize v \<in> {1..5}"
proof -
  have "bws_ok (bws_init mem)" "bws_out (bws_init mem) = []"
    by (simp_all add: bws_ok_def bws_init_def bws_out_def)
  with assms have "bws_out s = leb128 (unat v)"
    by (simp add: bws_WriteVaruint_poke bws_raw.wr_out)
  then show ?thesis
    using length_leb128_u32 [of v] brs_ReadVaruint_abs [of "brs_init (bws_out s @ rest)"]
    by (simp add: GetVaruintSize_length wire_simps Suc_le_eq)
qed

theorem varuint_buffer_roundtrip_witness:
  "apsnd brs_avail (brs_ReadVaruint (brs_init ([0xac, 0x02] @ [0x2a]))) = (Some 300, [0x2a])
   \<and> GetVaruintSize 300 = 2"
proof -
  have l: "leb128 300 = [0xac, 0x02]"
    by (simp add: leb128_big leb128_small)
  have "bws_WriteVaruint (bws_init [0, 0, 0]) 300 = Inr \<lparr>bw_mem = [0xac, 0x02, 0], bw_off = 2\<rparr>"
    by (simp add: bws_WriteVaruint_poke bws_poke_def bws_init_def l overwrite_def)
  from varuint_buffer_roundtrip [OF this, of "[0x2a]"] show ?thesis
    by (simp add: bws_out_def)
qed

text \<open>
  C11. What reading a varuint does on every buffer: it gives the value, modulo
  \<open>2 ^ 32\<close>, of the base-128 encoding at the front and stops right behind it when that
  encoding has at most five bytes; it gives \<open>0xffffffff\<close> and consumes five bytes when it is
  longer; and it fails, having consumed everything, when the buffer ends too early.
\<close>

theorem varuint_decode_spec:
  "apsnd brs_avail (brs_ReadVaruint (brs_init xs)) =
     (case unleb128 xs of
        Some (n, rest) \<Rightarrow>
          if length xs - length rest \<le> 5 then (Some (of_nat n), rest) else (Some (- 1), drop 5 xs)
      | None \<Rightarrow> if length xs < 5 then (None, []) else (Some (- 1), drop 5 xs))"
  using brs_ReadVaruint_abs [of "brs_init xs"] by (simp add: ReadVaruint_list)

text \<open>
  C12. The specialisations for buffers do what the generic routines
  do through the virtual calls: they write the same bytes and leave the same stream
  whenever the generic routine does not fail its assertion, and they decode the same value
  and leave the same bytes to be read.
\<close>

theorem varuint_specialisations_agree:
  assumes "brs_ok r"
  shows "(bws_WriteVaruint w v = Inr w' \<longleftrightarrow> WriteVaruint bws_write w v = Inr w')
    \<and> apsnd brs_avail (brs_ReadVaruint r) = apsnd brs_avail (ReadVaruint brs_read r)"
  using brs_ReadVaruint_abs [OF assms] brs.ReadVaruint_abs [OF assms]
  by (simp add: bws_WriteVaruint_poke bws.WriteVaruint_leb128 bws_poke_write)

theorem varuint_specialisations_agree_witness:
  "apsnd brs_avail (brs_ReadVaruint (brs_init [0x81, 0x01, 7]))
   = apsnd brs_avail (ReadVaruint brs_read (brs_init [0x81, 0x01, 7]))"
  using varuint_specialisations_agree [of "brs_init [0x81, 0x01, 7]" "bws_init []" 0 "bws_init []"]
  by simp

end
