(* ===== verification/Multiplex_Frame.thy ===== *)
theory Multiplex_Frame
  imports Multiplex_Stream
begin

text \<open>
  \<open>Frame::encode\<close> (\<open>multiplex/frame.cc\<close>): the wire format of one frame. The checksum
  \<open>boost::crc_ccitt_type\<close> is a parameter \<open>crc\<close>, a function of the bytes fed to it. The
  bytes written are described once, by \<open>frame_bytes\<close>, for every output stream.
\<close>

section \<open>Definitions\<close>

record frame =
  source_id :: byte
  request_reply :: bool
  dest_id :: byte
  payload :: "byte list"

definition frame_init :: frame where
  "frame_init = \<lparr>source_id = 0, request_reply = False, dest_id = 0, payload = []\<rparr>"

definition kHeader :: u16 where
  "kHeader = 0xab54"

definition Frame_encode_to ::
  "('s \<Rightarrow> byte list \<Rightarrow> 's res) \<Rightarrow> (byte list \<Rightarrow> u16) \<Rightarrow> 's \<Rightarrow> frame \<Rightarrow> 's res" where
  "Frame_encode_to wr crc stream f =
     (let cw = crc_ws_write wr
      in sbind (WriteScalar cw 2 (stream, []) kHeader) (\<lambda>s.
         sbind (WriteScalar cw 1 s (source_id f OR (if request_reply f then 0x80 else 0))) (\<lambda>s.
         sbind (WriteScalar cw 1 s (dest_id f)) (\<lambda>s.
         sbind (WriteVaruint cw s (of_nat (length (payload f)))) (\<lambda>s.
         sbind (cw s (payload f)) (\<lambda>s.
         sbind (WriteScalar cw 2 s (crc (snd s))) (\<lambda>s. Inr (fst s))))))))"

definition Frame_encode :: "(byte list \<Rightarrow> u16) \<Rightarrow> frame \<Rightarrow> byte list res" where
  "Frame_encode crc f = sbind (Frame_encode_to fos_write crc fos_init f) (\<lambda>s. Inr (fos_str s))"

text \<open>The reference: the bytes of a frame as \<open>format.h\<close> describes them.\<close>

definition frame_body :: "byte \<Rightarrow> byte \<Rightarrow> byte list \<Rightarrow> byte list" where
  "frame_body src dest p = [0x54, 0xab, src, dest] @ leb128 (length p) @ p"

definition frame_bytes :: "(byte list \<Rightarrow> u16) \<Rightarrow> byte \<Rightarrow> byte \<Rightarrow> byte list \<Rightarrow> byte list" where
  "frame_bytes crc src dest p = (let b = frame_body src dest p in b @ le_bytes 2 (crc b))"

definition frame_source :: "frame \<Rightarrow> byte" where
  "frame_source f = source_id f OR (if request_reply f then 0x80 else 0)"

section \<open>The encoder writes the reference\<close>

lemma le_bytes_kHeader [simp]: "le_bytes 2 kHeader = [0x54, 0xab]"
  by code_simp

lemma le_bytes_byte [simp]: "le_bytes (Suc 0) (b :: byte) = [b]"
  by simp

lemma frame_bytes_not_Nil [simp]: "frame_bytes crc src dest p \<noteq> []"
  by (simp add: frame_bytes_def frame_body_def Let_def)

lemma length_frame_bytes:
  "length (frame_bytes crc src dest p) = 6 + length (leb128 (length p)) + length p"
  by (simp add: frame_bytes_def frame_body_def Let_def)

context crc_write_stream
begin

lemma crc_write: "crc_ws_write wr (s, c) d = sbind (wr s d) (\<lambda>t. Inr (t, c @ d))"
  by (simp add: crc_ws_write_def)

lemma Frame_encode_to_bytes:
  assumes "length (payload f) < 2 ^ 32"
  shows "Frame_encode_to wr crc s f =
         wr s (frame_bytes crc (frame_source f) (dest_id f) (payload f))"
proof -
  have n: "unat (of_nat (length (payload f)) :: u32) = length (payload f)"
    using assms by (simp add: unat_of_nat take_bit_nat_eq_self)
  show ?thesis
    by (simp add: Frame_encode_to_def Let_def WriteScalar_def crc.WriteVaruint_leb128 n
        crc_write frame_bytes_def frame_body_def frame_source_def res_simps wr_seq)
qed

end

section \<open>Complete and truncated frames\<close>

lemma dropWhile_junk: "v \<notin> set junk \<Longrightarrow> dropWhile (\<lambda>c. c \<noteq> v) (junk @ bs) = dropWhile (\<lambda>c. c \<noteq> v) bs"
  by (rule dropWhile_append2) auto

lemma frame_bytes_Cons:
  "frame_bytes crc src dest p =
     0x54 # 0xab # src # dest # leb128 (length p) @ p @ le_bytes 2 (crc (frame_body src dest p))"
  by (simp add: frame_bytes_def frame_body_def Let_def)

lemma unat_of_nat_u32: "n < 2 ^ 32 \<Longrightarrow> unat (of_nat n :: u32) = n"
  by (simp add: unat_of_nat take_bit_nat_eq_self)

lemma ReadVaruint_frame_size:
  "length p < 2 ^ 32 \<Longrightarrow> ReadVaruint list_read (leb128 (length p) @ xs) = (Some (of_nat (length p)), xs)"
  using ReadVaruint_leb128 [of "of_nat (length p)" xs] by (simp add: unat_of_nat_u32)

text \<open>The size field of a frame that has not arrived completely.\<close>

lemma ReadVaruint_frame_prefix:
  assumes "j < length (leb128 (length p) @ p @ c)" and "length c = 2" and "length p < 2 ^ 32"
  shows "case ReadVaruint list_read (take j (leb128 (length p) @ p @ c)) of
      (None, r) \<Rightarrow> True
    | (Some n, r) \<Rightarrow> n = of_nat (length p) \<and> length r < length p + 2"
proof -
  let ?l = "leb128 (length p)"
  have n: "unat (of_nat (length p) :: u32) = length p"
    using assms(3) by (simp add: unat_of_nat_u32)
  show ?thesis
  proof (cases "j < length ?l")
    case True
    then have "ReadVaruint list_read (take j ?l) = (None, [])"
      using ReadVaruint_truncated [of j "of_nat (length p)"] n by simp
    then show ?thesis using True by simp
  next
    case False
    define x where "x = take (j - length ?l) (p @ c)"
    have "take j (?l @ p @ c) = ?l @ x" using False by (simp add: x_def)
    moreover have "length x < length p + 2" using assms(1,2) False by (simp add: x_def)
    ultimately show ?thesis
      using ReadVaruint_frame_size [OF assms(3), of x] by simp
  qed
qed

text \<open>Noise and then part of a frame: what is left when the noise is dropped.\<close>

lemma dropWhile_frame_prefix:
  assumes "0x54 \<notin> set junk" and "j < length (junk @ frame_bytes crc src dest p)"
    and "x = take j (junk @ frame_bytes crc src dest p)"
  shows "dropWhile (\<lambda>c. c \<noteq> 0x54) x = take (j - length junk) (frame_bytes crc src dest p)
    \<and> j - length junk < length (frame_bytes crc src dest p)"
proof
  let ?w = "frame_bytes crc src dest p"
  have "0x54 \<notin> set (take j junk)" using assms(1) by (meson in_set_takeD)
  then have "dropWhile (\<lambda>c. c \<noteq> 0x54) x = dropWhile (\<lambda>c. c \<noteq> 0x54) (take (j - length junk) ?w)"
    unfolding assms(3) take_append by (rule dropWhile_junk)
  then show "dropWhile (\<lambda>c. c \<noteq> 0x54) x = take (j - length junk) ?w"
    by (cases "j - length junk") (simp_all add: frame_bytes_Cons)
  show "j - length junk < length ?w"
    using assms(2) length_greater_0_conv [of ?w] frame_bytes_not_Nil by (cases "j \<le> length junk") auto
qed

end
