(* ===== verification/Rs485_Frame_Stream.thy ===== *)
theory Rs485_Frame_Stream
  imports Multiplex_Frame
begin

text \<open>
  \<open>Rs485FrameStream::Impl\<close> (\<open>multiplex/rs485_frame_stream.cc\<close>): frames over a byte stream.
  The state is the object's members; the operations of the stream, the executor and the timer
  that a call starts are the events it gives back, in order. The input buffer
  \<open>boost::asio::streambuf\<close> is the list of its readable bytes. \<open>current_frame_\<close> is the
  contents of the caller's frame while the object points to it.
\<close>

section \<open>Definitions\<close>

definition DiscardUntil :: "byte \<Rightarrow> byte list \<Rightarrow> byte list" where
  "DiscardUntil v buf = dropWhile (\<lambda>c. c \<noteq> v) buf"

text \<open>\<open>std::string::resize\<close>.\<close>

definition string_resize :: "byte list \<Rightarrow> nat \<Rightarrow> byte list" where
  "string_resize s n = take n s @ replicate (n - length s) 0"

text \<open>How one round of the loop of \<open>ParseFrame\<close> ends: \<open>continue\<close>, an early \<open>return\<close>, a frame.\<close>

datatype parse_outcome = Again | NeedMore | Complete

definition ParseFrame_body ::
  "(byte list \<Rightarrow> u16) \<Rightarrow> byte list \<Rightarrow> frame \<Rightarrow> (parse_outcome \<times> byte list \<times> frame) res" where
  "ParseFrame_body crc streambuf f =
     (let buf = DiscardUntil (ucast (kHeader AND 0xff)) streambuf;
          rd = crc_rs_read srs_read
      in case (ReadScalar rd 2 (srs_init buf, []) :: u16 option \<times> _) of
           (None, s) \<Rightarrow> Inr (NeedMore, buf, f)
         | (Some header, s) \<Rightarrow>
      if header \<noteq> kHeader then Inr (Again, drop 2 buf, f) else
      case (ReadScalar rd 1 s :: byte option \<times> _) of
           (None, s) \<Rightarrow> Inr (NeedMore, buf, f)
         | (Some src, s) \<Rightarrow>
      let f = f\<lparr>source_id := src AND 0x7f, request_reply := (src AND 0x80 \<noteq> 0)\<rparr>
      in case (ReadScalar rd 1 s :: byte option \<times> _) of
           (None, s) \<Rightarrow> Inr (NeedMore, buf, f)
         | (Some dest, s) \<Rightarrow>
      let f = f\<lparr>dest_id := dest\<rparr>
      in case ReadVaruint rd s of
           (None, s) \<Rightarrow> Inr (NeedMore, buf, f)
         | (Some payload_size, s) \<Rightarrow>
      if srs_remaining (fst s) < unat (payload_size + 2) then Inr (NeedMore, buf, f) else
      case rd s (unat payload_size) of (d, s) \<Rightarrow>
      let f = f\<lparr>payload := overwrite (string_resize (payload f) (unat payload_size)) 0 d\<rparr>;
          calculated_checksum = crc (snd s)
      in case (ReadScalar rd 2 s :: u16 option \<times> _) of
           (None, s) \<Rightarrow> Inl BadOptional
         | (Some read_checksum, s) \<Rightarrow>
      if calculated_checksum \<noteq> read_checksum then Inr (Again, drop 2 buf, f)
      else Inr (Complete, drop (sr_pos (fst s)) buf, f))"

lemma ReadScalar_Some_length:
  "ReadScalar (crc_rs_read srs_read) n (srs_init buf, []) = (Some w, t) \<Longrightarrow> n \<le> length buf"
  by (auto simp: ReadScalar_def crc_rs_read_def srs_read_def srs_init_def srs_remaining_def Let_def
      split: if_splits prod.splits)

lemma ParseFrame_body_Again:
  "ParseFrame_body crc buf f = Inr (Again, buf', f') \<Longrightarrow> length buf' < length buf"
  using length_dropWhile_le [of "\<lambda>c. c \<noteq> 0x54" buf]
  by (auto simp: ParseFrame_body_def DiscardUntil_def kHeader_def Let_def
      dest!: ReadScalar_Some_length split: option.splits prod.splits if_splits)

function ParseFrame ::
  "(byte list \<Rightarrow> u16) \<Rightarrow> byte list \<Rightarrow> frame \<Rightarrow> (bool \<times> byte list \<times> frame) res" where
  "ParseFrame crc streambuf f =
     sbind (ParseFrame_body crc streambuf f) (\<lambda>(out, buf, g).
       case out of
         Again \<Rightarrow> ParseFrame crc buf g
       | NeedMore \<Rightarrow> Inr (False, buf, g)
       | Complete \<Rightarrow> Inr (True, buf, g))"
  by pat_completeness auto

termination ParseFrame
  by (relation "measure (\<lambda>(crc, buf, f). length buf)") (auto dest!: ParseFrame_body_Again)

declare ParseFrame.simps [simp del]

text \<open>
  The object. \<open>current_callback_\<close> is only ever asked whether it is set. The error of a
  completed asynchronous operation is \<open>Success\<close>, \<open>Aborted\<close>
  (\<open>boost::asio::error::operation_aborted\<close>) or any other.
\<close>

datatype error_code = Success | Aborted | OtherError

datatype rs_event =
    StartWrite "byte list"
  | StartRead
  | TimerCancel
  | TimerStart nat
  | PostCallback error_code frame
  | InvokeCallback error_code frame

record rs485 =
  rs_write_buffer :: fos
  rs_outstanding :: bool
  rs_streambuf :: "byte list"
  rs_frame :: "frame option"
  rs_callback :: bool

definition rs_init :: rs485 where
  "rs_init = \<lparr>rs_write_buffer = fos_init, rs_outstanding = False, rs_streambuf = [],
              rs_frame = None, rs_callback = False\<rparr>"

definition rs_AsyncWrite ::
  "(byte list \<Rightarrow> u16) \<Rightarrow> rs485 \<Rightarrow> frame \<Rightarrow> (rs485 \<times> rs_event list) res" where
  "rs_AsyncWrite crc s f =
     sbind (Frame_encode_to fos_write crc (fos_clear (rs_write_buffer s)) f) (\<lambda>b.
     Inr (s\<lparr>rs_write_buffer := b\<rparr>, [StartWrite (fos_str b)]))"

fun encode_all :: "(byte list \<Rightarrow> u16) \<Rightarrow> fos \<Rightarrow> frame list \<Rightarrow> fos res" where
  "encode_all crc b [] = Inr b"
| "encode_all crc b (f # fs) = sbind (Frame_encode_to fos_write crc b f) (\<lambda>b. encode_all crc b fs)"

definition rs_AsyncWriteMultiple ::
  "(byte list \<Rightarrow> u16) \<Rightarrow> rs485 \<Rightarrow> frame list \<Rightarrow> (rs485 \<times> rs_event list) res" where
  "rs_AsyncWriteMultiple crc s fs =
     sbind (encode_all crc (fos_clear (rs_write_buffer s)) fs) (\<lambda>b.
     Inr (s\<lparr>rs_write_buffer := b\<rparr>, [StartWrite (fos_str b)]))"

text \<open>\<open>BOOST_ASSERT\<close> is taken as checked.\<close>

definition rs_ParseFrame :: "(byte list \<Rightarrow> u16) \<Rightarrow> rs485 \<Rightarrow> (rs485 \<times> rs_event list) res" where
  "rs_ParseFrame crc s =
     (case rs_frame s of
        None \<Rightarrow> Inl AssertFailed
      | Some f \<Rightarrow>
          sbind (ParseFrame crc (rs_streambuf s) f) (\<lambda>(done, buf, g).
          if done
          then Inr (s\<lparr>rs_streambuf := buf, rs_frame := None, rs_callback := False\<rparr>,
                    [PostCallback Success g])
          else Inr (s\<lparr>rs_streambuf := buf, rs_frame := Some g\<rparr>, [])))"

definition rs_MaybeStartRead :: "(byte list \<Rightarrow> u16) \<Rightarrow> rs485 \<Rightarrow> (rs485 \<times> rs_event list) res" where
  "rs_MaybeStartRead crc s =
     (if rs_outstanding s then Inr (s, [])
      else if \<not> rs_callback s then Inr (s, [])
      else sbind (rs_ParseFrame crc s) (\<lambda>(s, e).
        if \<not> rs_callback s then Inr (s, e)
        else Inr (s\<lparr>rs_outstanding := True\<rparr>, e @ [StartRead])))"

text \<open>A timeout of zero is \<open>boost::posix_time::time_duration()\<close>.\<close>

definition rs_AsyncRead ::
  "(byte list \<Rightarrow> u16) \<Rightarrow> rs485 \<Rightarrow> frame \<Rightarrow> nat \<Rightarrow> (rs485 \<times> rs_event list) res" where
  "rs_AsyncRead crc s f timeout =
     sbind (mj_assert (rs_frame s = None)) (\<lambda>_.
     sbind (mj_assert (\<not> rs_callback s)) (\<lambda>_.
     sbind (rs_MaybeStartRead crc (s\<lparr>rs_frame := Some f, rs_callback := True\<rparr>)) (\<lambda>(s, e).
     Inr (s, (if timeout = 0 then TimerCancel else TimerStart timeout) # e))))"

definition rs_HandleRead ::
  "(byte list \<Rightarrow> u16) \<Rightarrow> rs485 \<Rightarrow> error_code \<Rightarrow> byte list \<Rightarrow> (rs485 \<times> rs_event list) res" where
  "rs_HandleRead crc s ec data =
     (if ec \<noteq> Success then Inl Terminated
      else let s = s\<lparr>rs_streambuf := rs_streambuf s @ data, rs_outstanding := False\<rparr>
           in sbind (if rs_callback s then rs_ParseFrame crc s else Inr (s, [])) (\<lambda>(s, e).
              sbind (rs_MaybeStartRead crc s) (\<lambda>(s, e'). Inr (s, e @ e'))))"

definition rs_cancel :: "rs485 \<Rightarrow> rs485 \<times> rs_event list" where
  "rs_cancel s =
     (if rs_callback s
      then (s\<lparr>rs_callback := False, rs_frame := None\<rparr>,
            case rs_frame s of Some f \<Rightarrow> [PostCallback Aborted f] | None \<Rightarrow> [])
      else (s, []))"

definition rs_HandleTimer :: "rs485 \<Rightarrow> error_code \<Rightarrow> (rs485 \<times> rs_event list) res" where
  "rs_HandleTimer s ec =
     (if ec = Aborted then Inr (s, [])
      else if ec \<noteq> Success then Inl Terminated
      else if rs_callback s
      then (case rs_frame s of
              None \<Rightarrow> Inl AssertFailed
            | Some f \<Rightarrow> Inr (s\<lparr>rs_frame := None, rs_callback := False\<rparr>, [InvokeCallback Aborted f]))
      else Inr (s, []))"

text \<open>What can happen to the object: its four calls, and the two completions it waits for.\<close>

datatype rs_input =
    DoWrite "frame list" | DoRead frame nat | DoCancel | ReadDone error_code "byte list"
  | TimerDone error_code

fun rs_step :: "(byte list \<Rightarrow> u16) \<Rightarrow> rs485 \<Rightarrow> rs_input \<Rightarrow> (rs485 \<times> rs_event list) res" where
  "rs_step crc s (DoWrite fs) = rs_AsyncWriteMultiple crc s fs"
| "rs_step crc s (DoRead f timeout) = rs_AsyncRead crc s f timeout"
| "rs_step crc s DoCancel = Inr (rs_cancel s)"
| "rs_step crc s (ReadDone ec data) = rs_HandleRead crc s ec data"
| "rs_step crc s (TimerDone ec) = rs_HandleTimer s ec"

text \<open>
  The reachable states: the stream completes a read only while one is outstanding; a read is
  requested only while none is pending.
\<close>

inductive rs_reachable :: "(byte list \<Rightarrow> u16) \<Rightarrow> rs485 \<Rightarrow> bool" for crc where
  start: "rs_reachable crc rs_init"
| step: "rs_reachable crc s \<Longrightarrow> (\<forall>ec data. i = ReadDone ec data \<longrightarrow> rs_outstanding s) \<Longrightarrow>
         rs_step crc s i = Inr (s', e) \<Longrightarrow> rs_reachable crc s'"

section \<open>Reading through the checksum\<close>

text \<open>
  The reader of \<open>ParseFrame\<close> after \<open>p\<close> bytes of the buffer: the stream stands at \<open>p\<close> and the
  checksum has seen exactly the bytes before it.
\<close>

abbreviation crc_rd :: "srs \<times> byte list \<Rightarrow> nat \<Rightarrow> byte list \<times> (srs \<times> byte list)" where
  "crc_rd \<equiv> crc_rs_read srs_read"

definition crc_at :: "byte list \<Rightarrow> nat \<Rightarrow> srs \<times> byte list \<Rightarrow> bool" where
  "crc_at buf p s \<longleftrightarrow> sr_data (fst s) = buf \<and> sr_pos (fst s) = p \<and> p \<le> length buf \<and> snd s = take p buf"

lemma crc_at_init: "crc_at buf 0 (srs_init buf, [])"
  by (simp add: crc_at_def)

lemma crc_at_remaining: "crc_at buf p s \<Longrightarrow> srs_remaining (fst s) = length buf - p"
  by (simp add: crc_at_def srs_remaining_def)

lemma crc_at_read:
  "crc_at buf p s \<Longrightarrow> \<exists>t. crc_rd s n = (take n (drop p buf), t) \<and> crc_at buf (min (p + n) (length buf)) t"
  by (cases s) (auto simp: crc_at_def crc_rs_read_def srs_read_def srs_remaining_def Let_def min_def
      take_add [symmetric] split: prod.splits)

lemma crc_at_scalar:
  "crc_at buf p s \<Longrightarrow> p + n \<le> length buf \<Longrightarrow>
     \<exists>t. ReadScalar crc_rd n s = (Some (le_word (take n (drop p buf))), t) \<and> crc_at buf (p + n) t"
  using crc_at_read [of buf p s n] by (auto simp: ReadScalar_def min_def)

lemma crc_at_scalar_None:
  "crc_at buf p s \<Longrightarrow> \<not> p + n \<le> length buf \<Longrightarrow> \<exists>t. ReadScalar crc_rd n s = (None, t)"
  using crc_at_read [of buf p s n]
  by (cases "crc_rd s n") (auto simp: ReadScalar_def crc_at_def)

lemma crc_at_varuint_loop:
  "crc_at buf p s \<Longrightarrow> \<exists>q. crc_at buf q (snd (ReadVaruint_loop crc_rd k pos r s)) \<and> p \<le> q"
proof (induction k arbitrary: p pos r s)
  case (Suc k)
  show ?case
  proof (cases "p + 1 \<le> length buf")
    case True
    then obtain b t where "(ReadScalar crc_rd 1 s :: byte option \<times> _) = (Some b, t)" "crc_at buf (p + 1) t"
      using crc_at_scalar [OF Suc.prems True] by blast
    with Suc.IH [OF this(2)] show ?thesis
      by (auto simp: Let_def) (metis Suc_leD order_refl)+
  next
    case False
    obtain t where "crc_rd s 1 = (take 1 (drop p buf), t)" "crc_at buf (min (p + 1) (length buf)) t"
      using crc_at_read [OF Suc.prems] by blast
    moreover have "min (p + 1) (length buf) = p"
      using False Suc.prems by (simp add: crc_at_def min_def)
    ultimately show ?thesis
      using False by (auto simp: ReadScalar_def)
  qed
qed auto

lemma crc_at_varuint:
  assumes "crc_at buf p s" and "ReadVaruint list_read (drop p buf) = (r, rest)"
  shows "\<exists>t. ReadVaruint crc_rd s = (r, t) \<and> crc_at buf (length buf - length rest) t
    \<and> rest = drop (length buf - length rest) buf \<and> length rest \<le> length buf"
proof -
  obtain v t where vt: "ReadVaruint crc_rd s = (v, t)"
    by (cases "ReadVaruint crc_rd s")
  from assms(1) have "srs_ok (fst s)" "srs_avail (fst s) = drop p buf"
    by (auto simp: crc_at_def srs_ok_def srs_avail_def)
  with srs_crc.crc.ReadVaruint_abs [of s] vt assms(2)
  have "v = r" "srs_avail (fst t) = rest"
    by simp_all
  moreover obtain q where "crc_at buf q t"
    using crc_at_varuint_loop [OF assms(1)] vt by (metis ReadVaruint_def snd_conv)
  ultimately show ?thesis
    using vt by (auto simp: crc_at_def srs_avail_def)
qed

section \<open>One round of the loop, branch by branch\<close>

lemma DiscardUntil_hd: "DiscardUntil v buf = c # bs \<Longrightarrow> c = v"
  using hd_dropWhile [of "\<lambda>c. c \<noteq> v" buf] by (simp add: DiscardUntil_def)

lemma DiscardUntil_idem [simp]: "DiscardUntil v (v # bs) = v # bs"
  by (simp add: DiscardUntil_def)

lemma DiscardUntil_junk: "v \<notin> set junk \<Longrightarrow> DiscardUntil v (junk @ bs) = DiscardUntil v bs"
  by (simp add: DiscardUntil_def dropWhile_junk)

lemma DiscardUntil_none: "v \<notin> set junk \<Longrightarrow> DiscardUntil v junk = []"
  by (auto simp: DiscardUntil_def)

lemma kHeader_low [simp]: "ucast (kHeader AND 0xff) = (0x54 :: byte)"
  by code_simp

lemma le_word_kHeader: "(le_word [a, b] :: u16) = kHeader \<longleftrightarrow> a = 0x54 \<and> b = 0xab"
proof
  assume "(le_word [a, b] :: u16) = kHeader"
  then have "le_bytes 2 (le_word [a, b] :: u16) = [0x54, 0xab]" by simp
  moreover have "le_bytes 2 (le_word [a, b] :: u16) = [a, b]"
    using le_bytes_le_word [of "[a, b]", where 'a = 16]
    by (simp add: numeral_2_eq_2 del: le_word.simps le_bytes.simps)
  ultimately show "a = 0x54 \<and> b = 0xab" by simp
next
  assume "a = 0x54 \<and> b = 0xab"
  then show "(le_word [a, b] :: u16) = kHeader"
    using le_word_le_bytes_full [of 2 kHeader] by simp
qed

lemma ParseFrame_body_short:
  assumes "length (DiscardUntil 0x54 buf) < 2"
  shows "ParseFrame_body crc buf f = Inr (NeedMore, DiscardUntil 0x54 buf, f)"
proof -
  let ?b = "DiscardUntil 0x54 buf"
  have "\<not> 0 + 2 \<le> length ?b" using assms by simp
  then obtain t where "(ReadScalar crc_rd 2 (srs_init ?b, []) :: u16 option \<times> _) = (None, t)"
    using crc_at_scalar_None [OF crc_at_init] by blast
  then show ?thesis
    by (simp add: ParseFrame_body_def Let_def)
qed

lemma ParseFrame_body_no_header:
  assumes "DiscardUntil 0x54 buf = 0x54 # h # bs" and "h \<noteq> 0xab"
  shows "ParseFrame_body crc buf f = Inr (Again, bs, f)"
proof -
  obtain t where "(ReadScalar crc_rd 2 (srs_init (0x54 # h # bs), []) :: u16 option \<times> _)
      = (Some (le_word [0x54, h]), t)"
    using crc_at_scalar [OF crc_at_init [of "0x54 # h # bs"], of 2] by auto
  with assms show ?thesis
    by (simp add: ParseFrame_body_def Let_def le_word_kHeader del: le_word.simps)
qed

text \<open>What a frame's fields become when its two id bytes have been read.\<close>

definition set_ids :: "frame \<Rightarrow> byte \<Rightarrow> byte \<Rightarrow> frame" where
  "set_ids f src dest =
     f\<lparr>source_id := src AND 0x7f, request_reply := (src AND 0x80 \<noteq> 0), dest_id := dest\<rparr>"

lemma read_header:
  "\<exists>t. (ReadScalar crc_rd 2 (srs_init (0x54 # 0xab # bs), []) :: u16 option \<times> _) = (Some kHeader, t)
     \<and> crc_at (0x54 # 0xab # bs) 2 t"
  using crc_at_scalar [OF crc_at_init [of "0x54 # 0xab # bs"], of 2, where 'a = 16]
  by (auto simp: le_word_kHeader numeral_2_eq_2 simp del: le_word.simps)

lemma read_byte:
  "crc_at buf p s \<Longrightarrow> p < length buf \<Longrightarrow>
     \<exists>t. (ReadScalar crc_rd (Suc 0) s :: byte option \<times> _) = (Some (buf ! p), t) \<and> crc_at buf (Suc p) t"
  using crc_at_scalar [of buf p s "Suc 0", where 'a = 8]
  by (auto simp: Suc_le_eq take_Suc hd_drop_conv_nth)

lemma read_ids:
  assumes "crc_at (0x54 # 0xab # src # dest # ms) 2 t"
  shows "\<exists>u w. (ReadScalar crc_rd (Suc 0) t :: byte option \<times> _) = (Some src, u)
    \<and> (ReadScalar crc_rd (Suc 0) u :: byte option \<times> _) = (Some dest, w)
    \<and> crc_at (0x54 # 0xab # src # dest # ms) 4 w"
proof -
  from read_byte [OF assms] obtain u where
    u: "(ReadScalar crc_rd (Suc 0) t :: byte option \<times> _) = (Some src, u)"
       "crc_at (0x54 # 0xab # src # dest # ms) 3 u" by (auto simp: numeral_3_eq_3 numeral_2_eq_2)
  from read_byte [OF u(2)] u(1) show ?thesis by auto
qed

text \<open>The frame is not complete: nothing of it is discarded.\<close>

lemma ParseFrame_body_header_only:
  assumes "DiscardUntil 0x54 buf = b" and "b = 0x54 # 0xab # bs" and "length bs < 2"
  shows "\<exists>g. ParseFrame_body crc buf f = Inr (NeedMore, b, g)"
proof -
  obtain t where t: "(ReadScalar crc_rd 2 (srs_init b, []) :: u16 option \<times> _) = (Some kHeader, t)"
      "crc_at b 2 t"
    using read_header assms(2) by blast
  show ?thesis
  proof (cases bs)
    case Nil
    then obtain u where "(ReadScalar crc_rd (Suc 0) t :: byte option \<times> _) = (None, u)"
      using crc_at_scalar_None [OF t(2)] assms(2) by fastforce
    with assms t show ?thesis by (simp add: ParseFrame_body_def Let_def)
  next
    case (Cons src cs)
    with assms(2) obtain u where u: "(ReadScalar crc_rd (Suc 0) t :: byte option \<times> _) = (Some src, u)"
        "crc_at b (Suc 2) u"
      using read_byte [OF t(2)] by auto
    moreover obtain w where "(ReadScalar crc_rd (Suc 0) u :: byte option \<times> _) = (None, w)"
      using crc_at_scalar_None [OF u(2)] Cons assms(2,3) by fastforce
    ultimately show ?thesis using assms t by (simp add: ParseFrame_body_def Let_def)
  qed
qed

lemma ParseFrame_body_incomplete:
  assumes "DiscardUntil 0x54 buf = b" and "b = 0x54 # 0xab # src # dest # ms"
    and "case ReadVaruint list_read ms of (None, r) \<Rightarrow> True | (Some n, r) \<Rightarrow> length r < unat (n + 2)"
  shows "\<exists>g. ParseFrame_body crc buf f = Inr (NeedMore, b, g)"
proof -
  obtain t where t: "(ReadScalar crc_rd 2 (srs_init b, []) :: u16 option \<times> _) = (Some kHeader, t)"
      "crc_at b 2 t"
    using read_header assms(2) by blast
  then obtain u w where uw: "(ReadScalar crc_rd (Suc 0) t :: byte option \<times> _) = (Some src, u)"
      "(ReadScalar crc_rd (Suc 0) u :: byte option \<times> _) = (Some dest, w)" "crc_at b 4 w"
    using read_ids [of src dest ms t] assms(2) by auto
  obtain v r where vr: "ReadVaruint list_read ms = (v, r)"
    by (cases "ReadVaruint list_read ms")
  then obtain x where x: "ReadVaruint crc_rd w = (v, x)" "crc_at b (length b - length r) x"
      "length r \<le> length b"
    using crc_at_varuint [OF uw(3), of v r] assms(2) by auto
  show ?thesis
    using assms t uw x vr crc_at_remaining [OF x(2)]
    by (cases v) (simp_all add: ParseFrame_body_def Let_def)
qed

lemma ParseFrame_body_full:
  assumes "DiscardUntil 0x54 buf = b" and "b = 0x54 # 0xab # src # dest # ms"
    and "ReadVaruint list_read ms = (Some n, d @ c @ rest)" and "length d = unat n"
    and "length c = 2"
  shows "ParseFrame_body crc buf f =
    (let g = (set_ids f src dest)\<lparr>payload := d\<rparr>
     in if crc (take (length b - length (c @ rest)) b) = le_word c
        then Inr (Complete, rest, g) else Inr (Again, src # dest # ms, g))"
proof -
  obtain t where t: "(ReadScalar crc_rd 2 (srs_init b, []) :: u16 option \<times> _) = (Some kHeader, t)"
      "crc_at b 2 t"
    using read_header assms(2) by blast
  then obtain u w where uw: "(ReadScalar crc_rd (Suc 0) t :: byte option \<times> _) = (Some src, u)"
      "(ReadScalar crc_rd (Suc 0) u :: byte option \<times> _) = (Some dest, w)" "crc_at b 4 w"
    using read_ids [of src dest ms t] assms(2) by auto
  define p where "p = length b - length (d @ c @ rest)"
  obtain x where x: "ReadVaruint crc_rd w = (Some n, x)" "crc_at b p x"
      "drop p b = d @ c @ rest" "p + length (d @ c @ rest) = length b"
    using crc_at_varuint [OF uw(3), of "Some n" "d @ c @ rest"] assms(2,3) p_def by auto
  have wrap: "unat (n + 2) \<le> unat n + 2"
    by (simp add: unat_word_ariths)
  obtain y where y: "crc_rd x (unat n) = (d, y)" "crc_at b (p + unat n) y"
    using crc_at_read [OF x(2), of "unat n"] x(3,4) assms(4) by (auto simp: min_def)
  have dr: "drop (p + unat n) b = c @ rest" "drop (p + unat n + 2) b = rest"
    using x(3) assms(4,5) by (metis append_eq_conv_conj drop_drop add.commute)+
  obtain z where z: "(ReadScalar crc_rd 2 y :: u16 option \<times> _) = (Some (le_word c), z)"
      "crc_at b (p + unat n + 2) z"
    using crc_at_scalar [OF y(2), of 2] x(4) assms(4,5) dr by auto
  have seen: "length b - length (c @ rest) = p + unat n"
    using x(4) assms(4) by simp
  have pay: "overwrite (string_resize p (unat n)) 0 d = d" for p
    using assms(4) by (simp add: overwrite_def string_resize_def)
  show ?thesis
    using assms(1,2,4,5) t uw x(1,4) y z dr wrap crc_at_remaining [OF x(2)]
    unfolding seen by (simp add: ParseFrame_body_def Let_def pay set_ids_def crc_at_def)
qed

text \<open>The size wraps past \<open>2 ^ 32\<close>: the length check passes although the payload is not there.\<close>

lemma ParseFrame_body_wrapped:
  assumes "DiscardUntil 0x54 buf = b" and "b = 0x54 # 0xab # src # dest # ms"
    and "ReadVaruint list_read ms = (Some n, r)"
    and "unat (n + 2) \<le> length r" and "length r < unat n + 2"
  shows "ParseFrame_body crc buf f = Inl BadOptional"
proof -
  obtain t where t: "(ReadScalar crc_rd 2 (srs_init b, []) :: u16 option \<times> _) = (Some kHeader, t)"
      "crc_at b 2 t"
    using read_header assms(2) by blast
  then obtain u w where uw: "(ReadScalar crc_rd (Suc 0) t :: byte option \<times> _) = (Some src, u)"
      "(ReadScalar crc_rd (Suc 0) u :: byte option \<times> _) = (Some dest, w)" "crc_at b 4 w"
    using read_ids [of src dest ms t] assms(2) by auto
  define p where "p = length b - length r"
  obtain x where x: "ReadVaruint crc_rd w = (Some n, x)" "crc_at b p x" "p + length r = length b"
    using crc_at_varuint [OF uw(3), of "Some n" r] assms(2,3) p_def by auto
  obtain y where y: "crc_rd x (unat n) = (take (unat n) (drop p b), y)"
      "crc_at b (min (p + unat n) (length b)) y"
    using crc_at_read [OF x(2)] by blast
  have "\<not> min (p + unat n) (length b) + 2 \<le> length b"
    using x(3) assms(5) by (auto simp: min_def)
  then obtain z where "(ReadScalar crc_rd 2 y :: u16 option \<times> _) = (None, z)"
    using crc_at_scalar_None [OF y(2)] by blast
  with assms(1,2,4) t(1) uw(1,2) x(1,3) y(1) crc_at_remaining [OF x(2)] show ?thesis
    by (auto simp: ParseFrame_body_def Let_def)
qed

text \<open>
  What a delivered frame is on the wire: header, ids, a varuint that announces the payload's
  size, the payload, and the checksum of all that.
\<close>

definition frame_on_wire :: "(byte list \<Rightarrow> u16) \<Rightarrow> byte list \<Rightarrow> frame \<Rightarrow> bool" where
  "frame_on_wire crc raw g \<longleftrightarrow>
     (\<exists>src vs body. raw = body @ le_bytes 2 (crc body)
        \<and> body = [0x54, 0xab, src, dest_id g] @ vs @ payload g
        \<and> ReadVaruint list_read (vs @ payload g) = (Some (of_nat (length (payload g))), payload g)
        \<and> source_id g = src AND 0x7f \<and> request_reply g = (src AND 0x80 \<noteq> 0))"

text \<open>The four outcomes are the only ones.\<close>

lemma ParseFrame_body_outcome:
  "case ParseFrame_body crc buf f of
     Inl e \<Rightarrow> e = BadOptional
   | Inr (Again, bs, g) \<Rightarrow> \<exists>sk. buf = sk @ bs
   | Inr (NeedMore, bs, g) \<Rightarrow> bs = DiscardUntil 0x54 buf
   | Inr (Complete, rest, g) \<Rightarrow> \<exists>sk raw. buf = sk @ raw @ rest \<and> frame_on_wire crc raw g"
proof -
  define b where "b = DiscardUntil 0x54 buf"
  obtain sk where sk: "buf = sk @ b"
    unfolding b_def DiscardUntil_def by (metis takeWhile_dropWhile_id)
  consider "length b < 2" | h bs where "b = 0x54 # h # bs" "h \<noteq> 0xab"
    | bs where "b = 0x54 # 0xab # bs" "length bs < 2"
    | src dest ms where "b = 0x54 # 0xab # src # dest # ms"
  proof (cases b)
    case (Cons c cs)
    then have "c = 0x54" using DiscardUntil_hd b_def by simp
    with Cons that show ?thesis by (cases cs; cases "tl cs"; cases "tl (tl cs)") auto
  qed (use that in simp)
  then show ?thesis
  proof cases
    case 1
    then show ?thesis using ParseFrame_body_short [of buf crc f] b_def by simp
  next
    case (2 h bs)
    then have "buf = (sk @ [0x54, h]) @ bs" using sk by simp
    with 2 show ?thesis
      using ParseFrame_body_no_header [of buf h bs crc f] b_def by auto
  next
    case (3 bs)
    then show ?thesis using ParseFrame_body_header_only [of buf b bs crc f] b_def by auto
  next
    case (4 src dest ms)
    obtain v r where vr: "ReadVaruint list_read ms = (v, r)"
      by (cases "ReadVaruint list_read ms")
    consider "case v of None \<Rightarrow> True | Some n \<Rightarrow> length r < unat (n + 2)"
      | n where "v = Some n" "unat (n + 2) \<le> length r" "length r < unat n + 2"
      | n where "v = Some n" "unat n + 2 \<le> length r"
      by (cases v) (simp, metis not_less option.simps(5))
    then show ?thesis
    proof cases
      case 1
      then have "case ReadVaruint list_read ms of (None, r) \<Rightarrow> True | (Some n, r) \<Rightarrow> length r < unat (n + 2)"
        using vr by (auto split: option.splits)
      from ParseFrame_body_incomplete [OF b_def [symmetric] 4 this, of crc f] b_def show ?thesis by auto
    next
      case (2 n)
      then show ?thesis
        using ParseFrame_body_wrapped [OF b_def [symmetric] 4, of n r crc f] vr by simp
    next
      case (3 n)
      define d where "d = take (unat n) r"
      define c where "c = take 2 (drop (unat n) r)"
      define rest where "rest = drop (unat n + 2) r"
      have r: "r = d @ c @ rest"
        unfolding d_def c_def rest_def by (simp only: append_take_drop_id add.commute [of "unat n"]
            flip: drop_drop)
      have len: "length d = unat n" "length c = 2"
        using 3(2) by (simp_all add: d_def c_def)
      obtain vs where vs: "ms = vs @ r" "\<forall>ys. ReadVaruint list_read (vs @ ys) = (Some n, ys)"
        using ReadVaruint_split [of ms n r] vr 3(1) by auto
      let ?body = "[0x54, 0xab, src, dest] @ vs @ d" and ?g = "(set_ids f src dest)\<lparr>payload := d\<rparr>"
      have b: "b = ?body @ c @ rest" using 4 vs(1) r by simp
      have "take (length (x @ y) - length y) (x @ y) = x" for x y :: "byte list" by simp
      from this [of ?body "c @ rest"] have tk: "take (length b - length (c @ rest)) b = ?body"
        unfolding b .
      have "frame_on_wire crc (?body @ c) ?g" if "crc ?body = le_word c"
      proof -
        have "le_bytes 2 (crc ?body) = c"
          using that le_bytes_le_word [of c, where 'a = 16] len(2) by simp
        moreover have "ReadVaruint list_read (vs @ d) = (Some (of_nat (length d)), d)"
          using vs(2) len(1) by simp
        ultimately show ?thesis
          unfolding frame_on_wire_def
          by (intro exI [of _ src] exI [of _ vs] exI [of _ ?body]) (simp add: set_ids_def)
      qed
      moreover have "buf = sk @ (?body @ c) @ rest" using sk b by simp
      moreover have "\<exists>sk. buf = sk @ src # dest # ms"
        using sk 4 by (intro exI [of _ "sk @ [0x54, 0xab]"]) simp
      ultimately show ?thesis
        using ParseFrame_body_full [OF b_def [symmetric] 4, of n d c rest crc f] vr 3(1) r len
        unfolding tk by (auto simp: Let_def)
    qed
  qed
qed

section \<open>The whole loop\<close>

lemma ParseFrame_sound:
  "ParseFrame crc buf f = Inr (True, rest, g) \<Longrightarrow>
     \<exists>sk raw. buf = sk @ raw @ rest \<and> frame_on_wire crc raw g"
proof (induction crc buf f rule: ParseFrame.induct)
  case (1 crc buf f)
  obtain out bs h where body: "ParseFrame_body crc buf f = Inr (out, bs, h)"
    using "1.prems" by (subst (asm) ParseFrame.simps) auto
  show ?case
  proof (cases out)
    case Again
    then have "ParseFrame crc bs h = Inr (True, rest, g)"
      using "1.prems" body by (subst (asm) ParseFrame.simps) simp
    from "1.IH" [OF body refl refl Again this] obtain sk raw where
      "bs = sk @ raw @ rest" "frame_on_wire crc raw g" by auto
    moreover obtain sk' where "buf = sk' @ bs"
      using ParseFrame_body_outcome [where crc = crc and buf = buf and f = f] body Again by auto
    ultimately show ?thesis by (metis append.assoc)
  next
    case Complete
    with "1.prems" body ParseFrame_body_outcome [where crc = crc and buf = buf and f = f] show ?thesis
      by (subst (asm) ParseFrame.simps) auto
  next
    case NeedMore
    with "1.prems" body show ?thesis by (subst (asm) ParseFrame.simps) simp
  qed
qed

lemma ParseFrame_frame:
  assumes "0x54 \<notin> set junk" and "length p < 2 ^ 32"
  shows "ParseFrame crc (junk @ frame_bytes crc src dest p @ rest) f
           = Inr (True, rest, (set_ids f src dest)\<lparr>payload := p\<rparr>)"
proof -
  let ?c = "le_bytes 2 (crc (frame_body src dest p))"
  let ?b = "0x54 # 0xab # src # dest # leb128 (length p) @ p @ ?c @ rest"
  have b: "DiscardUntil 0x54 (junk @ frame_bytes crc src dest p @ rest) = ?b"
    using assms(1) by (simp add: DiscardUntil_junk frame_bytes_Cons)
  have v: "ReadVaruint list_read (leb128 (length p) @ p @ ?c @ rest)
      = (Some (of_nat (length p)), p @ ?c @ rest)"
    using ReadVaruint_leb128 [of "of_nat (length p)" "p @ ?c @ rest"] assms(2)
    by (simp add: unat_of_nat_u32)
  have "take (length (x @ y) - length y) (x @ y) = x" for x y :: "byte list" by simp
  from this [of "frame_body src dest p" "?c @ rest"]
  have tk: "take (length ?b - length (?c @ rest)) ?b = frame_body src dest p"
    by (simp add: frame_body_def)
  show ?thesis
    using ParseFrame_body_full [OF b refl v, of crc f] assms(2)
    by (subst ParseFrame.simps) (simp add: unat_of_nat_u32 tk [simplified] Let_def)
qed

lemma ParseFrame_prefix:
  assumes "0x54 \<notin> set junk" and "length p + 2 < 2 ^ 32" and "k < length (frame_bytes crc src dest p)"
  shows "\<exists>g. ParseFrame crc (junk @ take k (frame_bytes crc src dest p)) f
           = Inr (False, take k (frame_bytes crc src dest p), g)"
proof -
  let ?w = "frame_bytes crc src dest p"
  have b: "DiscardUntil 0x54 (junk @ take k ?w) = take k ?w"
  proof (cases k)
    case 0
    then show ?thesis using assms(1) by (auto simp: DiscardUntil_def)
  next
    case (Suc k')
    then show ?thesis using assms(1) by (simp add: DiscardUntil_junk frame_bytes_Cons)
  qed
  have "\<exists>g. ParseFrame_body crc (junk @ take k ?w) f = Inr (NeedMore, take k ?w, g)"
  proof (cases "k < 4")
    case True
    then consider "k < 2" | "k = 2 \<or> k = 3" by linarith
    then show ?thesis
    proof cases
      case 1
      then show ?thesis using ParseFrame_body_short b by simp
    next
      case 2
      then show ?thesis
        using ParseFrame_body_header_only [OF b, of "take (k - 2) [src, dest]"]
        by (auto simp: frame_bytes_Cons)
    qed
  next
    case False
    let ?c = "le_bytes 2 (crc (frame_body src dest p))" and ?l = "leb128 (length p)"
    define ms where "ms = take (k - 4) (?l @ p @ ?c)"
    have w: "take k ?w = 0x54 # 0xab # src # dest # ms"
      using False by (simp add: frame_bytes_Cons ms_def take_Cons' numeral_eq_Suc)
    have n: "unat (of_nat (length p) + 2 :: u32) = length p + 2"
      using assms(2) unat_of_nat_u32 [of "length p + 2"] by (simp add: add.commute)
    have "k - 4 < length (?l @ p @ ?c)" using assms(3) False by (simp add: length_frame_bytes)
    from ReadVaruint_frame_prefix [OF this] assms(2)
    have "case ReadVaruint list_read ms of (None, r) \<Rightarrow> True | (Some n, r) \<Rightarrow> length r < unat (n + 2)"
      by (auto simp: ms_def n split: prod.splits option.splits)
    from ParseFrame_body_incomplete [OF b w this] show ?thesis .
  qed
  then show ?thesis by (subst ParseFrame.simps) auto
qed

section \<open>The object\<close>

text \<open>
  The invariant: the caller's frame is held exactly while a callback is, and a callback that
  waits has a read outstanding.
\<close>

definition rs_inv :: "rs485 \<Rightarrow> bool" where
  "rs_inv s \<longleftrightarrow> (rs_frame s \<noteq> None \<longleftrightarrow> rs_callback s) \<and> (rs_callback s \<longrightarrow> rs_outstanding s)"

lemma encode_all_ok:
  "encode_all crc b fs = Inr c \<Longrightarrow> fos_ok b \<Longrightarrow> (\<forall>f \<in> set fs. length (payload f) < 2 ^ 32) \<Longrightarrow>
     fos_ok c \<and> fos_str c = fos_str b
       @ concat (map (\<lambda>f. frame_bytes crc (frame_source f) (dest_id f) (payload f)) fs)"
proof (induction fs arbitrary: b)
  case (Cons f fs)
  then show ?case
    using fos.wr_out fos.wr_ok by (auto simp: fos_crc.Frame_encode_to_bytes)
qed simp

lemma fos_clear_ok [simp]: "fos_ok (fos_clear b)" "fos_str (fos_clear b) = []"
  by (simp_all add: fos_ok_def fos_clear_def fos_str_def)

lemma rs_AsyncWrite_bytes:
  assumes "length (payload f) < 2 ^ 32"
  shows "\<exists>s'. rs_AsyncWrite crc s f =
    Inr (s', [StartWrite (frame_bytes crc (frame_source f) (dest_id f) (payload f))])"
proof -
  let ?w = "frame_bytes crc (frame_source f) (dest_id f) (payload f)"
  obtain t where t: "fos_write (fos_clear (rs_write_buffer s)) ?w = Inr t"
    by (simp add: fos_write_eq)
  then have "fos_str t = ?w" using fos.wr_out [OF fos_clear_ok(1) t] by simp
  with t assms show ?thesis
    by (simp add: rs_AsyncWrite_def fos_crc.Frame_encode_to_bytes)
qed

lemma rs_MaybeStartRead_inv:
  assumes "rs_MaybeStartRead crc s = Inr (s', e)"
    and "rs_frame s \<noteq> None \<longleftrightarrow> rs_callback s"
  shows "rs_inv s'"
  using assms
  by (auto simp: rs_MaybeStartRead_def rs_ParseFrame_def rs_inv_def split: if_splits option.splits)

lemma rs_ParseFrame_frame:
  "rs_ParseFrame crc s = Inr (s', e) \<Longrightarrow> rs_callback s \<Longrightarrow> rs_frame s' \<noteq> None \<longleftrightarrow> rs_callback s'"
  by (auto simp: rs_ParseFrame_def split: if_splits option.splits)

lemma rs_step_inv: "rs_step crc s i = Inr (s', e) \<Longrightarrow> rs_inv s \<Longrightarrow> rs_inv s'"
proof (cases i)
  case (DoRead f timeout)
  moreover assume "rs_step crc s i = Inr (s', e)"
  ultimately show ?thesis
    by (auto simp: rs_AsyncRead_def intro!: rs_MaybeStartRead_inv)
next
  case (ReadDone ec data)
  let ?t = "s\<lparr>rs_streambuf := rs_streambuf s @ data, rs_outstanding := False\<rparr>"
  assume "rs_step crc s i = Inr (s', e)" and inv: "rs_inv s"
  with ReadDone obtain t d e' where
    t: "(if rs_callback ?t then rs_ParseFrame crc ?t else Inr (?t, [])) = Inr (t, d)"
    and m: "rs_MaybeStartRead crc t = Inr (s', e')"
    by (auto simp: rs_HandleRead_def Let_def split: if_splits)
  from t inv have "rs_frame t \<noteq> None \<longleftrightarrow> rs_callback t"
    by (auto simp: rs_inv_def split: if_splits dest!: rs_ParseFrame_frame)
  with m show ?thesis by (rule rs_MaybeStartRead_inv)
qed (auto simp: rs_AsyncWriteMultiple_def rs_cancel_def rs_HandleTimer_def rs_inv_def
    split: if_splits option.splits)

lemma rs_reachable_inv: "rs_reachable crc s \<Longrightarrow> rs_inv s"
proof (induction rule: rs_reachable.induct)
  case start
  then show ?case by (simp add: rs_inv_def rs_init_def)
next
  case (step s i s' e)
  then show ?case using rs_step_inv by blast
qed

section \<open>A frame arriving in pieces\<close>

lemma DiscardUntil_append: "DiscardUntil v (DiscardUntil v x @ d) = DiscardUntil v (x @ d)"
  by (induction x) (auto simp: DiscardUntil_def)

lemma ParseFrame_Discard: "DiscardUntil 0x54 a = DiscardUntil 0x54 b \<Longrightarrow> ParseFrame crc a f = ParseFrame crc b f"
  by (simp add: ParseFrame.simps [of crc a] ParseFrame.simps [of crc b] ParseFrame_body_def)

lemma ParseFrame_prefix_any:
  assumes "0x54 \<notin> set junk" and "length p + 2 < 2 ^ 32"
    and "j < length (junk @ frame_bytes crc src dest p)"
    and "x = take j (junk @ frame_bytes crc src dest p)"
  shows "\<exists>g. ParseFrame crc x f = Inr (False, DiscardUntil 0x54 x, g)"
proof -
  let ?w = "frame_bytes crc src dest p"
  have x: "DiscardUntil 0x54 x = take (j - length junk) ?w" "j - length junk < length ?w"
    using dropWhile_frame_prefix [OF assms(1,3,4)] by (simp_all add: DiscardUntil_def)
  obtain g where g: "ParseFrame crc (take (j - length junk) ?w) f = Inr (False, take (j - length junk) ?w, g)"
    using ParseFrame_prefix [of "[]", OF _ assms(2) x(2)] by auto
  have "ParseFrame crc x f = ParseFrame crc (take (j - length junk) ?w) f"
    by (rule ParseFrame_Discard) (metis DiscardUntil_append append_Nil2 x(1))
  with g x show ?thesis by simp
qed

text \<open>The stream hands over the pieces one read after the other.\<close>

fun rs_feed :: "(byte list \<Rightarrow> u16) \<Rightarrow> rs485 \<Rightarrow> byte list list \<Rightarrow> (rs485 \<times> rs_event list) res" where
  "rs_feed crc s [] = Inr (s, [])"
| "rs_feed crc s (c # cs) =
     sbind (rs_HandleRead crc s Success c) (\<lambda>(s, e).
     sbind (rs_feed crc s cs) (\<lambda>(s, e'). Inr (s, e @ e')))"

definition rs_waiting :: "rs485 \<Rightarrow> byte list \<Rightarrow> bool" where
  "rs_waiting s x \<longleftrightarrow> rs_frame s \<noteq> None \<and> rs_callback s \<and> rs_outstanding s
     \<and> rs_streambuf s = DiscardUntil 0x54 x"

lemma rs_HandleRead_waits:
  assumes "rs_waiting s x" and "\<And>f. \<exists>g. ParseFrame crc (x @ c) f = Inr (False, DiscardUntil 0x54 (x @ c), g)"
  shows "\<exists>s'. rs_HandleRead crc s Success c = Inr (s', [StartRead]) \<and> rs_waiting s' (x @ c)"
proof -
  let ?d = "DiscardUntil 0x54 (x @ c)"
  have same: "ParseFrame crc (rs_streambuf s @ c) f = ParseFrame crc (x @ c) f" for f
    using assms(1) by (intro ParseFrame_Discard) (simp add: rs_waiting_def DiscardUntil_append)
  have idem: "ParseFrame crc ?d f = ParseFrame crc (x @ c) f" for f
    by (rule ParseFrame_Discard) (metis DiscardUntil_append append_Nil2)
  obtain f where f: "rs_frame s = Some f" using assms(1) by (auto simp: rs_waiting_def)
  obtain g h where "ParseFrame crc (x @ c) f = Inr (False, ?d, g)"
      "ParseFrame crc (x @ c) g = Inr (False, ?d, h)" using assms(2) by blast
  with assms(1) f same idem show ?thesis
    by (auto simp: rs_HandleRead_def rs_MaybeStartRead_def rs_ParseFrame_def rs_waiting_def Let_def)
qed

lemma rs_HandleRead_delivers:
  assumes "rs_waiting s x" and "\<And>f. ParseFrame crc (x @ c) f = Inr (True, rest, g f)"
  shows "\<exists>s' f. rs_HandleRead crc s Success c = Inr (s', [PostCallback Success (g f)])
    \<and> rs_streambuf s' = rest \<and> \<not> rs_callback s' \<and> \<not> rs_outstanding s'"
proof -
  have same: "ParseFrame crc (rs_streambuf s @ c) f = ParseFrame crc (x @ c) f" for f
    using assms(1) by (intro ParseFrame_Discard) (simp add: rs_waiting_def DiscardUntil_append)
  with assms show ?thesis
    by (auto simp: rs_HandleRead_def rs_MaybeStartRead_def rs_ParseFrame_def rs_waiting_def Let_def)
qed

lemma rs_feed_waits:
  assumes "rs_waiting s x" and "0x54 \<notin> set junk" and "length p + 2 < 2 ^ 32"
    and "x @ concat cs = take j (junk @ frame_bytes crc src dest p)"
    and "j < length (junk @ frame_bytes crc src dest p)"
  shows "\<exists>s'. rs_feed crc s cs = Inr (s', replicate (length cs) StartRead) \<and> rs_waiting s' (x @ concat cs)"
  using assms(1,4)
proof (induction cs arbitrary: s x)
  case (Cons c cs)
  let ?w = "junk @ frame_bytes crc src dest p"
  have "x @ c = take (length (x @ c)) ((x @ c) @ concat cs)" by simp
  also have "(x @ c) @ concat cs = take j ?w" using Cons.prems(2) by simp
  also have "take (length (x @ c)) (take j ?w) = take (min (length (x @ c)) j) ?w" by (rule take_take)
  finally have "x @ c = take (min (length (x @ c)) j) ?w" .
  moreover have "min (length (x @ c)) j < length ?w" using assms(5) by simp
  ultimately have "\<exists>g. ParseFrame crc (x @ c) f = Inr (False, DiscardUntil 0x54 (x @ c), g)" for f
    using ParseFrame_prefix_any [OF assms(2,3)] by blast
  from rs_HandleRead_waits [OF Cons.prems(1) this] obtain t where
    t: "rs_HandleRead crc s Success c = Inr (t, [StartRead])" "rs_waiting t (x @ c)" by blast
  from Cons.IH [OF t(2)] Cons.prems(2) t(1) show ?case by auto
qed simp

lemma set_ids_source:
  assumes "unat (source_id g) < 128"
  shows "(set_ids f (frame_source g) (dest_id g))\<lparr>payload := payload g\<rparr> = g"
proof -
  let ?n = "unat (source_id g)"
  have hi: "source_id g OR 0x80 = (of_nat (?n + 128) :: byte)"
    using or_80_digit [OF assms] by simp
  have n: "unat (of_nat (?n + 128) :: byte) = ?n + 128" "(?n + 128) mod 128 = ?n"
    using assms by (simp_all add: unat_of_nat_byte del: of_nat_add)
  have "(source_id g OR 0x80) AND 0x7f = source_id g" "source_id g AND 0x7f = source_id g"
    unfolding hi and_7f_word n using assms by simp_all
  moreover have "(source_id g OR 0x80) AND 0x80 \<noteq> 0" "source_id g AND 0x80 = 0"
    unfolding hi and_80_zero_iff n using assms by simp_all
  ultimately show ?thesis
    by (cases g) (auto simp: set_ids_def frame_source_def)
qed

section \<open>Properties\<close>

lemma rs_delivers:
  assumes "unat (source_id g) < 128" and "length (payload g) + 2 < 2 ^ 32"
    and "rs_AsyncWrite crc tx g = Inr (tx', [StartWrite w])"
    and "0x54 \<notin> set junk" and "concat cs @ c = junk @ w @ rest"
    and "length (concat cs) < length (junk @ w)"
    and "rs_waiting s []"
  shows "\<exists>s' s''. rs_feed crc s cs = Inr (s', replicate (length cs) StartRead)
    \<and> rs_HandleRead crc s' Success c = Inr (s'', [PostCallback Success g])
    \<and> rs_streambuf s'' = rest \<and> \<not> rs_callback s''"
proof -
  let ?w = "frame_bytes crc (frame_source g) (dest_id g) (payload g)"
  have w: "w = ?w" using rs_AsyncWrite_bytes [of g crc tx] assms(2,3) by auto
  have "concat cs = take (length (concat cs)) (concat cs @ c)" by simp
  also have "concat cs @ c = (junk @ ?w) @ rest" using assms(5) w by simp
  also have "take (length (concat cs)) \<dots> = take (length (concat cs)) (junk @ ?w)"
    using assms(6) w by (simp only: take_append [of _ "junk @ ?w"]) simp
  finally have pre: "[] @ concat cs = take (length (concat cs)) (junk @ ?w)" by simp
  obtain s' where s': "rs_feed crc s cs = Inr (s', replicate (length cs) StartRead)"
      "rs_waiting s' ([] @ concat cs)"
    using rs_feed_waits [OF assms(7,4,2) pre] assms(6) w by blast
  have "ParseFrame crc (([] @ concat cs) @ c) f
      = Inr (True, rest, (set_ids f (frame_source g) (dest_id g))\<lparr>payload := payload g\<rparr>)" for f
    using ParseFrame_frame [OF assms(4)] assms(2,5) w by simp
  from rs_HandleRead_delivers [OF s'(2) this] s'(1) set_ids_source [OF assms(1)] show ?thesis
    by auto
qed

text \<open>
  C3. Whatever \<open>AsyncWrite\<close> put on the wire for a frame is delivered by a
  reader at the other end: noise without a header byte may come before it, the bytes may
  arrive cut into any pieces, and more may follow. Every read but the last one is answered by
  another read, the last one posts the callback with the frame that was sent, and what
  follows the frame stays in the buffer.
\<close>

theorem rs485_delivers_frame:
  assumes "unat (source_id g) < 128" and "length (payload g) + 2 < 2 ^ 32"
    and "rs_AsyncWrite crc tx g = Inr (tx', [StartWrite w])"
    and "0x54 \<notin> set junk" and "concat cs @ c = junk @ w @ rest"
    and "length (concat cs) < length (junk @ w)"
    and "rs_waiting s []"
  shows "\<exists>s' s''. rs_feed crc s cs = Inr (s', replicate (length cs) StartRead)
    \<and> rs_HandleRead crc s' Success c = Inr (s'', [PostCallback Success g])
    \<and> rs_streambuf s'' = rest \<and> \<not> rs_callback s''"
  using assms by (rule rs_delivers)

theorem rs485_delivers_frame_witness:
  "\<exists>s' s''. rs_feed (\<lambda>_. 0x1234) (rs_init\<lparr>rs_frame := Some frame_init, rs_callback := True, rs_outstanding := True\<rparr>)
        [[0x01, 0x54, 0xab], [0x81]] = Inr (s', [StartRead, StartRead])
    \<and> rs_HandleRead (\<lambda>_. 0x1234) s' Success [0x02, 0x01, 0x2a, 0x34, 0x12, 0x07]
       = Inr (s'', [PostCallback Success
           \<lparr>source_id = 1, request_reply = True, dest_id = 2, payload = [0x2a]\<rparr>])
    \<and> rs_streambuf s'' = [0x07] \<and> \<not> rs_callback s''"
proof -
  let ?g = "\<lparr>source_id = 1, request_reply = True, dest_id = 2, payload = [0x2a]\<rparr> :: frame"
  let ?s = "rs_init\<lparr>rs_frame := Some frame_init, rs_callback := True, rs_outstanding := True\<rparr>"
  have "le_bytes 2 (0x1234 :: u16) = [0x34, 0x12]" by code_simp
  then have "frame_bytes (\<lambda>_. 0x1234) (frame_source ?g) 2 [0x2a]
      = [0x54, 0xab, 0x81, 0x02, 0x01, 0x2a, 0x34, 0x12]"
    by (simp add: frame_bytes_Cons frame_source_def leb128_small)
  then obtain tx' where tx: "rs_AsyncWrite (\<lambda>_. 0x1234) rs_init ?g
      = Inr (tx', [StartWrite [0x54, 0xab, 0x81, 0x02, 0x01, 0x2a, 0x34, 0x12]])"
    using rs_AsyncWrite_bytes [of ?g "\<lambda>_. 0x1234" rs_init] by auto
  have "rs_waiting ?s []" by (simp add: rs_waiting_def rs_init_def DiscardUntil_def)
  from rs485_delivers_frame [OF _ _ tx _ _ _ this, where junk = "[0x01]" and rest = "[0x07]"
      and cs = "[[0x01, 0x54, 0xab], [0x81]]" and c = "[0x02, 0x01, 0x2a, 0x34, 0x12, 0x07]"]
  show ?thesis by simp
qed

text \<open>
  C6. No frame is delivered that is not in the input: when \<open>ParseFrame\<close>
  reports a frame, the buffer contained, in front of what it leaves there, a header, the
  frame's ids, a varuint announcing the size of its payload, its payload, and the checksum of
  all these bytes.
\<close>

theorem rs485_only_valid_frames:
  assumes "ParseFrame crc buf f = Inr (True, rest, g)"
  shows "\<exists>skipped src vs body. buf = skipped @ body @ le_bytes 2 (crc body) @ rest
    \<and> body = [0x54, 0xab, src, dest_id g] @ vs @ payload g
    \<and> ReadVaruint list_read (vs @ payload g) = (Some (of_nat (length (payload g))), payload g)
    \<and> source_id g = src AND 0x7f \<and> request_reply g = (src AND 0x80 \<noteq> 0)"
proof -
  obtain sk raw where raw: "buf = sk @ raw @ rest" "frame_on_wire crc raw g"
    using ParseFrame_sound [OF assms] by blast
  then obtain src vs body where "raw = body @ le_bytes 2 (crc body)"
      "body = [0x54, 0xab, src, dest_id g] @ vs @ payload g"
      "ReadVaruint list_read (vs @ payload g) = (Some (of_nat (length (payload g))), payload g)"
      "source_id g = src AND 0x7f" "request_reply g = (src AND 0x80 \<noteq> 0)"
    unfolding frame_on_wire_def by blast
  with raw(1) have "buf = sk @ body @ le_bytes 2 (crc body) @ rest" by simp
  with \<open>body = _\<close> \<open>ReadVaruint list_read _ = _\<close> \<open>source_id g = _\<close> \<open>request_reply g = _\<close>
  show ?thesis by blast
qed

theorem rs485_only_valid_frames_witness:
  "\<exists>skipped src vs body. [0x54, 0xab, 0x81, 0x02, 0x00, 0x34, 0x12, 0x07]
      = skipped @ body @ le_bytes 2 (0x1234 :: u16) @ [0x07]
    \<and> body = [0x54, 0xab, src, 2] @ vs"
proof -
  have "le_bytes 2 (0x1234 :: u16) = [0x34, 0x12]" by code_simp
  then have w: "frame_bytes (\<lambda>_. 0x1234) 0x81 2 [] @ [0x07]
      = [0x54, 0xab, 0x81, 0x02, 0x00, 0x34, 0x12, 0x07]"
    by (simp add: frame_bytes_Cons leb128_small)
  have "ParseFrame (\<lambda>_. 0x1234) (frame_bytes (\<lambda>_. 0x1234) 0x81 2 [] @ [0x07]) frame_init
      = Inr (True, [0x07], (set_ids frame_init 0x81 2)\<lparr>payload := []\<rparr>)"
    using ParseFrame_frame [where junk = "[]" and p = "[]" and rest = "[0x07]"] by simp
  from rs485_only_valid_frames [OF this] show ?thesis
    unfolding w by (auto simp: set_ids_def)
qed

text \<open>
  C8. In every reachable state the object holds the caller's frame
  exactly while it holds the caller's callback, and a caller that waits has a read of the
  underlying stream outstanding: it cannot be forgotten.
\<close>

theorem rs485_reader_never_stalls:
  assumes "rs_reachable crc s"
  shows "(rs_frame s \<noteq> None \<longleftrightarrow> rs_callback s) \<and> (rs_callback s \<longrightarrow> rs_outstanding s)"
  using rs_reachable_inv [OF assms] by (simp add: rs_inv_def)

theorem rs485_reader_never_stalls_witness:
  "let s = rs_init\<lparr>rs_frame := Some frame_init, rs_callback := True, rs_outstanding := True\<rparr>
   in rs_reachable (\<lambda>_. 0) s \<and> (rs_frame s \<noteq> None \<longleftrightarrow> rs_callback s) \<and> (rs_callback s \<longrightarrow> rs_outstanding s)"
proof -
  let ?crc = "\<lambda>_. 0" and ?s = "rs_init\<lparr>rs_frame := Some frame_init, rs_callback := True, rs_outstanding := True\<rparr>"
  have "ParseFrame ?crc [] f = Inr (False, [], f)" for f
    using ParseFrame_body_short [where buf = "[]" and f = f]
    by (subst ParseFrame.simps) (simp add: DiscardUntil_def)
  then have "rs_step ?crc rs_init (DoRead frame_init 0) = Inr (?s, [TimerCancel, StartRead])"
    by (simp add: rs_AsyncRead_def rs_MaybeStartRead_def rs_ParseFrame_def rs_init_def)
  then have "rs_reachable ?crc ?s"
    using rs_reachable.step [OF rs_reachable.start] by blast
  with rs485_reader_never_stalls [OF this] show ?thesis by simp
qed

text \<open>
  C18. The comparison with \<open>*maybe_payload_size + 2\<close> is done modulo \<open>2 ^ 32\<close>: a
  header that announces a payload of \<open>0xfffffffe\<close> bytes passes it at once, and the empty
  \<open>read_checksum\<close> is dereferenced, whatever follows.
\<close>

theorem rs485_size_wraps:
  assumes "length rest < 2 ^ 32"
  shows "ParseFrame crc ([0x54, 0xab, src, dest, 0xfe, 0xff, 0xff, 0xff, 0x0f] @ rest) f
           = Inl BadOptional"
proof -
  have "unleb128 ([0xfe, 0xff, 0xff, 0xff, 0x0f] @ rest) = Some (0xfffffffe, rest)"
    by simp
  then have "ReadVaruint list_read ([0xfe, 0xff, 0xff, 0xff, 0x0f] @ rest) = (Some 0xfffffffe, rest)"
    by (simp add: ReadVaruint_list)
  from ParseFrame_body_wrapped [OF _ _ this, of _ "0x54 # 0xab # src # dest # _"] assms show ?thesis
    by (subst ParseFrame.simps) (simp add: DiscardUntil_def)
qed

theorem rs485_size_wraps_witness:
  "ParseFrame (\<lambda>_. 0) ([0x54, 0xab, 1, 2, 0xfe, 0xff, 0xff, 0xff, 0x0f] @ [7]) frame_init
     = Inl BadOptional"
  by (rule rs485_size_wraps) simp

end
