(* ===== verification/Command_Manager.thy ===== *)
theory Command_Manager
  imports Byte_Streams
begin

text \<open>
  The text interface of the firmware: \<open>base/tokenizer.h\<close>, \<open>micro/pool_map.h\<close>,
  \<open>micro/async_exclusive.h\<close>, \<open>micro/async_read.h\<close> and \<open>micro/command_manager.cc\<close>. A command
  manager reads lines from a stream, looks the first word up in its registry and calls the
  command with the rest of the line, once the write stream, which it shares with others, is
  free. Callbacks are events: a call of the model is what runs until control is back in the
  event loop, and its result lists what was called outside.
\<close>

section \<open>Definitions\<close>

subsection \<open>Tokenizer\<close>

text \<open>
  A tokenizer is the rest of its source. \<open>strchr\<close> also finds the terminator of the list of
  delimiters, so that a zero byte ends a token.
\<close>

definition is_delim :: "byte list \<Rightarrow> byte \<Rightarrow> bool" where
  "is_delim delimiters c \<longleftrightarrow> c \<in> set delimiters \<or> c = 0"

definition tk_next :: "byte list \<Rightarrow> byte list \<Rightarrow> byte list \<times> byte list" where
  "tk_next delimiters source =
     (let token = takeWhile (\<lambda>c. \<not> is_delim delimiters c) source
      in (token, drop (length token + 1) source))"

subsection \<open>PoolMap\<close>

record ('k, 'v) pool_map =
  pm_nodes :: "('k \<times> 'v) list"
  pm_max :: nat

definition pm_init :: "nat \<Rightarrow> ('k, 'v) pool_map" where
  "pm_init n = \<lparr>pm_nodes = [], pm_max = n\<rparr>"

text \<open>The place of the node with a key; the number of nodes stands for \<open>end()\<close>.\<close>

fun find_node :: "('k \<times> 'v) list \<Rightarrow> 'k \<Rightarrow> nat" where
  "find_node [] key = 0"
| "find_node (n # ns) key = (if fst n = key then 0 else Suc (find_node ns key))"

definition pm_find :: "('k, 'v) pool_map \<Rightarrow> 'k \<Rightarrow> nat option" where
  "pm_find m key = (let i = find_node (pm_nodes m) key in if i < length (pm_nodes m) then Some i else None)"

definition pm_insert :: "('k, 'v) pool_map \<Rightarrow> 'k \<Rightarrow> 'v \<Rightarrow> ((nat \<times> bool) \<times> ('k, 'v) pool_map) res" where
  "pm_insert m key val =
     (let i = find_node (pm_nodes m) key
      in if i < length (pm_nodes m) then Inr ((i, False), m)
         else sbind (mj_assert (i < pm_max m)) (\<lambda>_.
              Inr ((i, True), m\<lparr>pm_nodes := pm_nodes m @ [(key, val)]\<rparr>)))"

definition pm_lookup :: "('k, 'v) pool_map \<Rightarrow> 'k \<Rightarrow> 'v option" where
  "pm_lookup m key = map_option (\<lambda>i. snd (pm_nodes m ! i)) (pm_find m key)"

subsection \<open>AsyncExclusive\<close>

text \<open>
  \<open>AsyncStart\<close> runs the operation at once, which is the result, or puts it into the first free
  place; the operation's callback releases the resource and runs the first one waiting.
\<close>

record 'p async_exclusive =
  ex_outstanding :: bool
  ex_callbacks :: "'p option list"

definition ex_init :: "nat \<Rightarrow> 'p async_exclusive" where
  "ex_init n = \<lparr>ex_outstanding = False, ex_callbacks = replicate n None\<rparr>"

fun put_first :: "'p \<Rightarrow> 'p option list \<Rightarrow> 'p option list option" where
  "put_first p [] = None"
| "put_first p (None # xs) = Some (Some p # xs)"
| "put_first p (Some q # xs) = map_option ((#) (Some q)) (put_first p xs)"

fun take_first :: "'p option list \<Rightarrow> ('p \<times> 'p option list) option" where
  "take_first [] = None"
| "take_first (None # xs) = map_option (\<lambda>(p, ys). (p, None # ys)) (take_first xs)"
| "take_first (Some q # xs) = Some (q, None # xs)"

definition ex_AsyncStart :: "'p \<Rightarrow> 'p async_exclusive \<Rightarrow> ('p option \<times> 'p async_exclusive) res" where
  "ex_AsyncStart op x =
     (if \<not> ex_outstanding x then Inr (Some op, x\<lparr>ex_outstanding := True\<rparr>)
      else case put_first op (ex_callbacks x) of
             None \<Rightarrow> Inl AssertFailed
           | Some cs \<Rightarrow> Inr (None, x\<lparr>ex_callbacks := cs\<rparr>))"

definition ex_release :: "'p async_exclusive \<Rightarrow> ('p option \<times> 'p async_exclusive) res" where
  "ex_release x =
     (let x = x\<lparr>ex_outstanding := False\<rparr>
      in case take_first (ex_callbacks x) of
           None \<Rightarrow> Inr (None, x)
         | Some (op, cs) \<Rightarrow> ex_AsyncStart op (x\<lparr>ex_callbacks := cs\<rparr>))"

definition ex_waiting :: "'p async_exclusive \<Rightarrow> nat" where
  "ex_waiting x = length (filter (\<lambda>c. c \<noteq> None) (ex_callbacks x))"

lemma put_first_waiting:
  "put_first p cs = Some ds \<Longrightarrow>
   length (filter (\<lambda>c. c \<noteq> None) ds) = Suc (length (filter (\<lambda>c. c \<noteq> None) cs)) \<and> length ds = length cs"
  by (induction p cs arbitrary: ds rule: put_first.induct) (auto simp del: not_None_eq)

lemma take_first_waiting:
  "take_first cs = Some (p, ds) \<Longrightarrow>
   length (filter (\<lambda>c. c \<noteq> None) cs) = Suc (length (filter (\<lambda>c. c \<noteq> None) ds)) \<and> length ds = length cs"
  by (induction cs arbitrary: ds rule: take_first.induct) (auto simp del: not_None_eq)

lemma ex_release_waiting:
  "ex_release x = Inr (Some op, y) \<Longrightarrow> ex_waiting y < ex_waiting x"
  by (auto simp: ex_release_def ex_AsyncStart_def ex_waiting_def Let_def simp del: not_None_eq
      dest!: take_first_waiting split: option.split_asm)

subsection \<open>CommandManager\<close>

text \<open>
  Reads that are outstanding: \<open>AsyncReadUntil\<close> at a position of the line buffer, or
  \<open>AsyncIgnoreUntil\<close>; both call the callback that stands in the one shared context when they
  are done. Operations on the write stream: the command manager's, or one of another user.
\<close>

datatype cm_read = ReadUntil nat | IgnoreUntil

datatype cm_handler = CallHandleRead | CallMaybeStartRead

datatype cm_op = CommandOp | OtherOp nat

text \<open>A command: one that is registered, or \<open>UnknownGroup\<close>.\<close>

datatype 'c cm_command = Registered 'c | UnknownGroup

text \<open>
  What is called outside: a command with its arguments (\<open>UnknownGroup\<close> writes its message), and
  the operation of another user that gets the write stream.
\<close>

datatype 'c cm_out = CallCommand "'c cm_command" "byte list" | StartOther nat

record 'c command_manager =
  max_line_length :: nat
  registry :: "(byte list, 'c) pool_map"
  cm_write_stream :: "cm_op async_exclusive"
  cm_write_outstanding :: bool
  line_buffer :: "byte list"
  arguments :: "byte list"
  group_arguments :: nat
  current_command :: "'c cm_command option"
  done_callback :: bool
  context_callback :: cm_handler
  reads :: "cm_read list"

definition cm_init :: "nat \<Rightarrow> cm_op async_exclusive \<Rightarrow> 'c command_manager" where
  "cm_init n x = \<lparr>max_line_length = n, registry = pm_init 16, cm_write_stream = x, cm_write_outstanding = False,
     line_buffer = replicate n 0, arguments = replicate n 0, group_arguments = 0, current_command = None,
     done_callback = False, context_callback = CallHandleRead, reads = []\<rparr>"

definition cm_Register :: "byte list \<Rightarrow> 'c \<Rightarrow> 'c command_manager \<Rightarrow> 'c command_manager res" where
  "cm_Register name command s =
     sbind (pm_insert (registry s) name command) (\<lambda>((_, inserted), m).
     sbind (mj_assert inserted) (\<lambda>_. Inr (s\<lparr>registry := m\<rparr>)))"

definition cm_MaybeStartRead :: "'c command_manager \<Rightarrow> 'c command_manager res" where
  "cm_MaybeStartRead s =
     (if cm_write_outstanding s then Inr s
      else sbind (mj_assert (max_line_length s < 65535)) (\<lambda>_.
           Inr (s\<lparr>context_callback := CallHandleRead, reads := reads s @ [ReadUntil 0]\<rparr>)))"

text \<open>
  The operation, when the write stream is there, and the callback of the response. The
  application says whether a command calls its callback before it returns.
\<close>

function cm_operation :: "('c cm_command \<Rightarrow> byte list \<Rightarrow> bool) \<Rightarrow> 'c command_manager \<Rightarrow>
    ('c cm_out list \<times> 'c command_manager) res"
  and cm_response :: "('c cm_command \<Rightarrow> byte list \<Rightarrow> bool) \<Rightarrow> 'c command_manager \<Rightarrow>
    ('c cm_out list \<times> 'c command_manager) res" where
  "cm_operation app s =
     (case current_command s of
        None \<Rightarrow> Inl Thrown
      | Some command \<Rightarrow>
          let args = take (group_arguments s) (arguments s);
              s = s\<lparr>current_command := None, group_arguments := 0, done_callback := True\<rparr>
          in if app command args
             then sbind (cm_response app s) (\<lambda>(out, s). Inr (CallCommand command args # out, s))
             else Inr ([CallCommand command args], s))"
| "cm_response app s =
     (if \<not> done_callback s then Inl Thrown
      else sbind (ex_release (cm_write_stream s)) (\<lambda>(started, x).
           let s = s\<lparr>cm_write_outstanding := False, done_callback := False, cm_write_stream := x\<rparr>
           in sbind (case started of
                None \<Rightarrow> Inr ([], s)
              | Some (OtherOp k) \<Rightarrow> Inr ([StartOther k], s)
              | Some CommandOp \<Rightarrow> cm_operation app s) (\<lambda>(out, s).
              sbind (cm_MaybeStartRead s) (\<lambda>s. Inr (out, s)))))"
  by pat_completeness auto

termination cm_operation
  by (relation "measure (\<lambda>a. case a of Inl (app, s) \<Rightarrow> 2 * ex_waiting (cm_write_stream s) + 1
      | Inr (app, s) \<Rightarrow> 2 * ex_waiting (cm_write_stream s))")
    (auto dest!: ex_release_waiting)

declare cm_operation.simps [simp del] cm_response.simps [simp del]

definition cm_HandleCommand ::
  "('c cm_command \<Rightarrow> byte list \<Rightarrow> bool) \<Rightarrow> 'c command_manager \<Rightarrow> nat \<Rightarrow> ('c cm_out list \<times> 'c command_manager) res" where
  "cm_HandleCommand app s n =
     sbind (mj_assert (\<not> cm_write_outstanding s)) (\<lambda>_.
     if n = 0 then Inl BufferOverrun
     else
       let line = take (n - 1) (line_buffer s);
           (cmd, args) = tk_next (ascii '' '') line
       in if cmd = [] then Inr ([], s)
          else
            let command = (case pm_lookup (registry s) cmd of None \<Rightarrow> UnknownGroup | Some c \<Rightarrow> Registered c);
                s = s\<lparr>current_command := Some command,
                      arguments := overwrite (replicate (max_line_length s) 0) 0 args,
                      group_arguments := length args,
                      line_buffer := replicate (max_line_length s) 0,
                      cm_write_outstanding := True\<rparr>
            in sbind (ex_AsyncStart CommandOp (cm_write_stream s)) (\<lambda>(started, x).
               let s = s\<lparr>cm_write_stream := x\<rparr>
               in if started = None then Inr ([], s) else cm_operation app s))"

definition cm_HandleRead ::
  "('c cm_command \<Rightarrow> byte list \<Rightarrow> bool) \<Rightarrow> 'c command_manager \<Rightarrow> bool \<Rightarrow> nat \<Rightarrow>
   ('c cm_out list \<times> 'c command_manager) res" where
  "cm_HandleRead app s error n =
     (if error then Inr ([], s\<lparr>context_callback := CallMaybeStartRead, reads := reads s @ [IgnoreUntil]\<rparr>)
      else sbind (cm_HandleCommand app s n) (\<lambda>(out, s).
           sbind (cm_MaybeStartRead s) (\<lambda>s. Inr (out, s))))"

definition cm_callback ::
  "('c cm_command \<Rightarrow> byte list \<Rightarrow> bool) \<Rightarrow> 'c command_manager \<Rightarrow> bool \<Rightarrow> nat \<Rightarrow>
   ('c cm_out list \<times> 'c command_manager) res" where
  "cm_callback app s error n =
     (case context_callback s of
        CallHandleRead \<Rightarrow> cm_HandleRead app s error n
      | CallMaybeStartRead \<Rightarrow> sbind (cm_MaybeStartRead s) (\<lambda>s. Inr ([], s)))"

text \<open>
  \<open>AsyncReadSome\<close> for the outstanding read \<open>k\<close> is done: it has stored \<open>d\<close> where the read began,
  and failed or not.
\<close>

definition cm_read_done ::
  "('c cm_command \<Rightarrow> byte list \<Rightarrow> bool) \<Rightarrow> nat \<Rightarrow> bool \<Rightarrow> byte list \<Rightarrow> 'c command_manager \<Rightarrow>
   ('c cm_out list \<times> 'c command_manager) res" where
  "cm_read_done app k error d s =
     (let r = reads s ! k;
          position = (case r of ReadUntil p \<Rightarrow> p | IgnoreUntil \<Rightarrow> 0);
          s = s\<lparr>reads := take k (reads s) @ drop (Suc k) (reads s),
                line_buffer := overwrite (line_buffer s) position d\<rparr>
      in if length (line_buffer s) \<noteq> max_line_length s \<or> position \<ge> max_line_length s then Inl BufferOverrun
         else case r of
           ReadUntil p \<Rightarrow>
             if error then cm_callback app s True (p + length d)
             else sbind (mj_assert (length d \<le> 1)) (\<lambda>_.
               if is_delim [13, 10] (line_buffer s ! p) then cm_callback app s False (p + length d)
               else if p + 1 = max_line_length s then cm_callback app s True p
               else Inr ([], s\<lparr>reads := reads s @ [ReadUntil (p + 1)]\<rparr>))
         | IgnoreUntil \<Rightarrow>
             if error then cm_callback app s True 0
             else if is_delim [13, 10] (line_buffer s ! 0) then cm_callback app s False 0
             else Inr ([], s\<lparr>reads := reads s @ [IgnoreUntil]\<rparr>))"

definition cm_AsyncStart :: "'c command_manager \<Rightarrow> 'c command_manager res" where
  "cm_AsyncStart s = cm_MaybeStartRead s"

section \<open>The registry\<close>

text \<open>What a map with unique keys promises; the registry is one.\<close>

locale unique_map =
  fixes lookup :: "'m \<Rightarrow> 'k \<Rightarrow> 'v option"
    and insert_new :: "'m \<Rightarrow> 'k \<Rightarrow> 'v \<Rightarrow> 'm res"
  assumes insert_lookup: "insert_new m k v = Inr m' \<Longrightarrow> lookup m' x = (if x = k then Some v else lookup m x)"
    and insert_fresh: "insert_new m k v = Inr m' \<Longrightarrow> lookup m k = None"
begin

lemma insert_keeps: "insert_new m k v = Inr m' \<Longrightarrow> lookup m x = Some y \<Longrightarrow> lookup m' x = Some y"
  by (auto simp: insert_lookup insert_fresh)

lemma insert_twice_fails: "insert_new m k v = Inr m' \<Longrightarrow> \<exists>e. insert_new m' k w = Inl e"
  using insert_fresh insert_lookup by (cases "insert_new m' k w") fastforce+

end

lemma find_node_le: "find_node ns key \<le> length ns"
  by (induction ns) auto

lemma find_node_map_of: "map_of ns key = (if find_node ns key < length ns then Some (snd (ns ! find_node ns key)) else None)"
  by (induction ns) auto

lemma pm_lookup_map_of: "pm_lookup m key = map_of (pm_nodes m) key"
  by (simp add: pm_lookup_def pm_find_def find_node_map_of Let_def)

lemma pm_insert_new:
  "pm_insert m key v = Inr ((i, True), m') \<longleftrightarrow>
   map_of (pm_nodes m) key = None \<and> i = length (pm_nodes m) \<and> i < pm_max m \<and> m' = m\<lparr>pm_nodes := pm_nodes m @ [(key, v)]\<rparr>"
  using find_node_le [of "pm_nodes m" key]
  by (auto simp: pm_insert_def find_node_map_of Let_def sbind_eq_Inr_iff split: if_splits)

interpretation commands: unique_map "\<lambda>s. pm_lookup (registry s)" "\<lambda>s name c. cm_Register name c s"
proof unfold_locales
  fix s s' :: "'c command_manager" and name c x
  assume reg: "cm_Register name c s = Inr s'"
  then obtain i m where m: "pm_insert (registry s) name c = Inr ((i, True), m)" "s' = s\<lparr>registry := m\<rparr>"
    by (auto simp: cm_Register_def sbind_eq_Inr_iff)
  show "pm_lookup (registry s') x = (if x = name then Some c else pm_lookup (registry s) x)"
    and "pm_lookup (registry s) name = None"
    using m by (auto simp: pm_insert_new pm_lookup_map_of map_add_def split: option.splits)
qed

section \<open>Lines\<close>

text \<open>The commands that a text stands for: its complete lines, without those that are too long.\<close>

fun lines_of :: "byte list \<Rightarrow> byte list \<Rightarrow> byte list list" where
  "lines_of acc [] = []"
| "lines_of acc (c # cs) = (if c \<in> {13, 10, 0} then acc # lines_of [] cs else lines_of (acc @ [c]) cs)"

text \<open>The first word of a line and what is behind the space; a zero byte counts as one.\<close>

definition line_command :: "(byte list \<rightharpoonup> 'c) \<Rightarrow> nat \<Rightarrow> byte list \<Rightarrow> 'c cm_out list" where
  "line_command cmds n line =
     (let cmd = takeWhile (\<lambda>c. c \<notin> {32, 0}) line;
          args = tl (dropWhile (\<lambda>c. c \<notin> {32, 0}) line)
      in if length line \<ge> n \<or> cmd = [] then []
         else [CallCommand (case cmds cmd of None \<Rightarrow> UnknownGroup | Some c \<Rightarrow> Registered c) args])"

lemma is_delim_line: "is_delim [13, 10] c \<longleftrightarrow> c \<in> {13, 10, 0}"
  by (auto simp: is_delim_def)

lemma line_command_tk:
  "line_command cmds n line =
     (case tk_next (ascii '' '') line of
        (cmd, args) \<Rightarrow>
          if length line \<ge> n \<or> cmd = [] then []
          else [CallCommand (case cmds cmd of None \<Rightarrow> UnknownGroup | Some c \<Rightarrow> Registered c) args])"
proof -
  let ?p = "\<lambda>c :: byte. c \<notin> {32, 0}"
  have "(\<lambda>c. \<not> is_delim (ascii '' '') c) = ?p" by (auto simp: is_delim_def fun_eq_iff)
  then have "tk_next (ascii '' '') line = (takeWhile ?p line, tl (dropWhile ?p line))"
    unfolding tk_next_def by (simp add: dropWhile_eq_drop drop_Suc tl_drop Let_def)
  then show ?thesis by (simp add: line_command_def Let_def)
qed

text \<open>A byte arrives; a command that is called answers later, before the next byte.\<close>

abbreviation later :: "'c cm_command \<Rightarrow> byte list \<Rightarrow> bool" where
  "later \<equiv> \<lambda>_ _. False"

definition cm_byte :: "byte \<Rightarrow> 'c command_manager \<Rightarrow> ('c cm_out list \<times> 'c command_manager) res" where
  "cm_byte c s =
     sbind (cm_read_done later 0 False [c] s) (\<lambda>(out, s).
     if out = [] then Inr ([], s)
     else sbind (cm_response later s) (\<lambda>(more_out, s). Inr (out @ more_out, s)))"

fun cm_feed :: "byte list \<Rightarrow> 'c command_manager \<Rightarrow> ('c cm_out list \<times> 'c command_manager) res" where
  "cm_feed [] s = Inr ([], s)"
| "cm_feed (c # cs) s =
     sbind (cm_byte c s) (\<lambda>(out, s). sbind (cm_feed cs s) (\<lambda>(more_out, s). Inr (out @ more_out, s)))"

text \<open>The state of the manager in a line of which \<open>acc\<close> has been read.\<close>

definition cm_at :: "(byte list, 'c) pool_map \<Rightarrow> nat \<Rightarrow> byte list \<Rightarrow> 'c command_manager \<Rightarrow> bool" where
  "cm_at reg n acc s \<longleftrightarrow>
     registry s = reg \<and> max_line_length s = n \<and> 0 < n \<and> n < 65535
     \<and> \<not> cm_write_outstanding s \<and> \<not> done_callback s
     \<and> \<not> ex_outstanding (cm_write_stream s) \<and> take_first (ex_callbacks (cm_write_stream s)) = None
     \<and> length (line_buffer s) = n \<and> length (arguments s) = n
     \<and> (if length acc < n
        then reads s = [ReadUntil (length acc)] \<and> context_callback s = CallHandleRead \<and> take (length acc) (line_buffer s) = acc
        else reads s = [IgnoreUntil] \<and> context_callback s = CallMaybeStartRead)"

lemma length_tk_next: "length (snd (tk_next ds xs)) \<le> length xs"
  by (simp add: tk_next_def Let_def)

lemma cm_HandleCommand_later:
  assumes at: "\<not> cm_write_outstanding s" "\<not> ex_outstanding (cm_write_stream s)" "take_first (ex_callbacks (cm_write_stream s)) = None"
    and line: "length line < max_line_length s" "take (length line) (line_buffer s) = line" "length (line_buffer s) = max_line_length s"
    and out: "line_command (pm_lookup (registry s)) (max_line_length s) line = out"
  shows "\<exists>s'. cm_HandleCommand later s (Suc (length line)) = Inr (out, s')
    \<and> (if out = [] then s' = s
       else cm_write_outstanding s' \<and> done_callback s' \<and> ex_outstanding (cm_write_stream s')
         \<and> ex_callbacks (cm_write_stream s') = ex_callbacks (cm_write_stream s)
         \<and> line_buffer s' = replicate (max_line_length s) 0 \<and> length (arguments s') = max_line_length s
         \<and> registry s' = registry s \<and> max_line_length s' = max_line_length s \<and> reads s' = reads s)"
proof -
  obtain cmd args where tk: "tk_next (ascii '' '') line = (cmd, args)" by fastforce
  have len: "length args < max_line_length s" using length_tk_next [of "ascii '' ''" line] tk line(1) by simp
  show ?thesis
    using at line out tk len
    by (auto simp: cm_HandleCommand_def line_command_tk Let_def ex_AsyncStart_def cm_operation.simps overwrite_def split: if_split_asm)
qed

lemma cm_response_free:
  assumes "done_callback s" and "take_first (ex_callbacks (cm_write_stream s)) = None" and "max_line_length s < 65535"
  shows "cm_response later s = Inr ([], s\<lparr>cm_write_outstanding := False, done_callback := False,
    cm_write_stream := (cm_write_stream s)\<lparr>ex_outstanding := False\<rparr>,
    context_callback := CallHandleRead, reads := reads s @ [ReadUntil 0]\<rparr>)"
  using assms by (simp add: cm_response.simps ex_release_def Let_def cm_MaybeStartRead_def)

lemma overwrite_at:
  "p < length xs \<Longrightarrow> overwrite xs p [c] ! p = c"
  "p < length xs \<Longrightarrow> take p xs = acc \<Longrightarrow> take (Suc p) (overwrite xs p [c]) = acc @ [c]"
  using take_overwrite [of p xs "[c]"] by (simp_all add: overwrite_def nth_append)

lemma cm_byte_in_line:
  assumes at: "cm_at reg n acc s" and "\<not> is_delim [13, 10] c"
  shows "\<exists>s'. cm_byte c s = Inr ([], s') \<and> cm_at reg n (acc @ [c]) s'"
proof (cases "length acc < n")
  case True
  with assms show ?thesis
    by (auto simp: cm_at_def cm_byte_def cm_read_done_def Let_def overwrite_at cm_callback_def cm_HandleRead_def)
next
  case False
  with assms show ?thesis
    by (auto simp: cm_at_def cm_byte_def cm_read_done_def Let_def overwrite_at)
qed

lemma cm_byte_end_of_line:
  assumes at: "cm_at reg n acc s" and d: "is_delim [13, 10] c"
  shows "\<exists>s'. cm_byte c s = Inr (line_command (pm_lookup reg) n acc, s') \<and> cm_at reg n [] s'"
proof (cases "length acc < n")
  case True
  let ?s = "s\<lparr>reads := [], line_buffer := overwrite (line_buffer s) (length acc) [c]\<rparr>"
  have step: "cm_read_done later 0 False [c] s = cm_callback later ?s False (Suc (length acc))"
    using at d True by (simp add: cm_at_def cm_read_done_def Let_def overwrite_at)
  have take: "take (length acc) (overwrite (line_buffer s) (length acc) [c]) = acc"
    using at True by (simp add: cm_at_def take_overwrite_before)
  let ?out = "line_command (pm_lookup reg) n acc"
  obtain s' where s': "cm_HandleCommand later ?s (Suc (length acc)) = Inr (?out, s')"
      "if ?out = [] then s' = ?s
       else cm_write_outstanding s' \<and> done_callback s' \<and> ex_outstanding (cm_write_stream s')
         \<and> ex_callbacks (cm_write_stream s') = ex_callbacks (cm_write_stream s)
         \<and> line_buffer s' = replicate n 0 \<and> length (arguments s') = n
         \<and> registry s' = reg \<and> max_line_length s' = n \<and> reads s' = []"
    using cm_HandleCommand_later [of ?s acc ?out] at take True by (auto simp: cm_at_def)
  have ctx: "context_callback s = CallHandleRead" "length (overwrite (line_buffer s) (length acc) [c]) = n"
    using at True by (simp_all add: cm_at_def)
  show ?thesis
  proof (cases "?out = []")
    case out: True
    with s' at step ctx show ?thesis
      by (auto simp: cm_byte_def cm_callback_def cm_HandleRead_def cm_MaybeStartRead_def cm_at_def)
  next
    case out: False
    with s' at step ctx cm_response_free [of s'] show ?thesis
      by (auto simp: cm_byte_def cm_callback_def cm_HandleRead_def cm_MaybeStartRead_def cm_at_def)
  qed
next
  case False
  then have "line_command (pm_lookup reg) n acc = []" by (simp add: line_command_tk split_def)
  with False assms show ?thesis
    by (auto simp: cm_at_def cm_byte_def cm_read_done_def Let_def overwrite_at cm_callback_def cm_MaybeStartRead_def)
qed

lemma cm_feed_lines:
  "cm_at reg n acc s \<Longrightarrow>
   \<exists>s' rest. cm_feed bs s = Inr (concat (map (line_command (pm_lookup reg) n) (lines_of acc bs)), s') \<and> cm_at reg n rest s'"
proof (induction bs arbitrary: acc s)
  case (Cons c cs)
  show ?case
  proof (cases "is_delim [13, 10] c")
    case True
    with cm_byte_end_of_line [OF Cons.prems] obtain t where
      t: "cm_byte c s = Inr (line_command (pm_lookup reg) n acc, t)" "cm_at reg n [] t" by blast
    from Cons.IH [OF t(2)] t(1) True show ?thesis by (auto simp: is_delim_line)
  next
    case False
    with cm_byte_in_line [OF Cons.prems] obtain t where
      t: "cm_byte c s = Inr ([], t)" "cm_at reg n (acc @ [c]) t" by blast
    from Cons.IH [OF t(2)] t(1) False show ?thesis by (auto simp: is_delim_line)
  qed
qed auto

section \<open>Any order of events\<close>

text \<open>
  The events of a command manager whose commands answer later: a read is done, a command has
  answered, another user asks for the write stream or is done with it.
\<close>

inductive cm_reach :: "nat \<Rightarrow> 'c command_manager \<Rightarrow> bool" where
  start: "0 < n \<Longrightarrow> cm_AsyncStart ((cm_init n (ex_init k))\<lparr>registry := m\<rparr>) = Inr s \<Longrightarrow> cm_reach n s"
| read: "cm_reach n s \<Longrightarrow> k < length (reads s) \<Longrightarrow> length d \<le> 1 \<Longrightarrow> error \<or> d \<noteq> [] \<Longrightarrow>
    cm_read_done later k error d s = Inr (out, s') \<Longrightarrow> cm_reach n s'"
| answer: "cm_reach n s \<Longrightarrow> done_callback s \<Longrightarrow> cm_response later s = Inr (out, s') \<Longrightarrow> cm_reach n s'"
| other: "cm_reach n s \<Longrightarrow> ex_AsyncStart (OtherOp j) (cm_write_stream s) = Inr (started, x) \<Longrightarrow>
    cm_reach n (s\<lparr>cm_write_stream := x\<rparr>)"
| release: "cm_reach n s \<Longrightarrow> ex_outstanding (cm_write_stream s) \<Longrightarrow> \<not> done_callback s \<Longrightarrow>
    ex_release (cm_write_stream s) = Inr (started, x) \<Longrightarrow>
    (if started = Some CommandOp then cm_operation later (s\<lparr>cm_write_stream := x\<rparr>) = Inr (out, s')
     else s' = s\<lparr>cm_write_stream := x\<rparr>) \<Longrightarrow> cm_reach n s'"

text \<open>How often the command manager waits for the write stream.\<close>

definition cm_waits :: "'c command_manager \<Rightarrow> nat" where
  "cm_waits s = count_list (ex_callbacks (cm_write_stream s)) (Some CommandOp)"

definition cm_inv :: "nat \<Rightarrow> 'c command_manager \<Rightarrow> bool" where
  "cm_inv n s \<longleftrightarrow>
     0 < n \<and> n < 65535 \<and> max_line_length s = n \<and> length (line_buffer s) = n
     \<and> (\<forall>p. reads s = [ReadUntil p] \<longrightarrow> p < n \<and> context_callback s = CallHandleRead)
     \<and> (reads s = [IgnoreUntil] \<longrightarrow> context_callback s = CallMaybeStartRead)
     \<and> (if cm_write_outstanding s
        then reads s = [] \<and> ex_outstanding (cm_write_stream s)
          \<and> (done_callback s \<and> cm_waits s = 0 \<or> \<not> done_callback s \<and> cm_waits s = 1 \<and> current_command s \<noteq> None)
        else length (reads s) = 1 \<and> \<not> done_callback s \<and> cm_waits s = 0)
     \<and> (\<not> ex_outstanding (cm_write_stream s) \<longrightarrow> take_first (ex_callbacks (cm_write_stream s)) = None)"

lemma put_first_count:
  "put_first p cs = Some ds \<Longrightarrow> count_list ds (Some q) = count_list cs (Some q) + (if p = q then 1 else 0)"
  by (induction p cs arbitrary: ds rule: put_first.induct) auto

lemma take_first_count:
  "take_first cs = Some (p, ds) \<Longrightarrow> count_list cs (Some q) = count_list ds (Some q) + (if p = q then 1 else 0)"
  by (induction cs arbitrary: ds rule: take_first.induct) auto

lemma take_first_None: "take_first cs = None \<Longrightarrow> count_list cs (Some q) = 0"
  by (induction cs rule: take_first.induct) auto

lemma take_first_replicate [simp]: "take_first (replicate k None) = None"
  by (induction k) auto

text \<open>The state in the middle of an event: no read is outstanding.\<close>

definition cm_mid :: "nat \<Rightarrow> 'c command_manager \<Rightarrow> bool" where
  "cm_mid n s \<longleftrightarrow>
     0 < n \<and> n < 65535 \<and> max_line_length s = n \<and> length (line_buffer s) = n \<and> reads s = []
     \<and> \<not> cm_write_outstanding s \<and> \<not> done_callback s \<and> cm_waits s = 0
     \<and> (\<not> ex_outstanding (cm_write_stream s) \<longrightarrow> take_first (ex_callbacks (cm_write_stream s)) = None)"

text \<open>An event is handled and the invariant holds again, or too many wait for the write stream.\<close>

definition handled :: "nat \<Rightarrow> 'c command_manager \<Rightarrow> ('c cm_out list \<times> 'c command_manager) res \<Rightarrow> bool" where
  "handled n s r \<longleftrightarrow> (\<exists>out s'. r = Inr (out, s') \<and> cm_inv n s')
     \<or> r = Inl AssertFailed \<and> ex_outstanding (cm_write_stream s) \<and> put_first CommandOp (ex_callbacks (cm_write_stream s)) = None"

lemma cm_MaybeStartRead_inv:
  "cm_mid n s \<Longrightarrow> \<exists>s'. cm_MaybeStartRead s = Inr s' \<and> cm_inv n s'"
  by (auto simp: cm_mid_def cm_inv_def cm_MaybeStartRead_def cm_waits_def)

lemma cm_HandleRead_inv:
  assumes mid: "cm_mid n s" and "error \<or> 0 < m"
  shows "handled n s (cm_HandleRead later s error m)"
proof (cases error)
  case True
  with mid show ?thesis by (auto simp: handled_def cm_HandleRead_def cm_mid_def cm_inv_def cm_waits_def)
next
  case False
  with assms(2) have m: "m \<noteq> 0" by simp
  obtain cmd args where tk: "tk_next (ascii '' '') (take (m - 1) (line_buffer s)) = (cmd, args)" by fastforce
  show ?thesis
  proof (cases "cmd = []")
    case True
    with cm_MaybeStartRead_inv [OF mid] False m tk mid show ?thesis
      by (auto simp: handled_def cm_HandleRead_def cm_HandleCommand_def cm_mid_def)
  next
    case cmd: False
    show ?thesis
    proof (cases "ex_outstanding (cm_write_stream s)")
      case True
      with False m tk mid cmd show ?thesis
        by (cases "put_first CommandOp (ex_callbacks (cm_write_stream s))")
          (auto simp: handled_def cm_HandleRead_def cm_HandleCommand_def cm_mid_def Let_def ex_AsyncStart_def cm_MaybeStartRead_def
            cm_inv_def cm_waits_def dest!: put_first_count [of _ _ _ CommandOp])
    next
      case free: False
      with False m tk mid cmd show ?thesis
        by (auto simp: handled_def cm_HandleRead_def cm_HandleCommand_def cm_mid_def Let_def ex_AsyncStart_def cm_MaybeStartRead_def
            cm_operation.simps cm_inv_def cm_waits_def)
    qed
  qed
qed

lemma cm_callback_inv:
  assumes "cm_mid n s" and "error \<or> 0 < m \<or> context_callback s = CallMaybeStartRead"
  shows "handled n s (cm_callback later s error m)"
  using cm_MaybeStartRead_inv [OF assms(1)] cm_HandleRead_inv [OF assms(1), of error m] assms(2)
  by (cases "context_callback s") (auto simp: handled_def cm_callback_def)

lemma put_first_full: "put_first p cs = None \<longleftrightarrow> None \<notin> set cs"
  by (induction p cs rule: put_first.induct) auto

lemma cm_read_done_inv:
  assumes inv: "cm_inv n s" and k: "k < length (reads s)" and d: "length d \<le> 1" "error \<or> d \<noteq> []"
  shows "handled n s (cm_read_done later k error d s)"
proof -
  have w: "\<not> cm_write_outstanding s" using inv k by (auto simp: cm_inv_def split: if_splits)
  then obtain r where r: "reads s = [r]" using inv by (auto simp: cm_inv_def length_Suc_conv)
  with k have k0: "k = 0" by simp
  let ?p = "case r of ReadUntil p \<Rightarrow> p | IgnoreUntil \<Rightarrow> 0"
  let ?s = "s\<lparr>reads := [], line_buffer := overwrite (line_buffer s) ?p d\<rparr>"
  have p: "?p < n" using inv r by (auto simp: cm_inv_def split: cm_read.split)
  then have len: "length (overwrite (line_buffer s) ?p d) = n" using inv d by (auto simp: cm_inv_def)
  have mid: "cm_mid n ?s" using inv w r len by (auto simp: cm_mid_def cm_inv_def cm_waits_def)
  have call: "handled n s (cm_callback later ?s e m)" if "e \<or> 0 < m \<or> context_callback s = CallMaybeStartRead" for e m
    using cm_callback_inv [OF mid, of e m] that by (simp add: handled_def)
  show ?thesis
  proof (cases r)
    case (ReadUntil q)
    have "cm_read_done later k error d s = (if error then cm_callback later ?s True (q + length d)
      else if is_delim [13, 10] (overwrite (line_buffer s) q d ! q) then cm_callback later ?s False (q + length d)
      else if q + 1 = n then cm_callback later ?s True q
      else Inr ([], ?s\<lparr>reads := [ReadUntil (q + 1)]\<rparr>))"
      using ReadUntil r k0 d(1) p len inv by (simp add: cm_read_done_def Let_def cm_inv_def)
    moreover have "cm_inv n (?s\<lparr>reads := [ReadUntil (q + 1)]\<rparr>)" if "q + 1 \<noteq> n"
      using ReadUntil r p len inv w that by (auto simp: cm_inv_def cm_waits_def)
    ultimately show ?thesis using call [of True] call [of False "q + length d"] d(2) by (auto simp: handled_def)
  next
    case IgnoreUntil
    then have ctx: "context_callback s = CallMaybeStartRead" using inv r by (simp add: cm_inv_def)
    have "cm_read_done later k error d s = (if error then cm_callback later ?s True 0
      else if is_delim [13, 10] (overwrite (line_buffer s) 0 d ! 0) then cm_callback later ?s False 0
      else Inr ([], ?s\<lparr>reads := [IgnoreUntil]\<rparr>))"
      using IgnoreUntil r k0 d(1) p len inv by (simp add: cm_read_done_def Let_def cm_inv_def)
    moreover have "cm_inv n (?s\<lparr>reads := [IgnoreUntil]\<rparr>)"
      using IgnoreUntil r p len inv w ctx by (auto simp: cm_inv_def cm_waits_def)
    ultimately show ?thesis using call [of True 0] call [of False 0] ctx by (auto simp: handled_def)
  qed
qed

lemma cm_read_done_accepted:
  assumes "cm_inv n s" and "k < length (reads s)" and "length d \<le> 1" and "error \<or> d \<noteq> []"
    and "ex_outstanding (cm_write_stream s) \<longrightarrow> None \<in> set (ex_callbacks (cm_write_stream s))"
  shows "\<exists>out s'. cm_read_done later k error d s = Inr (out, s')"
  using cm_read_done_inv [OF assms(1-4)] assms(5) by (auto simp: handled_def put_first_full)

lemma cm_release_inv:
  assumes inv: "cm_inv n s" and "ex_outstanding (cm_write_stream s)" and "\<not> done_callback s"
    and r: "ex_release (cm_write_stream s) = Inr (started, x)"
    and s': "if started = Some CommandOp then cm_operation later (s\<lparr>cm_write_stream := x\<rparr>) = Inr (out, s')
      else s' = s\<lparr>cm_write_stream := x\<rparr>"
  shows "cm_inv n s'"
proof (cases "take_first (ex_callbacks (cm_write_stream s))")
  case None
  with r have x: "started = None" "x = (cm_write_stream s)\<lparr>ex_outstanding := False\<rparr>" by (simp_all add: ex_release_def Let_def)
  from take_first_None [OF None, of CommandOp] have "cm_waits s = 0" by (simp add: cm_waits_def)
  with inv assms(3) s' x None show ?thesis by (auto simp: cm_inv_def cm_waits_def)
next
  case (Some a)
  obtain op cs where a: "a = (op, cs)" by fastforce
  with r Some have x: "started = Some op" "x = (cm_write_stream s)\<lparr>ex_callbacks := cs, ex_outstanding := True\<rparr>"
    by (auto simp: ex_release_def Let_def ex_AsyncStart_def)
  from take_first_count [OF Some [unfolded a], of CommandOp]
  have c: "cm_waits s = count_list cs (Some CommandOp) + (if op = CommandOp then 1 else 0)" by (simp add: cm_waits_def)
  show ?thesis
  proof (cases "op = CommandOp")
    case True
    with c inv have "cm_write_outstanding s" "current_command s \<noteq> None" "count_list cs (Some CommandOp) = 0"
      by (auto simp: cm_inv_def split: if_splits)
    with True x s' inv assms(3) show ?thesis
      by (auto simp: cm_inv_def cm_waits_def cm_operation.simps)
  next
    case False
    with x s' inv assms(2,3) c show ?thesis by (auto simp: cm_inv_def cm_waits_def)
  qed
qed

lemma cm_response_inv:
  assumes inv: "cm_inv n s" and dc: "done_callback s" and r: "cm_response later s = Inr (out, s')"
  shows "cm_inv n s'"
proof -
  have w: "cm_write_outstanding s" "cm_waits s = 0" "reads s = []" using inv dc by (auto simp: cm_inv_def split: if_splits)
  show ?thesis
  proof (cases "take_first (ex_callbacks (cm_write_stream s))")
    case None
    with inv dc r w show ?thesis
      by (auto simp: cm_response.simps ex_release_def Let_def cm_MaybeStartRead_def cm_inv_def cm_waits_def)
  next
    case (Some a)
    obtain op cs where a: "a = (op, cs)" by fastforce
    with take_first_count [OF Some [unfolded a], of CommandOp] w have c: "count_list cs (Some CommandOp) = 0" "op \<noteq> CommandOp"
      by (auto simp: cm_waits_def split: if_splits)
    then obtain k where "op = OtherOp k" by (cases op) auto
    with Some a c inv dc r w show ?thesis
      by (auto simp: cm_response.simps ex_release_def ex_AsyncStart_def Let_def cm_MaybeStartRead_def cm_inv_def cm_waits_def)
  qed
qed

text \<open>Giving the write stream back never fails.\<close>

lemma ex_release_total:
  "ex_release x = (case take_first (ex_callbacks x) of
      None \<Rightarrow> Inr (None, x\<lparr>ex_outstanding := False\<rparr>)
    | Some (op, cs) \<Rightarrow> Inr (Some op, x\<lparr>ex_outstanding := True, ex_callbacks := cs\<rparr>))"
  by (simp add: ex_release_def ex_AsyncStart_def Let_def split: option.split)

lemma cm_response_accepted:
  assumes inv: "cm_inv n s" and dc: "done_callback s"
  shows "\<exists>out s'. cm_response later s = Inr (out, s') \<and> \<not> cm_write_outstanding s' \<and> reads s' = [ReadUntil 0]"
proof -
  have w: "cm_waits s = 0" "reads s = []" "max_line_length s < 65535" using inv dc by (auto simp: cm_inv_def split: if_splits)
  show ?thesis
  proof (cases "take_first (ex_callbacks (cm_write_stream s))")
    case None
    with dc w show ?thesis by (simp add: cm_response.simps ex_release_total cm_MaybeStartRead_def)
  next
    case (Some a)
    obtain op cs where a: "a = (op, cs)" by fastforce
    with take_first_count [OF Some [unfolded a], of CommandOp] w have "op \<noteq> CommandOp"
      by (auto simp: cm_waits_def split: if_splits)
    then obtain k where "op = OtherOp k" by (cases op) auto
    with Some a dc w show ?thesis by (simp add: cm_response.simps ex_release_total cm_MaybeStartRead_def)
  qed
qed

text \<open>The waiting command is called when its turn comes.\<close>

lemma cm_operation_accepted:
  assumes inv: "cm_inv n s" and "\<not> done_callback s" and r: "ex_release (cm_write_stream s) = Inr (Some CommandOp, x)"
  shows "\<exists>c s'. cm_operation later (s\<lparr>cm_write_stream := x\<rparr>) = Inr ([CallCommand c (take (group_arguments s) (arguments s))], s')
    \<and> done_callback s'"
proof -
  obtain cs where "take_first (ex_callbacks (cm_write_stream s)) = Some (CommandOp, cs)"
    using r by (auto simp: ex_release_total split: option.splits)
  from take_first_count [OF this, of CommandOp] have "cm_waits s \<noteq> 0" by (simp add: cm_waits_def)
  with inv assms(2) have "current_command s \<noteq> None" by (auto simp: cm_inv_def split: if_splits)
  then show ?thesis by (auto simp: cm_operation.simps)
qed

lemma cm_other_inv:
  assumes inv: "cm_inv n s" and "ex_AsyncStart (OtherOp j) (cm_write_stream s) = Inr (started, x)"
  shows "cm_inv n (s\<lparr>cm_write_stream := x\<rparr>)"
proof (cases "ex_outstanding (cm_write_stream s)")
  case True
  with assms(2) obtain cs where cs: "put_first (OtherOp j) (ex_callbacks (cm_write_stream s)) = Some cs"
      "x = (cm_write_stream s)\<lparr>ex_callbacks := cs\<rparr>" by (auto simp: ex_AsyncStart_def split: option.splits)
  with put_first_count [OF cs(1), of CommandOp] inv True show ?thesis by (auto simp: cm_inv_def cm_waits_def)
next
  case False
  with assms show ?thesis by (auto simp: ex_AsyncStart_def cm_inv_def cm_waits_def)
qed

lemma cm_reach_inv: "cm_reach n s \<Longrightarrow> cm_inv n s"
proof (induction rule: cm_reach.induct)
  case (start n k m s)
  then show ?case
    by (auto simp: cm_AsyncStart_def cm_MaybeStartRead_def cm_init_def ex_init_def cm_inv_def cm_waits_def count_list_0_iff)
next
  case (read n s k d error out s')
  with cm_read_done_inv [OF read.IH read(2-4)] show ?case by (simp add: handled_def)
qed (blast intro: cm_response_inv cm_other_inv cm_release_inv)+

section \<open>Properties\<close>

text \<open>
  C35: the state machine of the command manager refines the splitting of
  a text into lines: for every sequence of bytes, when commands answer after they were called
  and no one else uses the write stream, the commands that are called are, in order, those of
  the complete lines, with the text behind the first space; a line ends at a carriage return, a
  line feed or a zero byte, empty lines and lines of \<open>max_line_length\<close> bytes or more are skipped,
  and a word that is not registered calls \<open>UnknownGroup\<close>. No event of this fails.
\<close>

theorem command_manager_lines:
  assumes "0 < n" and "n < 65535"
    and "cm_AsyncStart ((cm_init n (ex_init k))\<lparr>registry := reg\<rparr>) = Inr s"
  shows "\<exists>s'. cm_feed bs s = Inr (concat (map (line_command (pm_lookup reg) n) (lines_of [] bs)), s')"
proof -
  have "cm_at reg n [] s"
    using assms by (auto simp: cm_AsyncStart_def cm_MaybeStartRead_def cm_init_def ex_init_def cm_at_def)
  from cm_feed_lines [OF this] show ?thesis by blast
qed

definition demo_registry :: "(byte list, nat) pool_map" where
  "demo_registry = \<lparr>pm_nodes = [(ascii ''tel'', 1), (ascii ''conf'', 2)], pm_max = 16\<rparr>"

theorem command_manager_lines_witness:
  "\<exists>s s'. cm_AsyncStart ((cm_init 9 (ex_init 3))\<lparr>registry := demo_registry\<rparr>) = Inr s
    \<and> cm_feed (ascii ''tel stop'' @ [10] @ ascii ''a'' @ [13, 10] @ ascii ''conf very long'' @ [10] @ ascii ''te'') s
      = Inr ([CallCommand (Registered 1) (ascii ''stop''), CallCommand UnknownGroup []], s')"
proof -
  let ?s = "(cm_init 9 (ex_init 3))\<lparr>registry := demo_registry\<rparr>"
  obtain s where s: "cm_AsyncStart ?s = Inr s"
    by (simp add: cm_AsyncStart_def cm_MaybeStartRead_def cm_init_def)
  let ?bs = "ascii ''tel stop'' @ [10] @ ascii ''a'' @ [13, 10] @ ascii ''conf very long'' @ [10] @ ascii ''te''"
  have "concat (map (line_command (pm_lookup demo_registry) 9)
      (lines_of [] (ascii ''tel stop'' @ [10] @ ascii ''a'' @ [13, 10] @ ascii ''conf very long'' @ [10] @ ascii ''te'')))
      = [CallCommand (Registered 1) (ascii ''stop''), CallCommand UnknownGroup []]"
    by (simp add: line_command_def tk_next_def is_delim_def demo_registry_def pm_lookup_map_of Let_def)
  moreover have "\<exists>s'. cm_feed ?bs s = Inr (concat (map (line_command (pm_lookup demo_registry) 9) (lines_of [] ?bs)), s')"
    by (rule command_manager_lines [OF _ _ s]) simp_all
  ultimately show ?thesis using s by auto
qed



text \<open>
  A command that calls the callback of its response before it
  returns makes the manager start two reads at the same time, into the same line buffer.
\<close>

lemma command_manager_sync_answer:
  assumes "\<And>c a. app c a" and "\<not> cm_write_outstanding s" and "\<not> ex_outstanding (cm_write_stream s)"
    and "take_first (ex_callbacks (cm_write_stream s)) = None" and "max_line_length s < 65535"
    and "fst (tk_next (ascii '' '') (take m (line_buffer s))) \<noteq> []"
  shows "\<exists>out s'. cm_HandleRead app s False (Suc m) = Inr (out, s') \<and> reads s' = reads s @ [ReadUntil 0, ReadUntil 0]"
proof -
  obtain cmd args where tk: "tk_next (ascii '' '') (take m (line_buffer s)) = (cmd, args)" by fastforce
  with assms show ?thesis
    by (simp add: cm_HandleRead_def cm_HandleCommand_def Let_def ex_AsyncStart_def cm_operation.simps cm_response.simps
        ex_release_def cm_MaybeStartRead_def)
qed

lemma command_manager_sync_answer_example:
  "\<exists>out s'. cm_HandleRead (\<lambda>_ _. True) ((cm_init 9 (ex_init 3) :: nat command_manager)\<lparr>line_buffer := ascii ''tel stop'' @ [10]\<rparr>) False 9
     = Inr (out, s') \<and> reads s' = [ReadUntil 0, ReadUntil 0]"
  using command_manager_sync_answer [of "\<lambda>_ _. True"
      "(cm_init 9 (ex_init 3) :: nat command_manager)\<lparr>line_buffer := ascii ''tel stop'' @ [10]\<rparr>" 8]
  by (simp add: cm_init_def ex_init_def tk_next_def is_delim_def)

end
