(* ===== verification/Telemetry_Format.thy ===== *)
theory Telemetry_Format
  imports Multiplex_Stream "HOL-Library.Signed_Division"
begin

text \<open>
  \<open>telemetry/format.h\<close>: the primitive types of the telemetry format over any stream: varuints
  of 64 bits, zigzag varints, booleans, fixed size scalars and strings. A codec is a locale:
  what is written is read back, whatever follows; the formats built from these primitives
  (configuration blocks, log files) rest on it. The conversions of \<open>base/time_conversions.cc\<close>
  the timestamps go through are here too.
\<close>

section \<open>Definitions\<close>

definition kMaxStringSize :: nat where
  "kMaxStringSize = 2 ^ 24"

function tl_GetVaruintSize :: "u64 \<Rightarrow> nat" where
  "tl_GetVaruintSize v = 1 + (if v \<le> 0x7f then 0 else tl_GetVaruintSize (drop_bit 7 v))"
  by pat_completeness auto

text \<open>The loop's own test \<open>while (value)\<close> always holds behind the \<open>break\<close>.\<close>

termination tl_GetVaruintSize
  by (relation "measure unat") (auto simp: drop_bit_7_unat word_le_nat_alt)

definition tl_WriteScalar :: "('s \<Rightarrow> byte list \<Rightarrow> 's res) \<Rightarrow> nat \<Rightarrow> 's \<Rightarrow> 'a::len word \<Rightarrow> 's res" where
  "tl_WriteScalar wr sz s v = wr s (le_bytes sz v)"

definition tl_WriteBool :: "('s \<Rightarrow> byte list \<Rightarrow> 's res) \<Rightarrow> 's \<Rightarrow> bool \<Rightarrow> 's res" where
  "tl_WriteBool wr s b = tl_WriteScalar wr 1 s (if b then 1 else 0 :: byte)"

function tl_WriteVaruint :: "('s \<Rightarrow> byte list \<Rightarrow> 's res) \<Rightarrow> 's \<Rightarrow> u64 \<Rightarrow> 's res" where
  "tl_WriteVaruint wr s v =
     (let word = (ucast (v AND 0x7f) :: byte);
          more_bytes = v > 0x7f;
          word = (if more_bytes then word OR 0x80 else word)
      in sbind (tl_WriteScalar wr 1 s word) (\<lambda>s.
         let v' = drop_bit 7 v in if v' \<noteq> 0 then tl_WriteVaruint wr s v' else Inr s))"
  by pat_completeness auto

termination tl_WriteVaruint
  by (relation "measure (\<lambda>(wr, s, v). unat v)") (auto simp: drop_bit_7_less)

text \<open>\<open>value >> 63\<close> on an \<open>int64_t\<close> is the arithmetic shift: all ones or all zeros.\<close>

definition tl_WriteVarint :: "('s \<Rightarrow> byte list \<Rightarrow> 's res) \<Rightarrow> 's \<Rightarrow> u64 \<Rightarrow> 's res" where
  "tl_WriteVarint wr s v = tl_WriteVaruint wr s (signed_drop_bit 63 v XOR push_bit 1 v)"

definition tl_WriteString :: "('s \<Rightarrow> byte list \<Rightarrow> 's res) \<Rightarrow> 's \<Rightarrow> byte list \<Rightarrow> 's res" where
  "tl_WriteString wr s d = sbind (tl_WriteVaruint wr s (of_nat (length d))) (\<lambda>s. wr s d)"

definition tl_ReadScalar ::
  "('s \<Rightarrow> nat \<Rightarrow> byte list \<times> 's) \<Rightarrow> nat \<Rightarrow> 's \<Rightarrow> 'a::len word option \<times> 's" where
  "tl_ReadScalar rd sz s =
     (case rd s sz of (d, t) \<Rightarrow> (if length d \<noteq> sz then None else Some (le_word d), t))"

function tl_ReadVaruint_loop ::
  "('s \<Rightarrow> nat \<Rightarrow> byte list \<times> 's) \<Rightarrow> nat \<Rightarrow> u64 \<Rightarrow> 's \<Rightarrow> (u64 option \<times> 's) res" where
  "tl_ReadVaruint_loop rd position result s =
     (case (tl_ReadScalar rd 1 s :: byte option \<times> 's) of
        (None, t) \<Rightarrow> Inr (None, t)
      | (Some b, t) \<Rightarrow>
          if position \<ge> 64 then Inl BadShift
          else let result' = result OR push_bit position (ucast (b AND 0x7f))
               in if b \<ge> 0x80 then tl_ReadVaruint_loop rd (position + 7) result' t
                  else Inr (Some result', t))"
  by pat_completeness auto

termination tl_ReadVaruint_loop
  by (relation "measure (\<lambda>(rd, p, r, s). 64 - p)") auto

definition tl_ReadVaruint :: "('s \<Rightarrow> nat \<Rightarrow> byte list \<times> 's) \<Rightarrow> 's \<Rightarrow> (u64 option \<times> 's) res" where
  "tl_ReadVaruint rd s = tl_ReadVaruint_loop rd 0 0 s"

definition tl_ReadVarint :: "('s \<Rightarrow> nat \<Rightarrow> byte list \<times> 's) \<Rightarrow> 's \<Rightarrow> (u64 option \<times> 's) res" where
  "tl_ReadVarint rd s =
     sbind (tl_ReadVaruint rd s) (\<lambda>(maybe_encoded, s).
     Inr (map_option (\<lambda>encoded. drop_bit 1 encoded - (encoded AND 1) * encoded) maybe_encoded, s))"

definition tl_ReadString :: "('s \<Rightarrow> nat \<Rightarrow> byte list \<times> 's) \<Rightarrow> 's \<Rightarrow> (byte list option \<times> 's) res" where
  "tl_ReadString rd s =
     sbind (tl_ReadVaruint rd s) (\<lambda>(maybe_size, s).
     case maybe_size of
       None \<Rightarrow> Inr (None, s)
     | Some sz \<Rightarrow>
         if unat sz > kMaxStringSize then Inl AssertFailed
         else case rd s (unat sz) of
                (d, t) \<Rightarrow> Inr (if length d \<noteq> unat sz then None else Some d, t))"

text \<open>
  A \<open>boost::posix_time\<close> time point or duration: the special values, or a number of
  microseconds (after 1970-01-01 for a time point); the library is built with its default
  resolution of one microsecond. \<open>uint64_t\<close> and \<open>int64_t\<close> are both 64 bit words.
\<close>

datatype btime = pos_infin | neg_infin | not_a_date_time | at_us u64

definition int64_max :: u64 where "int64_max = 0x7fffffffffffffff"
definition int64_min :: u64 where "int64_min = 0x8000000000000000"

definition ConvertPtimeToEpochMicroseconds :: "btime \<Rightarrow> u64" where
  "ConvertPtimeToEpochMicroseconds t =
     (case t of
        pos_infin \<Rightarrow> int64_max
      | neg_infin \<Rightarrow> int64_min
      | not_a_date_time \<Rightarrow> int64_min + 1
      | at_us us \<Rightarrow> us)"

definition ConvertEpochMicrosecondsToPtime :: "u64 \<Rightarrow> btime" where
  "ConvertEpochMicrosecondsToPtime value =
     (if value = int64_max then pos_infin
      else if value = int64_min then neg_infin
      else if value = int64_min + 1 then not_a_date_time
      else at_us value)"

definition ConvertDurationToMicroseconds :: "btime \<Rightarrow> u64" where
  "ConvertDurationToMicroseconds t =
     (case t of
        pos_infin \<Rightarrow> int64_max
      | neg_infin \<Rightarrow> int64_min
      | not_a_date_time \<Rightarrow> int64_min + 1
      | at_us us \<Rightarrow> us)"

definition ConvertMicrosecondsToDuration :: "u64 \<Rightarrow> btime" where
  "ConvertMicrosecondsToDuration time_us =
     (if time_us = int64_min then neg_infin
      else if time_us = int64_max then pos_infin
      else if time_us = int64_min + 1 then not_a_date_time
      else let int_time = (of_int (sint time_us sdiv 1000000) :: u64);
               counts = time_us - int_time * 1000000
           in at_us (int_time * 1000000 + counts))"

definition tl_WriteTimestamp :: "('s \<Rightarrow> byte list \<Rightarrow> 's res) \<Rightarrow> 's \<Rightarrow> btime \<Rightarrow> 's res" where
  "tl_WriteTimestamp wr s t = tl_WriteScalar wr 8 s (ConvertPtimeToEpochMicroseconds t)"

definition tl_ReadTimestamp :: "('s \<Rightarrow> nat \<Rightarrow> byte list \<times> 's) \<Rightarrow> 's \<Rightarrow> btime option \<times> 's" where
  "tl_ReadTimestamp rd s =
     (case tl_ReadScalar rd 8 s of
        (maybe_data, t) \<Rightarrow> (map_option ConvertEpochMicrosecondsToPtime maybe_data, t))"

text \<open>The time points that are not mistaken for a special value.\<close>

definition btime_ok :: "btime \<Rightarrow> bool" where
  "btime_ok t = (t \<notin> at_us ` {int64_max, int64_min, int64_min + 1})"

declare tl_WriteVaruint.simps [simp del] tl_ReadVaruint_loop.simps [simp del]
  tl_GetVaruintSize.simps [simp del]

text \<open>\<open>Read<bool>\<close> never occurs in the source; a boolean is read back as its byte.\<close>

section \<open>The writers emit the base-128 encoding\<close>

lemma tl_GetVaruintSize_length: "tl_GetVaruintSize v = length (leb128 (unat v))"
proof (induction v rule: tl_GetVaruintSize.induct)
  case (1 v)
  show ?case
  proof (cases "v \<le> 0x7f")
    case True
    then have "unat v < 128" by (simp add: word_le_nat_alt)
    with True show ?thesis by (simp add: tl_GetVaruintSize.simps [of v] leb128_small)
  next
    case False
    then have "128 \<le> unat v" by (simp add: word_le_nat_alt)
    with 1 [OF False] False show ?thesis
      by (simp add: tl_GetVaruintSize.simps [of v] leb128_big drop_bit_7_unat)
  qed
qed

definition zigzag :: "u64 \<Rightarrow> u64" where
  "zigzag v = signed_drop_bit 63 v XOR push_bit 1 v"

definition unzigzag :: "u64 \<Rightarrow> u64" where
  "unzigzag e = drop_bit 1 e - (e AND 1) * e"

definition string_bytes :: "byte list \<Rightarrow> byte list" where
  "string_bytes d = leb128 (length d) @ d"

context write_stream
begin

lemma tl_WriteVaruint_leb128: "tl_WriteVaruint wr s v = wr s (leb128 (unat v))"
proof (induction "unat v" arbitrary: s v rule: less_induct)
  case less
  show ?case
  proof (cases "unat v < 128")
    case True
    then have "\<not> v > 0x7f" and "ucast (v AND 0x7f) = (of_nat (unat v) :: byte)"
      by (simp_all add: word_less_nat_alt varuint_byte_last)
    with True show ?thesis
      by (simp add: tl_WriteVaruint.simps [of wr s v] tl_WriteScalar_def Let_def drop_bit_7_zero leb128_small)
  next
    case False
    then have m: "v > 0x7f" by (simp add: word_less_nat_alt)
    have nz: "drop_bit 7 v \<noteq> 0" using False by (simp add: drop_bit_7_zero)
    have b: "(ucast (v AND 0x7f) OR 0x80 :: byte) = of_nat (unat v mod 128 + 128)"
      using False by (intro varuint_byte_more) auto
    have "tl_WriteVaruint wr s v
        = sbind (wr s [of_nat (unat v mod 128 + 128)]) (\<lambda>t. tl_WriteVaruint wr t (drop_bit 7 v))"
      using m nz by (simp add: tl_WriteVaruint.simps [of wr s v] tl_WriteScalar_def Let_def b)
    also have "\<dots> = wr s (of_nat (unat v mod 128 + 128) # leb128 (unat (drop_bit 7 v)))"
      unfolding less [OF drop_bit_7_less [OF nz]] wr_seq by simp
    finally show ?thesis using False by (simp add: leb128_big drop_bit_7_unat)
  qed
qed

lemma tl_WriteVarint_leb128: "tl_WriteVarint wr s v = wr s (leb128 (unat (zigzag v)))"
  by (simp add: tl_WriteVarint_def zigzag_def tl_WriteVaruint_leb128)

lemma tl_WriteString_bytes:
  "length d < 2 ^ 64 \<Longrightarrow> tl_WriteString wr s d = wr s (string_bytes d)"
  by (simp add: tl_WriteString_def tl_WriteVaruint_leb128 string_bytes_def wr_seq unat_of_nat take_bit_eq_mod)

lemma tl_WriteBool_bytes: "tl_WriteBool wr s b = wr s [if b then 1 else 0]"
  by (simp add: tl_WriteBool_def tl_WriteScalar_def)

end

section \<open>The readers take it off again\<close>

lemma tl_ReadScalar_eq: "tl_ReadScalar = ReadScalar"
  by (simp add: fun_eq_iff tl_ReadScalar_def ReadScalar_def)

context read_stream
begin

lemma tl_ReadScalar_abs:
  "ok s \<Longrightarrow> apsnd avail (tl_ReadScalar rd n s :: 'b::len word option \<times> 's)
             = tl_ReadScalar list_read n (avail s)
           \<and> ok (snd (tl_ReadScalar rd n s :: 'b word option \<times> 's))"
  unfolding tl_ReadScalar_eq by (rule ReadScalar_abs)

end

lemma tl_ReadVaruint_loop_Nil: "tl_ReadVaruint_loop list_read pos r [] = Inr (None, [])"
  by (simp add: tl_ReadVaruint_loop.simps [of _ pos] tl_ReadScalar_eq ReadScalar_list_1)

lemma tl_ReadVaruint_loop_Cons:
  "tl_ReadVaruint_loop list_read pos r (b # bs) =
     (if 64 \<le> pos then Inl BadShift
      else let r' = r OR push_bit pos (of_nat (unat b mod 128))
           in if unat b < 128 then Inr (Some r', bs) else tl_ReadVaruint_loop list_read (pos + 7) r' bs)"
  by (simp add: tl_ReadVaruint_loop.simps [of _ pos] tl_ReadScalar_eq ReadScalar_list_1
      varuint_bits Let_def word_le_nat_alt not_less)

text \<open>
  On every input: the value when the encoding ends within ten bytes, nothing when the input
  ends first, and a shift by 70 when it goes on.
\<close>

lemma tl_ReadVaruint_loop_list:
  "k \<le> 10 \<Longrightarrow> pos = 7 * (10 - k) \<Longrightarrow>
   tl_ReadVaruint_loop list_read pos r xs =
     (case unleb128 xs of
        Some (n, rest) \<Rightarrow>
          if length xs - length rest \<le> k then Inr (Some (r OR push_bit pos (of_nat n)), rest)
          else Inl BadShift
      | None \<Rightarrow> if length xs \<le> k then Inr (None, []) else Inl BadShift)"
proof (induction k arbitrary: pos r xs)
  case 0
  then show ?case
    by (cases xs) (auto simp: tl_ReadVaruint_loop_Nil tl_ReadVaruint_loop_Cons
        split: option.splits dest: unleb128_shrinks)
next
  case (Suc k)
  have pos: "pos < 64" "pos + 7 = 7 * (10 - k)" using Suc.prems by simp_all
  show ?case
  proof (cases xs)
    case Nil
    then show ?thesis by (simp add: tl_ReadVaruint_loop_Nil)
  next
    case (Cons b bs)
    have lt: "unat b < 256" using unsigned_less [of b] by simp
    show ?thesis
    proof (cases "unat b < 128")
      case True
      then show ?thesis using Cons pos by (simp add: tl_ReadVaruint_loop_Cons)
    next
      case False
      with lt obtain m where m: "unat b = m + 128" "m < 128"
        by (metis add.commute le_add_diff_inverse less_diff_conv2 not_less numeral_Bit0)
      have digit: "(unat b - 128 + 128 * n) mod 128 = unat b mod 128"
        "(unat b - 128 + 128 * n) div 128 = n" for n
        using m by simp_all
      have val: "(r OR push_bit pos (of_nat (unat b mod 128))) OR push_bit (pos + 7) (of_nat n)
          = r OR push_bit pos (of_nat (unat b - 128 + 128 * n))" for n
        using push_bit_digit_more [of r pos "unat b - 128 + 128 * n"] by (simp only: digit or.assoc)
      have "tl_ReadVaruint_loop list_read pos r xs =
          tl_ReadVaruint_loop list_read (pos + 7) (r OR push_bit pos (of_nat (unat b mod 128))) bs"
        using Cons False pos by (simp add: tl_ReadVaruint_loop_Cons Let_def)
      with Cons False Suc.IH [OF _ pos(2)] Suc.prems(1) unleb128_shrinks [of bs] show ?thesis
        by (cases "unleb128 bs") (auto simp: val)
    qed
  qed
qed

lemma tl_ReadVaruint_list:
  "tl_ReadVaruint list_read xs =
     (case unleb128 xs of
        Some (n, rest) \<Rightarrow>
          if length xs - length rest \<le> 10 then Inr (Some (of_nat n), rest) else Inl BadShift
      | None \<Rightarrow> if length xs \<le> 10 then Inr (None, []) else Inl BadShift)"
  by (simp add: tl_ReadVaruint_def tl_ReadVaruint_loop_list [where k = 10] split: option.split)

lemma tl_ReadVaruint_leb128 [wire_simps]:
  "tl_ReadVaruint list_read (leb128 (unat v) @ rest) = Inr (Some v, rest)"
  using length_leb128_u64 [of v] by (simp add: tl_ReadVaruint_list unleb128_leb128)

lemma zigzag_cases:
  "zigzag v = (if bit v 63 then NOT (push_bit 1 v) else push_bit 1 v)"
proof (rule bit_word_eqI)
  fix n
  assume "n < LENGTH(64)"
  then show "bit (zigzag v) n = bit (if bit v 63 then NOT (push_bit 1 v) else push_bit 1 v) n"
    by (cases "n = 0") (auto simp: zigzag_def bit_simps simp del: push_bit_Suc)
qed

lemma unzigzag_zigzag: "unzigzag (zigzag v) = v"
proof (cases "bit v 63")
  case False
  have lt: "n < 63 \<longleftrightarrow> n < 64" if "bit v n" for n
    using False that by (cases "n = 63") auto
  have "drop_bit 1 (push_bit 1 v) = v"
    by (rule bit_word_eqI) (auto simp: bit_simps lt simp del: push_bit_Suc)
  moreover have "push_bit 1 v AND 1 = 0"
    by (rule bit_word_eqI) (auto simp: bit_simps simp del: push_bit_Suc)
  ultimately show ?thesis
    using False by (simp add: zigzag_cases unzigzag_def)
next
  case True
  let ?e = "NOT (push_bit 1 v)"
  have odd: "?e AND 1 = 1"
    by (rule bit_word_eqI) (auto simp: bit_simps simp del: push_bit_Suc)
  have lt: "n < 63 \<longleftrightarrow> n < 64" if "\<not> bit v n" for n
    using True that by (cases "n = 63") auto
  have half: "drop_bit 1 ?e = NOT v"
    by (rule bit_word_eqI) (auto simp: bit_simps lt simp del: push_bit_Suc)
  have "zigzag v = ?e" using True by (simp only: zigzag_cases if_True)
  then have "unzigzag (zigzag v) = NOT v - NOT (push_bit 1 v)"
    by (simp only: unzigzag_def odd half mult_1)
  also have "\<dots> = v"
    by (simp add: not_eq_complement push_bit_eq_mult)
  finally show ?thesis .
qed

lemma tl_ReadVarint_leb128 [wire_simps]:
  "tl_ReadVarint list_read (leb128 (unat (zigzag v)) @ rest) = Inr (Some v, rest)"
  using unzigzag_zigzag [of v] by (simp add: tl_ReadVarint_def tl_ReadVaruint_leb128 unzigzag_def)

lemma tl_ReadString_bytes [wire_simps]:
  assumes "length d \<le> kMaxStringSize"
  shows "tl_ReadString list_read (string_bytes d @ rest) = Inr (Some d, rest)"
proof -
  have u: "unat (of_nat (length d) :: u64) = length d"
    using assms by (simp add: unat_of_nat take_bit_eq_mod kMaxStringSize_def)
  then have "tl_ReadVaruint list_read (leb128 (length d) @ d @ rest) = Inr (Some (of_nat (length d)), d @ rest)"
    using tl_ReadVaruint_leb128 [of "of_nat (length d)" "d @ rest"] by simp
  with u assms show ?thesis
    by (simp add: tl_ReadString_def string_bytes_def list_read_def)
qed

lemma tl_ReadScalar_bytes [wire_simps]:
  "8 * n = LENGTH('a) \<Longrightarrow> tl_ReadScalar list_read n (le_bytes n (w :: 'a::len word) @ rest) = (Some w, rest)"
  by (simp add: tl_ReadScalar_eq ReadScalar_list)

lemma btime_roundtrip [wire_simps]:
  "btime_ok t \<Longrightarrow> ConvertEpochMicrosecondsToPtime (ConvertPtimeToEpochMicroseconds t) = t"
  "btime_ok t \<Longrightarrow> ConvertMicrosecondsToDuration (ConvertDurationToMicroseconds t) = t"
  by (auto simp: btime_ok_def ConvertEpochMicrosecondsToPtime_def ConvertPtimeToEpochMicroseconds_def
      ConvertMicrosecondsToDuration_def ConvertDurationToMicroseconds_def int64_max_def int64_min_def
      Let_def split: btime.splits)

lemma tl_ReadTimestamp_bytes [wire_simps]:
  "btime_ok t \<Longrightarrow>
   tl_ReadTimestamp list_read (le_bytes 8 (ConvertPtimeToEpochMicroseconds t) @ rest) = (Some t, rest)"
  by (simp add: tl_ReadTimestamp_def tl_ReadScalar_bytes btime_roundtrip)

section \<open>Reading through a stream\<close>

text \<open>A read on a stream and the same read on the bytes it has left.\<close>

definition read_sim ::
  "('s \<Rightarrow> bool) \<Rightarrow> ('s \<Rightarrow> byte list) \<Rightarrow> ('v \<times> 's) res \<Rightarrow> ('v \<times> byte list) res \<Rightarrow> bool" where
  "read_sim ok avail r l =
     (case r of Inl e \<Rightarrow> l = Inl e | Inr (v, t) \<Rightarrow> l = Inr (v, avail t) \<and> ok t)"

lemma read_sim_Inr [simp]: "read_sim ok avail (Inr (v, t)) l \<longleftrightarrow> l = Inr (v, avail t) \<and> ok t"
  by (simp add: read_sim_def)

lemma read_sim_Inl [simp]: "read_sim ok avail (Inl e) l \<longleftrightarrow> l = Inl e"
  by (simp add: read_sim_def)

lemma read_sim_InrD:
  "read_sim ok avail r (Inr (v, xs)) \<Longrightarrow> \<exists>t. r = Inr (v, t) \<and> avail t = xs \<and> ok t"
  by (auto simp: read_sim_def split: sum.splits)

lemma read_sim_bind:
  assumes "read_sim ok avail r l"
    and "\<And>v t. ok t \<Longrightarrow> read_sim ok avail (f (v, t)) (g (v, avail t))"
  shows "read_sim ok avail (sbind r f) (sbind l g)"
  using assms(1) assms(2) [of "snd (projr r)" "fst (projr r)"]
  by (auto simp: read_sim_def split: sum.splits prod.splits)

context read_stream
begin

lemma tl_ReadVaruint_loop_sim:
  "ok s \<Longrightarrow> read_sim ok avail (tl_ReadVaruint_loop rd pos r s) (tl_ReadVaruint_loop list_read pos r (avail s))"
proof (induction "64 - pos" arbitrary: pos r s rule: less_induct)
  case less
  show ?case
  proof (cases "avail s")
    case Nil
    with less.prems obtain t where "rd s (Suc 0) = ([], t)" "avail t = []" "ok t"
      using rd_one_None by blast
    with Nil show ?thesis
      by (simp add: tl_ReadVaruint_loop.simps [of rd] tl_ReadScalar_def tl_ReadVaruint_loop_Nil)
  next
    case (Cons b bs)
    with less.prems obtain t where t: "rd s (Suc 0) = ([b], t)" "avail t = bs" "ok t"
      using rd_one_Some by blast
    then have "read_sim ok avail (tl_ReadVaruint_loop rd (pos + 7) q t) (tl_ReadVaruint_loop list_read (pos + 7) q bs)"
      if "pos < 64" for q
      using less.hyps [of "pos + 7" t q] that by simp
    with t Cons show ?thesis
      by (simp add: tl_ReadVaruint_loop.simps [of rd] tl_ReadScalar_def tl_ReadVaruint_loop_Cons Let_def
          varuint_bits word_le_nat_alt not_less)
  qed
qed

lemma tl_ReadVaruint_sim:
  "ok s \<Longrightarrow> read_sim ok avail (tl_ReadVaruint rd s) (tl_ReadVaruint list_read (avail s))"
  unfolding tl_ReadVaruint_def by (rule tl_ReadVaruint_loop_sim)

lemma tl_ReadVarint_sim:
  "ok s \<Longrightarrow> read_sim ok avail (tl_ReadVarint rd s) (tl_ReadVarint list_read (avail s))"
  unfolding tl_ReadVarint_def by (rule read_sim_bind [OF tl_ReadVaruint_sim]) simp_all

lemma tl_ReadString_sim:
  "ok s \<Longrightarrow> read_sim ok avail (tl_ReadString rd s) (tl_ReadString list_read (avail s))"
  unfolding tl_ReadString_def
proof (rule read_sim_bind [OF tl_ReadVaruint_sim], assumption, goal_cases)
  case (1 v t)
  show ?case
  proof (cases v)
    case (Some sz)
    obtain d u where "rd t (unat sz) = (d, u)" by (cases "rd t (unat sz)")
    then have "d = take (unat sz) (avail t)" "avail u = drop (unat sz) (avail t)" "ok u"
      using 1 rd_data [of t "unat sz"] rd_avail [of t "unat sz"] rd_ok [of t "unat sz"] by simp_all
    then show ?thesis
      using Some \<open>rd t (unat sz) = (d, u)\<close> by (simp add: list_read_def)
  qed (use 1 in simp)
qed

end

text \<open>The same, for a stream that has the bytes of a primitive in front of it.\<close>

context read_stream
begin

lemma rd_varuint:
  "ok s \<Longrightarrow> avail s = leb128 (unat v) @ rest \<Longrightarrow>
   \<exists>t. tl_ReadVaruint rd s = Inr (Some v, t) \<and> avail t = rest \<and> ok t"
  using tl_ReadVaruint_sim [of s] by (simp add: tl_ReadVaruint_leb128 read_sim_InrD)

lemma rd_varuint_nat:
  "ok s \<Longrightarrow> avail s = leb128 n @ rest \<Longrightarrow> n < 2 ^ 64 \<Longrightarrow>
   \<exists>t. tl_ReadVaruint rd s = Inr (Some (of_nat n), t) \<and> avail t = rest \<and> ok t"
  using rd_varuint [of s "of_nat n" rest] by (simp add: unat_of_nat take_bit_eq_mod)

lemma rd_string:
  "ok s \<Longrightarrow> avail s = string_bytes d @ rest \<Longrightarrow> length d \<le> kMaxStringSize \<Longrightarrow>
   \<exists>t. tl_ReadString rd s = Inr (Some d, t) \<and> avail t = rest \<and> ok t"
  using tl_ReadString_sim [of s] by (simp add: tl_ReadString_bytes read_sim_InrD)

lemma rd_scalar:
  "ok s \<Longrightarrow> avail s = d @ rest \<Longrightarrow> length d = n \<Longrightarrow>
   \<exists>t. tl_ReadScalar rd n s = (Some (le_word d), t) \<and> avail t = rest \<and> ok t"
  using rd_exact [of s d rest] by (auto simp: tl_ReadScalar_def)

end

section \<open>Codecs\<close>

text \<open>
  The contract between a writer and a reader: on every stream the writer writes the bytes
  \<open>enc v\<close>, and the reader takes them off the bytes left in a stream again.
\<close>

locale wire_codec =
  fixes enc :: "'v \<Rightarrow> byte list"
    and dec :: "byte list \<Rightarrow> ('v option \<times> byte list) res"
    and valid :: "'v \<Rightarrow> bool"
  assumes dec_enc: "valid v \<Longrightarrow> dec (enc v @ rest) = Inr (Some v, rest)"
begin

lemma enc_inj: "valid v \<Longrightarrow> valid w \<Longrightarrow> enc v @ r = enc w @ q \<Longrightarrow> v = w \<and> r = q"
  by (metis Inr_inject Pair_inject option.inject dec_enc)

lemma dec_enc2:
  "valid v \<Longrightarrow> valid w \<Longrightarrow>
   sbind (dec (enc v @ enc w @ rest)) (\<lambda>(x, r). sbind (dec r) (\<lambda>(y, q). Inr (x, y, q)))
   = Inr (Some v, Some w, rest)"
  by (simp add: dec_enc)

end

interpretation varuint: wire_codec "\<lambda>v. leb128 (unat v)" "tl_ReadVaruint list_read" "\<lambda>_. True"
  by unfold_locales (rule tl_ReadVaruint_leb128)

interpretation varint: wire_codec "\<lambda>v. leb128 (unat (zigzag v))" "tl_ReadVarint list_read" "\<lambda>_. True"
  by unfold_locales (rule tl_ReadVarint_leb128)

interpretation tstring: wire_codec string_bytes "tl_ReadString list_read"
  "\<lambda>d. length d \<le> kMaxStringSize"
  by unfold_locales (rule tl_ReadString_bytes)

section \<open>Properties\<close>

text \<open>
  C19: what \<open>WriteStream\<close> writes to a string stream,
  \<open>ReadStream\<close> reads back from it: every \<open>uint64_t\<close> as a varuint, every \<open>int64_t\<close> as a zigzag
  varint, every string of at most \<open>kMaxStringSize\<close> bytes, and the reader then stands behind
  what was written. The bytes written are as many as \<open>GetVaruintSize\<close> announces, ten at most.
\<close>

theorem telemetry_primitives_roundtrip:
  assumes "length d \<le> kMaxStringSize"
  shows "\<exists>out. sbind (tl_WriteVaruint fos_write fos_init u) (\<lambda>s.
           sbind (tl_WriteVarint fos_write s v) (\<lambda>s. tl_WriteString fos_write s d)) = Inr out
      \<and> length (fos_str out) = tl_GetVaruintSize u + tl_GetVaruintSize (zigzag v)
          + tl_GetVaruintSize (of_nat (length d)) + length d
      \<and> tl_GetVaruintSize u \<le> 10
      \<and> (\<exists>r1 r2 r3. tl_ReadVaruint fis_read (fis_init (fos_str out @ rest)) = Inr (Some u, r1)
          \<and> tl_ReadVarint fis_read r1 = Inr (Some v, r2)
          \<and> tl_ReadString fis_read r2 = Inr (Some d, r3)
          \<and> fis_avail r3 = rest)"
proof -
  let ?bytes = "leb128 (unat u) @ leb128 (unat (zigzag v)) @ string_bytes d"
  have len: "length d < 2 ^ 64" "unat (of_nat (length d) :: u64) = length d"
    using assms by (simp_all add: unat_of_nat take_bit_eq_mod kMaxStringSize_def)
  obtain out where out: "fos_write fos_init ?bytes = Inr out" by (simp add: fos_write_eq)
  then have str: "fos_str out = ?bytes"
    using fos.wr_out [of fos_init] by (simp add: fos_ok_def fos_init_def fos_str_def)
  have w: "sbind (tl_WriteVaruint fos_write fos_init u) (\<lambda>s.
         sbind (tl_WriteVarint fos_write s v) (\<lambda>s. tl_WriteString fos_write s d)) = Inr out"
    using out len by (simp add: fos.tl_WriteVaruint_leb128 fos.tl_WriteVarint_leb128 fos.tl_WriteString_bytes
        fos.wr_seq fos.wr_seq_more)
  obtain r1 where r1: "tl_ReadVaruint fis_read (fis_init (?bytes @ rest)) = Inr (Some u, r1)"
      "fis_avail r1 = leb128 (unat (zigzag v)) @ string_bytes d @ rest" "fi_off r1 \<le> length (fi_data r1)"
    using fis.tl_ReadVaruint_sim [of "fis_init (?bytes @ rest)"] read_sim_InrD
    by (fastforce simp: tl_ReadVaruint_leb128 fis_init_def fis_avail_def)
  obtain r2 where r2: "tl_ReadVarint fis_read r1 = Inr (Some v, r2)"
      "fis_avail r2 = string_bytes d @ rest" "fi_off r2 \<le> length (fi_data r2)"
    using fis.tl_ReadVarint_sim [OF r1(3)] read_sim_InrD by (fastforce simp: r1(2) tl_ReadVarint_leb128)
  obtain r3 where r3: "tl_ReadString fis_read r2 = Inr (Some d, r3)" "fis_avail r3 = rest"
    using fis.tl_ReadString_sim [OF r2(3)] read_sim_InrD assms by (fastforce simp: r2(2) tl_ReadString_bytes)
  show ?thesis
    using w r1(1) r2(1) r3 length_leb128_u64 [of u] len
    by (auto simp: str tl_GetVaruintSize_length string_bytes_def)
qed

theorem telemetry_primitives_roundtrip_witness:
  "\<exists>out. sbind (tl_WriteVaruint fos_write fos_init 300) (\<lambda>s.
      sbind (tl_WriteVarint fos_write s (- 5)) (\<lambda>s. tl_WriteString fos_write s (ascii ''abc''))) = Inr out
    \<and> length (fos_str out) = 7
    \<and> (\<exists>r1 r2 r3. tl_ReadVaruint fis_read (fis_init (fos_str out @ [9])) = Inr (Some 300, r1)
        \<and> tl_ReadVarint fis_read r1 = Inr (Some (- 5), r2)
        \<and> tl_ReadString fis_read r2 = Inr (Some (ascii ''abc''), r3)
        \<and> fis_avail r3 = [9])"
proof -
  have "tl_GetVaruintSize 300 = 2" "tl_GetVaruintSize (zigzag (- 5)) = 1" "tl_GetVaruintSize (of_nat (length (ascii ''abc''))) = 1"
    by code_simp+
  then show ?thesis
    using telemetry_primitives_roundtrip [of "ascii ''abc''" 300 "- 5" "[9]"]
    by (auto simp: kMaxStringSize_def)
qed

text \<open>
  C20: what \<open>ReadVaruint\<close> does on every input, through any
  stream with the interface, here \<open>BufferReadStream\<close>: the value and the rest when the encoding
  ends within ten bytes, nothing when the input ends first, and a shift by 70 bits, which C++
  leaves undefined, when ten bytes all have their top bit set and another follows.
\<close>

theorem telemetry_varuint_decode_spec:
  "read_sim brs_ok brs_avail (tl_ReadVaruint brs_read (brs_init xs))
     (case unleb128 xs of
        Some (n, rest) \<Rightarrow>
          if length xs - length rest \<le> 10 then Inr (Some (of_nat n), rest) else Inl BadShift
      | None \<Rightarrow> if length xs \<le> 10 then Inr (None, []) else Inl BadShift)"
  using brs.tl_ReadVaruint_sim [of "brs_init xs"] by (simp add: tl_ReadVaruint_list)

end
