(* ===== verification/Telemetry_Archive.thy ===== *)
theory Telemetry_Archive
  imports Telemetry_Format
begin

text \<open>
  The visitors of \<open>telemetry/binary_write_archive.h\<close> and \<open>telemetry/binary_read_archive.h\<close>:
  \<open>BinaryWriteArchive\<close> (an object to its bytes), \<open>BinarySchemaArchive\<close> (a type to its schema)
  and \<open>BinaryReadArchive\<close> (bytes into an object). The templates dispatch on the static type of
  what is visited; here a type is a value of \<open>cpp_type\<close>, an object one of \<open>cpp_value\<close>, and
  \<open>has_type\<close> is what the C++ compiler checks.
\<close>

section \<open>Types and objects\<close>

text \<open>
  The types the visitors know. Integers carry their size in bytes; an enumeration its map from
  values to names; a structure the names and types of its members in the order of its
  \<open>Serialize\<close> method, and the members a default constructed object has.
\<close>

datatype cpp_value =
    VBool bool
  | VInt nat u64
  | VUInt nat u64
  | VFloat32 u32
  | VFloat64 u64
  | VBytes "byte list"
  | VString "byte list"
  | VPtime btime
  | VDuration btime
  | VArray "cpp_value list"
  | VVector "cpp_value list"
  | VOptional "cpp_value option"
  | VEnum u64
  | VStruct "cpp_value list"

datatype cpp_type =
    TBool
  | TInt nat
  | TUInt nat
  | TFloat32
  | TFloat64
  | TBytes
  | TString
  | TPtime
  | TDuration
  | TArray nat cpp_type
  | TVector cpp_type
  | TOptional cpp_type
  | TEnum "(u64 \<times> byte list) list"
  | TStruct "(byte list \<times> cpp_type) list" "cpp_value list"

fun default_value :: "cpp_type \<Rightarrow> cpp_value" where
  "default_value TBool = VBool False"
| "default_value (TInt n) = VInt n 0"
| "default_value (TUInt n) = VUInt n 0"
| "default_value TFloat32 = VFloat32 0"
| "default_value TFloat64 = VFloat64 0"
| "default_value TBytes = VBytes []"
| "default_value TString = VString []"
| "default_value TPtime = VPtime not_a_date_time"
| "default_value TDuration = VDuration (at_us 0)"
| "default_value (TArray n t) = VArray (replicate n (default_value t))"
| "default_value (TVector t) = VVector []"
| "default_value (TOptional t) = VOptional None"
| "default_value (TEnum _) = VEnum 0"
| "default_value (TStruct _ ds) = VStruct ds"

definition int_sizes :: "nat set" where
  "int_sizes = {1, 2, 4, 8}"

inductive has_type :: "cpp_value \<Rightarrow> cpp_type \<Rightarrow> bool" where
  Bool: "has_type (VBool b) TBool"
| Int: "n \<in> int_sizes \<Longrightarrow> take_bit (8 * n) w = w \<Longrightarrow> has_type (VInt n w) (TInt n)"
| UInt: "n \<in> int_sizes \<Longrightarrow> take_bit (8 * n) w = w \<Longrightarrow> has_type (VUInt n w) (TUInt n)"
| Float32: "has_type (VFloat32 f) TFloat32"
| Float64: "has_type (VFloat64 d) TFloat64"
| Bytes: "length d < 2 ^ 63 \<Longrightarrow> has_type (VBytes d) TBytes"
| String: "length d \<le> kMaxStringSize \<Longrightarrow> has_type (VString d) TString"
| Ptime: "btime_ok t \<Longrightarrow> has_type (VPtime t) TPtime"
| Duration: "btime_ok t \<Longrightarrow> has_type (VDuration t) TDuration"
| Array: "length xs = n \<Longrightarrow> n < 2 ^ 64 \<Longrightarrow> \<forall>x \<in> set xs. has_type x t \<Longrightarrow> has_type (VArray xs) (TArray n t)"
| Vector: "length xs < 2 ^ 63 \<Longrightarrow> \<forall>x \<in> set xs. has_type x t \<Longrightarrow> has_type (VVector xs) (TVector t)"
| OptionalNone: "has_type (VOptional None) (TOptional t)"
| OptionalSome: "has_type x t \<Longrightarrow> has_type (VOptional (Some x)) (TOptional t)"
| Enum: "has_type (VEnum w) (TEnum m)"
| Struct: "list_all2 (\<lambda>x f. has_type x (snd f)) xs fs \<Longrightarrow> has_type (VStruct xs) (TStruct fs ds)"

inductive_cases has_typeE [elim!]:
  "has_type v TBool" "has_type v (TInt n)" "has_type v (TUInt n)" "has_type v TFloat32"
  "has_type v TFloat64" "has_type v TBytes" "has_type v TString" "has_type v TPtime"
  "has_type v TDuration" "has_type v (TArray n t)" "has_type v (TVector t)"
  "has_type v (TOptional t)" "has_type v (TEnum m)" "has_type v (TStruct fs ds)"

section \<open>BinaryWriteArchive\<close>

fun bw_Visit :: "('s \<Rightarrow> byte list \<Rightarrow> 's res) \<Rightarrow> cpp_value \<Rightarrow> 's \<Rightarrow> 's res"
  and bw_VisitArray :: "('s \<Rightarrow> byte list \<Rightarrow> 's res) \<Rightarrow> cpp_value list \<Rightarrow> 's \<Rightarrow> 's res" where
  "bw_Visit wr (VBool b) s = tl_WriteBool wr s b"
| "bw_Visit wr (VInt n w) s = tl_WriteScalar wr n s w"
| "bw_Visit wr (VUInt n w) s = tl_WriteScalar wr n s w"
| "bw_Visit wr (VFloat32 f) s = tl_WriteScalar wr 4 s f"
| "bw_Visit wr (VFloat64 d) s = tl_WriteScalar wr 8 s d"
| "bw_Visit wr (VBytes d) s = sbind (tl_WriteVaruint wr s (of_nat (length d))) (\<lambda>s. wr s d)"
| "bw_Visit wr (VString d) s = tl_WriteString wr s d"
| "bw_Visit wr (VPtime t) s = tl_WriteScalar wr 8 s (ConvertPtimeToEpochMicroseconds t)"
| "bw_Visit wr (VDuration t) s = tl_WriteScalar wr 8 s (ConvertDurationToMicroseconds t)"
| "bw_Visit wr (VArray xs) s = bw_VisitArray wr xs s"
| "bw_Visit wr (VVector xs) s =
     sbind (tl_WriteVaruint wr s (of_nat (length xs))) (\<lambda>s. bw_VisitArray wr xs s)"
| "bw_Visit wr (VOptional None) s = tl_WriteVaruint wr s 0"
| "bw_Visit wr (VOptional (Some x)) s = sbind (tl_WriteVaruint wr s 1) (\<lambda>s. bw_Visit wr x s)"
| "bw_Visit wr (VEnum w) s = tl_WriteVaruint wr s w"
| "bw_Visit wr (VStruct xs) s = bw_VisitArray wr xs s"
| "bw_VisitArray wr [] s = Inr s"
| "bw_VisitArray wr (x # xs) s = sbind (bw_Visit wr x s) (\<lambda>s. bw_VisitArray wr xs s)"

text \<open>The bytes of an object: what the archive writes, on every stream.\<close>

fun data_bytes :: "cpp_value \<Rightarrow> byte list" where
  "data_bytes (VBool b) = [if b then 1 else 0]"
| "data_bytes (VInt n w) = le_bytes n w"
| "data_bytes (VUInt n w) = le_bytes n w"
| "data_bytes (VFloat32 f) = le_bytes 4 f"
| "data_bytes (VFloat64 d) = le_bytes 8 d"
| "data_bytes (VBytes d) = string_bytes d"
| "data_bytes (VString d) = string_bytes d"
| "data_bytes (VPtime t) = le_bytes 8 (ConvertPtimeToEpochMicroseconds t)"
| "data_bytes (VDuration t) = le_bytes 8 (ConvertDurationToMicroseconds t)"
| "data_bytes (VArray xs) = concat (map data_bytes xs)"
| "data_bytes (VVector xs) = leb128 (length xs) @ concat (map data_bytes xs)"
| "data_bytes (VOptional None) = [0]"
| "data_bytes (VOptional (Some x)) = 1 # data_bytes x"
| "data_bytes (VEnum w) = leb128 (unat w)"
| "data_bytes (VStruct xs) = concat (map data_bytes xs)"

section \<open>BinarySchemaArchive\<close>

text \<open>\<open>Format::Type\<close>.\<close>

definition kFinal :: u64 where "kFinal = 0"
definition kNull :: u64 where "kNull = 1"
definition kBoolean :: u64 where "kBoolean = 2"
definition kFixedInt :: u64 where "kFixedInt = 3"
definition kFixedUInt :: u64 where "kFixedUInt = 4"
definition kVarint :: u64 where "kVarint = 5"
definition kVaruint :: u64 where "kVaruint = 6"
definition kFloat32 :: u64 where "kFloat32 = 7"
definition kFloat64 :: u64 where "kFloat64 = 8"
definition kBytes :: u64 where "kBytes = 9"
definition kString :: u64 where "kString = 10"
definition kObject :: u64 where "kObject = 16"
definition kEnum :: u64 where "kEnum = 17"
definition kArray :: u64 where "kArray = 18"
definition kFixedArray :: u64 where "kFixedArray = 19"
definition kMap :: u64 where "kMap = 20"
definition kUnion :: u64 where "kUnion = 21"
definition kTimestamp :: u64 where "kTimestamp = 22"
definition kDuration :: u64 where "kDuration = 23"
definition kLastType :: u64 where "kLastType = kDuration"

lemmas type_codes = kFinal_def kNull_def kBoolean_def kFixedInt_def kFixedUInt_def kVarint_def
  kVaruint_def kFloat32_def kFloat64_def kBytes_def kString_def kObject_def kEnum_def kArray_def
  kFixedArray_def kMap_def kUnion_def kTimestamp_def kDuration_def kLastType_def

fun FindType :: "cpp_type \<Rightarrow> u64 list" where
  "FindType TBool = [kBoolean]"
| "FindType (TInt n) = [kFixedInt, of_nat n]"
| "FindType (TUInt n) = [kFixedUInt, of_nat n]"
| "FindType TFloat32 = [kFloat32]"
| "FindType TFloat64 = [kFloat64]"
| "FindType TBytes = [kBytes]"
| "FindType TString = [kString]"
| "FindType TPtime = [kTimestamp]"
| "FindType TDuration = [kDuration]"
| "FindType _ = []"

fun bs_VisitPrimitive :: "('s \<Rightarrow> byte list \<Rightarrow> 's res) \<Rightarrow> u64 list \<Rightarrow> 's \<Rightarrow> 's res" where
  "bs_VisitPrimitive wr [] s = Inr s"
| "bs_VisitPrimitive wr (v # vs) s = sbind (tl_WriteVaruint wr s v) (bs_VisitPrimitive wr vs)"

fun bs_enum_items :: "('s \<Rightarrow> byte list \<Rightarrow> 's res) \<Rightarrow> (u64 \<times> byte list) list \<Rightarrow> 's \<Rightarrow> 's res" where
  "bs_enum_items wr [] s = Inr s"
| "bs_enum_items wr ((key, name) # items) s =
     sbind (tl_WriteVaruint wr s key) (\<lambda>s.
     sbind (tl_WriteString wr s name) (\<lambda>s. bs_enum_items wr items s))"

definition bs_VisitEnumeration ::
  "('s \<Rightarrow> byte list \<Rightarrow> 's res) \<Rightarrow> (u64 \<times> byte list) list \<Rightarrow> 's \<Rightarrow> 's res" where
  "bs_VisitEnumeration wr items s =
     sbind (tl_WriteVaruint wr s kEnum) (\<lambda>s.
     sbind (tl_WriteVaruint wr s kVaruint) (\<lambda>s.
     sbind (tl_WriteVaruint wr s (of_nat (length items))) (\<lambda>s.
     bs_enum_items wr items s)))"

definition bs_Finish :: "('s \<Rightarrow> byte list \<Rightarrow> 's res) \<Rightarrow> 's \<Rightarrow> 's res" where
  "bs_Finish wr s =
     sbind (tl_WriteVaruint wr s 0) (\<lambda>s.
     sbind (tl_WriteString wr s []) (\<lambda>s.
     sbind (tl_WriteVaruint wr s 0) (\<lambda>s.
     sbind (tl_WriteVaruint wr s 0) (\<lambda>s.
     tl_WriteVaruint wr s 0))))"

text \<open>
  A structure is visited through an object of its type (for the members' default values); the
  item of an array, a vector or an optional is visited through a fresh one.
\<close>

fun bs_VisitType :: "('s \<Rightarrow> byte list \<Rightarrow> 's res) \<Rightarrow> bool \<Rightarrow> cpp_type \<Rightarrow> cpp_value \<Rightarrow> 's \<Rightarrow> 's res"
  and bs_VisitFields :: "('s \<Rightarrow> byte list \<Rightarrow> 's res) \<Rightarrow> bool \<Rightarrow> (byte list \<times> cpp_type) list \<Rightarrow>
      cpp_value list \<Rightarrow> 's \<Rightarrow> 's res" where
  "bs_VisitType wr emit_default (TArray n t) v s =
     sbind (tl_WriteVaruint wr s kFixedArray) (\<lambda>s.
     sbind (tl_WriteVaruint wr s (of_nat n)) (\<lambda>s.
     bs_VisitType wr emit_default t (default_value t) s))"
| "bs_VisitType wr emit_default (TVector t) v s =
     sbind (tl_WriteVaruint wr s kArray) (\<lambda>s.
     bs_VisitType wr emit_default t (default_value t) s)"
| "bs_VisitType wr emit_default (TOptional t) v s =
     sbind (tl_WriteVaruint wr s kUnion) (\<lambda>s.
     sbind (tl_WriteVaruint wr s kNull) (\<lambda>s.
     sbind (bs_VisitType wr emit_default t (default_value t) s) (\<lambda>s.
     tl_WriteVaruint wr s kFinal)))"
| "bs_VisitType wr emit_default (TEnum items) v s = bs_VisitEnumeration wr items s"
| "bs_VisitType wr emit_default (TStruct fs ds) v s =
     sbind (tl_WriteVaruint wr s kObject) (\<lambda>s.
     sbind (tl_WriteVaruint wr s 0) (\<lambda>s.
     sbind (bs_VisitFields wr emit_default fs (case v of VStruct xs \<Rightarrow> xs | _ \<Rightarrow> []) s) (\<lambda>s.
     bs_Finish wr s)))"
| "bs_VisitType wr emit_default t v s = bs_VisitPrimitive wr (FindType t) s"
| "bs_VisitFields wr emit_default ((name, t) # fs) (x # xs) s =
     sbind (tl_WriteVaruint wr s 0) (\<lambda>s.
     sbind (tl_WriteString wr s name) (\<lambda>s.
     sbind (tl_WriteVaruint wr s 0) (\<lambda>s.
     sbind (bs_VisitType wr emit_default t x s) (\<lambda>s.
     sbind (if emit_default then sbind (tl_WriteVaruint wr s 1) (\<lambda>s. bw_Visit wr x s)
            else tl_WriteVaruint wr s 0) (\<lambda>s.
     bs_VisitFields wr emit_default fs xs s)))))"
| "bs_VisitFields wr emit_default _ _ s = Inr s"

fun schema_bytes :: "bool \<Rightarrow> cpp_type \<Rightarrow> cpp_value \<Rightarrow> byte list"
  and field_bytes :: "bool \<Rightarrow> (byte list \<times> cpp_type) list \<Rightarrow> cpp_value list \<Rightarrow> byte list" where
  "schema_bytes e (TArray n t) v = leb128 19 @ leb128 n @ schema_bytes e t (default_value t)"
| "schema_bytes e (TVector t) v = leb128 18 @ schema_bytes e t (default_value t)"
| "schema_bytes e (TOptional t) v = leb128 21 @ leb128 1 @ schema_bytes e t (default_value t) @ leb128 0"
| "schema_bytes e (TEnum items) v =
     leb128 17 @ leb128 6 @ leb128 (length items) @
     concat (map (\<lambda>(key, name). leb128 (unat key) @ string_bytes name) items)"
| "schema_bytes e (TStruct fs ds) v =
     leb128 16 @ leb128 0 @ field_bytes e fs (case v of VStruct xs \<Rightarrow> xs | _ \<Rightarrow> []) @
     leb128 0 @ string_bytes [] @ leb128 0 @ leb128 0 @ leb128 0"
| "schema_bytes e t v = concat (map (\<lambda>v. leb128 (unat v)) (FindType t))"
| "field_bytes e ((name, t) # fs) (x # xs) =
     leb128 0 @ string_bytes name @ leb128 0 @ schema_bytes e t x @
     (if e then leb128 1 @ data_bytes x else leb128 0) @ field_bytes e fs xs"
| "field_bytes e _ _ = []"

text \<open>The types a program can have: the lengths that occur are those of real strings and vectors.\<close>

fun wf_type :: "cpp_type \<Rightarrow> bool" where
  "wf_type (TInt n) = (n \<in> int_sizes)"
| "wf_type (TUInt n) = (n \<in> int_sizes)"
| "wf_type (TArray n t) = (n < 2 ^ 64 \<and> wf_type t)"
| "wf_type (TVector t) = wf_type t"
| "wf_type (TOptional t) = wf_type t"
| "wf_type (TEnum items) =
     (length items < 2 ^ 64 \<and> (\<forall>(k, name) \<in> set items. length name \<le> kMaxStringSize))"
| "wf_type (TStruct fs ds) =
     (has_type (VStruct ds) (TStruct fs ds) \<and>
      (\<forall>(name, t) \<in> set fs. length name \<le> kMaxStringSize \<and> wf_type t))"
| "wf_type _ = True"

section \<open>BinaryReadArchive\<close>

text \<open>
  Every visit gets the object as it is, the flag \<open>error_\<close> and the stream. A resize beyond the
  largest possible size of a vector throws. Members of a structure are visited to the end
  whatever the flag says; the items of a vector until it is set.
\<close>

fun ra_VisitArray ::
  "(cpp_value \<Rightarrow> bool \<Rightarrow> 's \<Rightarrow> (cpp_value \<times> bool \<times> 's) res) \<Rightarrow> cpp_value list \<Rightarrow> bool \<Rightarrow> 's \<Rightarrow>
   (cpp_value list \<times> bool \<times> 's) res" where
  "ra_VisitArray f [] e s = Inr ([], e, s)"
| "ra_VisitArray f (x # xs) e s =
     sbind (f x e s) (\<lambda>(y, e, s).
     if e then Inr (y # xs, e, s)
     else sbind (ra_VisitArray f xs e s) (\<lambda>(ys, e, s). Inr (y # ys, e, s)))"

definition resize_with :: "nat \<Rightarrow> 'a \<Rightarrow> 'a list \<Rightarrow> 'a list" where
  "resize_with n d xs = take n xs @ replicate (n - length xs) d"

definition ra_scalar ::
  "('s \<Rightarrow> nat \<Rightarrow> byte list \<times> 's) \<Rightarrow> nat \<Rightarrow> ('a::len word \<Rightarrow> cpp_value) \<Rightarrow> cpp_value \<Rightarrow> bool \<Rightarrow> 's \<Rightarrow>
   (cpp_value \<times> bool \<times> 's) res" where
  "ra_scalar rd n mk v e s =
     (case tl_ReadScalar rd n s of
        (None, s) \<Rightarrow> Inr (v, True, s)
      | (Some x, s) \<Rightarrow> Inr (mk x, e, s))"

definition ra_bytes ::
  "('s \<Rightarrow> nat \<Rightarrow> byte list \<times> 's) \<Rightarrow> cpp_value \<Rightarrow> bool \<Rightarrow> 's \<Rightarrow> (cpp_value \<times> bool \<times> 's) res" where
  "ra_bytes rd v e s =
     sbind (tl_ReadVaruint rd s) (\<lambda>(maybe_size, s).
     case maybe_size of
       None \<Rightarrow> Inr (v, True, s)
     | Some sz \<Rightarrow>
         if unat sz \<ge> 2 ^ 63 then Inl Thrown
         else let value = resize_with (unat sz) 0 (case v of VBytes d \<Rightarrow> d | _ \<Rightarrow> [])
              in case rd s (unat sz) of
                   (d, s) \<Rightarrow> Inr (VBytes (overwrite value 0 d), e \<or> length d \<noteq> unat sz, s))"

fun ra_Visit ::
  "('s \<Rightarrow> nat \<Rightarrow> byte list \<times> 's) \<Rightarrow> cpp_type \<Rightarrow> cpp_value \<Rightarrow> bool \<Rightarrow> 's \<Rightarrow> (cpp_value \<times> bool \<times> 's) res"
  and ra_Accept ::
  "('s \<Rightarrow> nat \<Rightarrow> byte list \<times> 's) \<Rightarrow> (byte list \<times> cpp_type) list \<Rightarrow> cpp_value list \<Rightarrow> bool \<Rightarrow> 's \<Rightarrow>
   (cpp_value list \<times> bool \<times> 's) res" where
  "ra_Visit rd TBool v e s = ra_scalar rd 1 (\<lambda>b :: byte. VBool (b \<noteq> 0)) v e s"
| "ra_Visit rd (TInt n) v e s = ra_scalar rd n (VInt n) v e s"
| "ra_Visit rd (TUInt n) v e s = ra_scalar rd n (VUInt n) v e s"
| "ra_Visit rd TFloat32 v e s = ra_scalar rd 4 VFloat32 v e s"
| "ra_Visit rd TFloat64 v e s = ra_scalar rd 8 VFloat64 v e s"
| "ra_Visit rd TBytes v e s = ra_bytes rd v e s"
| "ra_Visit rd TString v e s =
     sbind (tl_ReadString rd s) (\<lambda>(maybe_data, s).
     case maybe_data of None \<Rightarrow> Inr (v, True, s) | Some d \<Rightarrow> Inr (VString d, e, s))"
| "ra_Visit rd TPtime v e s =
     ra_scalar rd 8 (\<lambda>d. VPtime (ConvertEpochMicrosecondsToPtime d)) v e s"
| "ra_Visit rd TDuration v e s =
     ra_scalar rd 8 (\<lambda>d. VDuration (ConvertMicrosecondsToDuration d)) v e s"
| "ra_Visit rd (TArray n t) v e s =
     sbind (ra_VisitArray (\<lambda>x e s. ra_Visit rd t x e s) (case v of VArray xs \<Rightarrow> xs | _ \<Rightarrow> []) e s) (\<lambda>(ys, e, s).
     Inr (VArray ys, e, s))"
| "ra_Visit rd (TVector t) v e s =
     sbind (tl_ReadVaruint rd s) (\<lambda>(maybe_size, s).
     case maybe_size of
       None \<Rightarrow> Inr (v, True, s)
     | Some sz \<Rightarrow>
         if unat sz \<ge> 2 ^ 63 then Inl Thrown
         else sbind (ra_VisitArray (\<lambda>x e s. ra_Visit rd t x e s)
                (resize_with (unat sz) (default_value t) (case v of VVector xs \<Rightarrow> xs | _ \<Rightarrow> [])) e s)
              (\<lambda>(ys, e, s). Inr (VVector ys, e, s)))"
| "ra_Visit rd (TOptional t) v e s =
     (case tl_ReadScalar rd 1 s of
        (None, s) \<Rightarrow> Inr (v, True, s)
      | (Some present, s) \<Rightarrow>
          if present = (0 :: byte) then Inr (v, e, s)
          else if present = 1 then
            sbind (ra_Visit rd t (default_value t) e s) (\<lambda>(item, e, s). Inr (VOptional (Some item), e, s))
          else Inr (v, True, s))"
| "ra_Visit rd (TEnum m) v e s =
     sbind (tl_ReadVaruint rd s) (\<lambda>(maybe_value, s).
     case maybe_value of None \<Rightarrow> Inr (v, True, s) | Some w \<Rightarrow> Inr (VEnum w, e, s))"
| "ra_Visit rd (TStruct fs ds) v e s =
     sbind (ra_Accept rd fs (case v of VStruct xs \<Rightarrow> xs | _ \<Rightarrow> []) e s) (\<lambda>(ys, e, s).
     Inr (VStruct ys, e, s))"
| "ra_Accept rd ((name, t) # fs) (x # xs) e s =
     sbind (ra_Visit rd t x e s) (\<lambda>(y, e, s).
     sbind (ra_Accept rd fs xs e s) (\<lambda>(ys, e, s). Inr (y # ys, e, s)))"
| "ra_Accept rd _ xs e s = Inr (xs, e, s)"

text \<open>
  An object without an engaged optional, and a type whose fresh objects have none. (A
  disengaged optional in the data leaves the optional of the object as it is.)
\<close>

fun fresh :: "cpp_value \<Rightarrow> bool" where
  "fresh (VArray xs) = (\<forall>x \<in> set xs. fresh x)"
| "fresh (VVector xs) = (\<forall>x \<in> set xs. fresh x)"
| "fresh (VStruct xs) = (\<forall>x \<in> set xs. fresh x)"
| "fresh (VOptional x) = (x = None)"
| "fresh _ = True"

fun fresh_type :: "cpp_type \<Rightarrow> bool" where
  "fresh_type (TArray n t) = fresh_type t"
| "fresh_type (TVector t) = fresh_type t"
| "fresh_type (TOptional t) = fresh_type t"
| "fresh_type (TStruct fs ds) = ((\<forall>d \<in> set ds. fresh d) \<and> (\<forall>(n, t) \<in> set fs. fresh_type t))"
| "fresh_type _ = True"

section \<open>The archives write the reference bytes\<close>

lemma list_all2_in_set1: "list_all2 P xs ys \<Longrightarrow> x \<in> set xs \<Longrightarrow> \<exists>y \<in> set ys. P x y"
  by (metis in_set_conv_nth list_all2_conv_all_nth)

context steady_stream
begin

lemma bw_VisitArray_bytes:
  "ok s \<Longrightarrow> (\<And>x t. x \<in> set xs \<Longrightarrow> ok t \<Longrightarrow> bw_Visit wr x t = wr t (data_bytes x)) \<Longrightarrow>
   bw_VisitArray wr xs s = wr s (concat (map data_bytes xs))"
proof (induction xs arbitrary: s)
  case Nil
  then show ?case by (simp add: wr_Nil)
next
  case (Cons x xs)
  then show ?case by (simp add: wr_then)
qed

lemma bw_Visit_bytes:
  "has_type v ty \<Longrightarrow> ok s \<Longrightarrow> bw_Visit wr v s = wr s (data_bytes v)"
proof (induction arbitrary: s rule: has_type.induct)
  case (Bytes d)
  then show ?case
    by (simp add: tl_WriteVaruint_leb128 string_bytes_def unat_of_nat take_bit_eq_mod wr_seq)
next
  case (String d)
  then show ?case by (simp add: tl_WriteString_bytes kMaxStringSize_def)
next
  case (Array xs n t)
  then show ?case by (simp add: bw_VisitArray_bytes)
next
  case (Vector xs t)
  then have "unat (of_nat (length xs) :: u64) = length xs"
    by (simp add: unat_of_nat take_bit_eq_mod)
  with Vector show ?case
    by (simp add: tl_WriteVaruint_leb128 wr_then bw_VisitArray_bytes)
next
  case (OptionalSome x t)
  then show ?case
    by (simp add: tl_WriteVaruint_leb128 leb128_small wr_then)
next
  case (Struct xs fs ds)
  then have "bw_Visit wr x t = wr t (data_bytes x)" if "x \<in> set xs" "ok t" for x t
    using list_all2_in_set1 [of _ xs fs x] that by blast
  with Struct show ?case by (simp add: bw_VisitArray_bytes)
qed (simp_all add: tl_WriteBool_bytes tl_WriteScalar_def tl_WriteVaruint_leb128 leb128_small)

lemma bs_VisitPrimitive_bytes:
  "ok s \<Longrightarrow> bs_VisitPrimitive wr vs s = wr s (concat (map (\<lambda>v. leb128 (unat v)) vs))"
  by (induction vs arbitrary: s) (simp_all add: wr_Nil tl_WriteVaruint_leb128 wr_then)

lemma bs_enum_items_bytes:
  "ok s \<Longrightarrow> \<forall>(k, name) \<in> set items. length name \<le> kMaxStringSize \<Longrightarrow>
   bs_enum_items wr items s
     = wr s (concat (map (\<lambda>(key, name). leb128 (unat key) @ string_bytes name) items))"
proof (induction items arbitrary: s)
  case Nil
  then show ?case by (simp add: wr_Nil)
next
  case (Cons i items)
  obtain key name where i: "i = (key, name)" by (cases i)
  have "length name < 2 ^ 64" using Cons.prems i by (simp add: kMaxStringSize_def)
  with Cons i show ?case
    by (simp add: tl_WriteVaruint_leb128 tl_WriteString_bytes wr_seq_more wr_then)
qed

end

lemma default_has_type: "wf_type t \<Longrightarrow> has_type (default_value t) t"
  by (induction t) (auto intro: has_type.intros simp: btime_ok_def int64_max_def int64_min_def)

context steady_stream
begin

lemma schema_writers_bytes:
  "ok s \<Longrightarrow> has_type v ty \<Longrightarrow> wf_type ty \<Longrightarrow>
     bs_VisitType wr e ty v s = wr s (schema_bytes e ty v)"
  "ok s \<Longrightarrow> list_all2 (\<lambda>x f. has_type x (snd f)) xs fs \<Longrightarrow>
     \<forall>(name, t) \<in> set fs. length name \<le> kMaxStringSize \<and> wf_type t \<Longrightarrow>
     bs_VisitFields wr e fs xs s = wr s (field_bytes e fs xs)"
proof (induction e ty v and e fs xs arbitrary: s and s rule: schema_bytes_field_bytes.induct)
  case (1 e n t v)
  then have "unat (of_nat n :: u64) = n" by (simp add: unat_of_nat take_bit_eq_mod)
  with 1 show ?case
    by (simp add: tl_WriteVaruint_leb128 wr_seq_more wr_then default_has_type type_codes)
next
  case (2 e t v)
  then show ?case
    by (simp add: tl_WriteVaruint_leb128 wr_then default_has_type type_codes)
next
  case (3 e t v)
  have "sbind (bs_VisitType wr e t (default_value t) u) (\<lambda>s. wr s (leb128 0))
      = wr u (schema_bytes e t (default_value t) @ leb128 0)" if "ok u" for u
    using 3 that by (simp add: default_has_type wr_seq)
  with 3 show ?case
    by (simp add: tl_WriteVaruint_leb128 wr_seq_more wr_then type_codes)
next
  case (4 e items v)
  then have "unat (of_nat (length items) :: u64) = length items"
    by (simp add: unat_of_nat take_bit_eq_mod)
  with 4 show ?case
    by (simp add: bs_VisitEnumeration_def tl_WriteVaruint_leb128 wr_seq_more wr_then type_codes
        bs_enum_items_bytes)
next
  case (5 e fs ds v)
  then obtain xs where v: "v = VStruct xs" "list_all2 (\<lambda>x f. has_type x (snd f)) xs fs" by auto
  have fin: "bs_Finish wr u = wr u (leb128 0 @ string_bytes [] @ leb128 0 @ leb128 0 @ leb128 0)" for u
    by (simp add: bs_Finish_def tl_WriteVaruint_leb128 tl_WriteString_bytes wr_seq wr_seq_more)
  have "sbind (bs_VisitFields wr e fs xs u) (bs_Finish wr)
      = wr u (field_bytes e fs xs @ leb128 0 @ string_bytes [] @ leb128 0 @ leb128 0 @ leb128 0)" if "ok u" for u
    using 5 v that by (simp add: fin wr_then)
  with 5 v show ?case
    by (simp add: tl_WriteVaruint_leb128 wr_seq_more wr_then type_codes)
next
  case (7 e name t fs x xs)
  let ?d = "if e then leb128 1 @ data_bytes x else leb128 0"
  have len: "length name < 2 ^ 64" using 7 by (simp add: kMaxStringSize_def)
  have d: "(if e then sbind (tl_WriteVaruint wr u 1) (\<lambda>s. bw_Visit wr x s) else tl_WriteVaruint wr u 0)
      = wr u ?d" if "ok u" for u
    using 7 that by (auto simp: tl_WriteVaruint_leb128 bw_Visit_bytes wr_then)
  have fs: "bs_VisitFields wr e fs xs u = wr u (field_bytes e fs xs)"
    and ty: "bs_VisitType wr e t x u = wr u (schema_bytes e t x)" if "ok u" for u
    using 7 that by simp_all
  have "sbind (bs_VisitType wr e t x u) (\<lambda>s.
        sbind (if e then sbind (tl_WriteVaruint wr s 1) (\<lambda>s. bw_Visit wr x s) else tl_WriteVaruint wr s 0) (\<lambda>s.
        bs_VisitFields wr e fs xs s)) = wr u (schema_bytes e t x @ ?d @ field_bytes e fs xs)" if "ok u" for u
    unfolding ty [OF that] by (rule wr_then [OF that]) (simp only: d wr_then fs)
  with 7 len show ?case
    by (simp add: tl_WriteVaruint_leb128 tl_WriteString_bytes wr_seq_more wr_then)
qed (simp_all add: bs_VisitPrimitive_bytes wr_Nil del: bs_VisitPrimitive.simps)

end

section \<open>BinaryReadArchive reads it back\<close>

lemma fresh_default: "fresh_type t \<Longrightarrow> fresh (default_value t)"
  by (induction t) auto

lemma set_resize_with: "x \<in> set (resize_with n d xs) \<Longrightarrow> x = d \<or> x \<in> set xs"
  by (auto simp: resize_with_def dest: in_set_takeD split: if_splits)

lemma length_resize_with [simp]: "length (resize_with n d xs) = n"
  by (simp add: resize_with_def)

lemma le_word_int_size:
  "n \<in> int_sizes \<Longrightarrow> take_bit (8 * n) w = w \<Longrightarrow> le_word (le_bytes n w) = (w :: u64)"
  by (simp add: le_word_le_bytes)

context read_stream
begin

definition takes :: "byte list \<Rightarrow> 's \<Rightarrow> ('s \<Rightarrow> ('v \<times> bool \<times> 's) res) \<Rightarrow> 'v \<Rightarrow> bool" where
  "takes bs s f v =
     (\<forall>rest. ok s \<longrightarrow> avail s = bs @ rest \<longrightarrow>
        (\<exists>t. f s = Inr (v, False, t) \<and> avail t = rest \<and> ok t))"

lemma takesD:
  "takes bs s f v \<Longrightarrow> ok s \<Longrightarrow> avail s = bs @ rest \<Longrightarrow>
   \<exists>t. f s = Inr (v, False, t) \<and> avail t = rest \<and> ok t"
  by (simp add: takes_def)

lemma ra_scalar_takes:
  fixes mk :: "'w::len word \<Rightarrow> cpp_value"
  assumes "length d = n" and "mk (le_word d) = v"
  shows "takes d s (ra_scalar rd n mk z False) v"
proof (unfold takes_def, intro allI impI)
  fix rest
  assume "ok s" "avail s = d @ rest"
  from rd_scalar [OF this assms(1)]
  obtain t where "tl_ReadScalar rd n s = (Some (le_word d :: 'w word), t)" "avail t = rest" "ok t"
    by blast
  with assms(2) show "\<exists>t. ra_scalar rd n mk z False s = Inr (v, False, t) \<and> avail t = rest \<and> ok t"
    by (auto simp: ra_scalar_def)
qed

lemma ra_VisitArray_takes:
  assumes "length zs = length xs"
    and "\<And>x z s. x \<in> set xs \<Longrightarrow> z \<in> set zs \<Longrightarrow> takes (data_bytes x) s (f z False) x"
  shows "takes (concat (map data_bytes xs)) s (ra_VisitArray f zs False) xs"
  using assms
proof (induction xs arbitrary: zs s)
  case Nil
  then show ?case by (simp add: takes_def)
next
  case (Cons x xs)
  then obtain z zs' where zs: "zs = z # zs'" by (cases zs) auto
  show ?case
    unfolding takes_def
  proof (intro allI impI)
    fix rest
    assume "ok s" "avail s = concat (map data_bytes (x # xs)) @ rest"
    then obtain t where t: "f z False s = Inr (x, False, t)" "ok t"
        "avail t = concat (map data_bytes xs) @ rest"
      using takesD [OF Cons.prems(2) [of x z s] \<open>ok s\<close>, of "concat (map data_bytes xs) @ rest"] zs by auto
    have tk: "takes (concat (map data_bytes xs)) t (ra_VisitArray f zs' False) xs"
      using Cons zs by simp
    from takesD [OF tk t(2,3)] obtain u where "ra_VisitArray f zs' False t = Inr (xs, False, u)" "avail u = rest" "ok u"
      by blast
    with t zs show "\<exists>t. ra_VisitArray f zs False s = Inr (x # xs, False, t) \<and> avail t = rest \<and> ok t"
      by simp
  qed
qed

lemma ra_Accept_takes:
  assumes "length fs = length xs" and "length zs = length xs"
    and "\<And>i s. i < length xs \<Longrightarrow>
      takes (data_bytes (xs ! i)) s (ra_Visit rd (snd (fs ! i)) (zs ! i) False) (xs ! i)"
  shows "takes (concat (map data_bytes xs)) s (ra_Accept rd fs zs False) xs"
  using assms
proof (induction xs arbitrary: fs zs s)
  case Nil
  then show ?case by (simp add: takes_def)
next
  case (Cons x xs)
  then obtain z zs' n t fs' where eq: "zs = z # zs'" "fs = (n, t) # fs'"
    by (cases zs; cases fs) auto
  show ?case
    unfolding takes_def
  proof (intro allI impI)
    fix rest
    assume "ok s" "avail s = concat (map data_bytes (x # xs)) @ rest"
    then obtain s' where t: "ra_Visit rd t z False s = Inr (x, False, s')" "ok s'"
        "avail s' = concat (map data_bytes xs) @ rest"
      using takesD [OF Cons.prems(3) [of 0 s] \<open>ok s\<close>, of "concat (map data_bytes xs) @ rest"] eq by auto
    have tk: "takes (concat (map data_bytes xs)) s' (ra_Accept rd fs' zs' False) xs"
      using Cons.IH [of fs' zs'] Cons.prems(1,2) Cons.prems(3) [of "Suc i" for i] eq by simp
    from takesD [OF tk t(2,3)] obtain u where "ra_Accept rd fs' zs' False s' = Inr (xs, False, u)" "avail u = rest" "ok u"
      by blast
    with t eq show "\<exists>t. ra_Accept rd fs zs False s = Inr (x # xs, False, t) \<and> avail t = rest \<and> ok t"
      by simp
  qed
qed

lemma ra_Visit_scalars:
  "ra_Visit rd TBool v e = ra_scalar rd 1 (\<lambda>b :: byte. VBool (b \<noteq> 0)) v e"
  "ra_Visit rd (TInt n) v e = ra_scalar rd n (VInt n) v e"
  "ra_Visit rd (TUInt n) v e = ra_scalar rd n (VUInt n) v e"
  "ra_Visit rd TFloat32 v e = ra_scalar rd 4 VFloat32 v e"
  "ra_Visit rd TFloat64 v e = ra_scalar rd 8 VFloat64 v e"
  "ra_Visit rd TPtime v e = ra_scalar rd 8 (\<lambda>d. VPtime (ConvertEpochMicrosecondsToPtime d)) v e"
  "ra_Visit rd TDuration v e = ra_scalar rd 8 (\<lambda>d. VDuration (ConvertMicrosecondsToDuration d)) v e"
  by (simp_all add: fun_eq_iff)

lemma ra_Visit_takes:
  "has_type v ty \<Longrightarrow> wf_type ty \<Longrightarrow> fresh_type ty \<Longrightarrow> has_type z ty \<Longrightarrow> fresh z \<Longrightarrow>
   takes (data_bytes v) s (ra_Visit rd ty z False) v"
proof (induction v ty arbitrary: z s rule: has_type.induct)
  case (Bytes d)
  show ?case
  proof (unfold takes_def, intro allI impI)
    fix rest
    assume s: "ok s" "avail s = data_bytes (VBytes d) @ rest"
    then obtain t where t: "tl_ReadVaruint rd s = Inr (Some (of_nat (length d)), t)" "avail t = d @ rest" "ok t"
      using rd_varuint_nat [of s "length d" "d @ rest"] Bytes by (auto simp: string_bytes_def)
    from rd_exact [OF t(3,2)] obtain u where "rd t (length d) = (d, u)" "avail u = rest" "ok u" by blast
    with t Bytes show "\<exists>t. ra_Visit rd TBytes z False s = Inr (VBytes d, False, t) \<and> avail t = rest \<and> ok t"
      by (simp add: ra_bytes_def unat_of_nat take_bit_eq_mod overwrite_def Let_def)
  qed
next
  case (String d)
  show ?case
  proof (unfold takes_def, intro allI impI)
    fix rest
    assume "ok s" "avail s = data_bytes (VString d) @ rest"
    then show "\<exists>t. ra_Visit rd TString z False s = Inr (VString d, False, t) \<and> avail t = rest \<and> ok t"
      using rd_string [of s d rest] String by auto
  qed
next
  case (Array xs n t)
  then obtain zs where "z = VArray zs" "length zs = n" "\<forall>z \<in> set zs. has_type z t" by auto
  moreover from this Array have "takes (concat (map data_bytes xs)) s (ra_VisitArray (\<lambda>x e s. ra_Visit rd t x e s) zs False) xs"
    by (intro ra_VisitArray_takes) auto
  ultimately show ?case
    by (auto simp: takes_def)
next
  case (Vector xs t)
  then obtain zs where z: "z = VVector zs" "\<forall>z \<in> set zs. has_type z t" by auto
  let ?zs = "resize_with (length xs) (default_value t) zs"
  have zs: "has_type z t" "fresh z" if "z \<in> set ?zs" for z
    using set_resize_with [OF that] Vector.prems z default_has_type [of t] fresh_default [of t] by auto
  have tk: "takes (concat (map data_bytes xs)) s (ra_VisitArray (\<lambda>x e s. ra_Visit rd t x e s) ?zs False) xs" for s
    using Vector zs by (intro ra_VisitArray_takes) auto
  show ?case
  proof (unfold takes_def, intro allI impI)
    fix rest
    assume "ok s" "avail s = data_bytes (VVector xs) @ rest"
    then obtain u where u: "tl_ReadVaruint rd s = Inr (Some (of_nat (length xs)), u)"
        "ok u" "avail u = concat (map data_bytes xs) @ rest"
      using rd_varuint_nat [of s "length xs"] Vector by auto
    from takesD [OF tk u(2,3)] u(1) Vector z
    show "\<exists>u. ra_Visit rd (TVector t) z False s = Inr (VVector xs, False, u) \<and> avail u = rest \<and> ok u"
      by (auto simp: unat_of_nat take_bit_eq_mod)
  qed
next
  case (OptionalNone t)
  show ?case
  proof (unfold takes_def, intro allI impI)
    fix rest
    assume "ok s" "avail s = data_bytes (VOptional None) @ rest"
    with rd_scalar [of s "[0]" rest 1]
    obtain u where "tl_ReadScalar rd 1 s = (Some (0 :: byte), u)" "avail u = rest" "ok u" by auto
    with OptionalNone show
      "\<exists>u. ra_Visit rd (TOptional t) z False s = Inr (VOptional None, False, u) \<and> avail u = rest \<and> ok u"
      by auto
  qed
next
  case (OptionalSome x t)
  have tk: "takes (data_bytes x) s (ra_Visit rd t (default_value t) False) x" for s
    using OptionalSome by (auto simp: default_has_type fresh_default)
  show ?case
  proof (unfold takes_def, intro allI impI)
    fix rest
    assume "ok s" "avail s = data_bytes (VOptional (Some x)) @ rest"
    with rd_scalar [of s "[1]" "data_bytes x @ rest" 1]
    obtain u where u: "tl_ReadScalar rd 1 s = (Some (1 :: byte), u)" "ok u" "avail u = data_bytes x @ rest"
      by auto
    from takesD [OF tk u(2,3)] u(1) show
      "\<exists>u. ra_Visit rd (TOptional t) z False s = Inr (VOptional (Some x), False, u) \<and> avail u = rest \<and> ok u"
      by auto
  qed
next
  case (Struct xs fs ds)
  then obtain zs where z: "z = VStruct zs" "list_all2 (\<lambda>x f. has_type x (snd f)) zs fs" by auto
  have "takes (data_bytes (xs ! i)) s (ra_Visit rd (snd (fs ! i)) (zs ! i) False) (xs ! i)"
    if "i < length xs" for i s
    using Struct z that by (auto simp: list_all2_conv_all_nth all_set_conv_all_nth split_beta)
  then have "takes (concat (map data_bytes xs)) s (ra_Accept rd fs zs False) xs"
    using list_all2_lengthD [OF Struct(1)] list_all2_lengthD [OF z(2)] by (intro ra_Accept_takes) auto
  with z show ?case by (auto simp: takes_def)
next
  case (Enum w m)
  show ?case
  proof (unfold takes_def, intro allI impI)
    fix rest
    assume "ok s" "avail s = data_bytes (VEnum w) @ rest"
    then show "\<exists>t. ra_Visit rd (TEnum m) z False s = Inr (VEnum w, False, t) \<and> avail t = rest \<and> ok t"
      using rd_varuint [of s w rest] by auto
  qed
qed (auto intro!: ra_scalar_takes simp: ra_Visit_scalars le_word_int_size btime_roundtrip)

end

section \<open>Properties\<close>

text \<open>\<open>BinaryWriteArchive::Write(value)\<close>, \<open>BinarySchemaArchive::Write<T>()\<close> and
  \<open>BinaryReadArchive::Read<T>(data)\<close>.\<close>

definition archive_Write :: "cpp_value \<Rightarrow> byte list res" where
  "archive_Write v = sbind (bw_Visit fos_write v fos_init) (\<lambda>o'. Inr (fos_str o'))"

definition schema_Write :: "bool \<Rightarrow> cpp_type \<Rightarrow> byte list res" where
  "schema_Write emit_default ty =
     sbind (bs_VisitType fos_write emit_default ty (default_value ty) fos_init) (\<lambda>o'. Inr (fos_str o'))"

definition archive_Read :: "cpp_type \<Rightarrow> byte list \<Rightarrow> (cpp_value \<times> bool \<times> brs) res" where
  "archive_Read ty d = ra_Visit brs_read ty (default_value ty) False (brs_init d)"

lemma fos_init_simps [simp]: "fos_ok fos_init" "fos_str fos_init = []"
  by (simp_all add: fos_ok_def fos_init_def fos_str_def)

lemma fos_write_init: "sbind (fos_write fos_init d) (\<lambda>o'. Inr (fos_str o')) = Inr d"
  using fos.wr_out [of fos_init d] by (simp add: fos_write_eq)

lemma archive_Write_bytes: "has_type v ty \<Longrightarrow> archive_Write v = Inr (data_bytes v)"
  by (simp add: archive_Write_def fos_obj.bw_Visit_bytes fos_write_init)

lemma schema_Write_bytes:
  "wf_type ty \<Longrightarrow> schema_Write e ty = Inr (schema_bytes e ty (default_value ty))"
  by (simp add: schema_Write_def fos_obj.schema_writers_bytes default_has_type fos_write_init)

text \<open>
  C21: an object of any type built from the ones the archives know, in which
  no default value holds an engaged optional, written by \<open>BinaryWriteArchive\<close> and read by
  \<open>BinaryReadArchive\<close> into a fresh object of its type, is the same object again; no error is
  flagged and exactly the bytes written are consumed. (The default values matter because the
  reader leaves an optional as it is when the bytes say that it is empty.)
\<close>

theorem archive_roundtrip:
  assumes "has_type v ty" and "wf_type ty" and "fresh_type ty"
  shows "\<exists>d s. archive_Write v = Inr d \<and> archive_Read ty (d @ rest) = Inr (v, False, s)
    \<and> brs_avail s = rest"
  using brs.takesD [OF brs.ra_Visit_takes [OF assms default_has_type fresh_default], of "brs_init (data_bytes v @ rest)" rest]
    assms by (auto simp: archive_Write_bytes archive_Read_def)

definition demo_type :: cpp_type where
  "demo_type = TStruct
     [(ascii ''id'', TUInt 2), (ascii ''name'', TString), (ascii ''samples'', TVector (TInt 4)),
      (ascii ''mode'', TEnum [(0, ascii ''off''), (1, ascii ''on'')]),
      (ascii ''limit'', TOptional TFloat32)]
     [VUInt 2 0, VString [], VVector [], VEnum 0, VOptional None]"

definition demo_object :: cpp_value where
  "demo_object = VStruct [VUInt 2 513, VString (ascii ''arm''), VVector [VInt 4 7, VInt 4 9], VEnum 1,
     VOptional (Some (VFloat32 0x3f800000))]"

lemma demo_typed: "has_type demo_object demo_type" "wf_type demo_type" "fresh_type demo_type"
  by (auto simp: demo_object_def demo_type_def int_sizes_def kMaxStringSize_def take_bit_eq_mod
      intro!: has_type.intros)

theorem archive_roundtrip_witness:
  "\<exists>d s. archive_Write demo_object = Inr d \<and> archive_Read demo_type (d @ [1, 2]) = Inr (demo_object, False, s)
    \<and> brs_avail s = [1, 2]"
  using archive_roundtrip [OF demo_typed] by blast

end
