(* ===== verification/Config_Items.thy ===== *)
theory Config_Items
  imports Command_Manager Telemetry_Archive
begin

text \<open>
  \<open>micro/serializable_handler_detail.h\<close> and \<open>micro/serializable_handler.h\<close>: the visitors that
  set, print and enumerate the members of a registered structure by their dotted names. The C
  library functions for integers (\<open>strtol\<close> and its kin with base 0, \<open>snprintf\<close> of decimals) are
  modelled; those for floating point numbers are parameters. The visitors are templates that
  exist for booleans, integers, floating point numbers, enumerations, arrays, structures and
  optional scalars; for other types the program does not compile, and the model gives \<open>None\<close>.
\<close>

section \<open>Text of numbers\<close>

subsection \<open>Printing\<close>

fun fmt_nat :: "nat \<Rightarrow> byte list" where
  "fmt_nat n = (if n < 10 then [of_nat (48 + n)] else fmt_nat (n div 10) @ [of_nat (48 + n mod 10)])"

declare fmt_nat.simps [simp del]

definition fmt_int :: "int \<Rightarrow> byte list" where
  "fmt_int i = (if i < 0 then 45 # fmt_nat (nat (- i)) else fmt_nat (nat i))"

subsection \<open>Parsing\<close>

definition is_space :: "byte \<Rightarrow> bool" where
  "is_space c \<longleftrightarrow> c = 32 \<or> 9 \<le> c \<and> c \<le> 13"

definition digit_value :: "byte \<Rightarrow> nat option" where
  "digit_value c =
     (if 48 \<le> c \<and> c \<le> 57 then Some (unat c - 48)
      else if 97 \<le> c \<and> c \<le> 122 then Some (unat c - 87)
      else if 65 \<le> c \<and> c \<le> 90 then Some (unat c - 55)
      else None)"

text \<open>The digits of a base: their value, and how many there are.\<close>

fun parse_digits :: "nat \<Rightarrow> nat \<Rightarrow> nat \<Rightarrow> byte list \<Rightarrow> nat \<times> nat" where
  "parse_digits b acc k [] = (acc, k)"
| "parse_digits b acc k (c # cs) =
     (case digit_value c of
        None \<Rightarrow> (acc, k)
      | Some d \<Rightarrow> if d < b then parse_digits b (acc * b + d) (Suc k) cs else (acc, k))"

text \<open>
  Base 0: after white space and a sign, \<open>0x\<close> and a digit begin a hexadecimal number, \<open>0\<close> an
  octal one. The result is the sign, the magnitude and the number of characters used, none if
  there is no number.
\<close>

definition parse_magnitude :: "byte list \<Rightarrow> nat \<times> nat" where
  "parse_magnitude xs =
     (case xs of
        c # x # h # _ \<Rightarrow>
          if c = 48 \<and> (x = 120 \<or> x = 88) \<and> (\<exists>d < 16. digit_value h = Some d)
          then (case parse_digits 16 0 0 (drop 2 xs) of (m, k) \<Rightarrow> (m, k + 2))
          else parse_digits (if c = 48 then 8 else 10) 0 0 xs
      | c # _ \<Rightarrow> parse_digits (if c = 48 then 8 else 10) 0 0 xs
      | [] \<Rightarrow> (0, 0))"

definition parse_number :: "byte list \<Rightarrow> bool \<times> nat \<times> nat" where
  "parse_number xs =
     (let sp = length (takeWhile is_space xs);
          ys = drop sp xs;
          sg = (if ys \<noteq> [] \<and> (hd ys = 45 \<or> hd ys = 43) then 1 else 0)
      in case parse_magnitude (drop sg ys) of
           (m, k) \<Rightarrow> if k = 0 then (False, 0, 0) else (sg = 1 \<and> hd ys = 45, m, sp + sg + k))"

definition strtoll :: "byte list \<Rightarrow> int \<times> nat" where
  "strtoll xs =
     (case parse_number xs of
        (neg, m, k) \<Rightarrow>
          (if neg then (if m > 2 ^ 63 then - (2 ^ 63) else - int m)
           else (if m \<ge> 2 ^ 63 then 2 ^ 63 - 1 else int m), k))"

definition strtoull :: "byte list \<Rightarrow> u64" where
  "strtoull xs =
     (case parse_number xs of
        (neg, m, k) \<Rightarrow> if m \<ge> 2 ^ 64 then - 1 else if neg then - of_nat m else of_nat m)"

section \<open>Definitions\<close>

text \<open>The functions of the C library and the conversions for floating point numbers.\<close>

record text_env =
  strtof :: "byte list \<Rightarrow> u32"
  strtod :: "byte list \<Rightarrow> u64"
  fmt_f32 :: "u32 \<Rightarrow> byte list"
  fmt_f64 :: "u64 \<Rightarrow> byte list"
  f32_of_u64 :: "u64 \<Rightarrow> u32"
  f64_of_u64 :: "u64 \<Rightarrow> u64"

text \<open>The value of a signed integer of \<open>n\<close> bytes.\<close>

definition int_of :: "nat \<Rightarrow> u64 \<Rightarrow> int" where
  "int_of n w = signed_take_bit (8 * n - 1) (uint w)"

text \<open>\<open>FormatSpecifier\<close> and the conversions in front of it.\<close>

fun fmt_value :: "text_env \<Rightarrow> cpp_value \<Rightarrow> byte list option" where
  "fmt_value env (VBool b) = Some (fmt_nat (if b then 1 else 0))"
| "fmt_value env (VInt n w) = Some (fmt_int (int_of n w))"
| "fmt_value env (VUInt n w) = Some (fmt_nat (unat w))"
| "fmt_value env (VFloat32 f) = Some (fmt_f32 env f)"
| "fmt_value env (VFloat64 d) = Some (fmt_f64 env d)"
| "fmt_value env (VEnum w) = Some (fmt_int (sint (ucast w :: u32)))"
| "fmt_value env (VOptional None) = Some []"
| "fmt_value env (VOptional (Some x)) = fmt_value env x"
| "fmt_value env _ = None"

text \<open>\<open>ParseValue\<close>. An optional is assigned the unsigned number, converted to its type.\<close>

fun convert_u64 :: "text_env \<Rightarrow> cpp_type \<Rightarrow> u64 \<Rightarrow> cpp_value option" where
  "convert_u64 env TBool w = Some (VBool (w \<noteq> 0))"
| "convert_u64 env (TInt n) w = Some (VInt n (take_bit (8 * n) w))"
| "convert_u64 env (TUInt n) w = Some (VUInt n (take_bit (8 * n) w))"
| "convert_u64 env TFloat32 w = Some (VFloat32 (f32_of_u64 env w))"
| "convert_u64 env TFloat64 w = Some (VFloat64 (f64_of_u64 env w))"
| "convert_u64 env _ w = None"

fun ParseValue :: "text_env \<Rightarrow> cpp_type \<Rightarrow> byte list \<Rightarrow> cpp_value option" where
  "ParseValue env TBool s = Some (VBool (strtoull s \<noteq> 0))"
| "ParseValue env (TInt n) s = Some (VInt n (take_bit (8 * n) (of_int (fst (strtoll s)))))"
| "ParseValue env (TUInt n) s = Some (VUInt n (take_bit (8 * n) (strtoull s)))"
| "ParseValue env TFloat32 s = Some (VFloat32 (strtof env s))"
| "ParseValue env TFloat64 s = Some (VFloat64 (strtod env s))"
| "ParseValue env (TEnum m) s = Some (VEnum (scast (of_int (fst (strtoll s)) :: u32)))"
| "ParseValue env (TOptional t) s = map_option (\<lambda>x. VOptional (Some x)) (convert_u64 env t (strtoull s))"
| "ParseValue env _ s = None"

abbreviation dot :: "byte list" where "dot \<equiv> ascii ''.''"

text \<open>
  \<open>VisitArray\<close> of \<open>ItemArchive\<close>: the index in front of the next dot, and the key behind it.
  \<open>strtol\<close> of an empty view has a null pointer; an index that is empty or out of range, or
  followed by something else, is not found.
\<close>

definition array_index :: "nat \<Rightarrow> byte list \<Rightarrow> (nat \<times> byte list) option res" where
  "array_index n key =
     (if key = [] then Inl NullDeref
      else case tk_next dot key of
             (index_str, rest) \<Rightarrow>
               (case strtoll index_str of
                  (index, used) \<Rightarrow>
                    if index < 0 \<or> index \<ge> int n \<or> used \<noteq> length index_str then Inr None
                    else Inr (Some (nat index, rest))))"

text \<open>
  \<open>SetArchive\<close>. \<open>sa_Visit\<close> visits a pair whose name was matched, with the rest of the key; the
  result is the new value and whether the item was found.
\<close>

fun sa_Visit :: "text_env \<Rightarrow> cpp_type \<Rightarrow> cpp_value \<Rightarrow> byte list \<Rightarrow> byte list \<Rightarrow> (cpp_value \<times> bool) res"
  and sa_Accept :: "text_env \<Rightarrow> (byte list \<times> cpp_type) list \<Rightarrow> cpp_value list \<Rightarrow> byte list \<Rightarrow> byte list \<Rightarrow>
    byte list \<Rightarrow> (cpp_value list \<times> bool) res" where
  "sa_Visit env (TStruct fs ds) v key val =
     (case tk_next dot key of
        (my_key, remaining_key) \<Rightarrow>
          sbind (sa_Accept env fs (case v of VStruct xs \<Rightarrow> xs | _ \<Rightarrow> []) my_key remaining_key val) (\<lambda>(ys, found).
          Inr (VStruct ys, found)))"
| "sa_Visit env (TArray n t) v key val =
     (let xs = (case v of VArray xs \<Rightarrow> xs | _ \<Rightarrow> []) in
      sbind (array_index (length xs) key) (\<lambda>a.
      case a of
        None \<Rightarrow> Inr (v, False)
      | Some (i, rest) \<Rightarrow>
          sbind (sa_Visit env t (xs ! i) rest val) (\<lambda>(y, found). Inr (VArray (xs[i := y]), found))))"
| "sa_Visit env ty v key val =
     (case ParseValue env ty val of None \<Rightarrow> Inl BadOptional | Some w \<Rightarrow> Inr (w, True))"
| "sa_Accept env ((name, t) # fs) (x # xs) my_key remaining_key val =
     (if my_key \<noteq> name
      then sbind (sa_Accept env fs xs my_key remaining_key val) (\<lambda>(ys, found). Inr (x # ys, found))
      else sbind (sa_Visit env t x remaining_key val) (\<lambda>(y, found). Inr (y # xs, found)))"
| "sa_Accept env _ xs my_key remaining_key val = Inr (xs, False)"

text \<open>
  \<open>snprintf\<close> into a buffer of \<open>n\<close> bytes, and the view of the length it returned: the terminator
  stands in the last byte of the buffer when the text does not fit, and what is longer than the
  buffer is read behind it.
\<close>

definition snprintf_view :: "nat \<Rightarrow> byte list \<Rightarrow> byte list res" where
  "snprintf_view n text =
     (if length text < n then Inr text
      else if length text = n \<and> 0 < n then Inr (take (n - 1) text @ [0])
      else Inl BufferOverrun)"

text \<open>\<open>ReadArchive\<close>: what is written to the stream, if the item is found.\<close>

fun rd_Visit :: "text_env \<Rightarrow> nat \<Rightarrow> cpp_type \<Rightarrow> cpp_value \<Rightarrow> byte list \<Rightarrow> byte list option res"
  and rd_Accept :: "text_env \<Rightarrow> nat \<Rightarrow> (byte list \<times> cpp_type) list \<Rightarrow> cpp_value list \<Rightarrow> byte list \<Rightarrow> byte list \<Rightarrow>
    byte list option res" where
  "rd_Visit env n (TStruct fs ds) v key =
     (case tk_next dot key of
        (my_key, remaining_key) \<Rightarrow>
          rd_Accept env n fs (case v of VStruct xs \<Rightarrow> xs | _ \<Rightarrow> []) my_key remaining_key)"
| "rd_Visit env n (TArray m t) v key =
     (let xs = (case v of VArray xs \<Rightarrow> xs | _ \<Rightarrow> []) in
      sbind (array_index (length xs) key) (\<lambda>a.
      case a of None \<Rightarrow> Inr None | Some (i, rest) \<Rightarrow> rd_Visit env n t (xs ! i) rest))"
| "rd_Visit env n ty v key =
     (case fmt_value env v of None \<Rightarrow> Inl BadOptional | Some text \<Rightarrow> sbind (snprintf_view n text) (\<lambda>d. Inr (Some d)))"
| "rd_Accept env n ((name, t) # fs) (x # xs) my_key remaining_key =
     (if my_key \<noteq> name then rd_Accept env n fs xs my_key remaining_key else rd_Visit env n t x remaining_key)"
| "rd_Accept env n _ xs my_key remaining_key = Inr None"

text \<open>
  \<open>EnumerateArchive\<close>. The prefixes stand in the order they are printed, that of the root first. A
  prefix that does not fit is left out, unless it is the innermost one: then, or when the name
  does not fit, the line is empty. The value is not checked against the end of the buffer.
\<close>

definition FormatPrefix :: "nat \<Rightarrow> byte list \<Rightarrow> byte list \<Rightarrow> byte list option" where
  "FormatPrefix n line prefix =
     (if length prefix + 2 > n - length line then None else Some (line @ prefix @ dot))"

fun FormatPrefixes :: "nat \<Rightarrow> byte list \<Rightarrow> byte list list \<Rightarrow> byte list option" where
  "FormatPrefixes n line [] = Some line"
| "FormatPrefixes n line [p] = FormatPrefix n line p"
| "FormatPrefixes n line (p # ps) =
     FormatPrefixes n (case FormatPrefix n line p of None \<Rightarrow> line | Some l \<Rightarrow> l) ps"

definition FormatField :: "nat \<Rightarrow> byte list list \<Rightarrow> byte list \<Rightarrow> byte list \<Rightarrow> byte list res" where
  "FormatField n prefixes name text =
     (case FormatPrefixes n [] prefixes of
        None \<Rightarrow> Inr []
      | Some line \<Rightarrow>
          if length name + 3 > n - length line then Inr []
          else let line = line @ name @ [32] @ text @ [13, 10]
               in if length line > n then Inl BufferOverrun else Inr line)"

text \<open>
  A visit counts the fields and formats the one with the given index; the state is the index of
  the next field and the line, once there is one.
\<close>

definition en_EmitValue ::
  "nat \<Rightarrow> u16 \<Rightarrow> byte list list \<Rightarrow> byte list \<Rightarrow> byte list \<Rightarrow> u16 \<times> byte list option \<Rightarrow> (u16 \<times> byte list option) res" where
  "en_EmitValue n target prefixes name text st =
     (case st of
        (current_index, out) \<Rightarrow>
          if current_index = target
          then sbind (FormatField n prefixes name text) (\<lambda>line. Inr (current_index + 1, Some line))
          else Inr (current_index + 1, out))"

fun en_elements ::
  "(byte list \<Rightarrow> cpp_value \<Rightarrow> u16 \<times> byte list option \<Rightarrow> (u16 \<times> byte list option) res) \<Rightarrow> nat \<Rightarrow> cpp_value list \<Rightarrow>
   u16 \<times> byte list option \<Rightarrow> (u16 \<times> byte list option) res" where
  "en_elements visit i [] st = Inr st"
| "en_elements visit i (x # xs) st = sbind (visit (fmt_nat i) x st) (\<lambda>st. en_elements visit (Suc i) xs st)"

fun en_Visit ::
  "text_env \<Rightarrow> nat \<Rightarrow> u16 \<Rightarrow> byte list list \<Rightarrow> byte list \<Rightarrow> cpp_type \<Rightarrow> cpp_value \<Rightarrow> u16 \<times> byte list option \<Rightarrow>
   (u16 \<times> byte list option) res"
  and en_Accept ::
  "text_env \<Rightarrow> nat \<Rightarrow> u16 \<Rightarrow> byte list list \<Rightarrow> (byte list \<times> cpp_type) list \<Rightarrow> cpp_value list \<Rightarrow> u16 \<times> byte list option \<Rightarrow>
   (u16 \<times> byte list option) res" where
  "en_Visit env n target prefixes name (TStruct fs ds) v st =
     (if snd st \<noteq> None then Inr st
      else en_Accept env n target (prefixes @ [name]) fs (case v of VStruct xs \<Rightarrow> xs | _ \<Rightarrow> []) st)"
| "en_Visit env n target prefixes name (TArray m t) v st =
     (if snd st \<noteq> None then Inr st
      else en_elements (\<lambda>number x st. en_Visit env n target (prefixes @ [name]) number t x st) 0
             (case v of VArray xs \<Rightarrow> xs | _ \<Rightarrow> []) st)"
| "en_Visit env n target prefixes name ty v st =
     (if snd st \<noteq> None then Inr st
      else case fmt_value env v of
             None \<Rightarrow> Inl BadOptional
           | Some text \<Rightarrow> en_EmitValue n target prefixes name text st)"
| "en_Accept env n target prefixes ((name, t) # fs) (x # xs) st =
     sbind (en_Visit env n target prefixes name t x st) (\<lambda>st. en_Accept env n target prefixes fs xs st)"
| "en_Accept env n target prefixes _ xs st = Inr st"

subsection \<open>SerializableHandler\<close>

text \<open>A handler: the type of its item and the item.\<close>

record handler =
  h_type :: cpp_type
  h_item :: cpp_value

definition h_WriteBinary :: "('s \<Rightarrow> byte list \<Rightarrow> 's res) \<Rightarrow> handler \<Rightarrow> 's \<Rightarrow> 's res" where
  "h_WriteBinary wr h s = bw_Visit wr (h_item h) s"

definition h_WriteSchema :: "('s \<Rightarrow> byte list \<Rightarrow> 's res) \<Rightarrow> handler \<Rightarrow> 's \<Rightarrow> 's res" where
  "h_WriteSchema wr h s = bs_VisitType wr True (h_type h) (default_value (h_type h)) s"

definition h_ReadBinary :: "('s \<Rightarrow> nat \<Rightarrow> byte list \<times> 's) \<Rightarrow> handler \<Rightarrow> 's \<Rightarrow> (bool \<times> handler \<times> 's) res" where
  "h_ReadBinary rd h s =
     sbind (ra_Visit rd (h_type h) (h_item h) False s) (\<lambda>(v, error, s). Inr (error, h\<lparr>h_item := v\<rparr>, s))"

definition h_Set :: "text_env \<Rightarrow> handler \<Rightarrow> byte list \<Rightarrow> byte list \<Rightarrow> (bool \<times> handler) res" where
  "h_Set env h key val =
     sbind (sa_Visit env (h_type h) (h_item h) key val) (\<lambda>(v, found). Inr (found, h\<lparr>h_item := v\<rparr>))"

definition h_Read :: "text_env \<Rightarrow> nat \<Rightarrow> handler \<Rightarrow> byte list \<Rightarrow> byte list option res" where
  "h_Read env n h key = rd_Visit env n (h_type h) (h_item h) key"

definition h_SetDefault :: "handler \<Rightarrow> handler" where
  "h_SetDefault h = h\<lparr>h_item := default_value (h_type h)\<rparr>"

text \<open>\<open>evaluate_enumerate_archive\<close>: the line for a field, if there is such a field.\<close>

definition h_evaluate :: "text_env \<Rightarrow> nat \<Rightarrow> byte list \<Rightarrow> handler \<Rightarrow> u16 \<Rightarrow> byte list option res" where
  "h_evaluate env n prefix h target =
     (case h_type h of
        TStruct fs ds \<Rightarrow>
          sbind (en_Accept env n target [prefix] fs (case h_item h of VStruct xs \<Rightarrow> xs | _ \<Rightarrow> []) (0, None)) (\<lambda>(_, out). Inr out)
      | _ \<Rightarrow> Inl BadOptional)"

end
