(* ===== verification/Fdcanusb_Stream.thy ===== *)
theory Fdcanusb_Stream
  imports Rs485_Frame_Stream Config_Items
begin

text \<open>
  Frames over an fdcanusb adapter, \<open>multiplex/fdcanusb_frame_stream.cc\<close>: a line of text for every
  frame, \<open>can send\<close> to the adapter and \<open>rcv\<close> from it, with the ids and the payload in
  hexadecimal digits. A CAN-FD frame can have certain sizes only, so a payload is padded.

  As for the RS485 stream, a started operation is an event, and so is its completion.
  \<open>read_data_queued\<close>, which changes nothing, is left out.
\<close>

section \<open>Definitions\<close>

definition kMaxLineLength :: nat where
  "kMaxLineLength = 512"

definition RoundUpDlc :: "nat \<Rightarrow> nat" where
  "RoundUpDlc n =
     (if n \<le> 8 then n
      else if n \<le> 12 then 12
      else if n \<le> 16 then 16
      else if n \<le> 20 then 20
      else if n \<le> 24 then 24
      else if n \<le> 32 then 32
      else if n \<le> 48 then 48
      else if n \<le> 64 then 64
      else 0)"

text \<open>Lower case hexadecimal digits, as the format \<open>{:x}\<close> and, for a byte, \<open>{:02x}\<close>.\<close>

definition hex_digit :: "nat \<Rightarrow> byte" where
  "hex_digit d = (if d < 10 then of_nat (48 + d) else of_nat (87 + d))"

fun fmt_hex :: "nat \<Rightarrow> byte list" where
  "fmt_hex n = (if n < 16 then [hex_digit n] else fmt_hex (n div 16) @ [hex_digit (n mod 16)])"

declare fmt_hex.simps [simp del]

definition fmt_hex_byte :: "byte \<Rightarrow> byte list" where
  "fmt_hex_byte c = [hex_digit (unat c div 16), hex_digit (unat c mod 16)]"

text \<open>The characters of the line go to the stream one by one.\<close>

fun write_chars :: "('s \<Rightarrow> byte list \<Rightarrow> 's res) \<Rightarrow> byte list \<Rightarrow> 's \<Rightarrow> 's res" where
  "write_chars wr [] s = Inr s"
| "write_chars wr (c # cs) s = sbind (wr s [c]) (write_chars wr cs)"

fun encode_payload :: "('s \<Rightarrow> byte list \<Rightarrow> 's res) \<Rightarrow> byte list \<Rightarrow> 's \<Rightarrow> 's res" where
  "encode_payload wr [] s = Inr s"
| "encode_payload wr (c # cs) s = sbind (write_chars wr (fmt_hex_byte c) s) (encode_payload wr cs)"

fun encode_padding :: "('s \<Rightarrow> byte list \<Rightarrow> 's res) \<Rightarrow> nat \<Rightarrow> 's \<Rightarrow> 's res" where
  "encode_padding wr 0 s = Inr s"
| "encode_padding wr (Suc k) s = sbind (write_chars wr (ascii ''50'') s) (encode_padding wr k)"

definition EncodeFdcanusb :: "('s \<Rightarrow> byte list \<Rightarrow> 's res) \<Rightarrow> frame \<Rightarrow> 's \<Rightarrow> 's res" where
  "EncodeFdcanusb wr f s =
     sbind (write_chars wr (ascii ''can send '' @
        fmt_hex (push_bit 8 (unat (source_id f OR (if request_reply f then 0x80 else 0))) OR unat (dest_id f)) @ ascii '' '') s) (\<lambda>s.
     sbind (encode_payload wr (payload f) s) (\<lambda>s.
     sbind (encode_padding wr (RoundUpDlc (length (payload f)) - length (payload f)) s) (\<lambda>s.
     write_chars wr [10] s)))"

text \<open>A digit, or \<open>-1\<close>; the result of \<open>ParseHexByte\<close> is stored in a byte.\<close>

definition ParseHexNybble :: "byte \<Rightarrow> int" where
  "ParseHexNybble c =
     (if 48 \<le> c \<and> c \<le> 57 then int (unat c - 48)
      else if 97 \<le> c \<and> c \<le> 102 then int (unat c - 97 + 10)
      else if 65 \<le> c \<and> c \<le> 70 then int (unat c - 65 + 10)
      else - 1)"

definition ParseHexByte :: "byte \<Rightarrow> byte \<Rightarrow> int" where
  "ParseHexByte a b =
     (let high = ParseHexNybble a in
      if high < 0 then high
      else let low = ParseHexNybble b in
           if low < 0 then low else push_bit 4 high OR low)"

text \<open>\<open>strtol\<close> of the C library with base 16, for a \<open>long\<close> of 64 bits.\<close>

definition strtol16 :: "byte list \<Rightarrow> int" where
  "strtol16 xs =
     (let ys = dropWhile is_space xs;
          sg = (if ys \<noteq> [] \<and> (hd ys = 45 \<or> hd ys = 43) then 1 else 0);
          zs = drop sg ys;
          zs = (case zs of
                  c # x # h # _ \<Rightarrow> if c = 48 \<and> (x = 120 \<or> x = 88) \<and> (\<exists>d < 16. digit_value h = Some d) then drop 2 zs else zs
                | _ \<Rightarrow> zs);
          m = fst (parse_digits 16 0 0 zs)
      in if sg = 1 \<and> hd ys = 45 then (if m > 2 ^ 63 then - (2 ^ 63) else - int m)
         else (if m \<ge> 2 ^ 63 then 2 ^ 63 - 1 else int m))"

fun hex_pairs :: "byte list \<Rightarrow> byte list res" where
  "hex_pairs [] = Inr []"
| "hex_pairs [a] = Inl BufferOverrun"
| "hex_pairs (a # b # cs) = sbind (hex_pairs cs) (\<lambda>ds. Inr (of_int (ParseHexByte a b) # ds))"

record fdcanusb =
  fd_write_buffer :: fos
  fd_read_outstanding :: bool
  outstanding_oks :: int
  fd_streambuf :: "byte list"
  fd_frame :: "frame option"
  fd_callback :: bool

definition fd_init :: fdcanusb where
  "fd_init = \<lparr>fd_write_buffer = fos_init, fd_read_outstanding = False, outstanding_oks = 0, fd_streambuf = [],
     fd_frame = None, fd_callback = False\<rparr>"

fun fd_encode_all :: "fos \<Rightarrow> frame list \<Rightarrow> int \<Rightarrow> (fos \<times> int) res" where
  "fd_encode_all b [] oks = Inr (b, oks)"
| "fd_encode_all b (f # fs) oks = sbind (EncodeFdcanusb fos_write f b) (\<lambda>b. fd_encode_all b fs (oks + 1))"

definition fd_AsyncWriteMultiple :: "fdcanusb \<Rightarrow> frame list \<Rightarrow> (fdcanusb \<times> rs_event list) res" where
  "fd_AsyncWriteMultiple s fs =
     sbind (fd_encode_all (fos_clear (fd_write_buffer s)) fs (outstanding_oks s)) (\<lambda>(b, oks).
     Inr (s\<lparr>fd_write_buffer := b, outstanding_oks := oks\<rparr>, [StartWrite (fos_str b)]))"

definition fd_AsyncWrite :: "fdcanusb \<Rightarrow> frame \<Rightarrow> (fdcanusb \<times> rs_event list) res" where
  "fd_AsyncWrite s f =
     sbind (EncodeFdcanusb fos_write f (fos_clear (fd_write_buffer s))) (\<lambda>b.
     Inr (s\<lparr>fd_write_buffer := b, outstanding_oks := outstanding_oks s + 1\<rparr>, [StartWrite (fos_str b)]))"

text \<open>
  \<open>ParseLine\<close>. An odd number of digits makes the loop read behind the data and write behind the
  payload. \<open>strtol\<close> does not know the end of the token or of the line, so it gets all of the
  buffer from the address on. \<open>EmitFrame\<close> gives the frame to the caller.
\<close>

definition fd_EmitFrame :: "fdcanusb \<Rightarrow> frame \<Rightarrow> fdcanusb \<times> rs_event list" where
  "fd_EmitFrame s f = (s\<lparr>fd_frame := None, fd_callback := False\<rparr>, [TimerCancel, PostCallback Success f])"

definition fd_ParseLine :: "byte list \<Rightarrow> byte list \<Rightarrow> fdcanusb \<Rightarrow> (fdcanusb \<times> rs_event list) res" where
  "fd_ParseLine buf line s =
     (if line = [] then Inr (s, [])
      else if line = ascii ''OK'' then Inr (s\<lparr>outstanding_oks := max (outstanding_oks s - 1) 0\<rparr>, [])
      else if take 4 line = ascii ''rcv '' then
        (case fd_frame s of
           None \<Rightarrow> Inl AssertFailed
         | Some f \<Rightarrow>
             (case tk_next (ascii '' '') line of (rcv, rest) \<Rightarrow>
              case tk_next (ascii '' '') rest of (address, rest) \<Rightarrow>
              case tk_next (ascii '' '') rest of (data, _) \<Rightarrow>
                if rcv = [] \<or> address = [] \<or> data = [] then Inr (s, [])
                else let int_address = strtol16 (drop (length rcv + 1) buf) in
                     sbind (hex_pairs data) (\<lambda>p.
                     Inr (fd_EmitFrame s (f\<lparr>source_id := of_int (drop_bit 8 int_address AND 0x7f),
                       request_reply := (drop_bit 8 int_address AND 0x80 \<noteq> 0),
                       dest_id := of_int (int_address AND 0x7f), payload := p\<rparr>)))))
      else Inr (s, []))"

definition newline :: "byte \<Rightarrow> bool" where
  "newline c \<longleftrightarrow> c = 10 \<or> c = 13"

definition fd_ParseFrame :: "fdcanusb \<Rightarrow> (bool \<times> fdcanusb \<times> rs_event list) res" where
  "fd_ParseFrame s =
     (if fd_frame s = None then Inl AssertFailed
      else let buf = fd_streambuf s;
               line = takeWhile (\<lambda>c. \<not> newline c) buf
           in if length line = length buf
              then Inr (False, (if length buf > kMaxLineLength then s\<lparr>fd_streambuf := []\<rparr> else s), [])
              else sbind (fd_ParseLine buf line s) (\<lambda>(s, e).
                   Inr (True, s\<lparr>fd_streambuf := drop (length line + 1) buf\<rparr>, e)))"

definition fd_MaybeStartRead :: "fdcanusb \<Rightarrow> (fdcanusb \<times> rs_event list) res" where
  "fd_MaybeStartRead s =
     (if fd_read_outstanding s \<or> \<not> fd_callback s then Inr (s, [])
      else sbind (fd_ParseFrame s) (\<lambda>(_, s, e).
           if \<not> fd_callback s then Inr (s, e)
           else Inr (s\<lparr>fd_read_outstanding := True\<rparr>, e @ [StartRead])))"

definition fd_AsyncRead :: "fdcanusb \<Rightarrow> frame \<Rightarrow> nat \<Rightarrow> (fdcanusb \<times> rs_event list) res" where
  "fd_AsyncRead s f timeout =
     sbind (mj_assert (fd_frame s = None)) (\<lambda>_.
     sbind (mj_assert (\<not> fd_callback s)) (\<lambda>_.
     sbind (fd_MaybeStartRead (s\<lparr>fd_frame := Some f, fd_callback := True\<rparr>)) (\<lambda>(s, e).
     Inr (s, (if timeout = 0 then TimerCancel else TimerStart timeout) # e))))"

text \<open>The loop of \<open>HandleRead\<close>; every line shortens the buffer.\<close>

lemma fd_ParseFrame_shrinks:
  "fd_ParseFrame s = Inr (True, t, e) \<Longrightarrow> length (fd_streambuf t) < length (fd_streambuf s)"
  using length_takeWhile_le [of "\<lambda>c. \<not> newline c" "fd_streambuf s"]
  by (auto simp: fd_ParseFrame_def Let_def split: if_splits)

function fd_parse_all :: "fdcanusb \<Rightarrow> (fdcanusb \<times> rs_event list) res" where
  "fd_parse_all s =
     (if \<not> fd_callback s then Inr (s, [])
      else sbind (fd_ParseFrame s) (\<lambda>(parsed, s, e).
           if parsed then sbind (fd_parse_all s) (\<lambda>(s, e'). Inr (s, e @ e')) else Inr (s, e)))"
  by pat_completeness auto
termination by (relation "measure (\<lambda>s. length (fd_streambuf s))") (auto dest: fd_ParseFrame_shrinks)

declare fd_parse_all.simps [simp del]

definition fd_HandleRead :: "fdcanusb \<Rightarrow> error_code \<Rightarrow> byte list \<Rightarrow> (fdcanusb \<times> rs_event list) res" where
  "fd_HandleRead s ec data =
     (if ec \<noteq> Success then Inl Terminated
      else sbind (fd_parse_all (s\<lparr>fd_streambuf := fd_streambuf s @ data, fd_read_outstanding := False\<rparr>)) (\<lambda>(s, e).
           sbind (fd_MaybeStartRead s) (\<lambda>(s, e'). Inr (s, e @ e'))))"

definition fd_HandleTimer :: "fdcanusb \<Rightarrow> error_code \<Rightarrow> (fdcanusb \<times> rs_event list) res" where
  "fd_HandleTimer s ec =
     (if ec = Aborted then Inr (s, [])
      else if ec \<noteq> Success then Inl Terminated
      else let s = s\<lparr>outstanding_oks := 0\<rparr> in
           if fd_callback s
           then (case fd_frame s of
                   None \<Rightarrow> Inl AssertFailed
                 | Some f \<Rightarrow> Inr (s\<lparr>fd_frame := None, fd_callback := False\<rparr>, [InvokeCallback Aborted f]))
           else Inr (s, []))"

definition fd_cancel :: "fdcanusb \<Rightarrow> (fdcanusb \<times> rs_event list) res" where
  "fd_cancel s = Inl Terminated"

section \<open>Hexadecimal text\<close>

lemma nybble_cases:
  assumes "d < 16"
  obtains "d = 0" | "d = 1" | "d = 2" | "d = 3" | "d = 4" | "d = 5" | "d = 6" | "d = 7" | "d = 8" | "d = 9"
    | "d = 10" | "d = 11" | "d = 12" | "d = 13" | "d = 14" | "d = (15 :: nat)"
  using assms by (auto simp: less_Suc_eq numeral_eq_Suc)

lemma digit_value_hex [simp]: "d < 16 \<Longrightarrow> digit_value (hex_digit d) = Some d"
  by (erule nybble_cases) (simp_all add: hex_digit_def digit_value_def)

lemma ParseHexNybble_hex [simp]: "d < 16 \<Longrightarrow> ParseHexNybble (hex_digit d) = int d"
  by (erule nybble_cases) (simp_all add: hex_digit_def ParseHexNybble_def)

lemma hex_digit_range: "d < 16 \<Longrightarrow> 48 \<le> hex_digit d \<and> hex_digit d \<le> 102"
  by (erule nybble_cases) (simp_all add: hex_digit_def)

lemma hex_digit_plain [simp]:
  assumes "d < 16"
  shows "hex_digit d \<noteq> 0" "hex_digit d \<noteq> 10" "hex_digit d \<noteq> 13" "hex_digit d \<noteq> 32"
    "hex_digit d \<noteq> 43" "hex_digit d \<noteq> 45" "hex_digit d \<noteq> 120" "\<not> is_space (hex_digit d)"
proof -
  have "\<not> hex_digit d \<le> 13" using hex_digit_range [OF assms] order_trans [of 48 "hex_digit d" 13] by auto
  with hex_digit_range [OF assms] show "hex_digit d \<noteq> 0" "hex_digit d \<noteq> 10" "hex_digit d \<noteq> 13" "hex_digit d \<noteq> 32"
      "hex_digit d \<noteq> 43" "hex_digit d \<noteq> 45" "hex_digit d \<noteq> 120" "\<not> is_space (hex_digit d)"
    by (auto simp: is_space_def)
qed

lemma hex_digit_no_X [simp]: "d < 16 \<Longrightarrow> hex_digit d \<noteq> 88"
  by (erule nybble_cases) (simp_all add: hex_digit_def)

lemma fmt_hex_chars: "c \<in> set (fmt_hex n) \<Longrightarrow> \<exists>d < 16. c = hex_digit d"
proof (induction n rule: fmt_hex.induct)
  case (1 n)
  then show ?case
    by (cases "n < 16") (auto simp: fmt_hex.simps [of n] intro: exI [of _ "n mod 16"])
qed

lemma fmt_hex_not_Nil [simp]: "fmt_hex n \<noteq> []"
  by (simp add: fmt_hex.simps [of n])

lemma parse_digits_fmt_hex: "\<exists>k'. parse_digits 16 0 k (fmt_hex n @ ys) = parse_digits 16 n k' ys"
proof (induction n arbitrary: k ys rule: fmt_hex.induct)
  case (1 n)
  show ?case
  proof (cases "n < 16")
    case True
    then show ?thesis by (auto simp: fmt_hex.simps [of n])
  next
    case False
    with 1 [of k "hex_digit (n mod 16) # ys"] obtain k'
      where "parse_digits 16 0 k (fmt_hex n @ ys) = parse_digits 16 (n div 16) k' (hex_digit (n mod 16) # ys)"
      by (auto simp: fmt_hex.simps [of n])
    then show ?thesis by auto
  qed
qed

lemma strtol16_fmt_hex:
  assumes n: "n < 2 ^ 63"
  shows "strtol16 (fmt_hex n @ 32 # ys) = int n"
proof -
  obtain c cs where c: "fmt_hex n = c # cs" by (cases "fmt_hex n") auto
  then obtain d where d: "d < 16" "c = hex_digit d" using fmt_hex_chars [of c n] by auto
  have x: "hd (cs @ 32 # ys) \<noteq> 88" "hd (cs @ 32 # ys) \<noteq> 120"
    using fmt_hex_chars [of "hd cs" n] c by (cases cs; auto)+
  have v: "fst (parse_digits 16 0 0 (c # cs @ 32 # ys)) = n"
    using parse_digits_fmt_hex [of 0 n "32 # ys"] c by (auto simp: digit_value_def)
  show ?thesis
    using n x v d(1) by (cases "cs @ 32 # ys") (auto simp: strtol16_def Let_def c d(2) split: list.split)
qed

lemma high_nybble [simp]: "unat (c :: byte) div 16 < 16"
  using unsigned_less [of c, where ?'a = nat] by (simp add: less_mult_imp_div_less)

lemma ParseHexByte_fmt: "ParseHexByte (hex_digit (unat c div 16)) (hex_digit (unat c mod 16)) = uint (c :: byte)"
proof -
  have "push_bit 4 (int (unat c div 16)) OR int (unat c mod 16) = push_bit 4 (uint c div 16) OR take_bit 4 (uint c)"
    by (simp add: take_bit_eq_mod zdiv_int zmod_int)
  also have "\<dots> = uint c"
    by (rule bit_eqI) (auto simp: bit_simps drop_bit_eq_div [of 4, symmetric, simplified])
  finally show ?thesis by (simp add: ParseHexByte_def Let_def)
qed

lemma hex_pairs_fmt: "hex_pairs (concat (map fmt_hex_byte p)) = Inr p"
  by (induction p) (simp_all add: fmt_hex_byte_def ParseHexByte_fmt)

section \<open>What is written\<close>

text \<open>The payload as it is sent, and the text of a frame behind the command.\<close>

definition padded :: "byte list \<Rightarrow> byte list" where
  "padded p = p @ replicate (RoundUpDlc (length p) - length p) 0x50"

definition fd_address :: "frame \<Rightarrow> nat" where
  "fd_address f = push_bit 8 (unat (frame_source f)) OR unat (dest_id f)"

definition fd_text :: "frame \<Rightarrow> byte list" where
  "fd_text f = fmt_hex (fd_address f) @ 32 # concat (map fmt_hex_byte (padded (payload f)))"

context steady_stream
begin

lemma write_chars_eq: "ok s \<Longrightarrow> write_chars wr cs s = wr s cs"
proof (induction cs arbitrary: s)
  case (Cons c cs)
  then show ?case using wr_then [of s "write_chars wr cs" cs "[c]"] by simp
qed (simp add: wr_Nil)

lemma encode_payload_eq: "ok s \<Longrightarrow> encode_payload wr p s = wr s (concat (map fmt_hex_byte p))"
  by (induction p arbitrary: s) (simp_all add: wr_Nil write_chars_eq wr_then)

lemma encode_padding_eq: "ok s \<Longrightarrow> encode_padding wr k s = wr s (concat (map fmt_hex_byte (replicate k 0x50)))"
  by (induction k arbitrary: s)
    (simp_all add: wr_Nil write_chars_eq wr_then fmt_hex_byte_def hex_digit_def del: write_chars.simps)

lemma EncodeFdcanusb_eq: "ok s \<Longrightarrow> EncodeFdcanusb wr f s = wr s (ascii ''can send '' @ fd_text f @ [10])"
  by (simp add: EncodeFdcanusb_def write_chars_eq encode_payload_eq encode_padding_eq wr_then
      fd_text_def fd_address_def frame_source_def padded_def del: write_chars.simps)

end

lemma fos_write_Inr: "\<exists>t. fos_write s d = Inr t"
  by (simp add: fos_write_def Let_def)

lemma fd_AsyncWrite_text:
  "\<exists>b. fd_AsyncWrite s f = Inr (s\<lparr>fd_write_buffer := b, outstanding_oks := outstanding_oks s + 1\<rparr>,
     [StartWrite (ascii ''can send '' @ fd_text f @ [10])])"
proof -
  let ?w = "ascii ''can send '' @ fd_text f @ [10]"
  obtain t where t: "fos_write (fos_clear (fd_write_buffer s)) ?w = Inr t" using fos_write_Inr by blast
  then have "fos_str t = ?w" using fos.wr_out [OF fos_clear_ok(1) t] by simp
  with t show ?thesis by (intro exI [of _ t]) (simp add: fd_AsyncWrite_def fos_obj.EncodeFdcanusb_eq)
qed

lemma fd_encode_all_text:
  "fd_encode_all b fs n = Inr (c, m) \<Longrightarrow> fos_ok b \<Longrightarrow>
     fos_str c = fos_str b @ concat (map (\<lambda>f. ascii ''can send '' @ fd_text f @ [10]) fs) \<and> m = n + int (length fs)"
proof (induction fs arbitrary: b n)
  case (Cons f fs)
  let ?w = "ascii ''can send '' @ fd_text f @ [10]"
  obtain t where t: "fos_write b ?w = Inr t" using fos_write_Inr by blast
  with Cons.prems have "fd_encode_all t fs (n + 1) = Inr (c, m)" by (simp add: fos_obj.EncodeFdcanusb_eq)
  from Cons.IH [OF this fos.wr_ok [OF Cons.prems(2) t]] fos.wr_out [OF Cons.prems(2) t] show ?case by simp
qed simp

section \<open>What is read\<close>

text \<open>The line the adapter at the other end gives for the frame.\<close>

definition fd_line :: "frame \<Rightarrow> byte list" where
  "fd_line f = ascii ''rcv '' @ fd_text f"

lemma fmt_hex_byte_not_Nil [simp]: "fmt_hex_byte b \<noteq> []"
  by (simp add: fmt_hex_byte_def)

lemma fmt_hex_byte_chars:
  assumes "c \<in> set (fmt_hex_byte b)"
  shows "\<exists>d < 16. c = hex_digit d"
proof -
  have "unat b mod 16 < 16" by simp
  moreover have "c = hex_digit (unat b div 16) \<or> c = hex_digit (unat b mod 16)"
    using assms by (auto simp: fmt_hex_byte_def)
  ultimately show ?thesis using high_nybble [of b] by blast
qed

lemma fd_text_chars: "c \<in> set (fd_text f) \<Longrightarrow> c = 32 \<or> (\<exists>d < 16. c = hex_digit d)"
  using fmt_hex_chars fmt_hex_byte_chars by (fastforce simp: fd_text_def)

lemma fd_line_no_newline: "c \<in> set (fd_line f) \<Longrightarrow> \<not> newline c"
  using fd_text_chars [of c f] by (auto simp: fd_line_def newline_def)

lemma length_padded: "length p \<le> 64 \<Longrightarrow> length (padded p) \<le> 64"
  by (auto simp: padded_def RoundUpDlc_def)

lemma length_fmt_hex: "n < 16 ^ k \<Longrightarrow> 0 < k \<Longrightarrow> length (fmt_hex n) \<le> k"
proof (induction k arbitrary: n)
  case (Suc k)
  then show ?case
    by (cases "k = 0") (auto simp: fmt_hex.simps [of n] less_mult_imp_div_less mult.commute)
qed simp

lemma fd_address_less: "fd_address f < 2 ^ 16"
proof -
  have "take_bit 16 (fd_address f) = fd_address f"
    by (rule bit_eqI) (auto simp: fd_address_def bit_simps dest: bit_imp_le_length)
  then show ?thesis by (metis take_bit_nat_eq_self_iff)
qed

lemma length_fd_line:
  assumes "length (payload f) \<le> 64"
  shows "length (fd_line f) \<le> kMaxLineLength"
proof -
  have "length (fmt_hex (fd_address f)) \<le> 4"
    using length_fmt_hex [of "fd_address f" 4] fd_address_less [of f] by simp
  moreover have "length (concat (map fmt_hex_byte p)) = 2 * length p" for p
    by (induction p) (simp_all add: fmt_hex_byte_def)
  ultimately show ?thesis
    using length_padded [OF assms] by (simp add: fd_line_def fd_text_def kMaxLineLength_def)
qed

lemma tk_next_space:
  assumes "\<And>c. c \<in> set xs \<Longrightarrow> c \<noteq> 0 \<and> c \<noteq> 32"
  shows "tk_next (ascii '' '') (xs @ 32 # ys) = (xs, ys)" and "tk_next (ascii '' '') xs = (xs, [])"
proof -
  have t: "takeWhile (\<lambda>c. \<not> is_delim [32] c) xs = xs" "takeWhile (\<lambda>c. \<not> is_delim [32] c) (xs @ 32 # ys) = xs"
    using assms by (auto simp: takeWhile_eq_all_conv is_delim_def takeWhile_append)
  show "tk_next (ascii '' '') (xs @ 32 # ys) = (xs, ys)" and "tk_next (ascii '' '') xs = (xs, [])"
    by (simp_all add: tk_next_def t)
qed

text \<open>The ids come back from the address.\<close>

lemma and_7f_int: "(a :: int) AND 0x7f = a mod 128"
  using take_bit_eq_mask [of 7 a] by (simp add: take_bit_eq_mod mask_eq_exp_minus_1)

lemma address_ids:
  assumes "unat (source_id g) < 128" and "unat (dest_id g) < 128"
  shows "f\<lparr>source_id := of_int (drop_bit 8 (int (fd_address g)) AND 0x7f),
      request_reply := (drop_bit 8 (int (fd_address g)) AND 0x80 \<noteq> 0),
      dest_id := of_int (int (fd_address g) AND 0x7f), payload := p\<rparr> = g\<lparr>payload := p\<rparr>"
proof -
  let ?u = "frame_source g" and ?d = "dest_id g"
  have a: "int (fd_address g) = push_bit 8 (uint ?u) OR uint ?d"
    by (simp add: fd_address_def of_nat_or_eq of_nat_push_bit)
  have u: "drop_bit 8 (int (fd_address g)) = uint ?u"
    unfolding a by (rule bit_eqI) (auto simp: bit_simps dest: bit_imp_le_length)
  have "uint ?d = int (unat ?d)" by simp
  then have dl: "0 \<le> uint ?d" "uint ?d < 128" using assms(2) by linarith+
  have "take_bit 7 (int (fd_address g)) = take_bit 7 (uint ?d)"
    unfolding a by (rule bit_eqI) (auto simp: bit_simps)
  then have "int (fd_address g) AND 0x7f = uint ?d"
    using dl by (simp add: take_bit_eq_mod and_7f_int)
  moreover have "uint ?u AND 0x7f = uint (?u AND 0x7f)" "uint ?u AND 0x80 = uint (?u AND 0x80)"
    by (simp_all add: unsigned_and_eq)
  ultimately show ?thesis
    using arg_cong [OF set_ids_source [OF assms(1), of f], of "\<lambda>h. h\<lparr>payload := p\<rparr>"]
    by (simp add: u set_ids_def unsigned_eq_0_iff)
qed

text \<open>
  The line, with more of the stream behind it, is parsed into the frame that was sent.
\<close>

lemma fd_ParseLine_line:
  assumes "unat (source_id g) < 128" and "unat (dest_id g) < 128" and "payload g \<noteq> []" and "fd_frame s = Some f"
  shows "fd_ParseLine (fd_line g @ rest) (fd_line g) s = Inr (fd_EmitFrame s (g\<lparr>payload := padded (payload g)\<rparr>))"
proof -
  let ?a = "fmt_hex (fd_address g)" and ?d = "concat (map fmt_hex_byte (padded (payload g)))"
  have a: "c \<noteq> 0 \<and> c \<noteq> 32" if "c \<in> set ?a" for c using fmt_hex_chars [OF that] by auto
  have d: "c \<noteq> 0 \<and> c \<noteq> 32" if "c \<in> set ?d" for c using that fmt_hex_byte_chars by fastforce
  have "padded (payload g) \<noteq> []" using assms(3) by (simp add: padded_def)
  moreover have "tk_next (ascii '' '') (fd_line g) = (ascii ''rcv'', fd_text g)"
    by (simp add: fd_line_def tk_next_def is_delim_def)
  moreover have "tk_next (ascii '' '') (fd_text g) = (?a, ?d)"
    unfolding fd_text_def by (rule tk_next_space(1)) (rule a)
  moreover have "strtol16 (fd_text g @ rest) = int (fd_address g)"
    using strtol16_fmt_hex [of "fd_address g" "?d @ rest"] fd_address_less [of g] by (simp add: fd_text_def)
  moreover have "hex_pairs ?d = Inr (padded (payload g))" by (rule hex_pairs_fmt)
  ultimately show ?thesis
    using assms(4) tk_next_space(2) [of ?d, OF d] address_ids [OF assms(1,2)]
    unfolding fd_ParseLine_def by (simp add: fd_line_def Let_def del: hex_pairs.simps)
qed

text \<open>Lines and parts of lines in the buffer.\<close>

lemma fd_ParseFrame_part:
  assumes "fd_frame s \<noteq> None" and "\<And>c. c \<in> set (fd_streambuf s) \<Longrightarrow> \<not> newline c"
    and "length (fd_streambuf s) \<le> kMaxLineLength"
  shows "fd_ParseFrame s = Inr (False, s, [])"
proof -
  have t: "takeWhile (\<lambda>c. \<not> newline c) (fd_streambuf s) = fd_streambuf s"
    using assms(2) by (simp add: takeWhile_eq_all_conv)
  from assms(1,3) show ?thesis by (simp add: fd_ParseFrame_def t)
qed

lemma fd_ParseFrame_line:
  assumes "fd_frame s \<noteq> None" and "\<And>c. c \<in> set l \<Longrightarrow> \<not> newline c" and "fd_streambuf s = l @ 10 # rest"
  shows "fd_ParseFrame s = sbind (fd_ParseLine (l @ 10 # rest) l s) (\<lambda>(s, e). Inr (True, s\<lparr>fd_streambuf := rest\<rparr>, e))"
proof -
  have "takeWhile (\<lambda>c. \<not> newline c) (l @ 10 # rest) = l"
    using assms(2) by (auto simp: takeWhile_append newline_def)
  with assms(1,3) show ?thesis by (auto simp: fd_ParseFrame_def Let_def)
qed

definition fd_waiting :: "fdcanusb \<Rightarrow> bool" where
  "fd_waiting s \<longleftrightarrow> fd_frame s \<noteq> None \<and> fd_callback s"

lemma fd_parse_all_part:
  assumes "fd_waiting s" and "\<And>c. c \<in> set (fd_streambuf s) \<Longrightarrow> \<not> newline c"
    and "length (fd_streambuf s) \<le> kMaxLineLength"
  shows "fd_parse_all s = Inr (s, [])"
  using fd_ParseFrame_part [OF _ assms(2,3)] assms(1) by (simp add: fd_parse_all.simps [of s] fd_waiting_def)

text \<open>The adapter confirms a command with a line of its own, which may come first.\<close>

definition acks :: "byte list set" where
  "acks = {[], ascii ''OK'' @ [10]}"

lemma fd_parse_all_ack:
  assumes "fd_waiting s" and "ack \<in> acks" and "fd_streambuf s = ack @ y"
  shows "\<exists>k. fd_parse_all s = fd_parse_all (s\<lparr>outstanding_oks := k, fd_streambuf := y\<rparr>)"
proof (cases "ack = []")
  case True
  with assms(3) have "s\<lparr>outstanding_oks := outstanding_oks s, fd_streambuf := y\<rparr> = s" by simp
  then show ?thesis by metis
next
  case False
  with assms(2,3) have b: "fd_streambuf s = ascii ''OK'' @ 10 # y" by (simp add: acks_def)
  let ?k = "max (outstanding_oks s - 1) 0"
  have "fd_ParseLine (ascii ''OK'' @ 10 # y) (ascii ''OK'') s = Inr (s\<lparr>outstanding_oks := ?k\<rparr>, [])"
    by (simp add: fd_ParseLine_def)
  moreover have "\<not> newline c" if "c \<in> set (ascii ''OK'')" for c using that by (auto simp: newline_def)
  ultimately have "fd_ParseFrame s = Inr (True, s\<lparr>outstanding_oks := ?k, fd_streambuf := y\<rparr>, [])"
    using fd_ParseFrame_line [OF _ _ b] assms(1) by (simp add: fd_waiting_def del: ascii_simps)
  with assms(1) have "fd_parse_all s = fd_parse_all (s\<lparr>outstanding_oks := ?k, fd_streambuf := y\<rparr>)"
    by (simp add: fd_parse_all.simps [of s] fd_waiting_def split: sum.split prod.split)
  then show ?thesis ..
qed

lemma fd_parse_all_line:
  assumes "unat (source_id g) < 128" and "unat (dest_id g) < 128" and "payload g \<noteq> []"
    and "fd_waiting s" and "fd_streambuf s = fd_line g @ 10 # rest"
  shows "fd_parse_all s = Inr (s\<lparr>fd_frame := None, fd_callback := False, fd_streambuf := rest\<rparr>,
    [TimerCancel, PostCallback Success (g\<lparr>payload := padded (payload g)\<rparr>)])"
proof -
  obtain f where f: "fd_frame s = Some f" "fd_callback s" using assms(4) by (auto simp: fd_waiting_def)
  then have "fd_ParseFrame s = Inr (True, s\<lparr>fd_frame := None, fd_callback := False, fd_streambuf := rest\<rparr>,
      [TimerCancel, PostCallback Success (g\<lparr>payload := padded (payload g)\<rparr>)])"
    using fd_ParseFrame_line [OF _ fd_line_no_newline assms(5)] fd_ParseLine_line [OF assms(1-3), of s f "10 # rest"]
    by (simp add: fd_EmitFrame_def)
  with f show ?thesis by (simp add: fd_parse_all.simps [of s] fd_parse_all.simps [of "s\<lparr>fd_frame := _, fd_callback := _, fd_streambuf := _\<rparr>"])
qed

text \<open>
  The reader after part of the stream: it waits for more, and what is not yet parsed is in the
  buffer.
\<close>

fun fd_feed :: "fdcanusb \<Rightarrow> byte list list \<Rightarrow> (fdcanusb \<times> rs_event list) res" where
  "fd_feed s [] = Inr (s, [])"
| "fd_feed s (c # cs) =
     sbind (fd_HandleRead s Success c) (\<lambda>(s, e).
     sbind (fd_feed s cs) (\<lambda>(s, e'). Inr (s, e @ e')))"

definition fd_after :: "byte list \<Rightarrow> byte list \<Rightarrow> fdcanusb \<Rightarrow> bool" where
  "fd_after ack x s \<longleftrightarrow> fd_waiting s \<and> fd_read_outstanding s \<and> (fd_streambuf s = x \<or> ack @ fd_streambuf s = x)"

lemma fd_HandleRead_part:
  assumes "fd_waiting s" and "ack \<in> acks" and "fd_streambuf s @ c = y \<or> fd_streambuf s @ c = ack @ y"
    and "\<And>b. b \<in> set y \<Longrightarrow> \<not> newline b" and "length y \<le> kMaxLineLength"
  shows "\<exists>t. fd_HandleRead s Success c = Inr (t, [StartRead]) \<and> fd_waiting t \<and> fd_read_outstanding t \<and> fd_streambuf t = y"
proof -
  let ?s = "s\<lparr>fd_streambuf := fd_streambuf s @ c, fd_read_outstanding := False\<rparr>"
  have w: "fd_waiting (?s\<lparr>outstanding_oks := k, fd_streambuf := z\<rparr>)" for k z using assms(1) by (simp add: fd_waiting_def)
  obtain a where "a \<in> acks" "fd_streambuf ?s = a @ y" using assms(2,3) by (auto simp: acks_def)
  then obtain k where "fd_parse_all ?s = fd_parse_all (?s\<lparr>outstanding_oks := k, fd_streambuf := y\<rparr>)"
    using fd_parse_all_ack [of ?s a y] assms(1) by (auto simp: fd_waiting_def)
  also have "\<dots> = Inr (?s\<lparr>outstanding_oks := k, fd_streambuf := y\<rparr>, [])"
    using assms(4,5) by (intro fd_parse_all_part w) auto
  finally have p: "fd_parse_all ?s = Inr (?s\<lparr>outstanding_oks := k, fd_streambuf := y\<rparr>, [])" .
  have "fd_ParseFrame (?s\<lparr>outstanding_oks := k, fd_streambuf := y\<rparr>)
      = Inr (False, ?s\<lparr>outstanding_oks := k, fd_streambuf := y\<rparr>, [])"
    using assms(1,4,5) by (intro fd_ParseFrame_part) (auto simp: fd_waiting_def)
  with p assms(1) show ?thesis
    unfolding fd_HandleRead_def p by (simp add: fd_MaybeStartRead_def fd_waiting_def)
qed

lemma fd_HandleRead_line:
  assumes "unat (source_id g) < 128" and "unat (dest_id g) < 128" and "payload g \<noteq> []"
    and "fd_waiting s" and "ack \<in> acks" and "fd_streambuf s @ c = ack @ fd_line g @ 10 # rest"
  shows "\<exists>t. fd_HandleRead s Success c
        = Inr (t, [TimerCancel, PostCallback Success (g\<lparr>payload := padded (payload g)\<rparr>)])
    \<and> fd_streambuf t = rest \<and> \<not> fd_callback t \<and> fd_frame t = None"
proof -
  let ?s = "s\<lparr>fd_streambuf := fd_streambuf s @ c, fd_read_outstanding := False\<rparr>"
  obtain k where "fd_parse_all ?s = fd_parse_all (?s\<lparr>outstanding_oks := k, fd_streambuf := fd_line g @ 10 # rest\<rparr>)"
    using fd_parse_all_ack [of ?s ack] assms(4-6) by (auto simp: fd_waiting_def)
  then have "fd_parse_all ?s = Inr (?s\<lparr>outstanding_oks := k, fd_frame := None, fd_callback := False, fd_streambuf := rest\<rparr>,
      [TimerCancel, PostCallback Success (g\<lparr>payload := padded (payload g)\<rparr>)])"
    using fd_parse_all_line [OF assms(1-3), of "?s\<lparr>outstanding_oks := k, fd_streambuf := fd_line g @ 10 # rest\<rparr>" rest] assms(4)
    by (simp add: fd_waiting_def)
  then show ?thesis by (simp add: fd_HandleRead_def fd_MaybeStartRead_def)
qed

lemma ack_part:
  assumes "ack \<in> acks" and "j < length ack" and "c \<in> set (take j ack)"
  shows "\<not> newline c"
proof -
  have "ack = [79, 75, 10]" "j \<le> 2" using assms(1,2) by (auto simp: acks_def)
  then have "set (take j ack) \<subseteq> {79, 75}" using set_take_subset_set_take [of j 2 ack] by simp
  with assms(3) show ?thesis by (auto simp: newline_def)
qed

lemma fd_HandleRead_after:
  assumes "fd_after ack x s" and "ack \<in> acks" and "length (payload g) \<le> 64"
    and "x @ c = take j (ack @ fd_line g @ [10])" and "j < length (ack @ fd_line g @ [10])"
  shows "\<exists>t. fd_HandleRead s Success c = Inr (t, [StartRead]) \<and> fd_after ack (x @ c) t"
proof (cases "length ack \<le> j")
  case True
  let ?y = "take (j - length ack) (fd_line g)"
  have e: "x @ c = ack @ ?y" using assms(4,5) True by auto
  have "\<exists>t. fd_HandleRead s Success c = Inr (t, [StartRead]) \<and> fd_waiting t \<and> fd_read_outstanding t \<and> fd_streambuf t = ?y"
  proof (rule fd_HandleRead_part [OF _ assms(2)])
    show "fd_waiting s" using assms(1) by (simp add: fd_after_def)
    show "fd_streambuf s @ c = ?y \<or> fd_streambuf s @ c = ack @ ?y"
      using assms(1) e by (auto simp: fd_after_def append_eq_append_conv2)
    show "\<not> newline b" if "b \<in> set ?y" for b using fd_line_no_newline in_set_takeD [OF that] by blast
    show "length ?y \<le> kMaxLineLength" using length_fd_line [OF assms(3)] by simp
  qed
  with e show ?thesis by (auto simp: fd_after_def)
next
  case False
  have e: "x @ c = take j ack" using assms(4) False by simp
  then have "length x < length ack" using False by (metis length_append length_take min_def le_add1 not_le order.strict_trans1)
  then have b: "fd_streambuf s = x" using assms(1) by (auto simp: fd_after_def)
  have "\<exists>t. fd_HandleRead s Success c = Inr (t, [StartRead]) \<and> fd_waiting t \<and> fd_read_outstanding t \<and> fd_streambuf t = x @ c"
  proof (rule fd_HandleRead_part [OF _ assms(2)])
    show "fd_waiting s" using assms(1) by (simp add: fd_after_def)
    show "\<not> newline d" if "d \<in> set (x @ c)" for d using ack_part [OF assms(2)] that e False by (simp add: not_le)
    show "length (x @ c) \<le> kMaxLineLength" using e assms(2) by (auto simp: acks_def kMaxLineLength_def)
  qed (simp add: b)
  then show ?thesis by (auto simp: fd_after_def)
qed

lemma fd_feed_after:
  assumes "fd_after ack x s" and "ack \<in> acks" and "length (payload g) \<le> 64"
    and "x @ concat cs = take j (ack @ fd_line g @ [10])" and "j < length (ack @ fd_line g @ [10])"
  shows "\<exists>t. fd_feed s cs = Inr (t, replicate (length cs) StartRead) \<and> fd_after ack (x @ concat cs) t"
  using assms(1,4)
proof (induction cs arbitrary: s x)
  case (Cons c cs)
  let ?w = "ack @ fd_line g @ [10]" and ?n = "min (length (x @ c)) j"
  have "x @ c = take (length (x @ c)) ((x @ c) @ concat cs)" by simp
  also have "(x @ c) @ concat cs = take j ?w" using Cons.prems(2) by simp
  also have "take (length (x @ c)) (take j ?w) = take ?n ?w" by (rule take_take)
  finally have "x @ c = take ?n ?w" .
  moreover have "?n < length ?w" using assms(5) by simp
  ultimately obtain t where t: "fd_HandleRead s Success c = Inr (t, [StartRead])" "fd_after ack (x @ c) t"
    using fd_HandleRead_after [OF Cons.prems(1) assms(2,3)] by blast
  from Cons.IH [OF t(2)] Cons.prems(2) t(1) show ?case by auto
qed simp

lemma fd_after_ack:
  assumes "fd_after ack x s"
  shows "\<exists>a \<in> {[], ack}. fd_waiting s \<and> x = a @ fd_streambuf s"
  using assms by (auto simp: fd_after_def)

section \<open>Frames that are not delivered\<close>

text \<open>
  \<open>MaybeStartRead\<close> parses one line only. When it is a confirmation, a frame that is complete in
  the buffer is not given to the caller of \<open>AsyncRead\<close>: a read is started, and the frame waits
  for whatever comes next.
\<close>

lemma fd_AsyncRead_behind_ack:
  assumes "fd_frame s = None" and "\<not> fd_callback s" and "\<not> fd_read_outstanding s"
    and "fd_streambuf s = ascii ''OK'' @ 10 # fd_line g @ 10 # rest"
  shows "\<exists>t. fd_AsyncRead s f timeout = Inr (t, [if timeout = 0 then TimerCancel else TimerStart timeout, StartRead])
    \<and> fd_streambuf t = fd_line g @ 10 # rest \<and> fd_callback t"
proof -
  let ?s = "s\<lparr>fd_frame := Some f, fd_callback := True\<rparr>" and ?r = "fd_line g @ 10 # rest"
  have n: "\<not> newline c" if "c \<in> set (ascii ''OK'')" for c using that by (auto simp: newline_def)
  have "fd_ParseLine (ascii ''OK'' @ 10 # ?r) (ascii ''OK'') ?s
      = Inr (?s\<lparr>outstanding_oks := max (outstanding_oks s - 1) 0\<rparr>, [])"
    by (simp add: fd_ParseLine_def)
  moreover have "fd_ParseFrame ?s = sbind (fd_ParseLine (ascii ''OK'' @ 10 # ?r) (ascii ''OK'') ?s)
      (\<lambda>(s, e). Inr (True, s\<lparr>fd_streambuf := ?r\<rparr>, e))"
    using assms(4) by (intro fd_ParseFrame_line n) auto
  ultimately show ?thesis
    using assms(1-3) by (simp add: fd_AsyncRead_def fd_MaybeStartRead_def mj_assert_def del: ascii_simps)
qed

text \<open>A frame without a payload has a line without data, which is ignored.\<close>

lemma fd_ParseLine_empty:
  assumes "payload g = []" and "fd_frame s \<noteq> None"
  shows "fd_ParseLine buf (fd_line g) s = Inr (s, [])"
proof -
  have "c \<noteq> 0 \<and> c \<noteq> 32" if "c \<in> set (fmt_hex (fd_address g))" for c using fmt_hex_chars [OF that] by auto
  then have "tk_next (ascii '' '') (fd_text g) = (fmt_hex (fd_address g), [])"
    using tk_next_space(1) [of "fmt_hex (fd_address g)" "[]"] assms(1) by (simp add: fd_text_def padded_def RoundUpDlc_def)
  moreover have "tk_next (ascii '' '') (fd_line g) = (ascii ''rcv'', fd_text g)"
    by (simp add: fd_line_def tk_next_def is_delim_def)
  moreover have "tk_next (ascii '' '') [] = ([], [])" by (simp add: tk_next_def)
  moreover have "fd_line g \<noteq> []" "fd_line g \<noteq> ascii ''OK''" "take 4 (fd_line g) = ascii ''rcv ''"
    by (simp_all add: fd_line_def)
  ultimately show ?thesis using assms(2) by (auto simp: fd_ParseLine_def simp del: ascii_simps)
qed

section \<open>Properties\<close>

text \<open>
  C40. The text \<open>AsyncWrite\<close> sends for a frame is \<open>can send\<close> and
  a rest that, when the adapter at the other end gives it as \<open>rcv\<close>, is delivered to a waiting
  reader there as the frame that was sent, the payload padded to a size CAN-FD has: a
  confirmation may come first, the characters may arrive cut into any pieces, and more may
  follow. Every read but the last is answered by another read, the last one stops the timer and
  posts the callback, and what follows stays in the buffer.
\<close>

theorem fdcanusb_delivers_frame:
  assumes "unat (source_id g) < 128" and "unat (dest_id g) < 128"
    and "payload g \<noteq> []" and "length (payload g) \<le> 64"
    and "ack \<in> {[], ascii ''OK'' @ [10]}"
    and "fd_AsyncWrite tx g = Inr (tx', [StartWrite w])"
    and "concat cs @ c = ack @ ascii ''rcv '' @ drop 9 w @ rest"
    and "length (concat cs) < length (ack @ ascii ''rcv '' @ drop 9 w)"
    and "fd_frame s \<noteq> None" and "fd_callback s" and "fd_read_outstanding s" and "fd_streambuf s = []"
  shows "take 9 w = ascii ''can send ''
    \<and> (\<exists>s' s''. fd_feed s cs = Inr (s', replicate (length cs) StartRead)
      \<and> fd_HandleRead s' Success c = Inr (s'', [TimerCancel, PostCallback Success
          (g\<lparr>payload := payload g @ replicate (RoundUpDlc (length (payload g)) - length (payload g)) 0x50\<rparr>)])
      \<and> fd_streambuf s'' = rest \<and> \<not> fd_callback s'' \<and> fd_frame s'' = None)"
proof -
  have w: "w = ascii ''can send '' @ fd_text g @ [10]" using fd_AsyncWrite_text [of tx g] assms(6) by auto
  then have line: "ascii ''rcv '' @ drop 9 w = fd_line g @ [10]" by (simp add: fd_line_def)
  let ?w = "ack @ fd_line g @ [10]"
  have ack: "ack \<in> acks" using assms(5) by (simp add: acks_def)
  have all: "concat cs @ c = ?w @ rest" and less: "length (concat cs) < length ?w"
    using assms(7,8) line [symmetric] by (simp_all del: ascii_simps)
  have "concat cs = take (length (concat cs)) (?w @ rest)" by (metis all append_eq_conv_conj)
  with less have "[] @ concat cs = take (length (concat cs)) ?w" by simp
  moreover have "fd_after ack [] s" using assms(9-12) by (simp add: fd_after_def fd_waiting_def)
  ultimately obtain s' where s': "fd_feed s cs = Inr (s', replicate (length cs) StartRead)" "fd_after ack (concat cs) s'"
    using fd_feed_after [OF _ ack assms(4) _ less, of "[]" s cs] by auto
  then obtain a where a: "a \<in> {[], ack}" "fd_waiting s'" "concat cs = a @ fd_streambuf s'"
    using fd_after_ack by blast
  have "a @ fd_streambuf s' @ c = ack @ fd_line g @ 10 # rest" using all a(3) by simp
  with a(1) have "fd_streambuf s' @ c = ack @ fd_line g @ 10 # rest \<or> fd_streambuf s' @ c = [] @ fd_line g @ 10 # rest"
    by auto
  then obtain a' where "a' \<in> acks" "fd_streambuf s' @ c = a' @ fd_line g @ 10 # rest"
    using ack unfolding acks_def by blast
  from fd_HandleRead_line [OF assms(1-3) a(2) this] s'(1) w show ?thesis by (auto simp: padded_def)
qed

lemma replicate_3: "replicate 3 x = [x, x, x]"
  by (simp add: numeral_3_eq_3)

theorem fdcanusb_delivers_frame_witness:
  "\<exists>s' s''. fd_feed (fd_init\<lparr>fd_frame := Some frame_init, fd_callback := True, fd_read_outstanding := True\<rparr>)
        [ascii ''OK'', [10] @ ascii ''rcv 81''] = Inr (s', [StartRead, StartRead])
    \<and> fd_HandleRead s' Success (ascii ''02 010203040506070809505050'' @ [10, 79])
       = Inr (s'', [TimerCancel, PostCallback Success
           \<lparr>source_id = 1, request_reply = True, dest_id = 2, payload = [1, 2, 3, 4, 5, 6, 7, 8, 9, 0x50, 0x50, 0x50]\<rparr>])
    \<and> fd_streambuf s'' = [79] \<and> \<not> fd_callback s'' \<and> fd_frame s'' = None"
proof -
  let ?g = "\<lparr>source_id = 1, request_reply = True, dest_id = 2, payload = [1, 2, 3, 4, 5, 6, 7, 8, 9]\<rparr> :: frame"
  let ?s = "fd_init\<lparr>fd_frame := Some frame_init, fd_callback := True, fd_read_outstanding := True\<rparr>"
  have r: "RoundUpDlc (length (payload ?g)) - length (payload ?g) = 3" by code_simp
  have "fd_address ?g = 0x8102" by (simp add: fd_address_def frame_source_def push_bit_eq_mult)
  moreover have "fmt_hex 0x8102 = ascii ''8102''" by (simp add: fmt_hex.simps hex_digit_def)
  ultimately have "fd_text ?g = ascii ''8102 010203040506070809505050''"
    by (simp add: fd_text_def padded_def r [simplified] replicate_3 fmt_hex_byte_def hex_digit_def)
  then obtain tx' where tx: "fd_AsyncWrite fd_init ?g
      = Inr (tx', [StartWrite (ascii ''can send 8102 010203040506070809505050'' @ [10])])"
    using fd_AsyncWrite_text [of fd_init ?g] by auto
  show ?thesis
    using fdcanusb_delivers_frame [OF _ _ _ _ _ tx, where ack = "ascii ''OK'' @ [10]" and rest = "[79]" and s = ?s
        and cs = "[ascii ''OK'', [10] @ ascii ''rcv 81'']" and c = "ascii ''02 010203040506070809505050'' @ [10, 79]"]
    by (simp add: fd_init_def r [simplified] replicate_3)
qed

end
