(* ===== verification/Register_Client.thy ===== *)
theory Register_Client
  imports Multiplex_Stream
begin

text \<open>
  The register protocol seen from the client (\<open>multiplex/register.cc\<close>): building a request
  and parsing a reply, and the values and subframe numbers of \<open>multiplex/format.h\<close> that client
  and server share. A \<open>float\<close> is its 32 bits. \<open>RegisterRequest\<close> writes to a
  \<open>FastOStringStream\<close>; the parser works on any \<open>base::ReadStream\<close>.
\<close>

section \<open>Definitions\<close>

subsection \<open>Values and subframes\<close>

datatype reg_value = VInt8 byte | VInt16 u16 | VInt32 u32 | VFloat u32

datatype read_result = RValue reg_value | RError u32

type_synonym register_value = "u32 \<times> read_result"

definition value_index :: "reg_value \<Rightarrow> nat" where
  "value_index v = (case v of VInt8 _ \<Rightarrow> 0 | VInt16 _ \<Rightarrow> 1 | VInt32 _ \<Rightarrow> 2 | VFloat _ \<Rightarrow> 3)"

definition value_bytes :: "reg_value \<Rightarrow> byte list" where
  "value_bytes v =
     (case v of VInt8 x \<Rightarrow> le_bytes 1 x | VInt16 x \<Rightarrow> le_bytes 2 x | VInt32 x \<Rightarrow> le_bytes 4 x
      | VFloat x \<Rightarrow> le_bytes 4 x)"

definition kWriteBase :: u32 where "kWriteBase = 0x00"
definition kReadBase :: u32 where "kReadBase = 0x10"
definition kReplyBase :: u32 where "kReplyBase = 0x20"
definition kWriteError :: u32 where "kWriteError = 0x30"
definition kReadError :: u32 where "kReadError = 0x31"
definition kClientToServer :: u32 where "kClientToServer = 0x40"
definition kServerToClient :: u32 where "kServerToClient = 0x41"
definition kClientPollServer :: u32 where "kClientPollServer = 0x42"
definition kNop :: u32 where "kNop = 0x50"

subsection \<open>RegisterRequest\<close>

record register_request =
  rr_buffer :: fos
  rr_request_reply :: bool

definition rr_init :: register_request where
  "rr_init = \<lparr>rr_buffer = fos_init, rr_request_reply = False\<rparr>"

definition ExpectResponse :: "register_request \<Rightarrow> bool \<Rightarrow> register_request" where
  "ExpectResponse s v = s\<lparr>rr_request_reply := v\<rparr>"

definition ReadSingle :: "register_request \<Rightarrow> u32 \<Rightarrow> nat \<Rightarrow> register_request res" where
  "ReadSingle s reg type_index =
     sbind (mj_assert (type_index \<le> 3)) (\<lambda>_.
     sbind (WriteVaruint fos_write (rr_buffer s) (kReadBase + of_nat (type_index * 4 + 1))) (\<lambda>b.
     sbind (WriteVaruint fos_write b reg) (\<lambda>b.
     Inr (s\<lparr>rr_buffer := b, rr_request_reply := True\<rparr>))))"

definition ReadMultiple :: "register_request \<Rightarrow> u32 \<Rightarrow> u32 \<Rightarrow> nat \<Rightarrow> register_request res" where
  "ReadMultiple s reg num_registers type_index =
     sbind (mj_assert (num_registers > 0)) (\<lambda>_.
     sbind (mj_assert (type_index \<le> 3)) (\<lambda>_.
     let encoded_length = (if num_registers < 4 then num_registers else 0)
     in sbind (WriteVaruint fos_write (rr_buffer s)
                 (kReadBase + of_nat (type_index * 4) + encoded_length)) (\<lambda>b.
        sbind (if encoded_length = 0 then WriteVaruint fos_write b num_registers else Inr b) (\<lambda>b.
        sbind (WriteVaruint fos_write b reg) (\<lambda>b.
        Inr (s\<lparr>rr_buffer := b, rr_request_reply := True\<rparr>))))))"

definition WriteValue :: "('s \<Rightarrow> byte list \<Rightarrow> 's res) \<Rightarrow> 's \<Rightarrow> reg_value \<Rightarrow> 's res" where
  "WriteValue wr s v = wr s (value_bytes v)"

definition WriteSingle :: "register_request \<Rightarrow> u32 \<Rightarrow> reg_value \<Rightarrow> register_request res" where
  "WriteSingle s reg v =
     sbind (WriteVaruint fos_write (rr_buffer s) (kWriteBase + of_nat (value_index v * 4 + 1))) (\<lambda>b.
     sbind (WriteVaruint fos_write b reg) (\<lambda>b.
     sbind (WriteValue fos_write b v) (\<lambda>b.
     Inr (s\<lparr>rr_buffer := b\<rparr>))))"

fun WriteValues :: "('s \<Rightarrow> byte list \<Rightarrow> 's res) \<Rightarrow> 's \<Rightarrow> reg_value list \<Rightarrow> 's res" where
  "WriteValues wr s [] = Inr s"
| "WriteValues wr s (v # vs) = sbind (WriteValue wr s v) (\<lambda>t. WriteValues wr t vs)"

definition WriteMultiple :: "register_request \<Rightarrow> u32 \<Rightarrow> reg_value list \<Rightarrow> register_request res" where
  "WriteMultiple s start_reg vs =
     sbind (mj_assert (vs \<noteq> [])) (\<lambda>_.
     let encoded_length = (if length vs < 4 then length vs else 0)
     in sbind (WriteVaruint fos_write (rr_buffer s)
                 (kWriteBase + of_nat (value_index (hd vs) * 4 + encoded_length))) (\<lambda>b.
        sbind (if encoded_length = 0 then WriteVaruint fos_write b (of_nat (length vs)) else Inr b) (\<lambda>b.
        sbind (WriteVaruint fos_write b start_reg) (\<lambda>b.
        sbind (WriteValues fos_write b vs) (\<lambda>b.
        Inr (s\<lparr>rr_buffer := b\<rparr>))))))"

definition rr_bytes :: "register_request \<Rightarrow> byte list" where
  "rr_bytes s = fos_str (rr_buffer s)"

definition rr_clear :: "register_request \<Rightarrow> register_request" where
  "rr_clear s = s\<lparr>rr_request_reply := False, rr_buffer := fos_clear (rr_buffer s)\<rparr>"

subsection \<open>Parsing a reply\<close>

definition ReadValue ::
  "('s \<Rightarrow> nat \<Rightarrow> byte list \<times> 's) \<Rightarrow> nat \<Rightarrow> 's \<Rightarrow> reg_value option \<times> 's" where
  "ReadValue rd type_index s =
     (if type_index = 0 then apfst (map_option VInt8) (ReadScalar rd 1 s)
      else if type_index = 1 then apfst (map_option VInt16) (ReadScalar rd 2 s)
      else if type_index = 2 then apfst (map_option VInt32) (ReadScalar rd 4 s)
      else apfst (map_option VFloat) (ReadScalar rd 4 s))"

text \<open>
  The loop over the registers of one subframe: \<open>k\<close> registers to go, \<open>i\<close> done. The \<open>type_index\<close>
  is a quotient of a number below 16 by 4, so \<open>ReadValue\<close>'s assertion holds.
\<close>

fun ReadValues ::
  "('s \<Rightarrow> nat \<Rightarrow> byte list \<times> 's) \<Rightarrow> nat \<Rightarrow> u32 \<Rightarrow> nat \<Rightarrow> nat \<Rightarrow> register_value list \<Rightarrow> 's
     \<Rightarrow> bool \<times> register_value list \<times> 's" where
  "ReadValues rd ty start_reg i 0 out s = (True, out, s)"
| "ReadValues rd ty start_reg i (Suc k) out s =
     (case ReadValue rd ty s of
        (None, s) \<Rightarrow> (False, out, s)
      | (Some v, s) \<Rightarrow>
          ReadValues rd ty start_reg (i + 1) k (out @ [(start_reg + of_nat i, RValue v)]) s)"

definition ParseSubframe ::
  "('s \<Rightarrow> nat \<Rightarrow> byte list \<times> 's) \<Rightarrow> register_value list \<Rightarrow> 's \<Rightarrow> bool \<times> register_value list \<times> 's" where
  "ParseSubframe rd out s =
     (case ReadVaruint rd s of
        (None, s) \<Rightarrow> (False, out, s)
      | (Some subframe_id, s) \<Rightarrow>
      if subframe_id \<ge> kReplyBase \<and> subframe_id < kReplyBase + 16 then
        let encoded_length = subframe_id AND 0x03;
            ty = unat (subframe_id - kReplyBase) div 4
        in case (if encoded_length = 0 then ReadVaruint rd s else (Some encoded_length, s)) of
             (None, s) \<Rightarrow> (False, out, s)
           | (Some num_registers, s) \<Rightarrow>
        (case ReadVaruint rd s of
             (None, s) \<Rightarrow> (False, out, s)
           | (Some start_reg, s) \<Rightarrow> ReadValues rd ty start_reg 0 (unat num_registers) out s)
      else if subframe_id = kWriteError \<or> subframe_id = kReadError then
        case ReadVaruint rd s of (maybe_this_reg, s) \<Rightarrow>
        case ReadVaruint rd s of (maybe_this_err, s) \<Rightarrow>
        (case (maybe_this_reg, maybe_this_err) of
           (Some this_reg, Some this_err) \<Rightarrow> (True, out @ [(this_reg, RError this_err)], s)
         | _ \<Rightarrow> (False, out, s))
      else (False, out, s))"

text \<open>
  The loop \<open>while (true)\<close>: not returning is \<open>None\<close>. The result's size after \<open>resize(old_size)\<close>.
\<close>

partial_function (option) ParseReply_loop ::
  "('s \<Rightarrow> nat \<Rightarrow> byte list \<times> 's) \<Rightarrow> register_value list \<Rightarrow> 's \<Rightarrow> (register_value list \<times> 's) option" where
  "ParseReply_loop rd out s =
     (case ParseSubframe rd out s of
        (success, out', t) \<Rightarrow>
          if \<not> success then Some (take (length out) out', t) else ParseReply_loop rd out' t)"

definition ParseRegisterReply_vector ::
  "('s \<Rightarrow> nat \<Rightarrow> byte list \<times> 's) \<Rightarrow> 's \<Rightarrow> (register_value list \<times> 's) option" where
  "ParseRegisterReply_vector rd s = ParseReply_loop rd [] s"

text \<open>\<open>std::map::insert\<close> keeps the element that is already there.\<close>

fun map_insert_all :: "register_value list \<Rightarrow> (u32 \<rightharpoonup> read_result) \<Rightarrow> (u32 \<rightharpoonup> read_result)" where
  "map_insert_all [] m = m"
| "map_insert_all ((r, x) # ps) m =
     map_insert_all ps (if m r = None then m(r \<mapsto> x) else m)"

definition ParseRegisterReply ::
  "('s \<Rightarrow> nat \<Rightarrow> byte list \<times> 's) \<Rightarrow> 's \<Rightarrow> (u32 \<rightharpoonup> read_result) option" where
  "ParseRegisterReply rd s =
     map_option (\<lambda>(d, _). map_insert_all d Map.empty) (ParseRegisterReply_vector rd s)"

subsection \<open>The wire format\<close>

text \<open>
  The reference: the bytes of the register subframes as \<open>format.h\<close> describes them. The number
  of registers is either in the two low bits of the subframe number (\<open>enc\<close>) or, when these
  are zero, a varuint of its own.
\<close>

definition subframe_head :: "u32 \<Rightarrow> nat \<Rightarrow> nat \<Rightarrow> u32 \<Rightarrow> u32 \<Rightarrow> byte list" where
  "subframe_head base ty enc n reg =
     leb128 (unat (base + of_nat (4 * ty + enc)))
     @ (if enc = 0 then leb128 (unat n) else []) @ leb128 (unat reg)"

definition short_len :: "nat \<Rightarrow> nat" where
  "short_len n = (if n < 4 then n else 0)"

definition values_bytes :: "reg_value list \<Rightarrow> byte list" where
  "values_bytes vs = concat (map value_bytes vs)"

definition write_bytes :: "u32 \<Rightarrow> reg_value list \<Rightarrow> byte list" where
  "write_bytes reg vs =
     subframe_head kWriteBase (value_index (hd vs)) (short_len (length vs)) (of_nat (length vs)) reg
     @ values_bytes vs"

definition read_bytes :: "nat \<Rightarrow> u32 \<Rightarrow> u32 \<Rightarrow> byte list" where
  "read_bytes ty n reg = subframe_head kReadBase ty (short_len (unat n)) n reg"

definition reply_bytes :: "nat \<Rightarrow> nat \<Rightarrow> u32 \<Rightarrow> reg_value list \<Rightarrow> byte list" where
  "reply_bytes ty enc reg vs = subframe_head kReplyBase ty enc (of_nat (length vs)) reg @ values_bytes vs"

definition error_bytes :: "u32 \<Rightarrow> u32 \<Rightarrow> u32 \<Rightarrow> byte list" where
  "error_bytes code reg err = leb128 (unat code) @ leb128 (unat reg) @ leb128 (unat err)"

text \<open>The subframes of a reply, and what they say of which register.\<close>

datatype reply_item = Values nat nat u32 "reg_value list" | Error u32 u32 u32

fun item_bytes :: "reply_item \<Rightarrow> byte list" where
  "item_bytes (Values ty enc reg vs) = reply_bytes ty enc reg vs"
| "item_bytes (Error code reg err) = error_bytes code reg err"

fun item_ok :: "reply_item \<Rightarrow> bool" where
  "item_ok (Values ty enc reg vs) =
     ((enc = 0 \<or> enc = length vs \<and> enc < 4) \<and> ty \<le> 3 \<and> length vs < 2 ^ 32 \<and> (\<forall>v \<in> set vs. value_index v = ty))"
| "item_ok (Error code reg err) = (code = kWriteError \<or> code = kReadError)"

fun reply_pairs :: "u32 \<Rightarrow> nat \<Rightarrow> reg_value list \<Rightarrow> register_value list" where
  "reply_pairs reg i [] = []"
| "reply_pairs reg i (v # vs) = (reg + of_nat i, RValue v) # reply_pairs reg (i + 1) vs"

fun item_pairs :: "reply_item \<Rightarrow> register_value list" where
  "item_pairs (Values ty enc reg vs) = reply_pairs reg 0 vs"
| "item_pairs (Error code reg err) = [(reg, RError err)]"

lemmas subframe_codes = kWriteBase_def kReadBase_def kReplyBase_def kWriteError_def kReadError_def
  kClientToServer_def kServerToClient_def kClientPollServer_def kNop_def

section \<open>The request builder writes the reference\<close>

definition rr_ok :: "register_request \<Rightarrow> bool" where
  "rr_ok s \<longleftrightarrow> fos_ok (rr_buffer s)"

lemma fos_write_total: "fos_ok s \<Longrightarrow> \<exists>t. fos_write s d = Inr t \<and> fos_str t = fos_str s @ d \<and> fos_ok t"
  using fos.wr_out fos.wr_ok by (metis fos_write_eq)

context write_stream
begin

lemma WriteValues_bytes: "WriteValues wr s (v # vs) = wr s (values_bytes (v # vs))"
proof (induction vs arbitrary: s v)
  case Nil
  then show ?case by (simp add: WriteValue_def values_bytes_def)
next
  case (Cons w vs)
  then show ?case by (simp add: WriteValue_def values_bytes_def wr_append)
qed

end

text \<open>
  Every operation of the request appends the bytes of one subframe, and asks for a reply
  exactly when it reads.
\<close>

definition rr_appends :: "register_request res \<Rightarrow> register_request \<Rightarrow> byte list \<Rightarrow> bool \<Rightarrow> bool" where
  "rr_appends r s d reply \<longleftrightarrow>
     (\<exists>t. r = Inr t \<and> rr_ok t \<and> rr_bytes t = rr_bytes s @ d
        \<and> rr_request_reply t = (rr_request_reply s \<or> reply))"

lemma rr_appendsI:
  "rr_ok s \<Longrightarrow> r = sbind (fos_write (rr_buffer s) d) (\<lambda>b. Inr (s\<lparr>rr_buffer := b\<rparr>)) \<Longrightarrow> rr_appends r s d False"
  using fos_write_total [of "rr_buffer s" d] by (auto simp: rr_appends_def rr_ok_def rr_bytes_def)

lemma rr_appendsI_read:
  "rr_ok s \<Longrightarrow> r = sbind (fos_write (rr_buffer s) d) (\<lambda>b. Inr (s\<lparr>rr_buffer := b, rr_request_reply := True\<rparr>))
     \<Longrightarrow> rr_appends r s d True"
  using fos_write_total [of "rr_buffer s" d] by (auto simp: rr_appends_def rr_ok_def rr_bytes_def)

lemmas fos_seq = fos.WriteVaruint_leb128 fos.wr_seq fos.wr_seq_more

lemma WriteMultiple_bytes:
  assumes "rr_ok s" and "vs \<noteq> []" and "length vs < 2 ^ 32"
  shows "rr_appends (WriteMultiple s reg vs) s (write_bytes reg vs) False"
proof (rule rr_appendsI [OF assms(1)])
  obtain v ws where vs: "vs = v # ws" using assms(2) by (cases vs) auto
  show "WriteMultiple s reg vs =
      sbind (fos_write (rr_buffer s) (write_bytes reg vs)) (\<lambda>b. Inr (s\<lparr>rr_buffer := b\<rparr>))"
    using assms(2,3) fos.WriteValues_bytes [of _ v ws, folded vs]
    by (simp add: WriteMultiple_def Let_def fos_seq write_bytes_def subframe_head_def short_len_def
        mult.commute)
qed

lemma WriteSingle_bytes:
  assumes "rr_ok s"
  shows "rr_appends (WriteSingle s reg v) s (write_bytes reg [v]) False"
  by (rule rr_appendsI [OF assms])
    (simp add: WriteSingle_def WriteValue_def fos_seq write_bytes_def subframe_head_def short_len_def
      values_bytes_def mult.commute)

lemma ReadMultiple_bytes:
  assumes "rr_ok s" and "0 < n" and "ty \<le> 3"
  shows "rr_appends (ReadMultiple s reg n ty) s (read_bytes ty n reg) True"
proof (rule rr_appendsI_read [OF assms(1)])
  have "n < 4 \<longleftrightarrow> unat n < 4" "n = 0 \<longleftrightarrow> unat n = 0" "unat n \<noteq> 0"
    using assms(2) by (auto simp: word_less_nat_alt unat_eq_zero)
  then show "ReadMultiple s reg n ty = sbind (fos_write (rr_buffer s) (read_bytes ty n reg))
      (\<lambda>b. Inr (s\<lparr>rr_buffer := b, rr_request_reply := True\<rparr>))"
    using assms(2,3)
    by (simp add: ReadMultiple_def Let_def fos_seq read_bytes_def subframe_head_def short_len_def
        mult.commute add.assoc)
qed

lemma ReadSingle_bytes:
  assumes "rr_ok s" and "ty \<le> 3"
  shows "rr_appends (ReadSingle s reg ty) s (read_bytes ty 1 reg) True"
  by (rule rr_appendsI_read [OF assms(1)])
    (use assms(2) in \<open>simp add: ReadSingle_def fos_seq read_bytes_def subframe_head_def short_len_def
      mult.commute\<close>)

section \<open>The parser over any stream\<close>

text \<open>The parser sees a stream only through the bytes it has left.\<close>

context read_stream
begin

lemma ReadValue_abs:
  "ok s \<Longrightarrow> apsnd avail (ReadValue rd ty s) = ReadValue list_read ty (avail s) \<and> ok (snd (ReadValue rd ty s))"
  using ReadScalar_abs [of s 1, where 'b = 8] ReadScalar_abs [of s 2, where 'b = 16]
    ReadScalar_abs [of s 4, where 'b = 32]
  by (auto simp: ReadValue_def prod_eq_iff)

lemma ReadValues_abs:
  "ok s \<Longrightarrow> apsnd (apsnd avail) (ReadValues rd ty reg i k out s)
      = ReadValues list_read ty reg i k out (avail s)
    \<and> ok (snd (snd (ReadValues rd ty reg i k out s)))"
proof (induction k arbitrary: i out s)
  case (Suc k)
  obtain v t where vt: "ReadValue rd ty s = (v, t)" by (cases "ReadValue rd ty s")
  with ReadValue_abs [OF Suc.prems, of ty] have "ReadValue list_read ty (avail s) = (v, avail t)" "ok t"
    by auto
  with vt Suc.IH [of t] show ?case by (cases v) auto
qed simp

lemma ReadVaruint_cases:
  assumes "ok s"
  obtains v t where "ReadVaruint rd s = (v, t)" "ReadVaruint list_read (avail s) = (v, avail t)" "ok t"
  using ReadVaruint_abs [OF assms] by (cases "ReadVaruint rd s") auto

lemma ParseSubframe_abs:
  assumes "ok s"
  shows "apsnd (apsnd avail) (ParseSubframe rd out s) = ParseSubframe list_read out (avail s)
    \<and> ok (snd (snd (ParseSubframe rd out s)))"
proof -
  obtain v t where 1: "ReadVaruint rd s = (v, t)" "ReadVaruint list_read (avail s) = (v, avail t)" "ok t"
    using assms by (rule ReadVaruint_cases)
  obtain w u where 2: "ReadVaruint rd t = (w, u)" "ReadVaruint list_read (avail t) = (w, avail u)" "ok u"
    using 1(3) by (rule ReadVaruint_cases)
  obtain x y where 3: "ReadVaruint rd u = (x, y)" "ReadVaruint list_read (avail u) = (x, avail y)" "ok y"
    using 2(3) by (rule ReadVaruint_cases)
  show ?thesis
    using 1 2 3 ReadValues_abs
    by (auto simp: ParseSubframe_def Let_def split: option.splits)
qed

end

section \<open>The parser on the wire format\<close>

lemma value_index_le: "value_index v \<le> 3"
  by (cases v) (simp_all add: value_index_def)

lemma ReadValue_bytes: "ReadValue list_read (value_index v) (value_bytes v @ rest) = (Some v, rest)"
  by (cases v) (simp_all add: ReadValue_def value_index_def value_bytes_def ReadScalar_list del: le_bytes.simps)

lemma ReadValues_bytes:
  "\<forall>v \<in> set vs. value_index v = ty \<Longrightarrow>
     ReadValues list_read ty reg i (length vs) out (values_bytes vs @ rest)
       = (True, out @ reply_pairs reg i vs, rest)"
proof (induction vs arbitrary: i out)
  case (Cons v vs)
  then show ?case using ReadValue_bytes [of v "values_bytes vs @ rest"] by (simp add: values_bytes_def)
qed (simp add: values_bytes_def)

lemma and_3_word: "(w AND 3 :: 'a::len word) = of_nat (unat w mod 4)"
proof -
  have "unat (take_bit 2 w) = unat w mod 4"
    unfolding unsigned_take_bit_eq by (simp add: take_bit_eq_mod)
  moreover have "w AND 3 = take_bit 2 w" by (simp add: take_bit_eq_mask mask_eq_exp_minus_1)
  moreover have "take_bit 2 w = of_nat (unat (take_bit 2 w))" by simp
  ultimately show ?thesis by (simp only:)
qed

lemma unat_small_add: "unat (base :: u32) + k < 2 ^ 32 \<Longrightarrow> unat (base + of_nat k) = unat base + k"
  by (simp add: unat_word_ariths unat_of_nat take_bit_eq_mod)

text \<open>The subframe number taken apart again: the type and the short length.\<close>

lemma subframe_number:
  assumes "ty \<le> 3" and "enc < 4" and "sid = base + of_nat (4 * ty + enc)" and "unat (base :: u32) mod 4 = 0"
    and "unat base < 2 ^ 31"
  shows "base \<le> sid" "sid < base + 16" "unat (sid - base) = 4 * ty + enc" "sid AND 0x03 = of_nat enc"
    "unat sid = unat base + (4 * ty + enc)"
proof -
  have k: "4 * ty + enc < 16" using assms(1,2) by linarith
  have u: "unat sid = unat base + (4 * ty + enc)"
    unfolding assms(3) using k assms(5) by (intro unat_small_add) simp
  have v: "unat (base + 16) = unat base + 16"
    using unat_small_add [of base 16] assms(5) by simp
  show "base \<le> sid" "sid < base + 16" using u v k by (simp_all add: word_le_nat_alt word_less_nat_alt)
  show "unat (sid - base) = 4 * ty + enc" using \<open>base \<le> sid\<close> u by (simp add: unat_sub)
  have "(unat base + (4 * ty + enc)) mod 4 = enc"
    using assms(2,4) by (metis add.commute mod_add_left_eq mod_less mod_mult_self2 add_0 mult.commute)
  then show "sid AND 0x03 = of_nat enc" by (simp only: and_3_word u)
  show "unat sid = unat base + (4 * ty + enc)" by (rule u)
qed

lemma ParseSubframe_reply:
  assumes "item_ok (Values ty enc reg vs)"
  shows "ParseSubframe list_read out (reply_bytes ty enc reg vs @ rest) = (True, out @ reply_pairs reg 0 vs, rest)"
proof -
  define sid where "sid = kReplyBase + of_nat (4 * ty + enc)"
  have enc: "enc < 4" "ty \<le> 3" using assms by auto
  have base: "unat kReplyBase mod 4 = 0" "unat kReplyBase < 2 ^ 31" by (simp_all add: kReplyBase_def)
  note num = subframe_number [OF enc(2,1) sid_def base]
  have n: "unat (of_nat (length vs) :: u32) = length vs"
    using assms by (simp add: unat_of_nat take_bit_nat_eq_self)
  have e: "unat (of_nat enc :: u32) = enc"
    using enc(1) by (simp add: unat_of_nat take_bit_nat_eq_self)
  then have e0: "(of_nat enc :: u32) = 0 \<longleftrightarrow> enc = 0" by (metis unat_eq_zero)
  have ty: "unat (sid - kReplyBase) div 4 = ty" using enc(1) unfolding num(3) by simp
  have r: "ReadVaruint list_read (reply_bytes ty enc reg vs @ rest) =
      (Some sid, (if enc = 0 then leb128 (length vs) else []) @ leb128 (unat reg) @ values_bytes vs @ rest)"
    unfolding reply_bytes_def subframe_head_def n append_assoc sid_def [symmetric]
    by (rule ReadVaruint_leb128)
  have vals: "ReadValues list_read ty reg 0 (length vs) out (values_bytes vs @ rest)
      = (True, out @ reply_pairs reg 0 vs, rest)"
    using assms by (intro ReadValues_bytes) simp
  show ?thesis
  proof (cases "enc = 0")
    case True
    with num(1,2) ReadVaruint_leb128 [of "of_nat (length vs)"] ReadVaruint_leb128 [of reg] vals show ?thesis
      unfolding ParseSubframe_def r by (simp add: Let_def num(4) ty n)
  next
    case False
    moreover have "enc = length vs" using False assms by simp
    ultimately show ?thesis
      using num(1,2) ReadVaruint_leb128 [of reg] vals e e0
      unfolding ParseSubframe_def r by (simp add: Let_def num(4) ty)
  qed
qed

lemma ParseSubframe_error:
  assumes "code = kWriteError \<or> code = kReadError"
  shows "ParseSubframe list_read out (error_bytes code reg err @ rest) = (True, out @ [(reg, RError err)], rest)"
  using assms by (auto simp: ParseSubframe_def error_bytes_def wire_simps subframe_codes)

lemma ParseSubframe_item:
  "item_ok it \<Longrightarrow> ParseSubframe list_read out (item_bytes it @ rest) = (True, out @ item_pairs it, rest)"
proof (cases it)
  case (Values ty enc reg vs)
  moreover assume "item_ok it"
  ultimately show ?thesis using ParseSubframe_reply [of ty enc reg vs] by simp
next
  case (Error code reg err)
  moreover assume "item_ok it"
  ultimately show ?thesis using ParseSubframe_error [of code] by simp
qed

section \<open>The parser always returns\<close>

lemma list_read_shrinks: "snd (list_read xs n) = drop n xs"
  by (simp add: list_read_def)

lemma ReadValue_list_le:
  "ReadValue list_read ty xs = (v, ys) \<Longrightarrow> length ys \<le> length xs \<and> (v \<noteq> None \<longrightarrow> length ys < length xs)"
  by (auto simp: ReadValue_def ReadScalar_list split: if_splits)

lemma ReadVaruint_list_le: "ReadVaruint list_read xs = (v, ys) \<Longrightarrow> length ys \<le> length xs"
  using ReadVaruint_list_shrinks [of xs v ys] by (cases "xs = []") (auto simp: ReadVaruint_list)

text \<open>Every register reported took a byte of the input.\<close>

lemma ReadValues_list_le:
  "ReadValues list_read ty reg i k out xs = (b, out', ys) \<Longrightarrow>
     length out \<le> length out' \<and> length out' + length ys \<le> length out + length xs"
proof (induction k arbitrary: i out xs)
  case (Suc k)
  obtain v zs where v: "ReadValue list_read ty xs = (v, zs)" by (cases "ReadValue list_read ty xs")
  note le = ReadValue_list_le [OF v]
  show ?case
  proof (cases v)
    case None
    then show ?thesis using Suc.prems v le by auto
  next
    case (Some w)
    then have "ReadValues list_read ty reg (i + 1) k (out @ [(reg + of_nat i, RValue w)]) zs = (b, out', ys)"
      using Suc.prems v by simp
    from Suc.IH [OF this] Some le show ?thesis by simp
  qed
qed simp

lemma ParseSubframe_list_le:
  assumes "ParseSubframe list_read out xs = (b, out', ys)"
  shows "length out \<le> length out' \<and> length out' + length ys \<le> length out + length xs
    \<and> (b \<longrightarrow> length ys < length xs)"
proof -
  obtain v zs where v: "ReadVaruint list_read xs = (v, zs)" by (cases "ReadVaruint list_read xs")
  show ?thesis
  proof (cases v)
    case None
    then show ?thesis using assms v ReadVaruint_list_le [OF v] by (simp add: ParseSubframe_def)
  next
    case (Some n)
    then have "xs \<noteq> []" using v by (auto simp: ReadVaruint_list)
    then have "length zs < length xs" using ReadVaruint_list_shrinks v by blast
    moreover have "length out \<le> length out' \<and> length out' + length ys \<le> Suc (length out + length zs)
      \<and> length ys \<le> length zs"
      using assms v Some
      by (auto simp: ParseSubframe_def Let_def split: if_splits option.splits prod.splits
          dest!: ReadVaruint_list_le ReadValues_list_le)
    ultimately show ?thesis by linarith
  qed
qed

context read_stream
begin

lemma ParseReply_loop_abs:
  "ok s \<Longrightarrow> \<exists>r t. ParseReply_loop rd out s = Some (r, t)
     \<and> ParseReply_loop list_read out (avail s) = Some (r, avail t)"
proof (induction "length (avail s)" arbitrary: s out rule: less_induct)
  case less
  obtain b out' t where p: "ParseSubframe rd out s = (b, out', t)" by (cases "ParseSubframe rd out s")
  with ParseSubframe_abs [OF less.prems, of out]
  have q: "ParseSubframe list_read out (avail s) = (b, out', avail t)" "ok t" by auto
  show ?case
  proof (cases b)
    case True
    with less.hyps [OF _ q(2)] ParseSubframe_list_le [OF q(1)] p q show ?thesis
      by (simp add: ParseReply_loop.simps [of rd out s] ParseReply_loop.simps [of list_read out "avail s"])
  next
    case False
    with p q show ?thesis
      by (simp add: ParseReply_loop.simps [of rd out s] ParseReply_loop.simps [of list_read out "avail s"])
  qed
qed

end

lemma ParseReply_loop_length:
  "ParseReply_loop list_read out xs = Some (r, ys) \<Longrightarrow> length r \<le> length out + length xs"
proof (induction "length xs" arbitrary: out xs rule: less_induct)
  case less
  obtain b out' zs where p: "ParseSubframe list_read out xs = (b, out', zs)"
    by (cases "ParseSubframe list_read out xs")
  note le = ParseSubframe_list_le [OF p]
  show ?case
  proof (cases b)
    case True
    then have "ParseReply_loop list_read out' zs = Some (r, ys)"
      using less.prems p by (simp add: ParseReply_loop.simps [of list_read out xs])
    with less.hyps [of zs out'] le True show ?thesis by simp
  next
    case False
    then have "r = take (length out) out'"
      using less.prems p by (simp add: ParseReply_loop.simps [of list_read out xs])
    then show ?thesis by simp
  qed
qed

lemma ParseReply_loop_items:
  "\<forall>it \<in> set its. item_ok it \<Longrightarrow>
     ParseReply_loop list_read out (concat (map item_bytes its)) = Some (out @ concat (map item_pairs its), [])"
proof (induction its arbitrary: out)
  case Nil
  show ?case
    by (subst ParseReply_loop.simps) (simp add: ParseSubframe_def ReadVaruint_list)
next
  case (Cons it its)
  then show ?case
    by (subst ParseReply_loop.simps) (simp add: ParseSubframe_item)
qed

lemma ParseRegisterReply_items:
  assumes "\<forall>it \<in> set its. item_ok it"
  shows "map_option fst (ParseRegisterReply_vector fis_read (fis_init (concat (map item_bytes its))))
    = Some (concat (map item_pairs its))"
proof -
  let ?s = "fis_init (concat (map item_bytes its))"
  obtain r t where "ParseReply_loop fis_read [] ?s = Some (r, t)"
      "ParseReply_loop list_read [] (fis_avail ?s) = Some (r, fis_avail t)"
    using fis.ParseReply_loop_abs [of ?s "[]"] by (auto simp: fis_init_def)
  with ParseReply_loop_items [OF assms, of "[]"] show ?thesis
    by (simp add: ParseRegisterReply_vector_def)
qed

section \<open>Properties\<close>

text \<open>
  C13. Parsing a reply gives back what was put into it: for any sequence of
  reply and error subframes, in any of their encodings, \<open>ParseRegisterReply\<close> on a
  \<open>FastIStringStream\<close> returns exactly the registers they name, in order, with their values or
  errors.
\<close>

theorem register_reply_roundtrip:
  assumes "\<forall>it \<in> set its. item_ok it"
  shows "map_option fst (ParseRegisterReply_vector fis_read (fis_init (concat (map item_bytes its))))
    = Some (concat (map item_pairs its))"
  using assms by (rule ParseRegisterReply_items)

theorem register_reply_roundtrip_witness:
  "map_option fst (ParseRegisterReply_vector fis_read (fis_init
       (concat (map item_bytes [Values 1 2 5 [VInt16 7, VInt16 8], Error kReadError 9 3]))))
     = Some [(5, RValue (VInt16 7)), (6, RValue (VInt16 8)), (9, RError 3)]"
  by (subst register_reply_roundtrip) (simp_all add: value_index_def)

text \<open>
  C14. On every input, well formed or not, the parser's loop ends, and it never
  reports a register for which the input holds no byte.
\<close>

theorem register_parse_total:
  "\<exists>r t. ParseRegisterReply_vector fis_read (fis_init xs) = Some (r, t) \<and> length r \<le> length xs"
proof -
  obtain r t where rt: "ParseReply_loop fis_read [] (fis_init xs) = Some (r, t)"
      "ParseReply_loop list_read [] xs = Some (r, fis_avail t)"
    using fis.ParseReply_loop_abs [of "fis_init xs" "[]"] by (auto simp: fis_init_def fis_avail_def)
  from rt(1) ParseReply_loop_length [OF rt(2)] show ?thesis
    by (simp add: ParseRegisterReply_vector_def)
qed

end
