(* ===== verification/Stream_Datagram.thy ===== *)
theory Stream_Datagram
  imports Multiplex_Frame
begin

text \<open>
  \<open>MicroStreamDatagram::Impl\<close> (\<open>multiplex/micro_stream_datagram.cc\<close>): the firmware's end of
  the frame protocol, over a byte stream and two fixed buffers. \<open>read_buffer_\<close> is the list of
  its first \<open>read_start_\<close> bytes, all that is ever looked at. A callback of the caller is the
  last thing each operation does, so it is given back as an event, with what the caller finds
  in the header and the buffer it supplied.
\<close>

section \<open>Definitions\<close>

datatype dg_error = dg_ok | kPayloadTruncated | dg_stream_error

record dg_header =
  hd_source :: int
  hd_destination :: int
  hd_size :: int

datatype dg_event =
    dg_StartRead nat
  | dg_ReadDone dg_error "dg_header option" "byte list"
  | dg_StartWrite "byte list"
  | dg_WriteDone dg_error nat

text \<open>
  \<open>dg_read\<close> is the size of the caller's buffer while a read is pending, \<open>dg_write\<close> the size of
  the datagram while a write is.
\<close>

record datagram =
  dg_size :: nat
  dg_buf :: "byte list"
  dg_wbuf :: "byte list"
  dg_read :: "nat option"
  dg_write :: "nat option"
  checksum_mismatch :: u32

definition dg_init :: "nat \<Rightarrow> byte list \<Rightarrow> datagram" where
  "dg_init sz mem = \<lparr>dg_size = sz, dg_buf = [], dg_wbuf = mem, dg_read = None, dg_write = None,
                     checksum_mismatch = 0\<rparr>"

subsection \<open>Reading\<close>

definition dg_Consume :: "datagram \<Rightarrow> nat \<Rightarrow> datagram res" where
  "dg_Consume s n =
     (if n = 0 then Inr s
      else sbind (mj_assert (n \<le> length (dg_buf s))) (\<lambda>_. Inr (s\<lparr>dg_buf := drop n (dg_buf s)\<rparr>)))"

definition dg_InvokeReadCallback ::
  "datagram \<Rightarrow> dg_error \<Rightarrow> dg_header option \<Rightarrow> byte list \<Rightarrow> (datagram \<times> dg_event list) res" where
  "dg_InvokeReadCallback s ec h d =
     (case dg_read s of
        None \<Rightarrow> Inl NullDeref
      | Some _ \<Rightarrow> Inr (s\<lparr>dg_read := None\<rparr>, [dg_ReadDone ec h d]))"

text \<open>
  The part of \<open>TryEmitOneFrame\<close> after the size has been read: \<open>data\<close> is the stream over
  \<open>&read_buffer_[2]\<close>, standing behind the size.
\<close>

definition dg_emit ::
  "(byte list \<Rightarrow> u16) \<Rightarrow> datagram \<Rightarrow> byte option \<Rightarrow> byte option \<Rightarrow> u32 \<Rightarrow> brs \<Rightarrow>
     (datagram \<times> bool \<times> dg_event list) res" where
  "dg_emit crc s maybe_source_id maybe_dest_id payload_size data =
     (if brs_remaining data < int (unat (payload_size + 2)) then Inr (s, False, [])
      else
        let crc_location = 2 + br_off data + unat payload_size;
            payload_start = 2 + br_off data;
            expected_crc = crc (take crc_location (dg_buf s));
            data = brs_ignore data (unat payload_size)
        in case (brs_ReadScalar 2 data :: u16 option \<times> brs) of
             (None, _) \<Rightarrow> Inl AssertFailed
           | (Some actual_crc, _) \<Rightarrow>
        if expected_crc \<noteq> actual_crc
        then sbind (dg_Consume (s\<lparr>checksum_mismatch := checksum_mismatch s + 1\<rparr>) 2) (\<lambda>s.
             Inr (s, False, []))
        else case (dg_read s, maybe_source_id, maybe_dest_id) of
               (Some cap, Some src, Some dest) \<Rightarrow>
                 let size_to_write = min (unat payload_size) cap;
                     d = take size_to_write (drop payload_start (dg_buf s));
                     h = \<lparr>hd_source = uint src, hd_destination = uint dest,
                          hd_size = uint payload_size\<rparr>
                 in sbind (dg_Consume s (crc_location + 2)) (\<lambda>s.
                    sbind (dg_InvokeReadCallback s
                        (if unat payload_size > size_to_write then kPayloadTruncated else dg_ok)
                        (Some h) d) (\<lambda>(s, e). Inr (s, True, e)))
             | (None, _, _) \<Rightarrow> Inl NullDeref
             | _ \<Rightarrow> Inl BadOptional)"

text \<open>The part after \<open>Consume(found - read_buffer_)\<close>: the buffer starts with the header's low byte.\<close>

definition dg_parse ::
  "(byte list \<Rightarrow> u16) \<Rightarrow> datagram \<Rightarrow> (datagram \<times> bool \<times> dg_event list) res" where
  "dg_parse crc s =
     (if length (dg_buf s) < 2 then Inr (s, False, []) else
      if dg_buf s ! 1 \<noteq> ucast (drop_bit 8 kHeader AND 0xff)
      then sbind (dg_Consume s 2) (\<lambda>s. Inr (s, True, [])) else
      if length (dg_buf s) < 4 + 2 + 1 then Inr (s, False, []) else
      case brs_ReadScalar 1 (brs_init (drop 2 (dg_buf s))) of (maybe_source_id, data) \<Rightarrow>
      case brs_ReadScalar 1 data of (maybe_dest_id, data) \<Rightarrow>
      case brs_ReadVaruint data of
        (None, data) \<Rightarrow> Inr (s, False, [])
      | (Some payload_size, data) \<Rightarrow>
      if payload_size > 4096 then Inr (s\<lparr>dg_buf := []\<rparr>, False, []) else
      if ucast payload_size > (of_nat (dg_size s) - 7 :: u64) then Inr (s\<lparr>dg_buf := []\<rparr>, False, []) else
      dg_emit crc s maybe_source_id maybe_dest_id payload_size data)"

definition TryEmitOneFrame ::
  "(byte list \<Rightarrow> u16) \<Rightarrow> datagram \<Rightarrow> (datagram \<times> bool \<times> dg_event list) res" where
  "TryEmitOneFrame crc s =
     (let found = length (takeWhile (\<lambda>c. c \<noteq> ucast (kHeader AND 0xff)) (dg_buf s))
      in if found = length (dg_buf s) then Inr (s\<lparr>dg_buf := []\<rparr>, False, [])
         else sbind (dg_Consume s found) (dg_parse crc))"

definition dg_StartReadFrame :: "datagram \<Rightarrow> dg_event" where
  "dg_StartReadFrame s = dg_StartRead (dg_size s - length (dg_buf s))"

definition dg_AsyncRead ::
  "(byte list \<Rightarrow> u16) \<Rightarrow> datagram \<Rightarrow> nat \<Rightarrow> (datagram \<times> dg_event list) res" where
  "dg_AsyncRead crc s cap =
     sbind (mj_assert (dg_read s = None)) (\<lambda>_.
     sbind (TryEmitOneFrame crc (s\<lparr>dg_read := Some cap\<rparr>)) (\<lambda>(s, emitted, e).
     if emitted then Inr (s, e) else Inr (s, e @ [dg_StartReadFrame s])))"

text \<open>The completion of the read of the stream: an error, or the bytes it placed.\<close>

definition dg_HandleReadFrame ::
  "(byte list \<Rightarrow> u16) \<Rightarrow> datagram \<Rightarrow> bool \<Rightarrow> byte list \<Rightarrow> (datagram \<times> dg_event list) res" where
  "dg_HandleReadFrame crc s failed d =
     (if failed then dg_InvokeReadCallback (s\<lparr>dg_buf := []\<rparr>) dg_stream_error None []
      else sbind (TryEmitOneFrame crc (s\<lparr>dg_buf := dg_buf s @ d\<rparr>)) (\<lambda>(s, emitted, e).
           if emitted then Inr (s, e) else Inr (s, e @ [dg_StartReadFrame s])))"

subsection \<open>Writing\<close>

definition dg_AsyncWrite ::
  "(byte list \<Rightarrow> u16) \<Rightarrow> datagram \<Rightarrow> dg_header \<Rightarrow> byte list \<Rightarrow> (datagram \<times> dg_event list) res" where
  "dg_AsyncWrite crc s h d =
     sbind (mj_assert (dg_write s = None)) (\<lambda>_.
     let header_size = 2 + 1 + 1 + GetVaruintSize (of_nat (length d))
     in sbind (mj_assert (header_size + 2 + length d < dg_size s)) (\<lambda>_.
        let buf = overwrite (dg_wbuf s) header_size d
        in sbind (bws_WriteScalar 2 (bws_init (take header_size buf)) kHeader) (\<lambda>w.
           sbind (bws_WriteScalar 1 w (word_of_int (hd_source h) :: byte)) (\<lambda>w.
           sbind (bws_WriteScalar 1 w (word_of_int (hd_destination h) :: byte)) (\<lambda>w.
           sbind (bws_WriteVaruint w (of_nat (length d))) (\<lambda>w.
           let buf = overwrite buf 0 (bw_mem w);
               crc_location = header_size + length d;
               actual_crc = crc (take crc_location buf)
           in sbind (bws_WriteScalar 2 (bws_init (take 2 (drop crc_location buf))) actual_crc) (\<lambda>c.
              let buf = overwrite buf crc_location (bw_mem c)
              in Inr (s\<lparr>dg_wbuf := buf, dg_write := Some (length d)\<rparr>,
                      [dg_StartWrite (take (crc_location + 2) buf)]))))))))"

definition dg_HandleWrite :: "datagram \<Rightarrow> bool \<Rightarrow> (datagram \<times> dg_event list) res" where
  "dg_HandleWrite s failed =
     (case dg_write s of
        None \<Rightarrow> Inl NullDeref
      | Some n \<Rightarrow> Inr (s\<lparr>dg_write := None\<rparr>, [dg_WriteDone (if failed then dg_stream_error else dg_ok) n]))"

subsection \<open>A reference for the reader\<close>

text \<open>
  What \<open>TryEmitOneFrame\<close> makes of the bytes it has, without streams, offsets or state: the
  bytes to keep, and the verdict.
\<close>

datatype scan = Wait | FalseHeader | Mismatch | Deliver byte byte "byte list"

definition dg_scan :: "(byte list \<Rightarrow> u16) \<Rightarrow> nat \<Rightarrow> byte list \<Rightarrow> byte list \<times> scan" where
  "dg_scan crc size_limit buf =
     (case dropWhile (\<lambda>c. c \<noteq> 0x54) buf of
        c0 # c1 # bs \<Rightarrow>
          if c1 \<noteq> 0xab then (bs, FalseHeader)
          else (case bs of
            src # dest # ms \<Rightarrow>
              if length ms < 3 then (c0 # c1 # bs, Wait)
              else (case ReadVaruint list_read ms of
                (None, r) \<Rightarrow> (c0 # c1 # bs, Wait)
              | (Some n, r) \<Rightarrow>
                  if n > 4096 \<or> unat n > size_limit then ([], Wait)
                  else if length r < unat n + 2 then (c0 # c1 # bs, Wait)
                  else if crc (take (4 + (length ms - length r) + unat n) (c0 # c1 # bs))
                            \<noteq> le_word (take 2 (drop (unat n) r))
                  then (bs, Mismatch)
                  else (drop (unat n + 2) r, Deliver src dest (take (unat n) r)))
          | _ \<Rightarrow> (c0 # c1 # bs, Wait))
      | b \<Rightarrow> (b, Wait))"

section \<open>Writing a datagram writes a frame\<close>

lemma bws_poke_init:
  "length d \<le> length mem \<Longrightarrow>
     bws_poke (bws_init mem) d = Inr \<lparr>bw_mem = d @ drop (length d) mem, bw_off = length d\<rparr>"
  by (simp add: bws_poke_def bws_init_def overwrite_def)

lemma dg_AsyncWrite_frame:
  assumes "dg_write s = None" and "length (dg_wbuf s) = dg_size s"
    and "length d < 2 ^ 32"
    and "6 + length (leb128 (length d)) + length d < dg_size s"
    and "src = word_of_int (hd_source h)" and "dest = word_of_int (hd_destination h)"
  shows "\<exists>wbuf. dg_AsyncWrite crc s h d =
      Inr (s\<lparr>dg_wbuf := wbuf, dg_write := Some (length d)\<rparr>, [dg_StartWrite (frame_bytes crc src dest d)])
    \<and> length wbuf = dg_size s"
proof -
  define hs where "hs = 4 + length (leb128 (length d))"
  define hdr where "hdr = [0x54, 0xab, src, dest] @ leb128 (length d)"
  define buf where "buf = overwrite (dg_wbuf s) hs d"
  define buf' where "buf' = hdr @ drop hs buf"
  have n: "unat (of_nat (length d) :: u32) = length d"
    using assms(3) by (simp add: unat_of_nat take_bit_nat_eq_self)
  have len: "length hdr = hs" "length buf = dg_size s" "length buf' = dg_size s" "hs + length d + 2 < dg_size s"
    using assms by (simp_all add: hdr_def hs_def buf_def buf'_def overwrite_def)
  have hw: "bws_poke (bws_init (take hs buf)) hdr = Inr \<lparr>bw_mem = hdr, bw_off = hs\<rparr>"
    using len by (simp add: bws_poke_init)
  have body: "take (hs + length d) buf' = frame_body src dest d"
  proof -
    have "buf' = frame_body src dest d @ drop (hs + length d) (dg_wbuf s)"
      using len by (simp add: buf'_def buf_def overwrite_def hdr_def frame_body_def)
    moreover have "length (frame_body src dest d) = hs + length d"
      by (simp add: frame_body_def hs_def)
    ultimately show ?thesis by simp
  qed
  have cw: "bws_poke (bws_init (take 2 (drop (hs + length d) buf'))) (le_bytes 2 c)
      = Inr \<lparr>bw_mem = le_bytes 2 c, bw_off = 2\<rparr>" for c :: u16
    using len by (simp add: bws_poke_init)
  let ?c = "crc (frame_body src dest d)"
  have "take (hs + length d + 2) (overwrite buf' (hs + length d) (le_bytes 2 ?c))
      = frame_bytes crc src dest d"
    using len body take_overwrite [of "hs + length d" buf' "le_bytes 2 ?c"]
    by (simp add: frame_bytes_def Let_def)
  moreover have "overwrite buf 0 hdr = buf'"
    using len(1) by (simp add: overwrite_def buf'_def)
  moreover have "dg_AsyncWrite crc s h d =
      Inr (s\<lparr>dg_wbuf := overwrite buf' (hs + length d) (le_bytes 2 ?c), dg_write := Some (length d)\<rparr>,
           [dg_StartWrite (take (hs + length d + 2) (overwrite buf' (hs + length d) (le_bytes 2 ?c)))])"
  proof -
    have pokes: "sbind (bws_poke w [0x54, 0xab]) (\<lambda>w. sbind (bws_poke w [src]) (\<lambda>w.
        sbind (bws_poke w [dest]) (\<lambda>w. sbind (bws_poke w (leb128 (length d))) f)))
      = sbind (bws_poke w hdr) f" for w and f :: "bws \<Rightarrow> (datagram \<times> dg_event list) res"
      by (simp add: bws_raw.wr_seq_more hdr_def)
    show ?thesis
      using assms(1,4) len body \<open>overwrite buf 0 hdr = buf'\<close>
      by (simp add: dg_AsyncWrite_def GetVaruintSize_length n bws_WriteScalar_poke
          bws_WriteVaruint_poke pokes Let_def hw cw flip: hs_def buf_def assms(5,6))
  qed
  ultimately show ?thesis using len by auto
qed

section \<open>The reader computes the reference\<close>

lemma dg_Consume_prefix: "n \<le> length (dg_buf s) \<Longrightarrow> dg_Consume s n = Inr (s\<lparr>dg_buf := drop n (dg_buf s)\<rparr>)"
  by (simp add: dg_Consume_def)

lemma brs_byte:
  "brs_ok s \<Longrightarrow> brs_avail s = b # bs \<Longrightarrow>
     \<exists>t. (brs_ReadScalar (Suc 0) s :: byte option \<times> brs) = (Some b, t) \<and> brs_ok t \<and> brs_avail t = bs
        \<and> br_buf t = br_buf s"
  using brs_fast_ignore_avail [of s "Suc 0"] 
  by (auto simp: brs_ReadScalar_def brs_remaining_avail) (auto simp: brs_avail_def)

lemma brs_scalar_at:
  assumes "brs_ok s" and "brs_avail s = d @ c @ rest"
  shows "\<exists>t. brs_ReadScalar (length c) (brs_ignore s (length d)) = (Some (le_word c), t)"
proof -
  let ?t = "brs_ignore s (length d)"
  have "brs_ok ?t" "brs_avail ?t = c @ rest"
    using assms brs.ign_ok brs.ign_avail by simp_all
  then show ?thesis
    by (simp add: brs_ReadScalar_def brs_remaining_avail) (simp add: brs_avail_def)
qed

lemma dg_emit_scan:
  fixes s :: datagram
  assumes "dg_buf s = b" and "b = 0x54 # 0xab # src # dest # ms" and "dg_read s = Some cap"
    and "brs_ok data" and "brs_avail data = r" and "br_off data + length r = 2 + length ms"
    and "br_buf data = src # dest # ms" and "length r \<le> length ms"
    and "unat n \<le> 4096"
  shows "dg_emit crc s (Some src) (Some dest) n data =
    (if length r < unat n + 2 then Inr (s, False, [])
     else if crc (take (4 + (length ms - length r) + unat n) b) \<noteq> le_word (take 2 (drop (unat n) r))
     then Inr (s\<lparr>dg_buf := drop 2 b, checksum_mismatch := checksum_mismatch s + 1\<rparr>, False, [])
     else Inr (s\<lparr>dg_buf := drop (unat n + 2) r, dg_read := None\<rparr>, True,
            [dg_ReadDone (if unat n > cap then kPayloadTruncated else dg_ok)
               (Some \<lparr>hd_source = uint src, hd_destination = uint dest, hd_size = uint n\<rparr>)
               (take cap (take (unat n) r))]))"
proof -
  have n2: "unat (n + 2) = unat n + 2"
    using assms(9) by (simp add: unat_word_ariths)
  have cmp: "brs_remaining data < int (unat (n + 2)) \<longleftrightarrow> length r < unat n + 2"
    using assms(4,5) by (simp only: brs_remaining_avail n2 of_nat_less_iff)
  show ?thesis
  proof (cases "length r < unat n + 2")
    case True
    then show ?thesis unfolding dg_emit_def cmp by simp
  next
    case False
    define d where "d = take (unat n) r"
    define c where "c = take 2 (drop (unat n) r)"
    define rest where "rest = drop (unat n + 2) r"
    have r: "r = d @ c @ rest"
      unfolding d_def c_def rest_def by (simp only: append_take_drop_id add.commute [of "unat n"]
          flip: drop_drop)
    have len: "length d = unat n" "length c = 2"
      using False by (simp_all add: d_def c_def)
    obtain t where t: "(brs_ReadScalar 2 (brs_ignore data (unat n)) :: u16 option \<times> _) = (Some (le_word c), t)"
      using brs_scalar_at [OF assms(4), of d c rest, where 'a = 16] assms(5) r len by auto
    have off: "4 + (length ms - length r) = 2 + br_off data" "br_off data + length r = 2 + length ms"
      using assms(6,8) by simp_all
    have at: "drop (2 + br_off data) b = r"
      using assms(2,5,7) by (simp add: brs_avail_def)
    have loc: "2 + br_off data + unat n + 2 \<le> length b"
      using off False assms(2) by simp
    have at2: "drop (2 + br_off data + unat n + 2) b = rest"
      using at unfolding rest_def by (metis add.assoc add.commute drop_drop)
    show ?thesis
      using False t at at2 [unfolded rest_def] loc assms(1,2,3) unfolding dg_emit_def cmp off
      by (simp add: Let_def dg_Consume_prefix dg_InvokeReadCallback_def min.commute
          flip: c_def)
  qed
qed

text \<open>How the verdict of the reference acts on the object.\<close>

definition dg_act ::
  "datagram \<Rightarrow> nat \<Rightarrow> byte list \<times> scan \<Rightarrow> datagram \<times> bool \<times> dg_event list" where
  "dg_act s cap v =
    (case v of
       (b, Wait) \<Rightarrow> (s\<lparr>dg_buf := b\<rparr>, False, [])
     | (b, FalseHeader) \<Rightarrow> (s\<lparr>dg_buf := b\<rparr>, True, [])
     | (b, Mismatch) \<Rightarrow> (s\<lparr>dg_buf := b, checksum_mismatch := checksum_mismatch s + 1\<rparr>, False, [])
     | (b, Deliver src dest p) \<Rightarrow>
         (s\<lparr>dg_buf := b, dg_read := None\<rparr>, True,
           [dg_ReadDone (if length p > cap then kPayloadTruncated else dg_ok)
              (Some \<lparr>hd_source = uint src, hd_destination = uint dest, hd_size = int (length p)\<rparr>)
              (take cap p)]))"

lemma dg_limit:
  assumes "7 \<le> dg_size s" and "dg_size s < 2 ^ 64"
  shows "(ucast (n :: u32) > (of_nat (dg_size s) - 7 :: u64)) \<longleftrightarrow> unat n > dg_size s - 7"
proof -
  have "unat (of_nat (dg_size s) - 7 :: u64) = dg_size s - 7"
    using assms by (simp add: unat_sub word_le_nat_alt unat_of_nat take_bit_nat_eq_self)
  moreover have "unat (ucast n :: u64) = unat n"
  proof -
    have "unat n < 2 ^ 32" using unsigned_less [of n] by simp
    then show ?thesis by (simp add: unsigned_ucast_eq take_bit_nat_eq_self)
  qed
  ultimately show ?thesis by (simp add: word_less_nat_alt)
qed

lemma dg_parse_scan:
  fixes s :: datagram
  assumes read: "dg_read s = Some cap" and sz: "7 \<le> dg_size s" "dg_size s < 2 ^ 64"
    and b: "dg_buf s = 0x54 # bs"
  shows "dg_parse crc s = Inr (dg_act s cap (dg_scan crc (dg_size s - 7) (dg_buf s)))"
proof -
  have hi: "ucast (drop_bit 8 kHeader AND 0xff) = (0xab :: byte)" by code_simp
  have same: "s\<lparr>dg_buf := 0x54 # bs\<rparr> = s" using b by (cases s) simp
  consider "bs = []" | c1 cs where "bs = c1 # cs" "c1 \<noteq> 0xab"
    | cs where "bs = 0xab # cs" "length cs < 5"
    | src dest ms where "bs = 0xab # src # dest # ms" "3 \<le> length ms"
    by (cases bs; cases "tl bs"; cases "tl (tl bs)") (auto, meson not_le)
  then show ?thesis
  proof cases
    case 1
    then show ?thesis using b same by (simp add: dg_parse_def dg_scan_def dg_act_def)
  next
    case (2 c1 cs)
    then show ?thesis using b hi by (simp add: dg_parse_def dg_scan_def dg_act_def dg_Consume_prefix)
  next
    case (3 cs)
    then show ?thesis
      using b same hi by (auto simp: dg_parse_def dg_scan_def dg_act_def split: list.splits)
  next
    case (4 src dest ms)
    obtain t where t: "(brs_ReadScalar (Suc 0) (brs_init (src # dest # ms)) :: byte option \<times> _) = (Some src, t)"
        "brs_ok t" "brs_avail t = dest # ms" "br_buf t = src # dest # ms"
      using brs_byte [of "brs_init (src # dest # ms)" src "dest # ms"] by auto
    obtain u where u: "(brs_ReadScalar (Suc 0) t :: byte option \<times> _) = (Some dest, u)"
        "brs_ok u" "brs_avail u = ms" "br_buf u = src # dest # ms"
      using brs_byte [OF t(2,3)] t(4) by auto
    obtain v r where vr: "ReadVaruint list_read ms = (v, r)" by (cases "ReadVaruint list_read ms")
    obtain w where w: "brs_ReadVaruint u = (v, w)" "br_buf w = src # dest # ms" "brs_avail w = r"
        "br_off w + length r = 2 + length ms"
      using brs_ReadVaruint_at [OF u(2), of v r] u(3,4) vr by auto
    have le: "length r \<le> length ms" using ReadVaruint_list_shrinks [OF vr] 4(2) by fastforce
    have start: "dg_parse crc s = (case v of
        None \<Rightarrow> Inr (s, False, [])
      | Some n \<Rightarrow>
          if n > 4096 then Inr (s\<lparr>dg_buf := []\<rparr>, False, []) else
          if unat n > dg_size s - 7 then Inr (s\<lparr>dg_buf := []\<rparr>, False, []) else
          dg_emit crc s (Some src) (Some dest) n w)"
      using b 4 t u w hi dg_limit [OF sz] by (simp add: dg_parse_def split: option.splits)
    show ?thesis
    proof (cases v)
      case None
      then show ?thesis using start b 4 vr same by (simp add: dg_scan_def dg_act_def)
    next
      case (Some n)
      show ?thesis
      proof (cases "n > 4096 \<or> unat n > dg_size s - 7")
        case True
        then show ?thesis using start Some b 4 vr by (auto simp: dg_scan_def dg_act_def)
      next
        case False
        then have "unat n \<le> 4096" by (simp add: word_less_nat_alt not_less)
        from dg_emit_scan [OF b [unfolded 4] refl read _ w(3,4,2) le this, of crc] w(1)
          brs_ReadVaruint_abs [OF u(2)]
        show ?thesis
          using start Some False b 4 vr same by (auto simp: dg_scan_def dg_act_def)
      qed
    qed
  qed
qed

lemma TryEmitOneFrame_scan:
  assumes "dg_read s = Some cap" and "7 \<le> dg_size s" and "dg_size s < 2 ^ 64"
  shows "TryEmitOneFrame crc s = Inr (dg_act s cap (dg_scan crc (dg_size s - 7) (dg_buf s)))"
proof -
  define b where "b = dropWhile (\<lambda>c. c \<noteq> 0x54) (dg_buf s)"
  have lo: "ucast (kHeader AND 0xff) = (0x54 :: byte)" by code_simp
  let ?found = "length (takeWhile (\<lambda>c. c \<noteq> 0x54) (dg_buf s))"
  have dropb: "drop ?found (dg_buf s) = b" by (simp add: b_def dropWhile_eq_drop)
  have le: "?found \<le> length (dg_buf s)" by (rule length_takeWhile_le)
  have scan: "dg_scan crc k b = dg_scan crc k (dg_buf s)" for k
    by (simp add: dg_scan_def b_def dropWhile_idem)
  show ?thesis
  proof (cases b)
    case Nil
    then have "?found = length (dg_buf s)" using dropb le by (metis antisym drop_eq_Nil)
    then show ?thesis
      using Nil by (simp add: TryEmitOneFrame_def Let_def lo dg_scan_def dg_act_def flip: b_def)
  next
    case (Cons c0 bs)
    then have "dg_buf (s\<lparr>dg_buf := b\<rparr>) = 0x54 # bs"
      using hd_dropWhile [of "\<lambda>c. c \<noteq> 0x54" "dg_buf s"] by (simp add: b_def)
    from dg_parse_scan [OF _ _ _ this, of cap crc] assms
    have "dg_parse crc (s\<lparr>dg_buf := b\<rparr>) = Inr (dg_act s cap (dg_scan crc (dg_size s - 7) (dg_buf s)))"
      by (simp add: scan dg_act_def split: prod.splits scan.splits)
    moreover have "?found \<noteq> length (dg_buf s)" using dropb Cons by auto
    ultimately show ?thesis
      using le dropb by (simp add: TryEmitOneFrame_def Let_def lo dg_Consume_prefix)
  qed
qed

section \<open>Frames in the buffer\<close>

lemma dg_scan_frame:
  assumes "0x54 \<notin> set junk" and "length p \<le> lim" and "length p \<le> 4096"
  shows "dg_scan crc lim (junk @ frame_bytes crc src dest p @ rest) = (rest, Deliver src dest p)"
proof -
  let ?c = "le_bytes 2 (crc (frame_body src dest p))"
  let ?ms = "leb128 (length p) @ p @ ?c @ rest"
  have dw: "dropWhile (\<lambda>c. c \<noteq> 0x54) (junk @ frame_bytes crc src dest p @ rest)
      = 0x54 # 0xab # src # dest # ?ms"
    using assms(1) by (subst dropWhile_append2) (auto simp: frame_bytes_Cons)
  have n: "unat (of_nat (length p) :: u32) = length p"
    using assms(3) by (simp add: unat_of_nat_u32)
  have v: "ReadVaruint list_read ?ms = (Some (of_nat (length p)), p @ ?c @ rest)"
    using assms(3) by (intro ReadVaruint_frame_size) simp
  have small: "\<not> (of_nat (length p) :: u32) > 4096"
    using assms(3) n by (simp add: word_less_nat_alt)
  have "0x54 # 0xab # src # dest # ?ms = frame_body src dest p @ ?c @ rest"
      "4 + (length ?ms - length (p @ ?c @ rest)) + length p = length (frame_body src dest p)"
    by (simp_all add: frame_body_def)
  then have "take (4 + (length ?ms - length (p @ ?c @ rest)) + length p) (0x54 # 0xab # src # dest # ?ms)
      = frame_body src dest p"
    by (metis append_eq_conv_conj)
  moreover have "\<not> length ?ms < 3" "take 2 (?c @ rest) = ?c" "take (length p) (p @ ?c @ rest) = p"
      "\<not> length (p @ ?c @ rest) < Suc (Suc (length p))"
    by simp_all
  ultimately show ?thesis
    using assms(2) small n by (simp add: dg_scan_def dw v del: take_append length_append)
qed

lemma dg_scan_prefix:
  assumes "0x54 \<notin> set junk" and "length p \<le> lim" and "length p \<le> 4096"
    and "j < length (junk @ frame_bytes crc src dest p)"
    and "x = take j (junk @ frame_bytes crc src dest p)"
  shows "dg_scan crc lim x = (dropWhile (\<lambda>c. c \<noteq> 0x54) x, Wait)"
proof -
  let ?w = "frame_bytes crc src dest p" and ?k = "j - length junk"
  let ?c = "le_bytes 2 (crc (frame_body src dest p))"
  have b: "dropWhile (\<lambda>c. c \<noteq> 0x54) x = take ?k ?w" "?k < length ?w"
    using dropWhile_frame_prefix [OF assms(1,4,5)] by simp_all
  show ?thesis
  proof (cases "?k < 4")
    case True
    then show ?thesis
      using b(1) by (auto simp: dg_scan_def frame_bytes_Cons take_Cons' split: list.splits)
  next
    case False
    define ms where "ms = take (?k - 4) (leb128 (length p) @ p @ ?c)"
    have w: "take ?k ?w = 0x54 # 0xab # src # dest # ms"
      using False by (simp add: frame_bytes_Cons ms_def take_Cons' numeral_eq_Suc)
    have n: "unat (of_nat (length p) :: u32) = length p" "\<not> (of_nat (length p) :: u32) > 4096"
      using assms(3) unat_of_nat_u32 [of "length p"] by (simp_all add: word_less_nat_alt)
    have "?k - 4 < length (leb128 (length p) @ p @ ?c)"
      using b(2) False by (simp add: length_frame_bytes)
    from ReadVaruint_frame_prefix [OF this] assms(2,3) n b(1) w show ?thesis
      by (auto simp: dg_scan_def ms_def split: prod.splits option.splits)
  qed
qed

text \<open>The converse: what is delivered was in the buffer, with its checksum.\<close>

lemma dg_scan_Deliver:
  assumes "dg_scan crc lim buf = (rest, Deliver src dest p)"
  shows "\<exists>skipped vs body. buf = skipped @ body @ le_bytes 2 (crc body) @ rest
    \<and> body = [0x54, 0xab, src, dest] @ vs @ p
    \<and> ReadVaruint list_read (vs @ p) = (Some (of_nat (length p)), p) \<and> length p \<le> lim \<and> length p \<le> 4096"
proof -
  from assms obtain c0 ms n r where b: "dropWhile (\<lambda>c. c \<noteq> 0x54) buf = c0 # 0xab # src # dest # ms"
    and v: "ReadVaruint list_read ms = (Some n, r)" and lim: "\<not> n > 4096" "unat n \<le> lim"
    and len: "unat n + 2 \<le> length r"
    and crc: "crc (take (4 + (length ms - length r) + unat n) (c0 # 0xab # src # dest # ms))
        = le_word (take 2 (drop (unat n) r))"
    and out: "rest = drop (unat n + 2) r" "p = take (unat n) r"
    by (auto simp: dg_scan_def not_less split: list.splits prod.splits option.splits if_splits)
  have c0: "c0 = 0x54"
    using hd_dropWhile [of "\<lambda>c. c \<noteq> 0x54" buf] b by simp
  obtain sk where sk: "buf = sk @ c0 # 0xab # src # dest # ms"
    using takeWhile_dropWhile_id [of "\<lambda>c. c \<noteq> 0x54" buf] b by metis
  obtain vs where vs: "ms = vs @ r" "\<forall>ys. ReadVaruint list_read (vs @ ys) = (Some n, ys)"
    using ReadVaruint_split [OF v] by blast
  define c where "c = take 2 (drop (unat n) r)"
  have r: "r = p @ c @ rest"
    unfolding out c_def by (simp only: append_take_drop_id add.commute [of "unat n"] flip: drop_drop)
  have lp: "length p = unat n" "length c = 2" using len out c_def by simp_all
  let ?body = "[0x54, 0xab, src, dest] @ vs @ p"
  have "c0 # 0xab # src # dest # ms = ?body @ c @ rest"
      "4 + (length ms - length r) + unat n = length ?body"
    using c0 vs(1) r lp by simp_all
  then have "take (4 + (length ms - length r) + unat n) (c0 # 0xab # src # dest # ms) = ?body"
    by (metis append_eq_conv_conj)
  then have "c = le_bytes 2 (crc ?body)"
    using crc le_bytes_le_word [of c, where 'a = 16] lp(2) by (simp add: c_def)
  moreover have "buf = sk @ ?body @ c @ rest" using sk c0 vs(1) r by simp
  moreover have "ReadVaruint list_read (vs @ p) = (Some (of_nat (length p)), p)"
    using vs(2) lp(1) by simp
  moreover have "length p \<le> lim" "length p \<le> 4096"
    using lim lp(1) by (simp_all add: word_less_nat_alt not_less)
  ultimately show ?thesis by blast
qed

lemma HandleReadFrame_scan:
  assumes "dg_read s = Some cap" and "7 \<le> dg_size s" and "dg_size s < 2 ^ 64"
  shows "dg_HandleReadFrame crc s False d =
    (case dg_act s cap (dg_scan crc (dg_size s - 7) (dg_buf s @ d)) of
       (t, emitted, e) \<Rightarrow> if emitted then Inr (t, e) else Inr (t, e @ [dg_StartReadFrame t]))"
proof -
  have "dg_act (s\<lparr>dg_buf := y\<rparr>) cap v = dg_act s cap v" for y v
    by (simp add: dg_act_def split: prod.splits scan.splits)
  then show ?thesis
    using TryEmitOneFrame_scan [of "s\<lparr>dg_buf := dg_buf s @ d\<rparr>" cap crc] assms
    by (simp add: dg_HandleReadFrame_def)
qed

lemma dg_scan_FalseHeader:
  "snd (dg_scan crc lim buf) = FalseHeader \<longleftrightarrow>
     (\<exists>c bs. dropWhile (\<lambda>c. c \<noteq> 0x54) buf = 0x54 # c # bs \<and> c \<noteq> 0xab)"
proof (cases "\<exists>c0 c1 bs. dropWhile (\<lambda>c. c \<noteq> 0x54) buf = c0 # c1 # bs")
  case True
  then obtain c0 c1 bs where b: "dropWhile (\<lambda>c. c \<noteq> 0x54) buf = c0 # c1 # bs" by blast
  then have "c0 = 0x54" using hd_dropWhile [of "\<lambda>c. c \<noteq> 0x54" buf] by simp
  with b show ?thesis
    by (auto simp: dg_scan_def split: list.splits prod.splits option.splits if_splits)
next
  case False
  then show ?thesis by (auto simp: dg_scan_def split: list.splits)
qed

lemma split_source:
  "frame_source \<lparr>source_id = x AND 0x7f, request_reply = (x AND 0x80 \<noteq> 0), dest_id = y, payload = p\<rparr> = x"
proof -
  have "unat x < 256" using unsigned_less [of x] by simp
  show ?thesis
  proof (cases "unat x < 128")
    case True
    then show ?thesis by (simp add: frame_source_def and_80_zero_iff and_7f_word)
  next
    case False
    with \<open>unat x < 256\<close> obtain m where m: "unat x = m + 128" "m < 128"
      by (metis add.commute le_add_diff_inverse less_diff_conv2 not_less numeral_Bit0)
    then have "x AND 0x7f OR 0x80 = (of_nat (m + 128) :: byte)"
      by (simp add: and_7f_word or_80_digit)
    moreover have "x = of_nat (unat x)" by simp
    ultimately show ?thesis
      using False m(1) by (simp only: frame_source_def and_80_zero_iff frame.select_convs if_True not_False_eq_True)
  qed
qed

section \<open>A frame arriving in pieces\<close>

fun dg_feed :: "(byte list \<Rightarrow> u16) \<Rightarrow> datagram \<Rightarrow> byte list list \<Rightarrow> (datagram \<times> dg_event list) res" where
  "dg_feed crc s [] = Inr (s, [])"
| "dg_feed crc s (c # cs) =
     sbind (dg_HandleReadFrame crc s False c) (\<lambda>(s, e).
     sbind (dg_feed crc s cs) (\<lambda>(s, e'). Inr (s, e @ e')))"

definition dg_waiting :: "datagram \<Rightarrow> byte list \<Rightarrow> nat \<Rightarrow> nat \<Rightarrow> bool" where
  "dg_waiting s x cap sz \<longleftrightarrow> dg_read s = Some cap \<and> dg_size s = sz \<and> 7 \<le> sz \<and> sz < 2 ^ 64
     \<and> dg_buf s = dropWhile (\<lambda>c. c \<noteq> 0x54) x"

lemma dropWhile_append_idem: "dropWhile P (dropWhile P x @ c) = dropWhile P (x @ c)"
  by (induction x) simp_all

lemma dg_HandleRead_scan:
  assumes "dg_waiting s x cap sz"
  shows "dg_HandleReadFrame crc s False c =
    (case dg_act s cap (dg_scan crc (sz - 7) (x @ c)) of
       (t, emitted, e) \<Rightarrow> if emitted then Inr (t, e) else Inr (t, e @ [dg_StartReadFrame t]))"
proof -
  have "dg_scan crc (sz - 7) (dg_buf s @ c) = dg_scan crc (sz - 7) (x @ c)"
    using assms by (simp add: dg_scan_def dg_waiting_def dropWhile_append_idem)
  then show ?thesis
    using HandleReadFrame_scan [of s cap crc c] assms by (simp add: dg_waiting_def)
qed

lemma dg_feed_waits:
  assumes "dg_waiting s x cap sz" and "0x54 \<notin> set junk" and "length p \<le> sz - 7" and "length p \<le> 4096"
    and "length (frame_bytes crc src dest p) \<le> sz"
    and "x @ concat cs = take j (junk @ frame_bytes crc src dest p)"
    and "j < length (junk @ frame_bytes crc src dest p)"
  shows "\<exists>s' es. dg_feed crc s cs = Inr (s', es) \<and> dg_waiting s' (x @ concat cs) cap sz
    \<and> length es = length cs \<and> (\<forall>e \<in> set es. \<exists>k > 0. e = dg_StartRead k)"
  using assms(1,6)
proof (induction cs arbitrary: s x)
  case (Cons c cs)
  let ?w = "junk @ frame_bytes crc src dest p"
  have "x @ c = take (length (x @ c)) ((x @ c) @ concat cs)" by simp
  also have "(x @ c) @ concat cs = take j ?w" using Cons.prems(2) by simp
  also have "take (length (x @ c)) (take j ?w) = take (min (length (x @ c)) j) ?w" by (rule take_take)
  finally have xc: "x @ c = take (min (length (x @ c)) j) ?w" .
  have lt: "min (length (x @ c)) j < length ?w" using assms(7) by simp
  let ?b = "dropWhile (\<lambda>c. c \<noteq> 0x54) (x @ c)"
  have short: "length ?b < sz"
    using dropWhile_frame_prefix [OF assms(2) lt xc] assms(5) by simp
  have "dg_HandleReadFrame crc s False c = Inr (s\<lparr>dg_buf := ?b\<rparr>, [dg_StartRead (sz - length ?b)])"
    using dg_HandleRead_scan [OF Cons.prems(1), of crc c] dg_scan_prefix [OF assms(2-4) lt xc]
      Cons.prems(1) by (simp add: dg_act_def dg_StartReadFrame_def dg_waiting_def)
  moreover have "dg_waiting (s\<lparr>dg_buf := ?b\<rparr>) (x @ c) cap sz"
    using Cons.prems(1) by (simp add: dg_waiting_def)
  moreover obtain s' es where "dg_feed crc (s\<lparr>dg_buf := ?b\<rparr>) cs = Inr (s', es)"
      "dg_waiting s' ((x @ c) @ concat cs) cap sz" "length es = length cs"
      "\<forall>e \<in> set es. \<exists>k > 0. e = dg_StartRead k"
    using Cons.IH [OF calculation(2)] Cons.prems(2) by auto
  ultimately show ?case using short by auto
qed simp

section \<open>Properties\<close>

text \<open>
  C4. For any bytes whatsoever in the buffer, \<open>TryEmitOneFrame\<close> with a
  read pending returns (no assertion fails, nothing is read out of bounds, no empty optional
  is used), and what it does is what the reference scan says: keep some bytes and wait, skip
  a false header, count a checksum mismatch, or deliver a datagram cut to the caller's buffer.
\<close>

theorem datagram_reader_refines_scan:
  assumes "dg_read s = Some cap" and "7 \<le> dg_size s" and "dg_size s < 2 ^ 64"
  shows "TryEmitOneFrame crc s = Inr (dg_act s cap (dg_scan crc (dg_size s - 7) (dg_buf s)))"
  using assms by (rule TryEmitOneFrame_scan)

theorem datagram_reader_refines_scan_witness:
  "TryEmitOneFrame (\<lambda>_. 0) ((dg_init 256 [])\<lparr>dg_read := Some 9, dg_buf := [1, 0x54, 2, 3]\<rparr>)
     = Inr ((dg_init 256 [])\<lparr>dg_read := Some 9, dg_buf := [3]\<rparr>, True, [])"
  using datagram_reader_refines_scan [of "(dg_init 256 [])\<lparr>dg_read := Some 9, dg_buf := [1, 0x54, 2, 3]\<rparr>" 9 "\<lambda>_. 0"]
  by (simp add: dg_init_def dg_scan_def dg_act_def)

text \<open>Reading does not touch what belongs to the writer.\<close>

lemma dg_emit_writer:
  "dg_emit crc s a b n data = Inr (t, r) \<Longrightarrow> dg_write t = dg_write s \<and> dg_wbuf t = dg_wbuf s \<and> dg_size t = dg_size s"
  by (auto simp: dg_emit_def dg_Consume_def dg_InvokeReadCallback_def Let_def split: if_splits option.splits prod.splits)

lemma dg_parse_writer:
  "dg_parse crc s = Inr (t, r) \<Longrightarrow> dg_write t = dg_write s \<and> dg_wbuf t = dg_wbuf s \<and> dg_size t = dg_size s"
  by (auto simp: dg_parse_def dg_Consume_def split: if_splits option.splits prod.splits dest!: dg_emit_writer)

lemma dg_HandleReadFrame_writer:
  "dg_HandleReadFrame crc s False c = Inr (t, e) \<Longrightarrow> dg_write t = dg_write s \<and> dg_wbuf t = dg_wbuf s \<and> dg_size t = dg_size s"
  by (auto simp: dg_HandleReadFrame_def TryEmitOneFrame_def dg_Consume_def Let_def split: if_splits dest!: dg_parse_writer)

lemma dg_feed_writer:
  "dg_feed crc s cs = Inr (t, e) \<Longrightarrow> dg_write t = dg_write s \<and> dg_wbuf t = dg_wbuf s \<and> dg_size t = dg_size s"
  by (induction cs arbitrary: s e) (fastforce dest!: dg_HandleReadFrame_writer)+

lemma dg_delivers:
  assumes "dg_waiting s [] cap sz" and "length p \<le> 4096" and "length (frame_bytes crc src dest p) \<le> sz"
    and "0x54 \<notin> set junk" and "concat cs @ c = junk @ frame_bytes crc src dest p @ rest"
    and "length (concat cs) < length (junk @ frame_bytes crc src dest p)"
  shows "\<exists>s' es s''. dg_feed crc s cs = Inr (s', es)
    \<and> length es = length cs \<and> (\<forall>e \<in> set es. \<exists>k > 0. e = dg_StartRead k)
    \<and> dg_HandleReadFrame crc s' False c = Inr (s'',
        [dg_ReadDone (if length p > cap then kPayloadTruncated else dg_ok)
           (Some \<lparr>hd_source = uint src, hd_destination = uint dest, hd_size = int (length p)\<rparr>)
           (take cap p)])
    \<and> dg_buf s'' = rest \<and> dg_read s'' = None
    \<and> dg_write s'' = dg_write s \<and> dg_wbuf s'' = dg_wbuf s \<and> dg_size s'' = dg_size s"
proof -
  let ?w = "frame_bytes crc src dest p"
  have p: "length p \<le> sz - 7"
    using assms(3) length_leb128_pos [of "length p"] unfolding length_frame_bytes by linarith
  have "concat cs = take (length (concat cs)) (concat cs @ c)" by simp
  also have "concat cs @ c = (junk @ ?w) @ rest" using assms(5) by simp
  also have "take (length (concat cs)) \<dots> = take (length (concat cs)) (junk @ ?w)"
    using assms(6) by (simp only: take_append [of _ "junk @ ?w"]) simp
  finally have pre: "[] @ concat cs = take (length (concat cs)) (junk @ ?w)" by simp
  obtain s' es where s': "dg_feed crc s cs = Inr (s', es)" "dg_waiting s' ([] @ concat cs) cap sz"
      "length es = length cs" "\<forall>e \<in> set es. \<exists>k > 0. e = dg_StartRead k"
    using dg_feed_waits [OF assms(1,4) p assms(2,3) pre assms(6)] by blast
  have "dg_scan crc (sz - 7) (([] @ concat cs) @ c) = (rest, Deliver src dest p)"
    using dg_scan_frame [OF assms(4) p assms(2)] assms(5) by simp
  with dg_HandleRead_scan [OF s'(2), of crc c] s' dg_feed_writer [OF s'(1)] show ?thesis
    by (simp add: dg_act_def)
qed

text \<open>
  C5. A frame that fits the buffer is delivered to a caller that waits: noise
  without a header byte may come before it, its bytes may arrive cut into any pieces, more
  may follow. Every read but the last is answered by another read for at least one byte; the
  last completes the caller's read with the frame's ids, its size and as much of the payload
  as the caller has room for, and what follows stays in the buffer.
\<close>

theorem datagram_delivers_frame:
  assumes "dg_waiting s [] cap sz" and "length p \<le> 4096" and "length (frame_bytes crc src dest p) \<le> sz"
    and "0x54 \<notin> set junk" and "concat cs @ c = junk @ frame_bytes crc src dest p @ rest"
    and "length (concat cs) < length (junk @ frame_bytes crc src dest p)"
  shows "\<exists>s' es s''. dg_feed crc s cs = Inr (s', es)
    \<and> length es = length cs \<and> (\<forall>e \<in> set es. \<exists>k > 0. e = dg_StartRead k)
    \<and> dg_HandleReadFrame crc s' False c = Inr (s'',
        [dg_ReadDone (if length p > cap then kPayloadTruncated else dg_ok)
           (Some \<lparr>hd_source = uint src, hd_destination = uint dest, hd_size = int (length p)\<rparr>)
           (take cap p)])
    \<and> dg_buf s'' = rest \<and> dg_read s'' = None"
  using dg_delivers [OF assms] by blast

theorem datagram_delivers_frame_witness:
  "\<exists>s' es s''. dg_feed (\<lambda>_. 0x1234) ((dg_init 16 [])\<lparr>dg_read := Some 1\<rparr>) [[0x01, 0x54], [0xab, 0x81]] = Inr (s', es)
    \<and> dg_HandleReadFrame (\<lambda>_. 0x1234) s' False [0x02, 0x02, 0x2a, 0x2b, 0x34, 0x12, 0x07] = Inr (s'',
        [dg_ReadDone kPayloadTruncated (Some \<lparr>hd_source = 0x81, hd_destination = 2, hd_size = 2\<rparr>) [0x2a]])
    \<and> dg_buf s'' = [0x07] \<and> dg_read s'' = None"
proof -
  have "le_bytes 2 (0x1234 :: u16) = [0x34, 0x12]" by code_simp
  then have w: "frame_bytes (\<lambda>_. 0x1234) 0x81 2 [0x2a, 0x2b]
      = [0x54, 0xab, 0x81, 0x02, 0x02, 0x2a, 0x2b, 0x34, 0x12]"
    by (simp add: frame_bytes_Cons leb128_small)
  have "dg_waiting ((dg_init 16 [])\<lparr>dg_read := Some 1\<rparr>) [] 1 16"
    by (simp add: dg_waiting_def dg_init_def)
  from datagram_delivers_frame [OF this, where p = "[0x2a, 0x2b]" and crc = "\<lambda>_. 0x1234"
      and src = "0x81" and dest = 2 and junk = "[0x01]" and cs = "[[0x01, 0x54], [0xab, 0x81]]"
      and c = "[0x02, 0x02, 0x2a, 0x2b, 0x34, 0x12, 0x07]" and rest = "[0x07]"]
  obtain s' es s'' where
    "dg_feed (\<lambda>_. 0x1234) ((dg_init 16 [])\<lparr>dg_read := Some 1\<rparr>) [[0x01, 0x54], [0xab, 0x81]] = Inr (s', es)"
    "dg_HandleReadFrame (\<lambda>_. 0x1234) s' False [0x02, 0x02, 0x2a, 0x2b, 0x34, 0x12, 0x07] = Inr (s'',
        [dg_ReadDone kPayloadTruncated (Some \<lparr>hd_source = 0x81, hd_destination = 2, hd_size = 2\<rparr>) [0x2a]])"
    "dg_buf s'' = [0x07]" "dg_read s'' = None"
    unfolding w by auto
  then show ?thesis by blast
qed

text \<open>
  C7. No datagram is delivered that is not in the input: when a read
  completes, the bytes received contained, in front of those kept, a header, the ids, a
  varuint announcing the size of the payload, the payload, and the checksum of all these
  bytes; the caller is told these ids and this size and gets the beginning of that payload.
\<close>

theorem datagram_only_valid_frames:
  assumes "dg_read s = Some cap" and "7 \<le> dg_size s" and "dg_size s < 2 ^ 64"
    and "dg_HandleReadFrame crc s False d = Inr (s', e)" and "dg_ReadDone ec h q \<in> set e"
  shows "\<exists>skipped src dest vs p body. dg_buf s @ d = skipped @ body @ le_bytes 2 (crc body) @ dg_buf s'
    \<and> body = [0x54, 0xab, src, dest] @ vs @ p
    \<and> ReadVaruint list_read (vs @ p) = (Some (of_nat (length p)), p)
    \<and> h = Some \<lparr>hd_source = uint src, hd_destination = uint dest, hd_size = int (length p)\<rparr>
    \<and> q = take cap p \<and> ec = (if length p > cap then kPayloadTruncated else dg_ok)"
proof -
  obtain rest src dest p where sc: "dg_scan crc (dg_size s - 7) (dg_buf s @ d) = (rest, Deliver src dest p)"
    and s': "dg_buf s' = rest"
    and "h = Some \<lparr>hd_source = uint src, hd_destination = uint dest, hd_size = int (length p)\<rparr>"
    and "q = take cap p" and "ec = (if length p > cap then kPayloadTruncated else dg_ok)"
    using assms(4,5) unfolding HandleReadFrame_scan [OF assms(1-3)]
    by (auto simp: dg_act_def dg_StartReadFrame_def split: prod.splits scan.splits)
  moreover obtain skipped vs body where "dg_buf s @ d = skipped @ body @ le_bytes 2 (crc body) @ rest"
      "body = [0x54, 0xab, src, dest] @ vs @ p"
      "ReadVaruint list_read (vs @ p) = (Some (of_nat (length p)), p)"
    using dg_scan_Deliver [OF sc] by blast
  ultimately show ?thesis unfolding s' by blast
qed

theorem datagram_only_valid_frames_witness:
  "\<exists>skipped src dest vs p body.
      [0x54, 0xab, 0x81, 0x02, 0x01, 0x2a, 0x34, 0x12, 0x07] = skipped @ body @ le_bytes 2 (0x1234 :: u16) @ [0x07]
    \<and> body = [0x54, 0xab, src, dest] @ vs @ p \<and> [0x2a] = take 5 p"
proof -
  let ?s = "(dg_init 16 [])\<lparr>dg_read := Some 5\<rparr>"
  have "le_bytes 2 (0x1234 :: u16) = [0x34, 0x12]" by code_simp
  then have w: "[] @ frame_bytes (\<lambda>_. 0x1234) 0x81 2 [0x2a] @ [0x07]
      = [0x54, 0xab, 0x81, 0x02, 0x01, 0x2a, 0x34, 0x12, 0x07]"
    by (simp add: frame_bytes_Cons leb128_small)
  have "dg_scan (\<lambda>_. 0x1234) 9 [0x54, 0xab, 0x81, 0x02, 0x01, 0x2a, 0x34, 0x12, 0x07]
      = ([0x07], Deliver 0x81 2 [0x2a])"
    unfolding w [symmetric] by (rule dg_scan_frame) simp_all
  then have "dg_HandleReadFrame (\<lambda>_. 0x1234) ?s False [0x54, 0xab, 0x81, 0x02, 0x01, 0x2a, 0x34, 0x12, 0x07]
      = Inr (?s\<lparr>dg_buf := [0x07], dg_read := None\<rparr>,
          [dg_ReadDone dg_ok (Some \<lparr>hd_source = 0x81, hd_destination = 2, hd_size = 1\<rparr>) [0x2a]])"
    by (subst HandleReadFrame_scan [of _ 5]) (simp_all add: dg_init_def dg_act_def)
  from datagram_only_valid_frames [OF _ _ _ this, of 5 dg_ok _ "[0x2a]"] show ?thesis
    by (simp add: dg_init_def) blast
qed

text \<open>
  C9. \<open>AsyncWrite\<close> puts the same bytes on the wire as \<open>Frame::encode\<close> does
  for the frame with these ids and this payload, provided the frame is smaller than the
  write buffer; otherwise its assertion fails and nothing is written.
\<close>

theorem datagram_write_is_frame:
  assumes "dg_write s = None" and "length (dg_wbuf s) = dg_size s" and "dg_size s \<le> 2 ^ 32"
    and "src = word_of_int (hd_source h)"
    and "f = \<lparr>source_id = src AND 0x7f, request_reply = (src AND 0x80 \<noteq> 0),
              dest_id = word_of_int (hd_destination h), payload = d\<rparr>"
  shows "if 6 + GetVaruintSize (of_nat (length d)) + length d < dg_size s
    then \<exists>s' w. dg_AsyncWrite crc s h d = Inr (s', [dg_StartWrite w]) \<and> Frame_encode crc f = Inr w
       \<and> dg_write s' = Some (length d)
    else dg_AsyncWrite crc s h d = Inl AssertFailed"
proof (cases "6 + GetVaruintSize (of_nat (length d)) + length d < dg_size s")
  case True
  then have small: "length d < 2 ^ 32" using assms(3) by linarith
  then have sz: "GetVaruintSize (of_nat (length d)) = length (leb128 (length d))"
    by (simp add: GetVaruintSize_length unat_of_nat_u32)
  let ?w = "frame_bytes crc src (word_of_int (hd_destination h)) d"
  obtain t where t: "fos_write fos_init ?w = Inr t" by (simp add: fos_write_eq)
  have "fos_ok fos_init" "fos_str fos_init = []" by (simp_all add: fos_ok_def fos_init_def fos_str_def)
  with fos.wr_out [OF _ t] have "fos_str t = ?w" by simp
  then have "Frame_encode crc f = Inr ?w"
    using t small assms(5) by (simp add: Frame_encode_def fos_crc.Frame_encode_to_bytes split_source)
  with dg_AsyncWrite_frame [OF assms(1,2) small _ assms(4) refl, of crc] True sz show ?thesis
    by (auto simp del: dg_event.inject)
next
  case False
  then show ?thesis using assms(1) by (simp add: dg_AsyncWrite_def Let_def)
qed

theorem datagram_write_is_frame_witness:
  "\<exists>s' w. dg_AsyncWrite (\<lambda>_. 7) (dg_init 16 (replicate 16 0))
      \<lparr>hd_source = 0x81, hd_destination = 2, hd_size = 0\<rparr> [5, 6] = Inr (s', [dg_StartWrite w])
    \<and> Frame_encode (\<lambda>_. 7) \<lparr>source_id = 1, request_reply = True, dest_id = 2, payload = [5, 6]\<rparr> = Inr w"
proof -
  have "GetVaruintSize 2 = 1" by (simp add: GetVaruintSize_length leb128_small)
  with datagram_write_is_frame [of "dg_init 16 (replicate 16 0)" "0x81"
      "\<lparr>hd_source = 0x81, hd_destination = 2, hd_size = 0\<rparr>" _ "[5, 6]" "\<lambda>_. 7", OF _ _ _ _ refl]
  show ?thesis by (auto simp: dg_init_def)
qed

text \<open>
  C17. After bytes have arrived for a waiting caller, the object has
  neither completed the caller's read nor started another read of the stream exactly when the
  first \<open>0x54\<close> among the buffered bytes, old and new, is followed by a byte other than \<open>0xab\<close>:
  the caller then waits for ever, although more bytes may be coming.
\<close>

theorem datagram_stalls_iff_false_header:
  assumes "dg_read s = Some cap" and "7 \<le> dg_size s" and "dg_size s < 2 ^ 64"
    and "dg_HandleReadFrame crc s False d = Inr (s', e)"
  shows "(e = [] \<longleftrightarrow> (\<exists>c bs. dropWhile (\<lambda>c. c \<noteq> 0x54) (dg_buf s @ d) = 0x54 # c # bs \<and> c \<noteq> 0xab))
    \<and> (e = [] \<longrightarrow> dg_read s' = Some cap)"
proof -
  have "e = [] \<longleftrightarrow> snd (dg_scan crc (dg_size s - 7) (dg_buf s @ d)) = FalseHeader"
    and "e = [] \<Longrightarrow> dg_read s' = Some cap"
    using assms(1,4) unfolding HandleReadFrame_scan [OF assms(1-3)]
    by (auto simp: dg_act_def split: prod.splits scan.splits)
  then show ?thesis by (simp add: dg_scan_FalseHeader)
qed

theorem datagram_stalls_iff_false_header_witness:
  "dg_HandleReadFrame (\<lambda>_. 0) ((dg_init 16 [])\<lparr>dg_read := Some 5\<rparr>) False [0x54, 0x54, 0xab]
     = Inr ((dg_init 16 [])\<lparr>dg_read := Some 5, dg_buf := [0xab]\<rparr>, [])
   \<and> (\<exists>c bs. dropWhile (\<lambda>c. c \<noteq> 0x54) [0x54, 0x54, 0xab] = 0x54 # c # (bs :: byte list) \<and> c \<noteq> 0xab)"
proof -
  let ?s = "(dg_init 16 [])\<lparr>dg_read := Some 5\<rparr>"
  have "dg_HandleReadFrame (\<lambda>_. 0) ?s False [0x54, 0x54, 0xab] = Inr (?s\<lparr>dg_buf := [0xab]\<rparr>, [])"
    by (subst HandleReadFrame_scan [of _ 5]) (simp_all add: dg_init_def dg_act_def dg_scan_def)
  from datagram_stalls_iff_false_header [OF _ _ _ this, of 5] this show ?thesis
    by (simp add: dg_init_def)
qed

end
