(* ===== verification/Micro_Server.thy ===== *)
theory Micro_Server
  imports Register_Client Stream_Datagram
begin

text \<open>
  \<open>MicroServer\<close> (\<open>multiplex/micro_server.cc\<close>, \<open>micro_server.h\<close>): the firmware's register and
  tunnel server. The application's \<open>Server\<close> and the users of the tunnels are parameters:
  records of functions over a state \<open>'a\<close> of their own. What a tunnel's callback asks of the
  tunnels is the list of calls it makes. The datagram server's operations are events.
\<close>

section \<open>Definitions\<close>

subsection \<open>The application\<close>

datatype write_action = kSuccess | kUnknownRegister | kNotWriteable | kDiscardRemaining

datatype frame_action = kAccept | kDiscardFrame

record 'a server =
  StartFrame :: "'a \<Rightarrow> 'a"
  Write :: "u32 \<Rightarrow> reg_value \<Rightarrow> 'a \<Rightarrow> write_action \<times> 'a"
  Read :: "u32 \<Rightarrow> nat \<Rightarrow> 'a \<Rightarrow> read_result"
  CompleteFrame :: "'a \<Rightarrow> frame_action \<times> 'a"

datatype tunnel_call = CallRead nat nat | CallWrite nat "byte list"

record 'a tunnel_user =
  on_read :: "nat \<Rightarrow> byte list \<Rightarrow> 'a \<Rightarrow> tunnel_call list \<times> 'a"
  on_write :: "nat \<Rightarrow> int \<Rightarrow> 'a \<Rightarrow> tunnel_call list \<times> 'a"

subsection \<open>The object\<close>

record tunnel =
  tn_id :: u32
  tn_read_buffer :: nat
  tn_read_data :: "byte list"
  tn_write_buffer :: "byte list"

definition tunnel_init :: tunnel where
  "tunnel_init = \<lparr>tn_id = 0, tn_read_buffer = 0, tn_read_data = [], tn_write_buffer = []\<rparr>"

record stats =
  wrong_id :: u32
  receive_overrun :: u32
  unknown_subframe :: u32
  missing_subframe :: u32
  malformed_subframe :: u32
  write_error :: u32
  last_write_error :: u32
  discards :: u32

definition stats_init :: stats where
  "stats_init = \<lparr>wrong_id = 0, receive_overrun = 0, unknown_subframe = 0, missing_subframe = 0,
     malformed_subframe = 0, write_error = 0, last_write_error = 0, discards = 0\<rparr>"

record 'a micro_server =
  ms_buffer_size :: nat
  ms_max_size :: int
  ms_server :: "'a server option"
  ms_user :: "'a tunnel_user"
  ms_app :: 'a
  config_id :: byte
  read_header :: dg_header
  ms_read_buffer :: "byte list"
  read_outstanding :: bool
  ms_write_buffer :: "byte list"
  write_outstanding :: bool
  anything_to_do :: bool
  tunnels :: "tunnel list"
  ms_stats :: stats

datatype ms_event = ms_StartRead | ms_StartWrite dg_header "byte list" dg_header

definition ms_init ::
  "nat \<Rightarrow> nat \<Rightarrow> byte \<Rightarrow> int \<Rightarrow> byte list \<Rightarrow> 'a tunnel_user \<Rightarrow> 'a \<Rightarrow> 'a micro_server" where
  "ms_init buffer_size max_tunnel_streams default_id max_size mem user app =
     \<lparr>ms_buffer_size = buffer_size, ms_max_size = max_size, ms_server = None, ms_user = user,
      ms_app = app, config_id = default_id,
      read_header = \<lparr>hd_source = 0, hd_destination = 0, hd_size = 0\<rparr>, ms_read_buffer = [],
      read_outstanding = False, ms_write_buffer = mem, write_outstanding = False,
      anything_to_do = False, tunnels = replicate max_tunnel_streams tunnel_init,
      ms_stats = stats_init\<rparr>"

subsection \<open>TunnelStream\<close>

definition set_tunnel :: "nat \<Rightarrow> tunnel \<Rightarrow> 'a micro_server \<Rightarrow> 'a micro_server" where
  "set_tunnel i t s = s\<lparr>tunnels := (tunnels s)[i := t]\<rparr>"

definition tn_AsyncReadSome :: "nat \<Rightarrow> nat \<Rightarrow> 'a micro_server \<Rightarrow> 'a micro_server res" where
  "tn_AsyncReadSome i n s =
     (if i < length (tunnels s) then
        let t = tunnels s ! i
        in sbind (mj_assert (tn_read_buffer t = 0)) (\<lambda>_.
           Inr (let s' = set_tunnel i (t\<lparr>tn_read_buffer := n\<rparr>) s
                in if n \<noteq> 0 \<and> tn_read_data t \<noteq> [] then s'\<lparr>anything_to_do := True\<rparr> else s'))
      else Inl NullDeref)"

definition tn_AsyncWriteSome :: "nat \<Rightarrow> byte list \<Rightarrow> 'a micro_server \<Rightarrow> 'a micro_server res" where
  "tn_AsyncWriteSome i d s =
     (if i < length (tunnels s) then
        let t = tunnels s ! i
        in sbind (mj_assert (tn_write_buffer t = [])) (\<lambda>_.
           Inr (set_tunnel i (t\<lparr>tn_write_buffer := d\<rparr>) s))
      else Inl NullDeref)"

fun tunnel_calls :: "tunnel_call list \<Rightarrow> 'a micro_server \<Rightarrow> 'a micro_server res" where
  "tunnel_calls [] s = Inr s"
| "tunnel_calls (CallRead i n # cs) s = sbind (tn_AsyncReadSome i n s) (tunnel_calls cs)"
| "tunnel_calls (CallWrite i d # cs) s = sbind (tn_AsyncWriteSome i d s) (tunnel_calls cs)"

definition DoReadTransfer :: "nat \<Rightarrow> 'a micro_server \<Rightarrow> (bool \<times> 'a micro_server) res" where
  "DoReadTransfer i s =
     (let t = tunnels s ! i
      in if tn_read_data t = [] then Inr (False, s)
         else if tn_read_buffer t = 0 then Inr (False, s)
         else
           let to_copy = min (tn_read_buffer t) (length (tn_read_data t));
               s = set_tunnel i (t\<lparr>tn_read_data := drop to_copy (tn_read_data t), tn_read_buffer := 0\<rparr>) s
           in case on_read (ms_user s) i (take to_copy (tn_read_data t)) (ms_app s) of
                (calls, app) \<Rightarrow>
                  sbind (tunnel_calls calls (s\<lparr>ms_app := app\<rparr>)) (\<lambda>s. Inr (True, s)))"

text \<open>The search of \<open>MakeTunnel\<close> and \<open>FindTunnel\<close>: the first tunnel with this id.\<close>

fun FindTunnel_from :: "nat \<Rightarrow> u32 \<Rightarrow> tunnel list \<Rightarrow> nat option" where
  "FindTunnel_from i k [] = None"
| "FindTunnel_from i k (t # ts) = (if tn_id t = k then Some i else FindTunnel_from (i + 1) k ts)"

definition FindTunnel :: "u32 \<Rightarrow> 'a micro_server \<Rightarrow> nat option" where
  "FindTunnel k s = FindTunnel_from 0 k (tunnels s)"

definition MakeTunnel :: "u32 \<Rightarrow> 'a micro_server \<Rightarrow> (nat \<times> 'a micro_server) res" where
  "MakeTunnel k s =
     sbind (mj_assert (k \<noteq> 0)) (\<lambda>_.
     case FindTunnel 0 s of
       Some i \<Rightarrow> Inr (i, set_tunnel i ((tunnels s ! i)\<lparr>tn_id := k\<rparr>) s)
     | None \<Rightarrow> Inl AssertFailed)"

fun Poll_tunnels :: "nat list \<Rightarrow> bool \<Rightarrow> 'a micro_server \<Rightarrow> (bool \<times> 'a micro_server) res" where
  "Poll_tunnels [] all_done s = Inr (all_done, s)"
| "Poll_tunnels (i # is) all_done s =
     sbind (DoReadTransfer i s) (\<lambda>(moved, s). Poll_tunnels is (all_done \<and> \<not> moved) s)"

definition Poll :: "'a micro_server \<Rightarrow> 'a micro_server res" where
  "Poll s =
     (if \<not> anything_to_do s then Inr s
      else sbind (Poll_tunnels [0 ..< length (tunnels s)] True s) (\<lambda>(all_done, s).
           Inr (if all_done then s\<lparr>anything_to_do := False\<rparr> else s)))"

subsection \<open>The subframes\<close>

text \<open>
  The handlers work on the object, the stream the frame is read from and the response being
  written; \<open>need\<close> says whether \<open>response_stream\<close> is set.
\<close>

type_synonym 'a pstate = "'a micro_server \<times> brs \<times> bws"

definition count_stat :: "(stats \<Rightarrow> stats) \<Rightarrow> 'a micro_server \<Rightarrow> 'a micro_server" where
  "count_stat f s = s\<lparr>ms_stats := f (ms_stats s)\<rparr>"

text \<open>
  The answer on a tunnel, common to the two tunnel subframes: \<open>max_bytes\<close> is the additional
  limit of a poll. \<open>kNeededOverhead\<close> is 23.
\<close>

definition RespondTunnel ::
  "nat \<Rightarrow> u32 \<Rightarrow> int option \<Rightarrow> 'a micro_server \<Rightarrow> bws \<Rightarrow> ('a micro_server \<times> bws) res" where
  "RespondTunnel i channel max_bytes s rsp =
     sbind (bws_WriteVaruint rsp kServerToClient) (\<lambda>rsp.
     sbind (bws_WriteVaruint rsp channel) (\<lambda>rsp.
     let t = tunnels s ! i;
         room = min (int (length (tn_write_buffer t))) (bws_remaining rsp - 23);
         to_copy = min (ms_max_size s - 23) (case max_bytes of None \<Rightarrow> room | Some m \<Rightarrow> min m room)
     in sbind (bws_WriteVaruint rsp (word_of_int to_copy)) (\<lambda>rsp.
        if to_copy > 0 then
          sbind (bws_write rsp (take (nat to_copy) (tn_write_buffer t))) (\<lambda>rsp.
          let s = set_tunnel i (t\<lparr>tn_write_buffer := []\<rparr>) s
          in case on_write (ms_user s) i to_copy (ms_app s) of
               (calls, app) \<Rightarrow>
                 sbind (tunnel_calls calls (s\<lparr>ms_app := app\<rparr>)) (\<lambda>s. Inr (s, rsp)))
        else Inr (s, rsp))))"

definition ProcessSubframeClientToServer :: "bool \<Rightarrow> 'a pstate \<Rightarrow> (bool \<times> 'a pstate) res" where
  "ProcessSubframeClientToServer need p =
     (case p of (s, str, rsp) \<Rightarrow>
      case brs_ReadVaruint str of (maybe_channel, str) \<Rightarrow>
      case brs_ReadVaruint str of (maybe_bytes, str) \<Rightarrow>
      case (maybe_channel, maybe_bytes) of
        (Some channel, Some bytes) \<Rightarrow>
          if brs_remaining str < int (unat bytes) then Inr (True, s, str, rsp)
          else (case FindTunnel channel s of
            None \<Rightarrow> Inr (True, s, str, rsp)
          | Some i \<Rightarrow>
              let t = tunnels s ! i;
                  remaining_space = 128 - length (tn_read_data t);
                  (s, str) =
                    (if unat bytes > remaining_space
                     then (count_stat (\<lambda>x. x\<lparr>receive_overrun := receive_overrun x + 1\<rparr>) s, str)
                     else case brs_read str (unat bytes) of
                            (d, str) \<Rightarrow> (set_tunnel i (t\<lparr>tn_read_data := tn_read_data t @ d\<rparr>) s, str))
              in sbind (DoReadTransfer i s) (\<lambda>(_, s).
                 let s = s\<lparr>anything_to_do := True\<rparr>
                 in if need
                    then sbind (RespondTunnel i channel None s rsp) (\<lambda>(s, rsp). Inr (False, s, str, rsp))
                    else Inr (False, s, str, rsp)))
      | _ \<Rightarrow> Inr (True, s, str, rsp))"

definition ProcessSubframeClientPollServer :: "bool \<Rightarrow> 'a pstate \<Rightarrow> (bool \<times> 'a pstate) res" where
  "ProcessSubframeClientPollServer need p =
     (case p of (s, str, rsp) \<Rightarrow>
      case brs_ReadVaruint str of (maybe_channel, str) \<Rightarrow>
      case brs_ReadVaruint str of (maybe_max_bytes, str) \<Rightarrow>
      case (maybe_channel, maybe_max_bytes) of
        (Some channel, Some max_bytes) \<Rightarrow>
          (case FindTunnel channel s of
            None \<Rightarrow> Inr (True, s, str, rsp)
          | Some i \<Rightarrow>
              if need
              then sbind (RespondTunnel i channel (Some (int (unat max_bytes))) s rsp) (\<lambda>(s, rsp).
                   Inr (False, s, str, rsp))
              else Inr (False, s, str, rsp))
      | _ \<Rightarrow> Inr (True, s, str, rsp))"

definition ms_ReadValue :: "nat \<Rightarrow> brs \<Rightarrow> (reg_value option \<times> brs) res" where
  "ms_ReadValue ty str =
     (if ty = 0 then Inr (apfst (map_option VInt8) (brs_ReadScalar 1 str))
      else if ty = 1 then Inr (apfst (map_option VInt16) (brs_ReadScalar 2 str))
      else if ty = 2 then Inr (apfst (map_option VInt32) (brs_ReadScalar 4 str))
      else if ty = 3 then Inr (apfst (map_option VFloat) (brs_ReadScalar 4 str))
      else Inl AssertFailed)"

definition ms_WriteValue :: "bws \<Rightarrow> reg_value \<Rightarrow> bws res" where
  "ms_WriteValue rsp v =
     (case v of VInt8 x \<Rightarrow> bws_WriteScalar 1 rsp x | VInt16 x \<Rightarrow> bws_WriteScalar 2 rsp x
      | VInt32 x \<Rightarrow> bws_WriteScalar 4 rsp x | VFloat x \<Rightarrow> bws_WriteScalar 4 rsp x)"

definition EmitWriteError :: "bool \<Rightarrow> bws \<Rightarrow> u32 \<Rightarrow> u32 \<Rightarrow> bws res" where
  "EmitWriteError need rsp error_reg err =
     (if \<not> need then Inr rsp
      else sbind (bws_WriteVaruint rsp kWriteError) (\<lambda>rsp.
           sbind (bws_WriteVaruint rsp error_reg) (\<lambda>rsp. bws_WriteVaruint rsp err)))"

datatype subframe_action = kContinue | kMalformed | kDiscard

fun WriteRegisters ::
  "bool \<Rightarrow> nat \<Rightarrow> nat \<Rightarrow> u32 \<Rightarrow> 'a pstate \<Rightarrow> (subframe_action \<times> 'a pstate) res" where
  "WriteRegisters need ty 0 current_register p = Inr (kContinue, p)"
| "WriteRegisters need ty (Suc k) current_register p =
     (case p of (s, str, rsp) \<Rightarrow>
      sbind (ms_ReadValue ty str) (\<lambda>(maybe_value, str).
      case maybe_value of
        None \<Rightarrow> Inr (kMalformed, s, str, rsp)
      | Some v \<Rightarrow>
          (case ms_server s of
             None \<Rightarrow> WriteRegisters need ty k (current_register + 1) (s, str, rsp)
           | Some sv \<Rightarrow>
               (case Write sv current_register v (ms_app s) of (action, app) \<Rightarrow>
                let s = s\<lparr>ms_app := app\<rparr>
                in case action of
                     kSuccess \<Rightarrow> WriteRegisters need ty k (current_register + 1) (s, str, rsp)
                   | kUnknownRegister \<Rightarrow>
                       sbind (EmitWriteError need rsp current_register 1) (\<lambda>rsp.
                       WriteRegisters need ty k (current_register + 1) (s, str, rsp))
                   | kNotWriteable \<Rightarrow>
                       sbind (EmitWriteError need rsp current_register 2) (\<lambda>rsp.
                       WriteRegisters need ty k (current_register + 1) (s, str, rsp))
                   | kDiscardRemaining \<Rightarrow>
                       Inr (kDiscard, count_stat (\<lambda>x. x\<lparr>discards := discards x + 1\<rparr>) s, str, rsp)))))"

definition ProcessSubframeWrite ::
  "bool \<Rightarrow> nat \<Rightarrow> 'a pstate \<Rightarrow> (subframe_action \<times> 'a pstate) res" where
  "ProcessSubframeWrite need type_length p =
     (case p of (s, str, rsp) \<Rightarrow>
      let encoded_length = type_length mod 4; ty = type_length div 4
      in case (if encoded_length = 0 then brs_ReadVaruint str else (Some (of_nat encoded_length), str)) of
           (None, str) \<Rightarrow> Inr (kMalformed, s, str, rsp)
         | (Some num_registers, str) \<Rightarrow>
         (case brs_ReadVaruint str of
           (None, str) \<Rightarrow> Inr (kMalformed, s, str, rsp)
         | (Some start_register, str) \<Rightarrow>
             WriteRegisters need ty (unat num_registers) start_register (s, str, rsp)))"

definition EmitReadError :: "bws \<Rightarrow> u32 \<Rightarrow> u32 \<Rightarrow> bws res" where
  "EmitReadError rsp reg err =
     sbind (bws_WriteVaruint rsp kReadError) (\<lambda>rsp.
     sbind (bws_WriteVaruint rsp reg) (\<lambda>rsp. bws_WriteVaruint rsp err))"

text \<open>Without an application every read is the error 1.\<close>

definition ms_Read :: "'a micro_server \<Rightarrow> u32 \<Rightarrow> nat \<Rightarrow> read_result" where
  "ms_Read s reg ty = (case ms_server s of None \<Rightarrow> RError 1 | Some sv \<Rightarrow> Read sv reg ty (ms_app s))"

fun ReadRegisters ::
  "nat \<Rightarrow> nat \<Rightarrow> nat \<Rightarrow> u32 \<Rightarrow> 'a micro_server \<Rightarrow> bws \<Rightarrow> (bool \<times> bws) res" where
  "ReadRegisters start ty 0 current_register s rsp = Inr (False, rsp)"
| "ReadRegisters start ty (Suc k) current_register s rsp =
     (case ms_Read s current_register ty of
        RValue v \<Rightarrow>
          sbind (ms_WriteValue rsp v) (\<lambda>rsp. ReadRegisters start ty k (current_register + 1) s rsp)
      | RError err \<Rightarrow>
          sbind (bws_reset rsp start) (\<lambda>rsp.
          sbind (EmitReadError rsp current_register err) (\<lambda>rsp. Inr (True, rsp))))"

definition ProcessSubframeRead :: "bool \<Rightarrow> nat \<Rightarrow> 'a pstate \<Rightarrow> (bool \<times> 'a pstate) res" where
  "ProcessSubframeRead need type_length p =
     (case p of (s, str, rsp) \<Rightarrow>
      if \<not> need then Inr (False, s, str, rsp) else
      let encoded_length = type_length mod 4; ty = type_length div 4
      in case (if encoded_length = 0 then brs_ReadVaruint str else (Some (of_nat encoded_length), str)) of
           (None, str) \<Rightarrow> Inr (True, s, str, rsp)
         | (Some num_registers, str) \<Rightarrow>
         (case brs_ReadVaruint str of
           (None, str) \<Rightarrow> Inr (True, s, str, rsp)
         | (Some start_register, str) \<Rightarrow>
             let start = bw_off rsp;
                 subframe_id = kReplyBase OR of_nat (ty * 4) OR of_nat encoded_length
             in sbind (bws_WriteVaruint rsp subframe_id) (\<lambda>rsp.
                sbind (if encoded_length = 0 then bws_WriteVaruint rsp num_registers else Inr rsp) (\<lambda>rsp.
                sbind (bws_WriteVaruint rsp start_register) (\<lambda>rsp.
                sbind (ReadRegisters start ty (unat num_registers) start_register s rsp) (\<lambda>(bad, rsp).
                Inr (bad, s, str, rsp)))))))"

text \<open>One round of the loop of \<open>ProcessSubframes\<close>: whether it returns, and the new state.\<close>

definition ProcessSubframe :: "bool \<Rightarrow> 'a pstate \<Rightarrow> (bool \<times> 'a pstate) res" where
  "ProcessSubframe need p =
     (case p of (s, str, rsp) \<Rightarrow>
      let malformed = (\<lambda>(bad, s, q).
            Inr (bad, (if bad then count_stat (\<lambda>x. x\<lparr>malformed_subframe := malformed_subframe x + 1\<rparr>) s
                       else s), q))
      in case brs_ReadVaruint str of
           (None, str) \<Rightarrow>
             Inr (True, count_stat (\<lambda>x. x\<lparr>missing_subframe := missing_subframe x + 1\<rparr>) s, str, rsp)
         | (Some subframe_type, str) \<Rightarrow>
             if subframe_type = kClientToServer
             then sbind (ProcessSubframeClientToServer need (s, str, rsp)) malformed
             else if subframe_type = kClientPollServer
             then sbind (ProcessSubframeClientPollServer need (s, str, rsp)) malformed
             else if subframe_type = kNop then Inr (False, s, str, rsp)
             else if subframe_type \<ge> kWriteBase \<and> subframe_type < kWriteBase + 16
             then sbind (ProcessSubframeWrite need (unat (subframe_type - kWriteBase)) (s, str, rsp)) (\<lambda>(action, q).
                  case action of
                    kMalformed \<Rightarrow> malformed (True, q)
                  | kDiscard \<Rightarrow> Inr (True, q)
                  | kContinue \<Rightarrow> Inr (False, q))
             else if subframe_type \<ge> kReadBase \<and> subframe_type < kReadBase + 16
             then sbind (ProcessSubframeRead need (unat (subframe_type - kReadBase)) (s, str, rsp)) malformed
             else Inr (True, count_stat (\<lambda>x. x\<lparr>unknown_subframe := unknown_subframe x + 1\<rparr>) s, str, rsp))"

subsection \<open>The stream only moves forward\<close>

definition brs_adv :: "brs \<Rightarrow> brs \<Rightarrow> bool" where
  "brs_adv s t \<longleftrightarrow> br_buf t = br_buf s \<and> br_off s \<le> br_off t"

lemma brs_adv_refl [simp]: "brs_adv s s"
  by (simp add: brs_adv_def)

lemma brs_adv_trans: "brs_adv s t \<Longrightarrow> brs_adv t u \<Longrightarrow> brs_adv s u"
  by (auto simp: brs_adv_def)

lemma brs_ReadVaruint_loop_off:
  "br_off s + i \<le> br_off (snd (brs_ReadVaruint_loop s i pos r))
   \<and> (brs_remaining s - int i \<noteq> 0 \<longrightarrow> i < 5 \<longrightarrow> br_off s + i < br_off (snd (brs_ReadVaruint_loop s i pos r)))"
proof (induction s i pos r rule: brs_ReadVaruint_loop.induct)
  case (1 s i pos r)
  show ?case
  proof (cases "i < 5 \<and> brs_remaining s - int i \<noteq> 0 \<and> br_buf s ! (br_off s + i) AND 0x80 \<noteq> 0")
    case True
    with "1.IH" [OF _ _ refl refl] show ?thesis
      by (simp add: brs_ReadVaruint_loop.simps [of s i pos r] Let_def)
  next
    case False
    then show ?thesis
      by (auto simp: brs_ReadVaruint_loop.simps [of s i pos r] Let_def brs_fast_ignore_def nat_add_distrib)
  qed
qed

lemma brs_ReadVaruint_adv:
  assumes "brs_ReadVaruint s = (v, t)"
  shows "brs_adv s t" and "brs_remaining s \<noteq> 0 \<Longrightarrow> br_off s < br_off t"
  using assms brs_ReadVaruint_loop_off [of s 0 0 0] brs_ReadVaruint_loop_buf [of s 0 0 0]
  by (auto simp: brs_ReadVaruint_def brs_adv_def)

lemma brs_ReadScalar_adv: "brs_ReadScalar n s = (v, t) \<Longrightarrow> brs_adv s t"
  by (auto simp: brs_ReadScalar_def brs_adv_def brs_fast_ignore_def split: if_splits)

lemma ms_ReadValue_adv: "ms_ReadValue ty s = Inr (v, t) \<Longrightarrow> brs_adv s t"
  by (auto simp: ms_ReadValue_def apfst_def map_prod_def split: if_splits prod.splits
      dest!: brs_ReadScalar_adv)

lemma brs_read_adv: "brs_read s n = (d, t) \<Longrightarrow> int n \<le> brs_remaining s \<Longrightarrow> brs_adv s t"
  by (auto simp: brs_read_def brs_adv_def Let_def)

lemma WriteRegisters_adv:
  "WriteRegisters need ty k reg (s, str, rsp) = Inr (a, s', str', rsp') \<Longrightarrow> brs_adv str str'"
proof (induction k arbitrary: reg s str rsp)
  case (Suc k)
  from Suc.prems obtain v t where v: "ms_ReadValue ty str = Inr (v, t)" by auto
  have "brs_adv t str'"
    using Suc.prems v
    by (auto simp: Let_def split: option.splits prod.splits write_action.splits dest!: Suc.IH)
  then show ?case using brs_adv_trans ms_ReadValue_adv [OF v] by blast
qed simp

lemma ProcessSubframeWrite_adv:
  "ProcessSubframeWrite need tyl (s, str, rsp) = Inr (a, s', str', rsp') \<Longrightarrow> brs_adv str str'"
  by (auto simp: ProcessSubframeWrite_def Let_def split: if_splits option.splits prod.splits
      dest!: brs_ReadVaruint_adv(1) WriteRegisters_adv intro: brs_adv_trans)

lemma ProcessSubframeRead_adv:
  "ProcessSubframeRead need tyl (s, str, rsp) = Inr (a, s', str', rsp') \<Longrightarrow> brs_adv str str'"
  by (auto simp: ProcessSubframeRead_def Let_def split: if_splits option.splits prod.splits
      dest!: brs_ReadVaruint_adv(1) intro: brs_adv_trans)

lemma ProcessSubframeClientToServer_adv:
  "ProcessSubframeClientToServer need (s, str, rsp) = Inr (a, s', str', rsp') \<Longrightarrow> brs_adv str str'"
  by (auto simp: ProcessSubframeClientToServer_def Let_def not_less split: if_splits option.splits prod.splits
      dest!: brs_ReadVaruint_adv(1) brs_read_adv intro: brs_adv_trans)

lemma ProcessSubframeClientPollServer_adv:
  "ProcessSubframeClientPollServer need (s, str, rsp) = Inr (a, s', str', rsp') \<Longrightarrow> brs_adv str str'"
  by (auto simp: ProcessSubframeClientPollServer_def Let_def split: if_splits option.splits prod.splits
      dest!: brs_ReadVaruint_adv(1) intro: brs_adv_trans)

lemmas subframe_advs = ProcessSubframeWrite_adv ProcessSubframeRead_adv
  ProcessSubframeClientToServer_adv ProcessSubframeClientPollServer_adv

lemma ProcessSubframe_adv:
  assumes "ProcessSubframe need (s, str, rsp) = Inr (a, s', str', rsp')"
  shows "brs_adv str str'" and "brs_remaining str \<noteq> 0 \<Longrightarrow> br_off str < br_off str'"
proof -
  obtain v t where v: "brs_ReadVaruint str = (v, t)" by (cases "brs_ReadVaruint str")
  have "brs_adv t str'"
    using assms v
    by (auto simp: ProcessSubframe_def Let_def split: if_splits option.splits prod.splits subframe_action.splits
        dest!: subframe_advs)
  with brs_ReadVaruint_adv [OF v] show "brs_adv str str'" and "brs_remaining str \<noteq> 0 \<Longrightarrow> br_off str < br_off str'"
    by (auto simp: brs_adv_def)
qed

subsection \<open>The frame\<close>

text \<open>
  The loop \<open>while (buffer_stream.remaining())\<close>. The stream never runs past its end, so
  \<open>remaining()\<close> is not negative and the test is \<open>0 < remaining()\<close>.
\<close>

function ProcessSubframes_loop :: "bool \<Rightarrow> 'a pstate \<Rightarrow> 'a pstate res" where
  "ProcessSubframes_loop need (s, str, rsp) =
     (if 0 < brs_remaining str
      then sbind (ProcessSubframe need (s, str, rsp)) (\<lambda>(stop, q).
           if stop then Inr q else ProcessSubframes_loop need q)
      else Inr (s, str, rsp))"
  by pat_completeness auto

termination ProcessSubframes_loop
proof (relation "measure (\<lambda>(need, s, str, rsp). nat (brs_remaining str))", goal_cases)
  case (2 need s str rsp x stop q)
  obtain s' str' rsp' where q: "q = (s', str', rsp')" by (cases q)
  with 2 have "ProcessSubframe need (s, str, rsp) = Inr (stop, s', str', rsp')" by simp
  from ProcessSubframe_adv [OF this] 2 q show ?case
    by (simp add: brs_adv_def brs_remaining_def)
qed simp

declare ProcessSubframes_loop.simps [simp del]

definition ProcessSubframes ::
  "bool \<Rightarrow> byte list \<Rightarrow> 'a micro_server \<Rightarrow> bws \<Rightarrow> ('a micro_server \<times> bws) res" where
  "ProcessSubframes need subframes s rsp =
     sbind (ProcessSubframes_loop need (s, brs_init subframes, rsp)) (\<lambda>(s, _, rsp). Inr (s, rsp))"

definition WriteResponse :: "byte \<Rightarrow> nat \<Rightarrow> 'a micro_server \<Rightarrow> ('a micro_server \<times> ms_event list) res" where
  "WriteResponse client_id response_size s =
     sbind (mj_assert (\<not> write_outstanding s)) (\<lambda>_.
     Inr (s\<lparr>write_outstanding := True\<rparr>,
          [ms_StartWrite \<lparr>hd_source = uint (config_id s AND 0x7f), hd_destination = uint client_id,
                          hd_size = int response_size\<rparr>
             (take response_size (ms_write_buffer s)) (read_header s)]))"

definition kBroadcastId :: int where "kBroadcastId = 0x7f"

text \<open>
  The response stream writes into \<open>write_buffer_\<close>: its memory becomes the buffer's contents.
  \<open>server_\<close> is called without a check here.
\<close>

definition ProcessFrame :: "'a micro_server \<Rightarrow> ('a micro_server \<times> ms_event list) res" where
  "ProcessFrame s =
     (let h = read_header s;
          mine = (hd_destination h = uint (config_id s AND 0x7f));
          s = (if hd_destination h = kBroadcastId \<or> \<not> mine
               then count_stat (\<lambda>x. x\<lparr>wrong_id := wrong_id x + 1\<rparr>) s else s)
      in if hd_destination h \<noteq> kBroadcastId \<and> \<not> mine then Inr (s, [])
         else case ms_server s of
           None \<Rightarrow> Inl NullDeref
         | Some sv \<Rightarrow>
             let need_response = (word_of_int (hd_source h) AND (0x80 :: u32) \<noteq> 0 \<and> \<not> write_outstanding s);
                 s = s\<lparr>ms_app := StartFrame sv (ms_app s)\<rparr>
             in sbind (ProcessSubframes need_response (take (nat (hd_size h)) (ms_read_buffer s)) s
                         (bws_init (ms_write_buffer s))) (\<lambda>(s, rsp).
                let s = s\<lparr>ms_write_buffer := bw_mem rsp\<rparr>
                in case CompleteFrame sv (ms_app s) of (action, app) \<Rightarrow>
                   let s = s\<lparr>ms_app := app\<rparr>
                   in if action = kDiscardFrame
                      then Inr (count_stat (\<lambda>x. x\<lparr>discards := discards x + 1\<rparr>) s, [])
                      else if need_response
                      then WriteResponse (word_of_int (hd_source h) AND 0x7f) (bw_off rsp) s
                      else Inr (s, [])))"

definition MaybeStartReadFrame :: "'a micro_server \<Rightarrow> 'a micro_server \<times> ms_event list" where
  "MaybeStartReadFrame s =
     (if read_outstanding s then (s, []) else (s\<lparr>read_outstanding := True\<rparr>, [ms_StartRead]))"

definition Start :: "'a server \<Rightarrow> 'a micro_server \<Rightarrow> 'a micro_server \<times> ms_event list" where
  "Start sv s = MaybeStartReadFrame (s\<lparr>ms_server := Some sv\<rparr>)"

text \<open>The completion of the datagram server's read: an error, or the header and the data it placed.\<close>

definition HandleReadDatagram ::
  "bool \<Rightarrow> dg_header \<Rightarrow> byte list \<Rightarrow> 'a micro_server \<Rightarrow> ('a micro_server \<times> ms_event list) res" where
  "HandleReadDatagram failed h d s =
     (let s = s\<lparr>read_outstanding := False, read_header := h, ms_read_buffer := d\<rparr>
      in if failed then Inr (MaybeStartReadFrame s)
         else sbind (ProcessFrame s) (\<lambda>(s, e).
              case MaybeStartReadFrame s of (s, e') \<Rightarrow> Inr (s, e @ e')))"

definition HandleWrite :: "u32 option \<Rightarrow> 'a micro_server \<Rightarrow> 'a micro_server" where
  "HandleWrite ec s =
     (case ec of
        None \<Rightarrow> s
      | Some v \<Rightarrow> count_stat (\<lambda>x. x\<lparr>write_error := write_error x + 1, last_write_error := v\<rparr>) s)
     \<lparr>write_outstanding := False\<rparr>"

end
