(* ===== verification/Register_Server.thy ===== *)
theory Register_Server
  imports Micro_Server
begin

text \<open>
  What the server makes of the requests a client can build: an abstract semantics of register
  requests, executed directly on the application, and the proof that \<open>ProcessSubframes\<close> on
  the bytes of the requests implements it: the same calls in the same order, and a response
  made of the reply and error subframes the semantics prescribes.
\<close>

section \<open>Requests and their meaning\<close>

datatype request = WriteReq u32 "reg_value list" | ReadReq nat u32 u32

fun req_bytes :: "request \<Rightarrow> byte list" where
  "req_bytes (WriteReq reg vs) = write_bytes reg vs"
| "req_bytes (ReadReq ty n reg) = read_bytes ty n reg"

fun req_ok :: "request \<Rightarrow> bool" where
  "req_ok (WriteReq reg vs) =
     (vs \<noteq> [] \<and> length vs < 2 ^ 32 \<and> (\<forall>v \<in> set vs. value_index v = value_index (hd vs)))"
| "req_ok (ReadReq ty n reg) = (0 < n \<and> ty \<le> 3)"

text \<open>Writing registers one after the other: whether the rest is discarded, the application, the errors.\<close>

fun write_all ::
  "'a server \<Rightarrow> u32 \<Rightarrow> reg_value list \<Rightarrow> 'a \<Rightarrow> bool \<times> 'a \<times> (u32 \<times> u32) list" where
  "write_all sv reg [] app = (False, app, [])"
| "write_all sv reg (v # vs) app =
     (case Write sv reg v app of
        (kSuccess, app) \<Rightarrow> write_all sv (reg + 1) vs app
      | (kUnknownRegister, app) \<Rightarrow> apsnd (apsnd (Cons (reg, 1))) (write_all sv (reg + 1) vs app)
      | (kNotWriteable, app) \<Rightarrow> apsnd (apsnd (Cons (reg, 2))) (write_all sv (reg + 1) vs app)
      | (kDiscardRemaining, app) \<Rightarrow> (True, app, []))"

fun read_all :: "'a server \<Rightarrow> nat \<Rightarrow> u32 \<Rightarrow> nat \<Rightarrow> 'a \<Rightarrow> (u32 \<times> u32) + reg_value list" where
  "read_all sv ty reg 0 app = Inr []"
| "read_all sv ty reg (Suc k) app =
     (case Read sv reg ty app of
        RError err \<Rightarrow> Inl (reg, err)
      | RValue v \<Rightarrow> map_sum id (Cons v) (read_all sv ty (reg + 1) k app))"

fun run_request :: "bool \<Rightarrow> 'a server \<Rightarrow> request \<Rightarrow> 'a \<Rightarrow> bool \<times> 'a \<times> reply_item list" where
  "run_request need sv (WriteReq reg vs) app =
     (case write_all sv reg vs app of
        (stop, app, errs) \<Rightarrow>
          (stop, app, if need then map (\<lambda>(r, e). Error kWriteError r e) errs else []))"
| "run_request need sv (ReadReq ty n reg) app =
     (case read_all sv ty reg (unat n) app of
        Inr vs \<Rightarrow> (False, app, [Values ty (short_len (unat n)) reg vs])
      | Inl (r, e) \<Rightarrow> (True, app, [Error kReadError r e]))"

fun run_requests :: "bool \<Rightarrow> 'a server \<Rightarrow> request list \<Rightarrow> 'a \<Rightarrow> 'a \<times> reply_item list" where
  "run_requests need sv [] app = (app, [])"
| "run_requests need sv (r # rs) app =
     (case run_request need sv r app of
        (stop, app, its) \<Rightarrow>
          if stop then (app, its) else apsnd (append its) (run_requests need sv rs app))"

text \<open>Room in the response buffer that is enough for any answer to a request.\<close>

fun reply_bound :: "request \<Rightarrow> nat" where
  "reply_bound (WriteReq reg vs) = 15 * length vs"
| "reply_bound (ReadReq ty n reg) = 15 + 4 * unat n"

section \<open>Streams on encoded bytes\<close>

lemma brs_varuint:
  assumes "brs_ok s" and "brs_avail s = leb128 (unat v) @ rest"
  shows "\<exists>t. brs_ReadVaruint s = (Some v, t) \<and> brs_ok t \<and> brs_avail t = rest"
proof -
  have "ReadVaruint list_read (brs_avail s) = (Some v, rest)"
    unfolding assms(2) by (rule ReadVaruint_leb128)
  with brs_ReadVaruint_abs [OF assms(1)] show ?thesis
    by (cases "brs_ReadVaruint s") auto
qed

lemma brs_scalar:
  assumes "brs_ok s" and "brs_avail s = le_bytes n w @ rest" and "8 * n = LENGTH('b)"
  shows "\<exists>t. brs_ReadScalar n s = (Some (w :: 'b::len word), t) \<and> brs_ok t \<and> brs_avail t = rest"
  using brs_ReadScalar_abs [OF assms(1), of n, where 'a = 'b] assms(2,3)
  by (cases "brs_ReadScalar n s :: 'b word option \<times> brs") (auto simp: ReadScalar_list)

lemma brs_value:
  assumes "brs_ok s" and "brs_avail s = value_bytes v @ rest"
  shows "\<exists>t. ms_ReadValue (value_index v) s = Inr (Some v, t) \<and> brs_ok t \<and> brs_avail t = rest"
proof (cases v)
  case (VInt8 w)
  then show ?thesis using brs_scalar [OF assms(1), of 1 w rest] assms(2)
    by (auto simp: ms_ReadValue_def value_index_def value_bytes_def)
next
  case (VInt16 w)
  then show ?thesis using brs_scalar [OF assms(1), of 2 w rest] assms(2)
    by (auto simp: ms_ReadValue_def value_index_def value_bytes_def)
next
  case (VInt32 w)
  then show ?thesis using brs_scalar [OF assms(1), of 4 w rest] assms(2)
    by (auto simp: ms_ReadValue_def value_index_def value_bytes_def)
next
  case (VFloat w)
  then show ?thesis using brs_scalar [OF assms(1), of 4 w rest] assms(2)
    by (auto simp: ms_ReadValue_def value_index_def value_bytes_def)
qed

text \<open>A response that has been extended.\<close>

definition bws_extends :: "bws \<Rightarrow> byte list \<Rightarrow> bws \<Rightarrow> bool" where
  "bws_extends r d r' \<longleftrightarrow> bws_ok r' \<and> bws_out r' = bws_out r @ d \<and> length (bw_mem r') = length (bw_mem r)"

definition bws_room :: "bws \<Rightarrow> nat \<Rightarrow> bool" where
  "bws_room r n \<longleftrightarrow> bws_ok r \<and> bw_off r + n \<le> length (bw_mem r)"

lemma bws_poke_ext: "bws_room r (length d) \<Longrightarrow> \<exists>r'. bws_poke r d = Inr r' \<and> bws_extends r d r'"
  by (auto simp: bws_room_def bws_poke_def bws_extends_def bws_ok_def bws_out_def)

lemma bws_poke_Nil: "bws_room r n \<Longrightarrow> bws_poke r [] = Inr r"
  by (simp add: bws_room_def bws_poke_def bws_ok_def)

lemma bws_extends_off: "bws_extends r d r' \<Longrightarrow> bws_ok r \<Longrightarrow> bw_off r' = bw_off r + length d"
  by (auto simp: bws_extends_def bws_out_def bws_ok_def dest: arg_cong [where f = length])

lemma bws_extends_room: "bws_extends r d r' \<Longrightarrow> bws_room r (length d + n) \<Longrightarrow> bws_room r' n"
  using bws_extends_off [of r d r'] by (auto simp: bws_extends_def bws_room_def)

lemma bws_extends_trans: "bws_extends r a r' \<Longrightarrow> bws_extends r' b r'' \<Longrightarrow> bws_extends r (a @ b) r''"
  by (simp add: bws_extends_def)

lemma bws_room_le: "bws_room r n \<Longrightarrow> m \<le> n \<Longrightarrow> bws_room r m"
  by (simp add: bws_room_def)

lemma length_error_bytes: "length (error_bytes c r e) \<le> 15"
  using length_leb128_u32 [of c] length_leb128_u32 [of r] length_leb128_u32 [of e]
  by (simp add: error_bytes_def)

lemma length_value_bytes: "length (value_bytes v) \<le> 4" "0 < length (value_bytes v)"
  by (cases v; simp add: value_bytes_def)+

lemma length_subframe_head: "length (subframe_head base ty enc n reg) \<le> 15"
proof -
  define w where "w = base + of_nat (4 * ty + enc)"
  show ?thesis
    using length_leb128_u32 [of w] length_leb128_u32 [of n] length_leb128_u32 [of reg]
    unfolding subframe_head_def w_def [symmetric] by simp
qed

section \<open>Writes\<close>

lemma EmitWriteError_poke:
  "EmitWriteError need rsp reg err =
     (if need then bws_poke rsp (error_bytes kWriteError reg err) else Inr rsp)"
  by (simp add: EmitWriteError_def bws_WriteVaruint_poke bws_raw.wr_seq bws_raw.wr_seq_more error_bytes_def)

lemma EmitReadError_poke: "EmitReadError rsp reg err = bws_poke rsp (error_bytes kReadError reg err)"
  by (simp add: EmitReadError_def bws_WriteVaruint_poke bws_raw.wr_seq bws_raw.wr_seq_more error_bytes_def)

abbreviation errs_bytes :: "bool \<Rightarrow> (u32 \<times> u32) list \<Rightarrow> byte list" where
  "errs_bytes need errs \<equiv> (if need then concat (map (\<lambda>(r, e). error_bytes kWriteError r e) errs) else [])"

lemma EmitWriteError_ext:
  assumes "bws_room rsp (15 + n)"
  shows "\<exists>rsp'. EmitWriteError need rsp reg c = Inr rsp' \<and> bws_extends rsp (errs_bytes need [(reg, c)]) rsp'
    \<and> bws_room rsp' n"
proof (cases need)
  case True
  have "bws_room rsp (length (error_bytes kWriteError reg c) + n)"
    using assms length_error_bytes [of kWriteError reg c] by (auto intro: bws_room_le)
  moreover from this obtain rsp' where "bws_poke rsp (error_bytes kWriteError reg c) = Inr rsp'"
      "bws_extends rsp (error_bytes kWriteError reg c) rsp'"
    using bws_poke_ext bws_room_le by (metis le_add1)
  ultimately show ?thesis using True bws_extends_room by (auto simp: EmitWriteError_poke)
next
  case False
  with assms show ?thesis
    by (auto simp: EmitWriteError_poke bws_extends_def bws_room_def)
qed

lemma WriteRegisters_write_all:
  assumes "ms_server s = Some sv" and "brs_ok str" and "brs_avail str = values_bytes vs @ rest"
    and "\<forall>v \<in> set vs. value_index v = ty" and "bws_room rsp (15 * length vs)"
    and "write_all sv reg vs (ms_app s) = (stop, app, errs)"
  shows "\<exists>str' rsp' st. WriteRegisters need ty (length vs) reg (s, str, rsp) =
      Inr (if stop then kDiscard else kContinue, s\<lparr>ms_app := app, ms_stats := st\<rparr>, str', rsp')
    \<and> bws_extends rsp (errs_bytes need errs) rsp' \<and> (\<not> stop \<longrightarrow> brs_ok str' \<and> brs_avail str' = rest)"
  using assms
proof (induction vs arbitrary: reg s str rsp errs)
  case Nil
  then show ?case
    by (intro exI [of _ str] exI [of _ rsp] exI [of _ "ms_stats s"])
      (auto simp: values_bytes_def bws_extends_def bws_room_def)
next
  case (Cons v vs)
  from Cons.prems(3) have av: "brs_avail str = value_bytes v @ values_bytes vs @ rest"
    by (simp add: values_bytes_def)
  obtain t where t: "ms_ReadValue ty str = Inr (Some v, t)" "brs_ok t" "brs_avail t = values_bytes vs @ rest"
    using brs_value [OF Cons.prems(2) av] Cons.prems(4) by auto
  obtain act app' where act: "Write sv reg v (ms_app s) = (act, app')"
    by (cases "Write sv reg v (ms_app s)")
  let ?s = "s\<lparr>ms_app := app'\<rparr>"
  have room: "bws_room rsp (15 + 15 * length vs)" using Cons.prems(5) by simp
  have IH: "\<exists>str' rsp' st. WriteRegisters need ty (length vs) (reg + 1) (?s, t, r) =
      Inr (if stop then kDiscard else kContinue, ?s\<lparr>ms_app := app, ms_stats := st\<rparr>, str', rsp')
    \<and> bws_extends r (errs_bytes need errs') rsp' \<and> (\<not> stop \<longrightarrow> brs_ok str' \<and> brs_avail str' = rest)"
    if "bws_room r (15 * length vs)" and "write_all sv (reg + 1) vs app' = (stop, app, errs')" for r errs'
    using Cons.IH [of ?s t r "reg + 1" errs'] Cons.prems(1,4) t(2,3) that by simp
  have failed: ?case
    if c: "WriteRegisters need ty (Suc (length vs)) reg (s, str, rsp)
        = sbind (EmitWriteError need rsp reg c) (\<lambda>r. WriteRegisters need ty (length vs) (reg + 1) (?s, t, r))"
      and e: "write_all sv (reg + 1) vs app' = (stop, app, errs')" "errs = (reg, c) # errs'" for c errs'
  proof -
    obtain r where r: "EmitWriteError need rsp reg c = Inr r" "bws_extends rsp (errs_bytes need [(reg, c)]) r"
        "bws_room r (15 * length vs)"
      using EmitWriteError_ext [OF room] by blast
    obtain str' rsp' st where q: "WriteRegisters need ty (length vs) (reg + 1) (?s, t, r) =
        Inr (if stop then kDiscard else kContinue, ?s\<lparr>ms_app := app, ms_stats := st\<rparr>, str', rsp')"
        "bws_extends r (errs_bytes need errs') rsp'" "\<not> stop \<longrightarrow> brs_ok str' \<and> brs_avail str' = rest"
      using IH [OF r(3) e(1)] by blast
    have "bws_extends rsp (errs_bytes need errs) rsp'"
      using bws_extends_trans [OF r(2) q(2)] e(2) by (cases need) simp_all
    with c r(1) q show ?thesis
      by (intro exI [of _ str'] exI [of _ rsp'] exI [of _ st]) (simp del: WriteRegisters.simps)
  qed
  show ?case
  proof (cases act)
    case kSuccess
    with Cons.prems(6) act have "write_all sv (reg + 1) vs app' = (stop, app, errs)" by simp
    with IH [OF bws_room_le [OF room]] kSuccess t(1) act Cons.prems(1) show ?thesis
      by (simp add: Let_def)
  next
    case kUnknownRegister
    with Cons.prems(6) act obtain errs' where "write_all sv (reg + 1) vs app' = (stop, app, errs')"
        "errs = (reg, 1) # errs'" by (cases "write_all sv (reg + 1) vs app'") auto
    with failed [of 1] kUnknownRegister t(1) act Cons.prems(1) show ?thesis by (simp add: Let_def)
  next
    case kNotWriteable
    with Cons.prems(6) act obtain errs' where "write_all sv (reg + 1) vs app' = (stop, app, errs')"
        "errs = (reg, 2) # errs'" by (cases "write_all sv (reg + 1) vs app'") auto
    with failed [of 2] kNotWriteable t(1) act Cons.prems(1) show ?thesis by (simp add: Let_def)
  next
    case kDiscardRemaining
    with Cons.prems t act show ?thesis
      by (auto simp: Let_def count_stat_def bws_extends_def bws_room_def)
  qed
qed

section \<open>Reads\<close>

lemma ms_WriteValue_poke: "ms_WriteValue rsp v = bws_poke rsp (value_bytes v)"
  by (cases v) (simp_all add: ms_WriteValue_def bws_WriteScalar_poke value_bytes_def)

lemma bws_reset_extends:
  assumes "bws_extends start d rsp" and "bws_room start 1"
  shows "\<exists>r. bws_reset rsp (bw_off start) = Inr r \<and> bws_extends start [] r"
proof -
  have ok: "bws_ok start" using assms(2) by (simp add: bws_room_def)
  have "take (bw_off start) (take (bw_off rsp) (bw_mem rsp)) = take (bw_off start) (bws_out start @ d)"
    using assms(1) by (simp add: bws_extends_def bws_out_def)
  then have "take (bw_off start) (bw_mem rsp) = bws_out start"
    using bws_extends_off [OF assms(1) ok] ok by (simp add: bws_out_def bws_ok_def min_def)
  with assms show ?thesis
    by (simp add: bws_reset_def bws_extends_def bws_room_def bws_ok_def bws_out_def)
qed

lemma ReadRegisters_read_all:
  assumes "ms_server s = Some sv" and "bws_room start 16"
    and "bws_room rsp (4 * k)" and "bws_extends start d rsp"
  shows "case read_all sv ty reg k (ms_app s) of
      Inr vs \<Rightarrow> \<exists>rsp'. ReadRegisters (bw_off start) ty k reg s rsp = Inr (False, rsp')
         \<and> bws_extends rsp (values_bytes vs) rsp' \<and> length vs = k
    | Inl (r, e) \<Rightarrow> \<exists>rsp'. ReadRegisters (bw_off start) ty k reg s rsp = Inr (True, rsp')
         \<and> bws_extends start (error_bytes kReadError r e) rsp'"
  using assms(3,4)
proof (induction k arbitrary: reg rsp d)
  case 0
  then show ?case by (simp add: values_bytes_def bws_extends_def bws_room_def)
next
  case (Suc k)
  show ?case
  proof (cases "Read sv reg ty (ms_app s)")
    case (RValue v)
    have room: "bws_room rsp (length (value_bytes v) + 4 * k)"
      using Suc.prems(1) length_value_bytes(1) [of v] by (auto intro: bws_room_le)
    then obtain r where r: "bws_poke rsp (value_bytes v) = Inr r" "bws_extends rsp (value_bytes v) r"
      using bws_poke_ext bws_room_le by (metis le_add1)
    have step: "ReadRegisters (bw_off start) ty (Suc k) reg s rsp = ReadRegisters (bw_off start) ty k (reg + 1) s r"
      using RValue r(1) assms(1) by (simp add: ms_Read_def ms_WriteValue_poke)
    note IH = Suc.IH [OF bws_extends_room [OF r(2) room] bws_extends_trans [OF Suc.prems(2) r(2)], of "reg + 1"]
    show ?thesis
    proof (cases "read_all sv ty (reg + 1) k (ms_app s)")
      case (Inl p)
      with IH RValue show ?thesis unfolding step by (cases p) simp
    next
      case (Inr vs)
      with IH obtain r' where "ReadRegisters (bw_off start) ty k (reg + 1) s r = Inr (False, r')"
          "bws_extends r (values_bytes vs) r'" "length vs = k" by auto
      with Inr RValue bws_extends_trans [OF r(2)] show ?thesis
        unfolding step by (auto simp: values_bytes_def)
    qed
  next
    case (RError e)
    obtain r where r: "bws_reset rsp (bw_off start) = Inr r" "bws_extends start [] r"
      using bws_reset_extends [OF Suc.prems(2)] assms(2) bws_room_le by (metis one_le_numeral)
    have "bws_room r 15"
      using bws_extends_room [OF r(2), of 15] assms(2) bws_room_le by simp
    then have "bws_room r (length (error_bytes kReadError reg e))"
      using length_error_bytes bws_room_le by blast
    then obtain r' where "bws_poke r (error_bytes kReadError reg e) = Inr r'"
        "bws_extends r (error_bytes kReadError reg e) r'"
      using bws_poke_ext by blast
    with r bws_extends_trans [OF r(2)] RError assms(1) show ?thesis
      by (simp add: ms_Read_def EmitReadError_poke)
  qed
qed

section \<open>One request\<close>

lemma short_len_cases: "short_len n < 4 \<and> (short_len n \<noteq> 0 \<longrightarrow> short_len n = n)"
  by (simp add: short_len_def)

lemma read_count:
  assumes "brs_ok t" and "enc < 4" and "enc \<noteq> 0 \<longrightarrow> enc = unat n"
    and "brs_avail t = (if enc = 0 then leb128 (unat n) else []) @ leb128 (unat reg) @ rest"
  shows "\<exists>u w. (if enc = 0 then brs_ReadVaruint t else (Some (of_nat enc), t)) = (Some n, u)
    \<and> brs_ReadVaruint u = (Some reg, w) \<and> brs_ok w \<and> brs_avail w = rest"
proof (cases "enc = 0")
  case True
  then obtain u where u: "brs_ReadVaruint t = (Some n, u)" "brs_ok u" "brs_avail u = leb128 (unat reg) @ rest"
    using brs_varuint [OF assms(1), of n] assms(4) by auto
  with brs_varuint [OF u(2,3)] True show ?thesis by auto
next
  case False
  with brs_varuint [OF assms(1), of reg rest] assms(3,4) show ?thesis by auto
qed

lemma reply_number:
  assumes "ty \<le> 3" and "enc < 4"
  shows "kReplyBase OR of_nat (ty * 4) OR of_nat enc = kReplyBase + of_nat (4 * ty + enc)"
proof -
  have "ty = 0 \<or> ty = 1 \<or> ty = 2 \<or> ty = 3" "enc = 0 \<or> enc = 1 \<or> enc = 2 \<or> enc = 3"
    using assms by linarith+
  then show ?thesis by (auto simp: kReplyBase_def)
qed

lemma type_length: "(enc :: nat) < 4 \<Longrightarrow> (4 * ty + enc) mod 4 = enc \<and> (4 * ty + enc) div 4 = ty"
  by simp

lemma ProcessSubframe_write:
  assumes "ms_server s = Some sv" and "brs_ok str" and "brs_avail str = req_bytes (WriteReq reg vs) @ rest"
    and "req_ok (WriteReq reg vs)" and "bws_room rsp (reply_bound (WriteReq reg vs))"
    and "write_all sv reg vs (ms_app s) = (stop, app, errs)"
  shows "\<exists>str' rsp' st. ProcessSubframe need (s, str, rsp) =
      Inr (stop, s\<lparr>ms_app := app, ms_stats := st\<rparr>, str', rsp')
    \<and> bws_extends rsp (errs_bytes need errs) rsp' \<and> (\<not> stop \<longrightarrow> brs_ok str' \<and> brs_avail str' = rest)"
proof -
  define ty where "ty = value_index (hd vs)"
  define enc where "enc = short_len (length vs)"
  define sid where "sid = kWriteBase + of_nat (4 * ty + enc)"
  have n: "unat (of_nat (length vs) :: u32) = length vs"
    using assms(4) by (simp add: unat_of_nat take_bit_nat_eq_self)
  have enc: "enc < 4" "enc \<noteq> 0 \<longrightarrow> enc = unat (of_nat (length vs) :: u32)"
    using short_len_cases [of "length vs"] n by (simp_all add: enc_def)
  have ty: "ty \<le> 3" by (simp add: ty_def value_index_le)
  have base: "unat kWriteBase mod 4 = 0" "unat kWriteBase < 2 ^ 31" by (simp_all add: kWriteBase_def)
  note num = subframe_number [OF ty enc(1) sid_def base]
  have small: "unat sid < 16" using num(5) ty enc(1) by (simp add: kWriteBase_def)
  then have other: "sid \<noteq> kClientToServer" "sid \<noteq> kClientPollServer" "sid \<noteq> kNop"
    by (auto simp: subframe_codes)
  have av: "brs_avail str = leb128 (unat sid)
      @ (if enc = 0 then leb128 (unat (of_nat (length vs) :: u32)) else []) @ leb128 (unat reg)
      @ values_bytes vs @ rest"
    using assms(3)
    unfolding req_bytes.simps write_bytes_def subframe_head_def append_assoc sid_def ty_def enc_def .
  obtain t where t: "brs_ReadVaruint str = (Some sid, t)" "brs_ok t"
      "brs_avail t = (if enc = 0 then leb128 (unat (of_nat (length vs) :: u32)) else []) @ leb128 (unat reg)
      @ values_bytes vs @ rest"
    using brs_varuint [OF assms(2) av] by blast
  obtain u w where uw: "(if enc = 0 then brs_ReadVaruint t else (Some (of_nat enc), t)) = (Some (of_nat (length vs)), u)"
      "brs_ReadVaruint u = (Some reg, w)" "brs_ok w" "brs_avail w = values_bytes vs @ rest"
    using read_count [OF t(2) enc t(3)] by blast
  have types: "\<forall>v \<in> set vs. value_index v = ty" and room: "bws_room rsp (15 * length vs)"
    using assms(4,5) unfolding req_ok.simps reply_bound.simps ty_def by blast+
  obtain str' rsp' st where wr: "WriteRegisters need ty (length vs) reg (s, w, rsp) =
      Inr (if stop then kDiscard else kContinue, s\<lparr>ms_app := app, ms_stats := st\<rparr>, str', rsp')"
      "bws_extends rsp (errs_bytes need errs) rsp'" "\<not> stop \<longrightarrow> brs_ok str' \<and> brs_avail str' = rest"
    using WriteRegisters_write_all [OF assms(1) uw(3,4) types room assms(6)] by blast
  have "ProcessSubframeWrite need (unat (sid - kWriteBase)) (s, t, rsp) =
      Inr (if stop then kDiscard else kContinue, s\<lparr>ms_app := app, ms_stats := st\<rparr>, str', rsp')"
    using uw(1,2) wr(1) n type_length [OF enc(1), of ty]
    unfolding ProcessSubframeWrite_def num(3) by (simp add: Let_def)
  then have "ProcessSubframe need (s, str, rsp) = Inr (stop, s\<lparr>ms_app := app, ms_stats := st\<rparr>, str', rsp')"
    using t(1) other num(1,2) by (simp add: ProcessSubframe_def)
  with wr(2,3) show ?thesis by blast
qed

lemma ProcessSubframe_read:
  assumes "ms_server s = Some sv" and "brs_ok str" and "brs_avail str = req_bytes (ReadReq ty n reg) @ rest"
    and "req_ok (ReadReq ty n reg)" and "bws_room rsp (reply_bound (ReadReq ty n reg))"
    and "run_request True sv (ReadReq ty n reg) (ms_app s) = (stop, app, its)"
  shows "\<exists>str' rsp' st. ProcessSubframe True (s, str, rsp) =
      Inr (stop, s\<lparr>ms_app := app, ms_stats := st\<rparr>, str', rsp')
    \<and> bws_extends rsp (concat (map item_bytes its)) rsp' \<and> (\<not> stop \<longrightarrow> brs_ok str' \<and> brs_avail str' = rest)"
proof -
  define enc where "enc = short_len (unat n)"
  define sid where "sid = kReadBase + of_nat (4 * ty + enc)"
  have enc: "enc < 4" "enc \<noteq> 0 \<longrightarrow> enc = unat n"
    using short_len_cases [of "unat n"] by (simp_all add: enc_def)
  have ty: "ty \<le> 3" and n0: "0 < unat n" using assms(4) by (auto simp: word_less_nat_alt)
  have base: "unat kReadBase mod 4 = 0" "unat kReadBase < 2 ^ 31" by (simp_all add: kReadBase_def)
  note num = subframe_number [OF ty enc(1) sid_def base]
  have small: "unat sid < 32" "16 \<le> unat sid" using num(5) ty enc(1) by (simp_all add: kReadBase_def)
  then have other: "sid \<noteq> kClientToServer" "sid \<noteq> kClientPollServer" "sid \<noteq> kNop"
      "\<not> sid < kWriteBase + 16"
    by (auto simp: subframe_codes word_less_nat_alt)
  have av: "brs_avail str = leb128 (unat sid)
      @ (if enc = 0 then leb128 (unat n) else []) @ leb128 (unat reg) @ rest"
    using assms(3) unfolding req_bytes.simps read_bytes_def subframe_head_def append_assoc sid_def enc_def .
  obtain t where t: "brs_ReadVaruint str = (Some sid, t)" "brs_ok t"
      "brs_avail t = (if enc = 0 then leb128 (unat n) else []) @ leb128 (unat reg) @ rest"
    using brs_varuint [OF assms(2) av] by blast
  obtain u w where uw: "(if enc = 0 then brs_ReadVaruint t else (Some (of_nat enc), t)) = (Some n, u)"
      "brs_ReadVaruint u = (Some reg, w)" "brs_ok w" "brs_avail w = rest"
    using read_count [OF t(2) enc t(3)] by blast
  let ?hd = "subframe_head kReplyBase ty enc n reg"
  have room: "bws_room rsp (length ?hd + 4 * unat n)"
    using assms(5) length_subframe_head [of kReplyBase ty enc n reg] by (auto intro: bws_room_le)
  then obtain r where r: "bws_poke rsp ?hd = Inr r" "bws_extends rsp ?hd r"
    using bws_poke_ext bws_room_le by (metis le_add1)
  have head: "sbind (bws_WriteVaruint rsp (kReplyBase + of_nat (4 * ty + enc))) (\<lambda>rsp.
      sbind (if enc = 0 then bws_WriteVaruint rsp n else Inr rsp) (\<lambda>rsp.
      sbind (bws_WriteVaruint rsp reg) f)) = f r" for f :: "bws \<Rightarrow> (bool \<times> 'a pstate) res"
    using r(1) by (cases "enc = 0")
      (simp_all add: subframe_head_def bws_raw.wr_seq_more bws_WriteVaruint_poke del: of_nat_add of_nat_mult)
  have "ProcessSubframeRead True (unat (sid - kReadBase)) (s, t, rsp) =
      sbind (ReadRegisters (bw_off rsp) ty (unat n) reg s r) (\<lambda>(bad, rsp). Inr (bad, s, w, rsp))"
    using uw(1,2) type_length [OF enc(1), of ty] reply_number [OF ty enc(1)] head
    unfolding ProcessSubframeRead_def num(3)
    by (simp add: Let_def del: of_nat_add of_nat_mult)
  then have proc: "ProcessSubframe True (s, str, rsp) =
      sbind (ReadRegisters (bw_off rsp) ty (unat n) reg s r) (\<lambda>(bad, rsp).
        Inr (bad, (if bad then count_stat (\<lambda>x. x\<lparr>malformed_subframe := malformed_subframe x + 1\<rparr>) s
                   else s), w, rsp))"
    using t(1) other num(1,2)
    by (cases "ReadRegisters (bw_off rsp) ty (unat n) reg s r") (auto simp: ProcessSubframe_def Let_def)
  have "bws_room rsp 16" using assms(5) n0 by (auto intro: bws_room_le)
  note reads = ReadRegisters_read_all [OF assms(1) this bws_extends_room [OF r(2) room] r(2), of ty reg]
  show ?thesis
  proof (cases "read_all sv ty reg (unat n) (ms_app s)")
    case (Inl p)
    obtain q e where p: "p = (q, e)" by (cases p)
    from reads Inl p obtain r' where "ReadRegisters (bw_off rsp) ty (unat n) reg s r = Inr (True, r')"
        "bws_extends rsp (error_bytes kReadError q e) r'" by auto
    with proc assms(6) Inl p show ?thesis by (auto simp: count_stat_def)
  next
    case (Inr vs)
    with reads obtain r' where "ReadRegisters (bw_off rsp) ty (unat n) reg s r = Inr (False, r')"
        "bws_extends r (values_bytes vs) r'" "length vs = unat n" by auto
    moreover from this have "bws_extends rsp (reply_bytes ty enc reg vs) r'"
      using bws_extends_trans [OF r(2)] by (simp add: reply_bytes_def)
    ultimately show ?thesis
      using proc assms(6) Inr uw(3,4)
      by (intro exI [of _ w] exI [of _ r'] exI [of _ "ms_stats s"]) (auto simp: enc_def)
  qed
qed

section \<open>A frame of requests\<close>

text \<open>The server may be asked to read only when it may answer.\<close>

fun answerable :: "bool \<Rightarrow> request \<Rightarrow> bool" where
  "answerable need (WriteReq reg vs) = True"
| "answerable need (ReadReq ty n reg) = need"

lemma item_bytes_errors:
  "concat (map item_bytes (if need then map (\<lambda>(r, e). Error kWriteError r e) errs else [])) = errs_bytes need errs"
proof -
  have "item_bytes \<circ> (\<lambda>(r, e). Error kWriteError r e) = (\<lambda>(r, e). error_bytes kWriteError r e)" by auto
  then show ?thesis by simp
qed

lemma ProcessSubframe_request:
  assumes "ms_server s = Some sv" and "brs_ok str" and "brs_avail str = req_bytes req @ rest"
    and "req_ok req" and "answerable need req" and "bws_room rsp (reply_bound req)"
    and "run_request need sv req (ms_app s) = (stop, app, its)"
  shows "\<exists>str' rsp' st. ProcessSubframe need (s, str, rsp) =
      Inr (stop, s\<lparr>ms_app := app, ms_stats := st\<rparr>, str', rsp')
    \<and> bws_extends rsp (concat (map item_bytes its)) rsp' \<and> (\<not> stop \<longrightarrow> brs_ok str' \<and> brs_avail str' = rest)"
proof (cases req)
  case (WriteReq reg vs)
  obtain errs where w: "write_all sv reg vs (ms_app s) = (stop, app, errs)"
      "its = (if need then map (\<lambda>(r, e). Error kWriteError r e) errs else [])"
    using assms(7) WriteReq by (auto split: prod.splits)
  from ProcessSubframe_write [OF assms(1,2) assms(3,4,6) [unfolded WriteReq] w(1), of need] show ?thesis
    unfolding w(2) item_bytes_errors .
next
  case (ReadReq ty n reg)
  with assms(5) have "need" by simp
  with ProcessSubframe_read [OF assms(1,2) assms(3,4,6) [unfolded ReadReq]] assms(7) ReadReq show ?thesis
    by simp
qed

lemma req_bytes_not_Nil: "req_bytes r \<noteq> []"
  by (cases r) (simp_all add: write_bytes_def read_bytes_def subframe_head_def)

text \<open>An item is never longer than the room its request was given.\<close>

lemma length_values_bytes: "length (values_bytes vs) \<le> 4 * length vs"
proof (induction vs)
  case (Cons v vs)
  then show ?case using length_value_bytes(1) [of v] by (simp add: values_bytes_def)
qed (simp add: values_bytes_def)

lemma write_all_errs: "write_all sv reg vs app = (stop, app', errs) \<Longrightarrow> length errs \<le> length vs"
proof (induction vs arbitrary: reg app errs)
  case (Cons v vs)
  then show ?case
    by (cases "Write sv reg v app"; cases "fst (Write sv reg v app)")
      (auto split: prod.splits simp: apsnd_def map_prod_def, fastforce+)
qed simp

lemma read_all_length: "read_all sv ty reg k app = Inr vs \<Longrightarrow> length vs = k"
proof (induction k arbitrary: reg vs)
  case (Suc k)
  then show ?case
    by (cases "read_all sv ty (reg + 1) k app") (auto split: read_result.splits)
qed simp

lemma length_errs_bytes: "length (concat (map (\<lambda>(r, e). error_bytes c r e) errs)) \<le> 15 * length errs"
proof (induction errs)
  case (Cons p errs)
  then show ?case using length_error_bytes [of c "fst p" "snd p"] by (cases p) simp
qed simp

lemma run_request_bound:
  assumes "run_request need sv req app = (stop, app', its)" and "req_ok req"
  shows "length (concat (map item_bytes its)) \<le> reply_bound req"
proof (cases req)
  case (WriteReq reg vs)
  obtain errs where w: "write_all sv reg vs app = (stop, app', errs)"
      "its = (if need then map (\<lambda>(r, e). Error kWriteError r e) errs else [])"
    using assms(1) WriteReq by (auto split: prod.splits)
  show ?thesis
    unfolding w(2) item_bytes_errors
    using length_errs_bytes [of kWriteError errs] write_all_errs [OF w(1)] WriteReq by simp
next
  case (ReadReq ty n reg)
  show ?thesis
  proof (cases "read_all sv ty reg (unat n) app")
    case (Inl p)
    then show ?thesis
      using assms(1) ReadReq length_error_bytes [of kReadError "fst p" "snd p"]
      by (cases p) (auto intro: order.trans)
  next
    case (Inr vs)
    then show ?thesis
      using assms(1) ReadReq length_values_bytes [of vs] read_all_length [OF Inr]
        length_subframe_head [of kReplyBase ty "short_len (unat n)" n reg]
      by (auto simp: reply_bytes_def)
  qed
qed

lemma ProcessSubframes_requests:
  assumes "ms_server s = Some sv" and "brs_ok str" and "brs_avail str = concat (map req_bytes reqs)"
    and "\<forall>r \<in> set reqs. req_ok r \<and> answerable need r" and "bws_room rsp (sum_list (map reply_bound reqs))"
    and "run_requests need sv reqs (ms_app s) = (app, its)"
  shows "\<exists>str' rsp' st. ProcessSubframes_loop need (s, str, rsp) =
      Inr (s\<lparr>ms_app := app, ms_stats := st\<rparr>, str', rsp')
    \<and> bws_extends rsp (concat (map item_bytes its)) rsp'"
  using assms
proof (induction reqs arbitrary: s str rsp its)
  case Nil
  then have "brs_remaining str = 0" by (simp add: brs_remaining_avail)
  with Nil show ?case
    by (intro exI [of _ str] exI [of _ rsp] exI [of _ "ms_stats s"])
      (auto simp: ProcessSubframes_loop.simps bws_extends_def bws_room_def)
next
  case (Cons r rs)
  obtain stop app1 its1 where run: "run_request need sv r (ms_app s) = (stop, app1, its1)"
    by (cases "run_request need sv r (ms_app s)")
  have pos: "0 < brs_remaining str"
    using Cons.prems(2,3) req_bytes_not_Nil [of r]
    by (cases "req_bytes r") (auto simp: brs_remaining_avail)
  have room: "bws_room rsp (reply_bound r)" using Cons.prems(5) by (auto intro: bws_room_le)
  have bound: "length (concat (map item_bytes its1)) \<le> reply_bound r"
    using run_request_bound [OF run] Cons.prems(4) by simp
  obtain str1 rsp1 st1 where one: "ProcessSubframe need (s, str, rsp) =
      Inr (stop, s\<lparr>ms_app := app1, ms_stats := st1\<rparr>, str1, rsp1)"
      "bws_extends rsp (concat (map item_bytes its1)) rsp1"
      "\<not> stop \<longrightarrow> brs_ok str1 \<and> brs_avail str1 = concat (map req_bytes rs)"
    using ProcessSubframe_request [OF Cons.prems(1,2) _ _ _ room run, of "concat (map req_bytes rs)"]
      Cons.prems(3,4) by auto
  show ?case
  proof (cases stop)
    case True
    then have "ProcessSubframes_loop need (s, str, rsp) = Inr (s\<lparr>ms_app := app1, ms_stats := st1\<rparr>, str1, rsp1)"
      using one(1) pos by (simp add: ProcessSubframes_loop.simps [of need s str rsp])
    moreover have "app = app1" "its = its1" using Cons.prems(6) run True by simp_all
    ultimately show ?thesis using one(2) by blast
  next
    case False
    obtain its2 where its: "run_requests need sv rs app1 = (app, its2)" "its = its1 @ its2"
      using Cons.prems(6) run False by (cases "run_requests need sv rs app1") auto
    have room1: "bws_room rsp1 (sum_list (map reply_bound rs))"
    proof (rule bws_extends_room [OF one(2)])
      show "bws_room rsp (length (concat (map item_bytes its1)) + sum_list (map reply_bound rs))"
        using Cons.prems(5) bound by (auto intro: bws_room_le)
    qed
    let ?s = "s\<lparr>ms_app := app1, ms_stats := st1\<rparr>"
    obtain str' rsp' st where "ProcessSubframes_loop need (?s, str1, rsp1) =
        Inr (?s\<lparr>ms_app := app, ms_stats := st\<rparr>, str', rsp')" "bws_extends rsp1 (concat (map item_bytes its2)) rsp'"
      using Cons.IH [of ?s str1 rsp1 its2] Cons.prems(1,4) one(3) False room1 its(1) by auto
    moreover from this have "bws_extends rsp (concat (map item_bytes its)) rsp'"
      using bws_extends_trans [OF one(2)] its(2) by simp
    moreover have "ProcessSubframes_loop need (s, str, rsp) = ProcessSubframes_loop need (?s, str1, rsp1)"
      using one(1) False pos by (simp add: ProcessSubframes_loop.simps [of need s str rsp])
    ultimately show ?thesis by auto
  qed
qed

section \<open>From the client's calls to the client's results\<close>

text \<open>The client's calls for a list of requests.\<close>

fun build_request :: "request list \<Rightarrow> register_request \<Rightarrow> register_request res" where
  "build_request [] s = Inr s"
| "build_request (WriteReq reg vs # rs) s = sbind (WriteMultiple s reg vs) (build_request rs)"
| "build_request (ReadReq ty n reg # rs) s = sbind (ReadMultiple s reg n ty) (build_request rs)"

lemma build_request_bytes:
  "rr_ok s \<Longrightarrow> \<forall>r \<in> set reqs. req_ok r \<Longrightarrow>
     \<exists>t. build_request reqs s = Inr t \<and> rr_bytes t = rr_bytes s @ concat (map req_bytes reqs)
       \<and> rr_request_reply t = (rr_request_reply s \<or> (\<exists>r \<in> set reqs. \<not> answerable False r))"
proof (induction reqs arbitrary: s)
  case (Cons r rs)
  show ?case
  proof (cases r)
    case (WriteReq reg vs)
    then obtain t where "WriteMultiple s reg vs = Inr t" "rr_ok t" "rr_bytes t = rr_bytes s @ write_bytes reg vs"
        "rr_request_reply t = rr_request_reply s"
      using WriteMultiple_bytes [OF Cons.prems(1), of vs reg] Cons.prems(2) by (auto simp: rr_appends_def)
    with Cons.IH [of t] Cons.prems(2) WriteReq show ?thesis by auto
  next
    case (ReadReq ty n reg)
    then obtain t where "ReadMultiple s reg n ty = Inr t" "rr_ok t" "rr_bytes t = rr_bytes s @ read_bytes ty n reg"
        "rr_request_reply t"
      using ReadMultiple_bytes [OF Cons.prems(1), of n ty reg] Cons.prems(2) by (auto simp: rr_appends_def)
    with Cons.IH [of t] Cons.prems(2) ReadReq show ?thesis by auto
  qed
qed simp

lemma rr_init_ok: "rr_ok rr_init" "rr_bytes rr_init = []"
  by (simp_all add: rr_ok_def rr_init_def rr_bytes_def fos_ok_def fos_init_def fos_str_def)

text \<open>
  What \<open>Server::Read\<close> promises: the value it returns is of the type asked for
  (\<open>micro_server.h\<close>: \<open>type_index\<close> describes what type to return).
\<close>

definition reads_typed :: "'a server \<Rightarrow> bool" where
  "reads_typed sv \<longleftrightarrow> (\<forall>reg ty app v. Read sv reg ty app = RValue v \<longrightarrow> value_index v = ty)"

lemma read_all_typed:
  "reads_typed sv \<Longrightarrow> read_all sv ty reg k app = Inr vs \<Longrightarrow> \<forall>v \<in> set vs. value_index v = ty"
proof (induction k arbitrary: reg vs)
  case (Suc k)
  obtain v where v: "Read sv reg ty app = RValue v" using Suc.prems(2) by (cases "Read sv reg ty app") auto
  obtain ws where ws: "read_all sv ty (reg + 1) k app = Inr ws" "vs = v # ws"
    using Suc.prems(2) v by (cases "read_all sv ty (reg + 1) k app") auto
  have "value_index v = ty" using Suc.prems(1) v unfolding reads_typed_def by blast
  with Suc.IH [OF Suc.prems(1) ws(1)] ws(2) show ?case by simp
qed simp

lemma run_request_items_ok:
  assumes "reads_typed sv" and "req_ok r" and "run_request need sv r app = (stop, app', its)"
  shows "\<forall>it \<in> set its. item_ok it"
proof (cases r)
  case (WriteReq reg vs)
  with assms(3) show ?thesis by (auto split: prod.splits if_splits)
next
  case (ReadReq ty n reg)
  show ?thesis
  proof (cases "read_all sv ty reg (unat n) app")
    case (Inl p)
    with assms(3) ReadReq show ?thesis by (cases p) auto
  next
    case (Inr vs)
    have "unat n < 2 ^ 32" using unsigned_less [of n] by simp
    moreover have "short_len (unat n) = 0 \<or> short_len (unat n) = unat n \<and> short_len (unat n) < 4"
      by (simp add: short_len_def)
    ultimately show ?thesis
      using assms ReadReq Inr read_all_length [OF Inr] read_all_typed [OF assms(1) Inr] by auto
  qed
qed

lemma run_requests_items_ok:
  "reads_typed sv \<Longrightarrow> \<forall>r \<in> set reqs. req_ok r \<Longrightarrow> run_requests need sv reqs app = (app', its) \<Longrightarrow>
     \<forall>it \<in> set its. item_ok it"
proof (induction reqs arbitrary: app its)
  case (Cons r rs)
  obtain stop app1 its1 where r: "run_request need sv r app = (stop, app1, its1)"
    by (cases "run_request need sv r app")
  have one: "\<forall>it \<in> set its1. item_ok it"
    using run_request_items_ok [OF Cons.prems(1) _ r] Cons.prems(2) by simp
  show ?case
  proof (cases stop)
    case True
    with Cons.prems(3) r one show ?thesis by simp
  next
    case False
    then obtain its2 where "run_requests need sv rs app1 = (app', its2)" "its = its1 @ its2"
      using Cons.prems(3) r by (cases "run_requests need sv rs app1") auto
    with Cons.IH [OF Cons.prems(1)] Cons.prems(2) one show ?thesis by auto
  qed
qed simp

lemma ProcessSubframes_total:
  assumes "ms_server s = Some sv" and "\<forall>r \<in> set reqs. req_ok r \<and> answerable need r"
    and "sum_list (map reply_bound reqs) \<le> length mem"
    and "run_requests need sv reqs (ms_app s) = (app, its)"
  shows "\<exists>rsp st. ProcessSubframes need (concat (map req_bytes reqs)) s (bws_init mem) =
      Inr (s\<lparr>ms_app := app, ms_stats := st\<rparr>, rsp)
    \<and> take (bw_off rsp) (bw_mem rsp) = concat (map item_bytes its)"
proof -
  have "bws_room (bws_init mem) (sum_list (map reply_bound reqs))"
    using assms(3) by (simp add: bws_room_def bws_init_def bws_ok_def)
  from ProcessSubframes_requests [OF assms(1) _ _ assms(2) this assms(4), of "brs_init (concat (map req_bytes reqs))"]
  show ?thesis by (auto simp: ProcessSubframes_def bws_extends_def bws_out_def bws_init_def)
qed

lemma source_bits:
  "word_of_int (uint (src OR 0x80 :: byte)) AND (0x80 :: u32) \<noteq> 0"
  "word_of_int (uint (src OR 0x80 :: byte)) AND (0x7f :: byte) = src AND 0x7f"
proof -
  have "bit (src OR 0x80) 7" unfolding bit_or_iff by (simp add: bit_7_byte)
  then have "bit (word_of_int (uint (src OR 0x80)) :: u32) 7" by (simp add: bit_unsigned_iff)
  then have "word_of_int (uint (src OR 0x80)) AND (push_bit 7 1 :: u32) \<noteq> 0"
    by (metis and_exp_eq_0_iff_not_bit push_bit_of_1)
  then show "word_of_int (uint (src OR 0x80 :: byte)) AND (0x80 :: u32) \<noteq> 0" by simp
  have "word_of_int (uint (src OR 0x80 :: byte)) = (src OR 0x80 :: byte)" by simp
  then show "word_of_int (uint (src OR 0x80 :: byte)) AND (0x7f :: byte) = src AND 0x7f"
    by (simp add: bit.conj_disj_distrib2)
qed

section \<open>Properties\<close>

lemma run_requests_bound:
  "run_requests need sv reqs app = (app', its) \<Longrightarrow> \<forall>r \<in> set reqs. req_ok r \<Longrightarrow>
   length (concat (map item_bytes its)) \<le> sum_list (map reply_bound reqs)"
proof (induction reqs arbitrary: app its)
  case (Cons r reqs)
  obtain stop app1 its1 where one: "run_request need sv r app = (stop, app1, its1)" by (cases "run_request need sv r app") auto
  have "length (concat (map item_bytes its1)) \<le> reply_bound r"
    using run_request_bound [OF one] Cons.prems(2) by simp
  moreover obtain app2 its2 where two: "run_requests need sv reqs app1 = (app2, its2)" by fastforce
  ultimately show ?case
    using Cons.IH [of app1 its2] Cons.prems one two by (cases stop) (auto simp: length_concat)
qed simp

lemma rpc_end_to_end:
  assumes "build_request reqs rr_init = Inr rr" and "\<forall>r \<in> set reqs. req_ok r"
    and "ms_server s = Some sv" and "reads_typed sv" and "\<not> write_outstanding s"
    and "hd_destination h = uint (config_id s AND 0x7f)" and "config_id s AND 0x7f \<noteq> 0x7f"
    and "hd_source h = uint (src OR 0x80 :: byte)" and "hd_size h = int (length (rr_bytes rr))"
    and "sum_list (map reply_bound reqs) \<le> length (ms_write_buffer s)"
    and "run_requests True sv reqs (StartFrame sv (ms_app s)) = (app, its)"
    and "CompleteFrame sv app = (kAccept, app')"
  shows "\<exists>s' h' reply. HandleReadDatagram False h (rr_bytes rr) s =
        Inr (s', [ms_StartWrite h' reply h, ms_StartRead])
    \<and> ms_app s' = app' \<and> write_outstanding s' \<and> read_outstanding s' \<and> tunnels s' = tunnels s
    \<and> hd_destination h' = uint (src AND 0x7f) \<and> hd_source h' = uint (config_id s AND 0x7f)
    \<and> map_option fst (ParseRegisterReply_vector fis_read (fis_init reply)) = Some (concat (map item_pairs its))
    \<and> length reply \<le> sum_list (map reply_bound reqs)"
proof -
  have req: "rr_bytes rr = concat (map req_bytes reqs)"
    using build_request_bytes [OF rr_init_ok(1) assms(2)] assms(1) by (auto simp: rr_init_ok(2))
  let ?s = "s\<lparr>read_outstanding := False, read_header := h, ms_read_buffer := rr_bytes rr,
      ms_app := StartFrame sv (ms_app s)\<rparr>"
  have "\<forall>r \<in> set reqs. req_ok r \<and> answerable True r"
    using assms(2) by (metis (full_types) answerable.simps request.exhaust)
  from ProcessSubframes_total [of ?s sv reqs True "ms_write_buffer s" app its] this assms(3,10,11)
  obtain rsp st where sub: "ProcessSubframes True (rr_bytes rr) ?s (bws_init (ms_write_buffer s)) =
      Inr (?s\<lparr>ms_app := app, ms_stats := st\<rparr>, rsp)" "take (bw_off rsp) (bw_mem rsp) = concat (map item_bytes its)"
    by (auto simp: req)
  have dest: "hd_destination h \<noteq> kBroadcastId"
  proof
    assume "hd_destination h = kBroadcastId"
    then have "word_of_int (uint (config_id s AND 0x7f)) = (word_of_int 0x7f :: byte)"
      using assms(6) by (simp add: kBroadcastId_def)
    with assms(7) show False by simp
  qed
  have src: "word_of_int (hd_source h) AND (0x80 :: u32) \<noteq> 0"
      "word_of_int (hd_source h) AND (0x7f :: byte) = src AND 0x7f"
    using source_bits [of src] assms(8) by simp_all
  have frame: "ProcessFrame (s\<lparr>read_outstanding := False, read_header := h, ms_read_buffer := rr_bytes rr\<rparr>) =
      WriteResponse (src AND 0x7f) (bw_off rsp)
        (?s\<lparr>ms_stats := st, ms_write_buffer := bw_mem rsp, ms_app := app'\<rparr>)"
    using assms(3,5,6,9,12) dest src sub(1)
    by (simp add: ProcessFrame_def Let_def)
  have "map_option fst (ParseRegisterReply_vector fis_read (fis_init (concat (map item_bytes its))))
      = Some (concat (map item_pairs its))"
    using run_requests_items_ok [OF assms(4,2,11)] by (rule ParseRegisterReply_items)
  with frame sub(2) assms(5) run_requests_bound [OF assms(11,2)] show ?thesis
    by (simp add: HandleReadDatagram_def WriteResponse_def MaybeStartReadFrame_def)
qed

text \<open>
  C2. A register exchange from the client's calls to the client's results. The
  client builds a request from any list of writes and reads; the frame arrives at the server
  it is addressed to, with a reply requested, while no reply is being sent; the reply buffer
  is large enough for any answer. Then the server starts the frame, performs exactly the
  requested writes and reads, in order, up to the first discard or read error, completes the
  frame, and sends back to the client a reply from which \<open>ParseRegisterReply\<close> recovers exactly
  the values and errors of these operations, in order.
\<close>

theorem register_rpc_end_to_end:
  assumes "build_request reqs rr_init = Inr rr" and "\<forall>r \<in> set reqs. req_ok r"
    and "ms_server s = Some sv" and "reads_typed sv" and "\<not> write_outstanding s"
    and "hd_destination h = uint (config_id s AND 0x7f)" and "config_id s AND 0x7f \<noteq> 0x7f"
    and "hd_source h = uint (src OR 0x80 :: byte)" and "hd_size h = int (length (rr_bytes rr))"
    and "sum_list (map reply_bound reqs) \<le> length (ms_write_buffer s)"
    and "run_requests True sv reqs (StartFrame sv (ms_app s)) = (app, its)"
    and "CompleteFrame sv app = (kAccept, app')"
  shows "\<exists>s' h' reply. HandleReadDatagram False h (rr_bytes rr) s =
        Inr (s', [ms_StartWrite h' reply h, ms_StartRead])
    \<and> ms_app s' = app' \<and> write_outstanding s' \<and> read_outstanding s' \<and> tunnels s' = tunnels s
    \<and> hd_destination h' = uint (src AND 0x7f) \<and> hd_source h' = uint (config_id s AND 0x7f)
    \<and> map_option fst (ParseRegisterReply_vector fis_read (fis_init reply)) = Some (concat (map item_pairs its))"
  using rpc_end_to_end [OF assms] by blast

text \<open>An application with one register, and a tunnel user that does nothing.\<close>

definition demo_server :: "byte server" where
  "demo_server = \<lparr>StartFrame = (\<lambda>a. a),
     Write = (\<lambda>reg v a. case v of VInt8 x \<Rightarrow> (kSuccess, x) | _ \<Rightarrow> (kUnknownRegister, a)),
     Read = (\<lambda>reg ty a. if ty = 0 then RValue (VInt8 a) else RError 2),
     CompleteFrame = (\<lambda>a. (kAccept, a))\<rparr>"

definition demo_state :: "byte micro_server" where
  "demo_state = (ms_init 64 1 1 115 (replicate 64 0)
     \<lparr>on_read = (\<lambda>i d a. ([], a)), on_write = (\<lambda>i n a. ([], a))\<rparr> 0)\<lparr>ms_server := Some demo_server\<rparr>"

theorem register_rpc_end_to_end_witness:
  "\<exists>rr s' h' reply. build_request [WriteReq 5 [VInt8 7], ReadReq 0 1 5] rr_init = Inr rr
    \<and> HandleReadDatagram False \<lparr>hd_source = 0x83, hd_destination = 1, hd_size = 5\<rparr> (rr_bytes rr) demo_state =
        Inr (s', [ms_StartWrite h' reply \<lparr>hd_source = 0x83, hd_destination = 1, hd_size = 5\<rparr>, ms_StartRead])
    \<and> ms_app s' = 7 \<and> hd_destination h' = 3
    \<and> map_option fst (ParseRegisterReply_vector fis_read (fis_init reply)) = Some [(5, RValue (VInt8 7))]"
proof -
  let ?reqs = "[WriteReq 5 [VInt8 7], ReadReq 0 1 5]"
  have ok: "\<forall>r \<in> set ?reqs. req_ok r" by simp
  obtain rr where rr: "build_request ?reqs rr_init = Inr rr" "rr_bytes rr = concat (map req_bytes ?reqs)"
    using build_request_bytes [OF rr_init_ok(1) ok] by (auto simp: rr_init_ok(2))
  have len: "length (rr_bytes rr) = 5"
    unfolding rr(2)
    by (simp add: write_bytes_def read_bytes_def subframe_head_def short_len_def value_index_def
        values_bytes_def value_bytes_def subframe_codes leb128_small)
  have typed: "reads_typed demo_server" by (auto simp: reads_typed_def demo_server_def value_index_def)
  let ?h = "\<lparr>hd_source = 0x83, hd_destination = 1, hd_size = 5\<rparr>"
  have "run_requests True demo_server ?reqs (StartFrame demo_server (ms_app demo_state))
      = (7, [Values 0 1 5 [VInt8 7]])"
    by (simp add: demo_server_def demo_state_def short_len_def)
  from register_rpc_end_to_end [OF rr(1) ok _ typed _ _ _ _ _ _ this, where h = ?h and src = 3] len rr(1)
  show ?thesis
    by (auto simp: demo_state_def demo_server_def ms_init_def)
qed

end
