(* ===== verification/Server_Safety.thy ===== *)
theory Server_Safety
  imports Register_Server
begin

text \<open>
  What holds of the server for every frame, well formed or not: frames for other nodes have no
  effect, and a frame that asks for no answer cannot make the server fault. The last section
  shows what a read request does in a frame that asks for no answer.
\<close>

section \<open>Definitions\<close>

text \<open>
  What a tunnel asks of its user is what every \<open>AsyncStream\<close> does: one read and one write
  outstanding at a time. \<open>tunnel_busy\<close> says which are, and \<open>calls_ok\<close> that calls keep to it.
\<close>

definition tunnel_busy :: "'a micro_server \<Rightarrow> (bool \<times> bool) list" where
  "tunnel_busy s = map (\<lambda>t. (tn_read_buffer t \<noteq> 0, tn_write_buffer t \<noteq> [])) (tunnels s)"

fun calls_ok :: "tunnel_call list \<Rightarrow> (bool \<times> bool) list \<Rightarrow> (bool \<times> bool) list option" where
  "calls_ok [] b = Some b"
| "calls_ok (CallRead i n # cs) b =
     (if i < length b \<and> \<not> fst (b ! i) then calls_ok cs (b[i := (n \<noteq> 0, snd (b ! i))]) else None)"
| "calls_ok (CallWrite i d # cs) b =
     (if i < length b \<and> \<not> snd (b ! i) then calls_ok cs (b[i := (fst (b ! i), d \<noteq> [])]) else None)"

text \<open>
  An application and a user of tunnels whose read callback keeps to it, in all states that satisfy
  an invariant \<open>ok\<close> of their own, which relates them to what is outstanding. The callback for
  tunnel \<open>i\<close> is called when its read is done.
\<close>

definition one_at_a_time :: "('a \<Rightarrow> (bool \<times> bool) list \<Rightarrow> bool) \<Rightarrow> 'a server \<Rightarrow> 'a tunnel_user \<Rightarrow> bool" where
  "one_at_a_time ok sv u \<longleftrightarrow>
     (\<forall>app b i d. ok app b \<longrightarrow> i < length b \<longrightarrow> fst (b ! i) \<longrightarrow>
        (\<exists>b'. calls_ok (fst (on_read u i d app)) (b[i := (False, snd (b ! i))]) = Some b' \<and> ok (snd (on_read u i d app)) b')) \<and>
     (\<forall>app b. ok app b \<longrightarrow> ok (StartFrame sv app) b \<and> ok (snd (CompleteFrame sv app)) b \<and>
        (\<forall>reg v. ok (snd (Write sv reg v app)) b))"

definition safe :: "('a \<Rightarrow> (bool \<times> bool) list \<Rightarrow> bool) \<Rightarrow> 'a server \<Rightarrow> 'a micro_server \<Rightarrow> bool" where
  "safe ok sv s \<longleftrightarrow> ms_server s = Some sv \<and> one_at_a_time ok sv (ms_user s) \<and> ok (ms_app s) (tunnel_busy s)"

text \<open>A user that only ever asks for the next bytes of the tunnel it was called for.\<close>

definition rearms :: "'a tunnel_user \<Rightarrow> bool" where
  "rearms u \<longleftrightarrow> (\<forall>i d a. fst (on_read u i d a) = [] \<or> (\<exists>n. fst (on_read u i d a) = [CallRead i n]))"

definition same_shape :: "'a micro_server \<Rightarrow> 'a micro_server \<Rightarrow> bool" where
  "same_shape s t \<longleftrightarrow> ms_user t = ms_user s \<and> ms_server t = ms_server s \<and> length (tunnels t) = length (tunnels s)
     \<and> read_outstanding t = read_outstanding s"

section \<open>Users of tunnels\<close>

lemma rearms_safe:
  assumes "ms_server s = Some sv" and "rearms (ms_user s)"
  shows "safe (\<lambda>_ _. True) sv s"
proof -
  have "\<exists>b'. calls_ok (fst (on_read (ms_user s) i d app)) (b[i := (False, snd (b ! i))]) = Some b'" if "i < length b" for i d app b
  proof -
    have "fst (on_read (ms_user s) i d app) = [] \<or> (\<exists>n. fst (on_read (ms_user s) i d app) = [CallRead i n])"
      using assms(2) by (simp add: rearms_def)
    with that show ?thesis by auto
  qed
  with assms(1) show ?thesis by (simp add: safe_def one_at_a_time_def)
qed

lemma same_shape_refl: "same_shape s s" "same_shape s (s\<lparr>ms_app := app\<rparr>)" "same_shape s (count_stat f s)"
    "same_shape s (s\<lparr>anything_to_do := b\<rparr>)" "same_shape s (set_tunnel i t s)"
  by (simp_all add: same_shape_def count_stat_def set_tunnel_def)

lemma same_shape_count [simp]: "same_shape s (count_stat f t) = same_shape s t"
  by (simp add: same_shape_def count_stat_def)

lemma same_shape_trans: "same_shape s t \<Longrightarrow> same_shape t u \<Longrightarrow> same_shape s u"
  by (simp add: same_shape_def)

lemma safe_simps [simp]:
  "safe ok sv (count_stat f s) \<longleftrightarrow> safe ok sv s" "safe ok sv (s\<lparr>anything_to_do := c\<rparr>) \<longleftrightarrow> safe ok sv s"
  by (simp_all add: safe_def count_stat_def tunnel_busy_def)

lemma safe_Write: "safe ok sv s \<Longrightarrow> safe ok sv (s\<lparr>ms_app := snd (Write sv reg v (ms_app s))\<rparr>)"
  by (simp add: safe_def one_at_a_time_def tunnel_busy_def)

lemma safe_read_data: "i < length (tunnels s) \<Longrightarrow> safe ok sv s \<Longrightarrow> safe ok sv (set_tunnel i ((tunnels s ! i)\<lparr>tn_read_data := d\<rparr>) s)"
proof -
  assume "i < length (tunnels s)"
  then have "tunnel_busy (set_tunnel i ((tunnels s ! i)\<lparr>tn_read_data := d\<rparr>) s) = tunnel_busy s"
    by (auto simp: tunnel_busy_def set_tunnel_def intro!: nth_equalityI simp: nth_list_update)
  then show "safe ok sv s \<Longrightarrow> ?thesis" by (simp add: safe_def) (simp add: set_tunnel_def)
qed

lemma tunnel_busy_set: "tunnel_busy (set_tunnel i t s) = (tunnel_busy s)[i := (tn_read_buffer t \<noteq> 0, tn_write_buffer t \<noteq> [])]"
  by (simp add: tunnel_busy_def set_tunnel_def map_update)

lemma tunnel_busy_nth: "i < length (tunnels s) \<Longrightarrow> tunnel_busy s ! i = (tn_read_buffer (tunnels s ! i) \<noteq> 0, tn_write_buffer (tunnels s ! i) \<noteq> [])"
  by (simp add: tunnel_busy_def)

lemma length_tunnel_busy [simp]: "length (tunnel_busy s) = length (tunnels s)"
  by (simp add: tunnel_busy_def)

lemma tunnel_busy_ignores [simp]: "tunnel_busy (s\<lparr>anything_to_do := c\<rparr>) = tunnel_busy s" "tunnel_busy (s\<lparr>ms_app := a\<rparr>) = tunnel_busy s"
  by (simp_all add: tunnel_busy_def)

text \<open>Calls that keep to the contract of the tunnels are accepted.\<close>

lemma tunnel_calls_accepted:
  "calls_ok calls (tunnel_busy s) = Some b \<Longrightarrow>
   \<exists>t. tunnel_calls calls s = Inr t \<and> tunnel_busy t = b \<and> same_shape s t \<and> ms_app t = ms_app s"
proof (induction calls arbitrary: s)
  case (Cons c cs)
  show ?case
  proof (cases c)
    case (CallRead i n)
    with Cons.prems have i: "i < length (tunnels s)" "tn_read_buffer (tunnels s ! i) = 0"
      by (auto simp: tunnel_busy_nth split: if_splits)
    then obtain t where t: "tn_AsyncReadSome i n s = Inr t" "same_shape s t" "ms_app t = ms_app s"
        "tunnel_busy t = (tunnel_busy s)[i := (n \<noteq> 0, snd (tunnel_busy s ! i))]"
      by (auto simp: tn_AsyncReadSome_def Let_def mj_assert_def same_shape_def tunnel_busy_nth)
        (auto simp: set_tunnel_def tunnel_busy_def map_update)
    with Cons.prems CallRead i Cons.IH [of t] show ?thesis
      by (auto simp: tunnel_busy_nth intro: same_shape_trans split: if_splits)
  next
    case (CallWrite i d)
    with Cons.prems have i: "i < length (tunnels s)" "tn_write_buffer (tunnels s ! i) = []"
      by (auto simp: tunnel_busy_nth split: if_splits)
    let ?t = "set_tunnel i ((tunnels s ! i)\<lparr>tn_write_buffer := d\<rparr>) s"
    have t: "tn_AsyncWriteSome i d s = Inr ?t" "same_shape s ?t" "ms_app ?t = ms_app s"
        "tunnel_busy ?t = (tunnel_busy s)[i := (fst (tunnel_busy s ! i), d \<noteq> [])]"
      using i by (simp_all add: tn_AsyncWriteSome_def same_shape_refl tunnel_busy_set tunnel_busy_nth) (simp add: set_tunnel_def)
    with Cons.prems CallWrite i Cons.IH [of ?t] show ?thesis
      by (auto intro: same_shape_trans split: if_splits)
  qed
qed (simp add: same_shape_refl)

section \<open>Without a response\<close>

lemma DoReadTransfer_total:
  assumes safe: "safe ok sv s" and i: "i < length (tunnels s)"
  shows "\<exists>b t. DoReadTransfer i s = Inr (b, t) \<and> same_shape s t \<and> safe ok sv t"
proof (cases "tn_read_data (tunnels s ! i) = [] \<or> tn_read_buffer (tunnels s ! i) = 0")
  case True
  with safe show ?thesis by (auto simp: DoReadTransfer_def Let_def same_shape_refl)
next
  case False
  let ?t = "tunnels s ! i"
  define n where "n = min (tn_read_buffer ?t) (length (tn_read_data ?t))"
  let ?s = "set_tunnel i (?t\<lparr>tn_read_data := drop n (tn_read_data ?t), tn_read_buffer := 0\<rparr>) s"
  obtain calls app where cb: "on_read (ms_user s) i (take n (tn_read_data ?t)) (ms_app s) = (calls, app)"
    by (cases "on_read (ms_user s) i (take n (tn_read_data ?t)) (ms_app s)")
  have "fst (tunnel_busy s ! i)" using i False by (simp add: tunnel_busy_nth)
  with safe i have "\<exists>b'. calls_ok (fst (on_read (ms_user s) i (take n (tn_read_data ?t)) (ms_app s)))
      ((tunnel_busy s)[i := (False, snd (tunnel_busy s ! i))]) = Some b'
      \<and> ok (snd (on_read (ms_user s) i (take n (tn_read_data ?t)) (ms_app s))) b'"
    unfolding safe_def one_at_a_time_def by simp
  then obtain b' where b: "calls_ok calls ((tunnel_busy s)[i := (False, snd (tunnel_busy s ! i))]) = Some b'" "ok app b'"
    unfolding cb by auto
  have "tunnel_busy (?s\<lparr>ms_app := app\<rparr>) = (tunnel_busy s)[i := (False, snd (tunnel_busy s ! i))]"
    using i by (simp add: tunnel_busy_set tunnel_busy_nth)
  with b(1) obtain t where t: "tunnel_calls calls (?s\<lparr>ms_app := app\<rparr>) = Inr t" "tunnel_busy t = b'"
      "same_shape (?s\<lparr>ms_app := app\<rparr>) t" "ms_app t = app"
    using tunnel_calls_accepted [of calls "?s\<lparr>ms_app := app\<rparr>" b'] by auto
  have "DoReadTransfer i s = Inr (True, t)"
    using False cb t(1) by (simp add: DoReadTransfer_def Let_def n_def set_tunnel_def)
  moreover have "same_shape s t" using t(3) by (simp add: same_shape_def set_tunnel_def)
  moreover from this have "safe ok sv t" using safe t(2,4) b(2) by (simp add: safe_def same_shape_def)
  ultimately show ?thesis by blast
qed

lemma FindTunnel_from_less: "FindTunnel_from i k ts = Some j \<Longrightarrow> i \<le> j \<and> j < i + length ts"
  by (induction ts arbitrary: i) (fastforce split: if_splits)+

lemma FindTunnel_less: "FindTunnel k s = Some i \<Longrightarrow> i < length (tunnels s)"
  using FindTunnel_from_less [of 0 k "tunnels s" i] by (simp add: FindTunnel_def)

lemma ms_ReadValue_total: "ty \<le> 3 \<Longrightarrow> \<exists>v u. ms_ReadValue ty str = Inr (v, u)"
  by (auto simp: ms_ReadValue_def apfst_def map_prod_def split: prod.splits)

lemma WriteRegisters_silent:
  "ty \<le> 3 \<Longrightarrow> safe ok sv s \<Longrightarrow>
   \<exists>a t str'. WriteRegisters False ty k reg (s, str, rsp) = Inr (a, t, str', rsp) \<and> same_shape s t \<and> safe ok sv t"
proof (induction k arbitrary: reg s str)
  case 0
  then show ?case by (simp add: same_shape_def)
next
  case (Suc k)
  obtain v u where v: "ms_ReadValue ty str = Inr (v, u)" using ms_ReadValue_total [OF Suc.prems(1)] by blast
  show ?case
  proof (cases v)
    case None
    then show ?thesis using v Suc.prems(2) by (simp add: same_shape_refl)
  next
    case (Some x)
    have sv: "ms_server s = Some sv" using Suc.prems(2) by (simp add: safe_def)
    obtain act app where w: "Write sv reg x (ms_app s) = (act, app)" by (cases "Write sv reg x (ms_app s)")
    let ?s = "s\<lparr>ms_app := app\<rparr>"
    have safe: "safe ok sv ?s" using safe_Write [OF Suc.prems(2), of reg x] w by simp
    have IH: "\<exists>a t str'. WriteRegisters False ty k r (?s, w, rsp) = Inr (a, t, str', rsp) \<and> same_shape s t \<and> safe ok sv t" for r w
    proof -
      obtain a t str' where "WriteRegisters False ty k r (?s, w, rsp) = Inr (a, t, str', rsp)"
          "same_shape ?s t" "safe ok sv t"
        using Suc.IH [OF Suc.prems(1) safe, of r w] by blast
      then show ?thesis using same_shape_trans [OF same_shape_refl(2) [of s app]] by simp
    qed
    have "same_shape s (count_stat f ?s)" for f by (simp add: same_shape_refl)
    then show ?thesis
      using v Some sv w safe IH by (cases act) (simp_all add: EmitWriteError_def Let_def)
  qed
qed

text \<open>A handler that, without a response, never fails and keeps everything safe.\<close>

definition silent_total ::
  "('a \<Rightarrow> (bool \<times> bool) list \<Rightarrow> bool) \<Rightarrow> 'a server \<Rightarrow> (bool \<Rightarrow> 'a pstate \<Rightarrow> ('b \<times> 'a pstate) res) \<Rightarrow> bool" where
  "silent_total ok sv f \<longleftrightarrow>
     (\<forall>s str rsp. safe ok sv s \<longrightarrow>
        (\<exists>a t str'. f False (s, str, rsp) = Inr (a, t, str', rsp) \<and> same_shape s t \<and> safe ok sv t))"

lemma silent_totalD:
  "silent_total ok sv f \<Longrightarrow> safe ok sv s \<Longrightarrow>
     \<exists>a t str'. f False (s, str, rsp) = Inr (a, t, str', rsp) \<and> same_shape s t \<and> safe ok sv t"
  by (auto simp: silent_total_def)

lemma silent_write: "n < 16 \<Longrightarrow> silent_total ok sv (\<lambda>need. ProcessSubframeWrite need n)"
proof -
  assume "n < 16"
  then have "n div 4 \<le> 3" by simp
  note w = WriteRegisters_silent [OF this]
  show ?thesis
    by (auto simp: silent_total_def ProcessSubframeWrite_def Let_def same_shape_refl
        split: option.splits prod.splits) (use w in blast)+
qed

lemma silent_read: "silent_total ok sv (\<lambda>need. ProcessSubframeRead need n)"
  by (auto simp: silent_total_def ProcessSubframeRead_def same_shape_refl)

lemma silent_poll: "silent_total ok sv ProcessSubframeClientPollServer"
  by (auto simp: silent_total_def ProcessSubframeClientPollServer_def same_shape_refl
      split: option.splits prod.splits)

lemma silent_client: "silent_total ok sv ProcessSubframeClientToServer"
  unfolding silent_total_def
proof (intro allI impI)
  fix s :: "'a micro_server" and str rsp
  assume u: "safe ok sv s"
  obtain c str1 where 1: "brs_ReadVaruint str = (c, str1)" by (cases "brs_ReadVaruint str")
  obtain b str2 where 2: "brs_ReadVaruint str1 = (b, str2)" by (cases "brs_ReadVaruint str1")
  show "\<exists>a t str'. ProcessSubframeClientToServer False (s, str, rsp) = Inr (a, t, str', rsp) \<and> same_shape s t \<and> safe ok sv t"
  proof (cases "\<exists>ch n i. c = Some ch \<and> b = Some n \<and> \<not> brs_remaining str2 < int (unat n) \<and> FindTunnel ch s = Some i")
    case True
    then obtain ch n i where c: "c = Some ch" "b = Some n" "\<not> brs_remaining str2 < int (unat n)"
        "FindTunnel ch s = Some i" by blast
    define q where "q = (if unat n > 128 - length (tn_read_data (tunnels s ! i))
         then (count_stat (\<lambda>x. x\<lparr>receive_overrun := receive_overrun x + 1\<rparr>) s, str2)
         else case brs_read str2 (unat n) of (d, str) \<Rightarrow>
           (set_tunnel i ((tunnels s ! i)\<lparr>tn_read_data := tn_read_data (tunnels s ! i) @ d\<rparr>) s, str))"
    obtain s1 str3 where q: "q = (s1, str3)" by (cases q)
    then have sh: "same_shape s s1" "safe ok sv s1"
      using u safe_read_data [OF FindTunnel_less [OF c(4)]]
      by (auto simp: q_def same_shape_refl split: if_splits prod.splits)
    then have "i < length (tunnels s1)"
      using FindTunnel_less [OF c(4)] by (simp add: same_shape_def)
    then obtain m s2 where "DoReadTransfer i s1 = Inr (m, s2)" "same_shape s1 s2" "safe ok sv s2"
      using DoReadTransfer_total [OF sh(2)] by blast
    moreover have "ProcessSubframeClientToServer False (s, str, rsp) =
        sbind (DoReadTransfer i s1) (\<lambda>(_, s). Inr (False, s\<lparr>anything_to_do := True\<rparr>, str3, rsp))"
      using 1 2 c q unfolding q_def by (simp add: ProcessSubframeClientToServer_def Let_def)
    ultimately show ?thesis
      using sh(1) by (auto simp: same_shape_def)
  next
    case False
    with 1 2 u show ?thesis
      by (auto simp: ProcessSubframeClientToServer_def same_shape_refl split: option.splits)
  qed
qed

lemma silent_subframe: "silent_total ok sv ProcessSubframe"
  unfolding silent_total_def
proof (intro allI impI)
  fix s :: "'a micro_server" and str rsp
  assume u: "safe ok sv s"
  obtain v t where v: "brs_ReadVaruint str = (v, t)" by (cases "brs_ReadVaruint str")
  show "\<exists>a t str'. ProcessSubframe False (s, str, rsp) = Inr (a, t, str', rsp) \<and> same_shape s t \<and> safe ok sv t"
  proof (cases v)
    case None
    then show ?thesis using v u by (auto simp: ProcessSubframe_def same_shape_refl Let_def)
  next
    case (Some k)
    have w: "k < kWriteBase + 16 \<Longrightarrow> unat (k - kWriteBase) < 16"
      by (simp add: kWriteBase_def word_less_nat_alt)
    obtain a1 t1 r1 where 1: "ProcessSubframeClientToServer False (s, t, rsp) = Inr (a1, t1, r1, rsp)" "same_shape s t1" "safe ok sv t1"
      using silent_totalD [OF silent_client u] by blast
    obtain a2 t2 r2 where 2: "ProcessSubframeClientPollServer False (s, t, rsp) = Inr (a2, t2, r2, rsp)" "same_shape s t2" "safe ok sv t2"
      using silent_totalD [OF silent_poll u] by blast
    obtain a3 t3 r3 where 3: "ProcessSubframeRead False (unat (k - kReadBase)) (s, t, rsp) = Inr (a3, t3, r3, rsp)" "same_shape s t3" "safe ok sv t3"
      using silent_totalD [OF silent_read u] by blast
    show ?thesis
    proof (cases "k < kWriteBase + 16")
      case True
      then obtain a4 t4 r4 where 4: "ProcessSubframeWrite False (unat (k - kWriteBase)) (s, t, rsp) = Inr (a4, t4, r4, rsp)"
          "same_shape s t4" "safe ok sv t4"
        using silent_totalD [OF silent_write [OF w] u] by blast
      have "kWriteBase \<le> k" by (simp add: kWriteBase_def)
      with v u Some True 1 2 4 show ?thesis
        by (cases a4) (auto simp: ProcessSubframe_def Let_def same_shape_refl)
    next
      case False
      with v u Some 1 2 3 show ?thesis
        by (auto simp: ProcessSubframe_def Let_def same_shape_refl)
    qed
  qed
qed

lemma ProcessSubframes_silent:
  "safe ok sv s \<Longrightarrow>
     \<exists>t str'. ProcessSubframes_loop False (s, str, rsp) = Inr (t, str', rsp) \<and> same_shape s t \<and> safe ok sv t"
proof (induction "nat (brs_remaining str)" arbitrary: s str rule: less_induct)
  case less
  show ?case
  proof (cases "0 < brs_remaining str")
    case True
    obtain a t str' where one: "ProcessSubframe False (s, str, rsp) = Inr (a, t, str', rsp)" "same_shape s t" "safe ok sv t"
      using silent_totalD [OF silent_subframe less.prems] by blast
    have "nat (brs_remaining str') < nat (brs_remaining str)"
      using ProcessSubframe_adv [OF one(1)] True by (simp add: brs_adv_def brs_remaining_def)
    then show ?thesis
      using less.hyps [of str' t] one True same_shape_trans [OF one(2)]
      by (cases a) (auto simp: ProcessSubframes_loop.simps [of False s str rsp])
  qed (simp add: ProcessSubframes_loop.simps same_shape_refl less.prems)
qed

section \<open>A read where no answer is wanted\<close>

lemma read_without_reply_step:
  assumes "ms_server s = Some sv" and "unat r < 128" and "Write sv (ucast r) (VInt8 v) (ms_app s) = (kSuccess, app)"
    and "bws_room rsp 15" and "rearms (ms_user s)"
  shows "\<exists>st. ProcessSubframes False [0x11, 0x01, r, v] s rsp = Inr (s\<lparr>ms_app := app, ms_stats := st\<rparr>, rsp)"
proof -
  let ?str = "brs_init [0x11, 0x01, r, v]"
  have l: "leb128 (unat (0x11 :: u32)) = [0x11]" "leb128 (unat (ucast r :: u32)) = [r]"
    using assms(2) by (simp_all add: leb128_small unsigned_ucast_eq take_bit_nat_eq_self)
  have "brs_avail ?str = leb128 (unat (0x11 :: u32)) @ [0x01, r, v]" unfolding l by simp
  from brs_varuint [OF _ this] obtain t where t: "brs_ReadVaruint ?str = (Some 0x11, t)" "brs_ok t"
      "brs_avail t = [0x01, r, v]" by auto
  have one: "ProcessSubframe False (s, ?str, rsp) = Inr (False, s, t, rsp)"
    using t(1) by (simp add: ProcessSubframe_def Let_def subframe_codes ProcessSubframeRead_def)
  have "brs_avail t = req_bytes (WriteReq (ucast r) [VInt8 v]) @ []"
    using t(3) l(2) by (simp add: write_bytes_def subframe_head_def short_len_def value_index_def
        values_bytes_def value_bytes_def subframe_codes leb128_small)
  moreover have "req_ok (WriteReq (ucast r) [VInt8 v])" "bws_room rsp (reply_bound (WriteReq (ucast r) [VInt8 v]))"
      "write_all sv (ucast r) [VInt8 v] (ms_app s) = (False, app, [])"
    using assms(3,4) by simp_all
  ultimately obtain str' rsp' st where two: "ProcessSubframe False (s, t, rsp) =
      Inr (False, s\<lparr>ms_app := app, ms_stats := st\<rparr>, str', rsp')" "brs_ok str'" "brs_avail str' = []"
    using ProcessSubframe_write [OF assms(1) t(2), where need = False] by blast
  have rem: "brs_remaining ?str = 4" "brs_remaining t = 3" "brs_remaining str' = 0"
    using t two by (simp_all add: brs_remaining_avail)
  have "rsp' = rsp"
    using silent_totalD [OF silent_subframe rearms_safe [OF assms(1,5)], of t rsp] two(1) by auto
  then show ?thesis
    using one two(1) rem
    by (intro exI [of _ st]) (simp add: ProcessSubframes_def ProcessSubframes_loop.simps [of False s ?str rsp]
        ProcessSubframes_loop.simps [of False s t rsp] ProcessSubframes_loop.simps [of False _ str'])
qed

section \<open>Properties\<close>

text \<open>
  A frame addressed to another node (and not broadcast) changes nothing
  of the application, the tunnels or the response: it is counted, and the next read started.
\<close>

lemma server_ignores_other_nodes:
  assumes "hd_destination h \<noteq> uint (config_id s AND 0x7f)" and "hd_destination h \<noteq> kBroadcastId"
  shows "HandleReadDatagram False h d s =
    Inr (count_stat (\<lambda>x. x\<lparr>wrong_id := wrong_id x + 1\<rparr>)
           (s\<lparr>read_outstanding := True, read_header := h, ms_read_buffer := d\<rparr>), [ms_StartRead])"
  using assms
  by (simp add: HandleReadDatagram_def ProcessFrame_def Let_def MaybeStartReadFrame_def count_stat_def)


text \<open>
  A user that writes what it has read on the same tunnel, unless it is still writing. Its state
  says whether it is.
\<close>

definition echo :: "bool tunnel_user" where
  "echo = \<lparr>on_read = (\<lambda>i d writing. (CallRead i 8 # (if writing then [] else [CallWrite i d]), True)),
     on_write = (\<lambda>i n writing. ([], False))\<rparr>"

definition quiet_server :: "bool server" where
  "quiet_server = \<lparr>StartFrame = id, Write = (\<lambda>r v a. (kUnknownRegister, a)), Read = (\<lambda>r ty a. RError 1), CompleteFrame = (\<lambda>a. (kAccept, a))\<rparr>"

definition echo_state :: "bool micro_server" where
  "echo_state = (ms_init 64 1 1 64 (replicate 64 0) echo False)\<lparr>ms_server := Some quiet_server,
     tunnels := [tunnel_init\<lparr>tn_id := 1, tn_read_buffer := 8\<rparr>]\<rparr>"

definition echo_ok :: "bool \<Rightarrow> (bool \<times> bool) list \<Rightarrow> bool" where
  "echo_ok writing b \<longleftrightarrow> length b = 1 \<and> (snd (b ! 0) \<longrightarrow> writing)"

lemma echo_one_at_a_time: "one_at_a_time echo_ok quiet_server echo"
  by (auto simp: one_at_a_time_def echo_ok_def echo_def quiet_server_def length_Suc_conv)


text \<open>
  C16. In a frame that asks for no answer the arguments of a read subframe are
  not consumed but taken for the next subframes: the frame \<open>11 01 r v\<close>, whose first subframe
  reads register 1, makes the server write \<open>v\<close> to register \<open>r\<close>.
\<close>

theorem read_without_reply_writes:
  assumes "ms_server s = Some sv" and "unat r < 128"
    and "Write sv (ucast r) (VInt8 v) (ms_app s) = (kSuccess, app)"
    and "15 \<le> length mem" and "rearms (ms_user s)"
  shows "\<exists>st. ProcessSubframes False [0x11, 0x01, r, v] s (bws_init mem) =
    Inr (s\<lparr>ms_app := app, ms_stats := st\<rparr>, bws_init mem)"
  using assms by (intro read_without_reply_step) (simp_all add: bws_room_def bws_init_def bws_ok_def)

theorem read_without_reply_writes_witness:
  "\<exists>s'. ProcessSubframes False [0x11, 0x01, 5, 42] demo_state (bws_init (replicate 64 0))
     = Inr (s', bws_init (replicate 64 0)) \<and> ms_app s' = 42"
proof -
  have "\<exists>st. ProcessSubframes False [0x11, 0x01, 5, 42] demo_state (bws_init (replicate 64 0))
     = Inr (demo_state\<lparr>ms_app := 42, ms_stats := st\<rparr>, bws_init (replicate 64 0))"
    by (rule read_without_reply_writes [where sv = demo_server])
      (simp_all add: demo_state_def demo_server_def ms_init_def rearms_def)
  then show ?thesis by auto
qed

end
