(* ===== verification/Binary_Schema.thy ===== *)
theory Binary_Schema
  imports Telemetry_Archive
begin

text \<open>
  \<open>telemetry/binary_schema_parser.cc\<close>: the parser of binary schemas and the elements it builds,
  which read, skip or extract data they describe. The parser works on the bytes left of its
  \<open>BufferReadStream\<close>: a \<open>RecordingStream\<close> around a stream passes every read on and remembers the
  bytes, so what it has recorded is the part of the input consumed since it was built.
\<close>

section \<open>Definitions\<close>

definition kInvalidType :: nat where "kInvalidType = 1"
definition kInvalidUnionIndex :: nat where "kInvalidUnionIndex = 2"

text \<open>\<open>Element\<close> and \<open>Field\<close>; the elements owned by the parser form a tree.\<close>

record el_info =
  el_type :: u64
  el_name :: "byte list"
  binary_schema :: "byte list"
  maybe_fixed_size :: int
  int_size :: int
  array_size :: u64
  enum_items :: "u64 \<rightharpoonup> byte list"
  object_flags :: u64

record field_info =
  field_flags :: u64
  field_name :: "byte list"
  field_aliases :: "byte list list"
  default_bytes :: "byte list"

datatype element = Element (el_info: el_info) (children: "element list")
  (fields: "(field_info \<times> element) list")

abbreviation fixed_size :: "element \<Rightarrow> int" where
  "fixed_size e \<equiv> maybe_fixed_size (el_info e)"

definition opt_value :: "'a option \<times> 's \<Rightarrow> ('a \<times> 's) res" where
  "opt_value r = (case r of (None, s) \<Rightarrow> Inl BadOptional | (Some x, s) \<Rightarrow> Inr (x, s))"

definition varuint_value :: "('s \<Rightarrow> nat \<Rightarrow> byte list \<times> 's) \<Rightarrow> 's \<Rightarrow> (u64 \<times> 's) res" where
  "varuint_value rd s = sbind (tl_ReadVaruint rd s) opt_value"

definition string_value :: "('s \<Rightarrow> nat \<Rightarrow> byte list \<times> 's) \<Rightarrow> 's \<Rightarrow> (byte list \<times> 's) res" where
  "string_value rd s = sbind (tl_ReadString rd s) opt_value"

subsection \<open>Reading data\<close>

fun repeat_res :: "nat \<Rightarrow> ('s \<Rightarrow> 's res) \<Rightarrow> 's \<Rightarrow> 's res" where
  "repeat_res 0 f s = Inr s"
| "repeat_res (Suc n) f s = sbind (f s) (repeat_res n f)"

text \<open>
  \<open>Element::Ignore\<close>, with the stream's \<open>read\<close> and its \<open>ignore\<close>, which takes a signed
  \<open>std::streamsize\<close>. The numbers 11 to 15 name no type; they fall out of the \<open>switch\<close>.
\<close>

function (sequential) el_Ignore ::
  "('s \<Rightarrow> nat \<Rightarrow> byte list \<times> 's) \<Rightarrow> ('s \<Rightarrow> int \<Rightarrow> 's res) \<Rightarrow> element \<Rightarrow> 's \<Rightarrow> 's res"
  and el_Ignore_fields ::
  "('s \<Rightarrow> nat \<Rightarrow> byte list \<times> 's) \<Rightarrow> ('s \<Rightarrow> int \<Rightarrow> 's res) \<Rightarrow> (field_info \<times> element) list \<Rightarrow> 's \<Rightarrow> 's res" where
  "el_Ignore rd ign (Element i cs fs) s =
     (if 0 \<le> maybe_fixed_size i then ign s (maybe_fixed_size i)
      else if el_type i \<in> {kFinal, kNull, kBoolean, kFixedInt, kFixedUInt, kFloat32, kFloat64, kTimestamp, kDuration}
      then Inl AssertFailed
      else if el_type i = kVarint then sbind (tl_ReadVarint rd s) (\<lambda>(_, s). Inr s)
      else if el_type i = kVaruint then sbind (tl_ReadVaruint rd s) (\<lambda>(_, s). Inr s)
      else if el_type i \<in> {kBytes, kString} then sbind (varuint_value rd s) (\<lambda>(sz, s). ign s (sint sz))
      else if el_type i = kObject then el_Ignore_fields rd ign fs s
      else if el_type i = kEnum then
        (case cs of [] \<Rightarrow> Inl NullDeref | c # _ \<Rightarrow> el_Ignore rd ign c s)
      else if el_type i = kArray then
        sbind (varuint_value rd s) (\<lambda>(nelements, s).
        case cs of
          [] \<Rightarrow> Inl NullDeref
        | c # _ \<Rightarrow>
            if 0 \<le> fixed_size c then ign s (sint (nelements * of_int (fixed_size c)))
            else repeat_res (unat nelements) (\<lambda>s. el_Ignore rd ign c s) s)
      else if el_type i = kFixedArray then
        (case cs of
          [] \<Rightarrow> Inl NullDeref
        | c # _ \<Rightarrow>
            if 0 \<le> fixed_size c then ign s (sint (array_size i * of_int (fixed_size c)))
            else repeat_res (unat (array_size i)) (\<lambda>s. el_Ignore rd ign c s) s)
      else if el_type i = kMap then
        sbind (varuint_value rd s) (\<lambda>(nitems, s).
        case cs of
          [] \<Rightarrow> Inl NullDeref
        | c # _ \<Rightarrow>
            repeat_res (unat nitems) (\<lambda>s. sbind (tl_ReadString rd s) (\<lambda>(_, s). el_Ignore rd ign c s)) s)
      else if el_type i = kUnion then
        sbind (varuint_value rd s) (\<lambda>(index, s).
        if unat index > length cs then Inl (ErrorCode kInvalidUnionIndex)
        else if unat index = length cs then Inl BufferOverrun
        else el_Ignore rd ign (cs ! unat index) s)
      else Inr s)"
| "el_Ignore_fields rd ign [] s = Inr s"
| "el_Ignore_fields rd ign ((i, e) # fs) s =
     sbind (el_Ignore rd ign e s) (\<lambda>s. el_Ignore_fields rd ign fs s)"
  by pat_completeness auto

lemma size_nth_child: "i < length cs \<Longrightarrow> size (cs ! i) \<le> size_list size cs" for cs :: "element list"
  by (meson nth_mem order_refl size_list_estimation')

termination el_Ignore
  by (relation "measure (\<lambda>x. case x of Inl (rd, ign, e, s) \<Rightarrow> size e
        | Inr (rd, ign, fs, s) \<Rightarrow> size_list (size_prod (\<lambda>_. 0) size) fs)")
    (auto simp: less_Suc_eq_le trans_le_add1 size_nth_child)

declare el_Ignore.simps [simp del]

text \<open>Over the bytes left: what a \<open>RecordingStream\<close> does with a negative count is no read at all.\<close>

definition list_ignore :: "byte list \<Rightarrow> int \<Rightarrow> byte list res" where
  "list_ignore xs n = (if n < 0 then Inl BufferOverrun else Inr (drop (nat n) xs))"

definition el_Read :: "element \<Rightarrow> byte list \<Rightarrow> (byte list \<times> byte list) res" where
  "el_Read e xs =
     sbind (el_Ignore list_read list_ignore e xs) (\<lambda>ys. Inr (take (length xs - length ys) xs, ys))"

definition ReadArraySize :: "('s \<Rightarrow> nat \<Rightarrow> byte list \<times> 's) \<Rightarrow> element \<Rightarrow> 's \<Rightarrow> (u64 \<times> 's) res" where
  "ReadArraySize rd e s =
     sbind (mj_assert (el_type (el_info e) = kArray)) (\<lambda>_. varuint_value rd s)"

definition ReadUnionIndex :: "('s \<Rightarrow> nat \<Rightarrow> byte list \<times> 's) \<Rightarrow> element \<Rightarrow> 's \<Rightarrow> (u64 \<times> 's) res" where
  "ReadUnionIndex rd e s =
     sbind (mj_assert (el_type (el_info e) = kUnion)) (\<lambda>_. varuint_value rd s)"

definition ReadBoolean :: "('s \<Rightarrow> nat \<Rightarrow> byte list \<times> 's) \<Rightarrow> element \<Rightarrow> 's \<Rightarrow> (bool \<times> 's) res" where
  "ReadBoolean rd e s =
     sbind (mj_assert (el_type (el_info e) = kBoolean)) (\<lambda>_.
     sbind (opt_value (tl_ReadScalar rd 1 s)) (\<lambda>(b, s). Inr (b \<noteq> (0 :: byte), s)))"

text \<open>A fixed size integer of at most eight bytes, as a \<open>uint64_t\<close> or sign extended to \<open>int64_t\<close>.\<close>

definition read_uint :: "('s \<Rightarrow> nat \<Rightarrow> byte list \<times> 's) \<Rightarrow> int \<Rightarrow> 's \<Rightarrow> (u64 \<times> 's) res" where
  "read_uint rd sz s =
     (if sz \<in> {1, 2, 4, 8} then opt_value (tl_ReadScalar rd (nat sz) s) else Inl AssertFailed)"

definition read_int :: "('s \<Rightarrow> nat \<Rightarrow> byte list \<times> 's) \<Rightarrow> int \<Rightarrow> 's \<Rightarrow> (u64 \<times> 's) res" where
  "read_int rd sz s =
     (if sz \<in> {1, 2, 4, 8} then
        sbind (opt_value (tl_ReadScalar rd (nat sz) s)) (\<lambda>(w, s). Inr (signed_take_bit (8 * nat sz - 1) w, s))
      else Inl AssertFailed)"

fun ReadUIntLike :: "('s \<Rightarrow> nat \<Rightarrow> byte list \<times> 's) \<Rightarrow> element \<Rightarrow> 's \<Rightarrow> (u64 \<times> 's) res" where
  "ReadUIntLike rd (Element i cs fs) s =
     (if el_type i = kFixedUInt then read_uint rd (int_size i) s
      else if el_type i = kVaruint then varuint_value rd s
      else if el_type i = kEnum then (case cs of [] \<Rightarrow> Inl NullDeref | c # _ \<Rightarrow> ReadUIntLike rd c s)
      else Inl AssertFailed)"

definition ReadIntLike :: "('s \<Rightarrow> nat \<Rightarrow> byte list \<times> 's) \<Rightarrow> element \<Rightarrow> 's \<Rightarrow> (u64 \<times> 's) res" where
  "ReadIntLike rd e s =
     (let ty = el_type (el_info e)
      in if ty = kFixedInt then read_int rd (int_size (el_info e)) s
         else if ty = kVarint then sbind (tl_ReadVarint rd s) opt_value
         else if ty = kTimestamp \<or> ty = kDuration then opt_value (tl_ReadScalar rd 8 s)
         else Inl AssertFailed)"

text \<open>The bits of the float or the double read.\<close>

datatype float_bits = Float32Bits u32 | Float64Bits u64

definition ReadFloatLike :: "('s \<Rightarrow> nat \<Rightarrow> byte list \<times> 's) \<Rightarrow> element \<Rightarrow> 's \<Rightarrow> (float_bits \<times> 's) res" where
  "ReadFloatLike rd e s =
     (if el_type (el_info e) = kFloat32 then
        sbind (opt_value (tl_ReadScalar rd 4 s)) (\<lambda>(w, s). Inr (Float32Bits w, s))
      else if el_type (el_info e) = kFloat64 then
        sbind (opt_value (tl_ReadScalar rd 8 s)) (\<lambda>(w, s). Inr (Float64Bits w, s))
      else Inl AssertFailed)"

definition ReadStringLike :: "('s \<Rightarrow> nat \<Rightarrow> byte list \<times> 's) \<Rightarrow> element \<Rightarrow> 's \<Rightarrow> (byte list \<times> 's) res" where
  "ReadStringLike rd e s =
     (if el_type (el_info e) = kBytes \<or> el_type (el_info e) = kString then string_value rd s
      else Inl AssertFailed)"

subsection \<open>Parsing schemas\<close>

fun read_aliases :: "nat \<Rightarrow> byte list \<Rightarrow> (byte list list \<times> byte list) res" where
  "read_aliases 0 xs = Inr ([], xs)"
| "read_aliases (Suc n) xs =
     sbind (string_value list_read xs) (\<lambda>(a, xs).
     sbind (read_aliases n xs) (\<lambda>(as, xs). Inr (a # as, xs)))"

text \<open>\<open>ReadField\<close>, over \<open>ReadType\<close>; \<open>None\<close> for the final field.\<close>

definition sp_ReadField ::
  "(byte list \<Rightarrow> byte list \<Rightarrow> (element \<times> byte list) res) \<Rightarrow> byte list \<Rightarrow>
   ((field_info \<times> element) option \<times> byte list) res" where
  "sp_ReadField read_type xs =
     sbind (varuint_value list_read xs) (\<lambda>(flags, xs).
     sbind (string_value list_read xs) (\<lambda>(name, xs).
     sbind (varuint_value list_read xs) (\<lambda>(naliases, xs).
     sbind (read_aliases (unat naliases) xs) (\<lambda>(aliases, xs).
     sbind (read_type name xs) (\<lambda>(element, xs).
     sbind (opt_value (tl_ReadScalar list_read 1 xs)) (\<lambda>(default_present, xs).
     sbind (if default_present = (1 :: byte) then el_Read element xs else Inr ([], xs)) (\<lambda>(d, xs).
     Inr (if el_type (el_info element) = kFinal then None
          else Some (\<lparr>field_flags = flags, field_name = name, field_aliases = aliases, default_bytes = d\<rparr>,
                     element), xs))))))))"

text \<open>\<open>std::map::insert\<close> keeps the item that is there.\<close>

definition insert_item :: "u64 \<Rightarrow> byte list \<Rightarrow> (u64 \<rightharpoonup> byte list) \<Rightarrow> (u64 \<rightharpoonup> byte list)" where
  "insert_item k v m = (if m k = None then m(k \<mapsto> v) else m)"

fun read_enum_items ::
  "nat \<Rightarrow> element \<Rightarrow> (u64 \<rightharpoonup> byte list) \<Rightarrow> byte list \<Rightarrow> ((u64 \<rightharpoonup> byte list) \<times> byte list) res" where
  "read_enum_items 0 child m xs = Inr (m, xs)"
| "read_enum_items (Suc n) child m xs =
     sbind (ReadUIntLike list_read child xs) (\<lambda>(v, xs).
     sbind (string_value list_read xs) (\<lambda>(name, xs).
     read_enum_items n child (insert_item v name m) xs))"

text \<open>
  \<open>ReadType\<close> and its two loops, with a bound on the depth of the calls. \<open>OutOfFuel\<close> says that
  the bound was hit; it is no outcome of the code, which would go on. Every call reads at least
  one byte before it calls again, so a bound beyond the length of the input is never hit.
\<close>

definition el_info_init :: "u64 \<Rightarrow> byte list \<Rightarrow> el_info" where
  "el_info_init ty name = \<lparr>el_type = ty, el_name = name, binary_schema = [], maybe_fixed_size = -1,
     int_size = -1, array_size = 0, enum_items = Map.empty, object_flags = 0\<rparr>"

function (sequential) sp_ReadType ::
    "nat \<Rightarrow> byte list \<Rightarrow> byte list \<Rightarrow> (element \<times> byte list) res"
  and sp_ReadFields ::
    "nat \<Rightarrow> (field_info \<times> element) list \<Rightarrow> int \<Rightarrow> byte list \<Rightarrow>
     ((field_info \<times> element) list \<times> int \<times> byte list) res"
  and sp_ReadUnion ::
    "nat \<Rightarrow> byte list \<Rightarrow> element list \<Rightarrow> byte list \<Rightarrow> (element list \<times> byte list) res" where
  "sp_ReadType 0 name xs = Inl OutOfFuel"
| "sp_ReadType (Suc k) name xs =
     sbind (varuint_value list_read xs) (\<lambda>(ty, ys).
     let i = el_info_init ty name;
         done = (\<lambda>i cs fs ys.
           Inr (Element (i\<lparr>binary_schema := take (length xs - length ys) xs\<rparr>) cs fs, ys))
     in if ty > kLastType then Inl (ErrorCode kInvalidType)
        else if ty = kNull then done (i\<lparr>maybe_fixed_size := 0\<rparr>) [] [] ys
        else if ty = kBoolean then done (i\<lparr>maybe_fixed_size := 1\<rparr>) [] [] ys
        else if ty = kFloat32 then done (i\<lparr>maybe_fixed_size := 4\<rparr>) [] [] ys
        else if ty = kFloat64 then done (i\<lparr>maybe_fixed_size := 8\<rparr>) [] [] ys
        else if ty = kFixedInt \<or> ty = kFixedUInt then
          sbind (opt_value (tl_ReadScalar list_read 1 ys)) (\<lambda>(n :: byte, ys).
          done (i\<lparr>int_size := uint n, maybe_fixed_size := uint n\<rparr>) [] [] ys)
        else if ty = kObject then
          sbind (varuint_value list_read ys) (\<lambda>(flags, ys).
          sbind (sp_ReadFields k [] 0 ys) (\<lambda>(fs, maybe_size, ys).
          done (i\<lparr>object_flags := flags, maybe_fixed_size := (if 0 \<le> maybe_size then maybe_size else -1)\<rparr>) [] fs ys))
        else if ty = kEnum then
          sbind (sp_ReadType k name ys) (\<lambda>(child, ys).
          sbind (varuint_value list_read ys) (\<lambda>(nvalues, ys).
          sbind (read_enum_items (unat nvalues) child Map.empty ys) (\<lambda>(m, ys).
          done (i\<lparr>enum_items := m, maybe_fixed_size := fixed_size child\<rparr>) [child] [] ys)))
        else if ty = kFixedArray then
          sbind (varuint_value list_read ys) (\<lambda>(n, ys).
          sbind (sp_ReadType k name ys) (\<lambda>(child, ys).
          done (i\<lparr>array_size := n\<rparr>) [child] [] ys))
        else if ty = kArray \<or> ty = kMap then
          sbind (sp_ReadType k name ys) (\<lambda>(child, ys). done i [child] [] ys)
        else if ty = kUnion then
          sbind (sp_ReadUnion k name [] ys) (\<lambda>(cs, ys). done i cs [] ys)
        else if ty = kTimestamp \<or> ty = kDuration then done (i\<lparr>maybe_fixed_size := 8\<rparr>) [] [] ys
        else done i [] [] ys)"
| "sp_ReadFields 0 acc maybe_size xs = Inl OutOfFuel"
| "sp_ReadFields (Suc k) acc maybe_size xs =
     sbind (sp_ReadField (\<lambda>name ys. sp_ReadType k name ys) xs) (\<lambda>(maybe_field, xs).
     case maybe_field of
       None \<Rightarrow> Inr (acc, maybe_size, xs)
     | Some f \<Rightarrow>
         sp_ReadFields k (acc @ [f])
           (if fixed_size (snd f) < 0 then -1
            else if 0 \<le> maybe_size then maybe_size + fixed_size (snd f) else maybe_size) xs)"
| "sp_ReadUnion 0 name acc xs = Inl OutOfFuel"
| "sp_ReadUnion (Suc k) name acc xs =
     sbind (sp_ReadType (Suc k) name xs) (\<lambda>(child, xs).
     if el_type (el_info child) = kFinal then Inr (acc, xs) else sp_ReadUnion k name (acc @ [child]) xs)"
  by pat_completeness auto

termination sp_ReadType
  by (relation "measure (\<lambda>x. case x of Inl (k, _) \<Rightarrow> 2 * k | Inr (Inl (k, _)) \<Rightarrow> 2 * k + 1
        | Inr (Inr (k, _)) \<Rightarrow> 2 * k + 1)") auto

definition BinarySchemaParser :: "byte list \<Rightarrow> byte list \<Rightarrow> element res" where
  "BinarySchemaParser schema name =
     sbind (sp_ReadType (Suc (length schema)) name schema) (\<lambda>(root, _). Inr root)"

subsection \<open>Iterating over the elements\<close>

text \<open>
  An \<open>Element*\<close> of the parser is a position in the tree: the indices on the way from the element
  up to the root, innermost first, so that the parent is the tail. An element has children or
  fields, never both.
\<close>

definition sub_elements :: "element \<Rightarrow> element list" where
  "sub_elements e = (if children e \<noteq> [] then children e else map snd (fields e))"

fun element_at :: "element \<Rightarrow> nat list \<Rightarrow> element" where
  "element_at root [] = root"
| "element_at root (i # p) = sub_elements (element_at root p) ! i"

fun next_up :: "element \<Rightarrow> nat list \<Rightarrow> nat list option" where
  "next_up root [] = None"
| "next_up root (i # p) =
     (if Suc i < length (sub_elements (element_at root p)) then Some (Suc i # p) else next_up root p)"

definition NextElement :: "element \<Rightarrow> nat list \<Rightarrow> nat list option" where
  "NextElement root p = (if sub_elements (element_at root p) \<noteq> [] then Some (0 # p) else next_up root p)"

text \<open>The positions a loop over \<open>elements()\<close> visits, up to a number of rounds.\<close>

fun visit_elements :: "nat \<Rightarrow> element \<Rightarrow> nat list \<Rightarrow> nat list list" where
  "visit_elements 0 root p = []"
| "visit_elements (Suc n) root p =
     p # (case NextElement root p of None \<Rightarrow> [] | Some q \<Rightarrow> visit_elements n root q)"

declare sp_ReadType.simps [simp del] sp_ReadFields.simps [simp del] sp_ReadUnion.simps [simp del]

section \<open>The parser consumes its input\<close>

lemma varuint_value_shrinks: "varuint_value list_read xs = Inr (v, ys) \<Longrightarrow> length ys < length xs"
  by (auto simp: varuint_value_def opt_value_def tl_ReadVaruint_list
      split: option.splits prod.splits if_splits dest!: unleb128_shrinks)

lemma tl_ReadVaruint_shrinks: "tl_ReadVaruint list_read xs = Inr (v, ys) \<Longrightarrow> length ys \<le> length xs"
  by (auto simp: tl_ReadVaruint_list split: option.splits prod.splits if_splits dest!: unleb128_shrinks)

lemma tl_ReadString_shrinks: "tl_ReadString list_read xs = Inr (v, ys) \<Longrightarrow> length ys \<le> length xs"
  by (fastforce simp: tl_ReadString_def list_read_def split: option.splits if_splits
      dest: tl_ReadVaruint_shrinks)

lemma tl_ReadVarint_shrinks: "tl_ReadVarint list_read xs = Inr (v, ys) \<Longrightarrow> length ys \<le> length xs"
  by (auto simp: tl_ReadVarint_def dest: tl_ReadVaruint_shrinks)

lemma string_value_shrinks: "string_value list_read xs = Inr (v, ys) \<Longrightarrow> length ys \<le> length xs"
  by (auto simp: string_value_def opt_value_def split: option.splits prod.splits dest: tl_ReadString_shrinks)

lemma scalar_value_shrinks:
  "opt_value (tl_ReadScalar list_read n xs :: 'a::len word option \<times> byte list) = Inr (v, ys) \<Longrightarrow>
   length ys \<le> length xs"
  by (auto simp: opt_value_def tl_ReadScalar_eq ReadScalar_list split: if_splits)

lemma read_aliases_shrinks: "read_aliases n xs = Inr (v, ys) \<Longrightarrow> length ys \<le> length xs"
  by (induction n arbitrary: xs v) (force dest: string_value_shrinks)+

lemma repeat_res_shrinks:
  "repeat_res n f xs = Inr ys \<Longrightarrow> (\<And>us vs. f us = Inr vs \<Longrightarrow> length vs \<le> length us) \<Longrightarrow>
   length ys \<le> length xs"
  by (induction n arbitrary: xs) force+

lemma list_ignore_shrinks: "list_ignore xs n = Inr ys \<Longrightarrow> length ys \<le> length xs"
  by (auto simp: list_ignore_def split: if_splits)

lemmas shrinks = varuint_value_shrinks tl_ReadVaruint_shrinks tl_ReadString_shrinks
  tl_ReadVarint_shrinks string_value_shrinks scalar_value_shrinks read_aliases_shrinks
  list_ignore_shrinks

lemma element_induct [case_names Element]:
  assumes "\<And>i cs fs. (\<And>c. c \<in> set cs \<Longrightarrow> P c) \<Longrightarrow> (\<And>f e. (f, e) \<in> set fs \<Longrightarrow> P e) \<Longrightarrow> P (Element i cs fs)"
  shows "P e"
proof (induction e)
  case (Element i cs fs)
  show ?case
    by (rule assms) (use Element in \<open>auto simp: snds.simps\<close>)
qed

lemma el_Ignore_fields_shrinks:
  "el_Ignore_fields list_read list_ignore fs xs = Inr ys \<Longrightarrow>
   (\<And>f e us vs. (f, e) \<in> set fs \<Longrightarrow> el_Ignore list_read list_ignore e us = Inr vs \<Longrightarrow> length vs \<le> length us) \<Longrightarrow>
   length ys \<le> length xs"
proof (induction fs arbitrary: xs)
  case (Cons f fs)
  obtain i e where f: "f = (i, e)" by (cases f)
  with Cons.prems(1) obtain us where "el_Ignore list_read list_ignore e xs = Inr us"
      "el_Ignore_fields list_read list_ignore fs us = Inr ys"
    by (auto simp: el_Ignore.simps)
  with Cons f show ?case by (meson list.set_intros order_trans)
qed (simp add: el_Ignore.simps)

lemma el_Ignore_shrinks:
  "el_Ignore list_read list_ignore e xs = Inr ys \<Longrightarrow> length ys \<le> length xs"
proof (induction e arbitrary: xs ys rule: element_induct)
  case (Element i cs fs)
  have head: "length vs \<le> length us" if "el_Ignore list_read list_ignore c us = Inr vs" "c \<in> set cs" for c us vs
    using Element.IH(1) that by blast
  have fields: "length vs \<le> length us" if "el_Ignore_fields list_read list_ignore fs us = Inr vs" for us vs
    using el_Ignore_fields_shrinks [OF that] Element.IH(2) by blast
  have rep: "length vs \<le> length us"
    if "repeat_res n (\<lambda>s. el_Ignore list_read list_ignore c s) us = Inr vs" "c \<in> set cs" for n c us vs
    using repeat_res_shrinks [OF that(1)] head that(2) by blast
  have rep_map: "length vs \<le> length us"
    if "repeat_res n (\<lambda>s. sbind (tl_ReadString list_read s) (\<lambda>(_, s). el_Ignore list_read list_ignore c s)) us
      = Inr vs" "c \<in> set cs" for n c us vs
  proof (rule repeat_res_shrinks [OF that(1)])
    fix us vs
    assume "sbind (tl_ReadString list_read us) (\<lambda>(_, s). el_Ignore list_read list_ignore c s) = Inr vs"
    then obtain x ws where "tl_ReadString list_read us = Inr (x, ws)" "el_Ignore list_read list_ignore c ws = Inr vs"
      by auto
    then show "length vs \<le> length us" using tl_ReadString_shrinks head that(2) by (meson order_trans)
  qed
  note steps = shrinks head fields rep rep_map
  show ?case
    using Element.prems
    by (auto simp: el_Ignore.simps(1) split: if_splits list.splits
        dest!: steps intro: less_imp_le)
qed

lemma el_Read_shrinks: "el_Read e xs = Inr (d, ys) \<Longrightarrow> length ys \<le> length xs"
  by (auto simp: el_Read_def dest: el_Ignore_shrinks)

lemma read_int_shrinks:
  "read_uint list_read n xs = Inr (v, ys) \<Longrightarrow> length ys \<le> length xs"
  by (auto simp: read_uint_def split: if_splits dest: scalar_value_shrinks)

lemma ReadUIntLike_shrinks: "ReadUIntLike list_read e xs = Inr (v, ys) \<Longrightarrow> length ys \<le> length xs"
proof (induction e arbitrary: xs rule: element_induct)
  case (Element i cs fs)
  then show ?case
    by (auto split: if_splits list.splits dest!: read_int_shrinks varuint_value_shrinks)
qed

lemma read_enum_items_shrinks: "read_enum_items n c m xs = Inr (v, ys) \<Longrightarrow> length ys \<le> length xs"
  by (induction n arbitrary: m xs) (force dest: ReadUIntLike_shrinks string_value_shrinks)+

lemma sp_ReadField_shrinks:
  assumes "sp_ReadField rt xs = Inr (f, ys)"
    and "\<And>n us e vs. rt n us = Inr (e, vs) \<Longrightarrow> length vs \<le> length us"
  shows "length ys < length xs"
  using assms(1)
  by (auto simp: sp_ReadField_def split: if_splits
      dest!: shrinks el_Read_shrinks assms(2))

lemma sp_Read_shrinks:
  "(\<forall>name xs e ys. sp_ReadType k name xs = Inr (e, ys) \<longrightarrow> length ys < length xs) \<and>
   (\<forall>acc ms xs r ys. sp_ReadFields k acc ms xs = Inr (r, ys) \<longrightarrow> length (snd ys) < length xs) \<and>
   (\<forall>name acc xs cs ys. sp_ReadUnion k name acc xs = Inr (cs, ys) \<longrightarrow> length ys < length xs)"
proof (induction k)
  case 0
  then show ?case by (simp add: sp_ReadType.simps sp_ReadFields.simps sp_ReadUnion.simps)
next
  case (Suc k)
  then have T: "\<And>name xs e ys. sp_ReadType k name xs = Inr (e, ys) \<Longrightarrow> length ys < length xs"
    and F: "\<And>acc ms xs r m ys. sp_ReadFields k acc ms xs = Inr (r, m, ys) \<Longrightarrow> length ys < length xs"
    and U: "\<And>name acc xs cs ys. sp_ReadUnion k name acc xs = Inr (cs, ys) \<Longrightarrow> length ys < length xs"
    by force+
  have T': "length ys < length xs" if "sp_ReadType (Suc k) name xs = Inr (e, ys)" for name xs e ys
    using that
    by (auto simp: sp_ReadType.simps(2) Let_def split: if_splits
        dest!: shrinks read_enum_items_shrinks T F U)
  have fld: "length ys < length xs"
    if "sp_ReadField (\<lambda>name ys. sp_ReadType k name ys) xs = Inr (f, ys)" for f xs ys
    using that by (rule sp_ReadField_shrinks) (rule less_imp_le [OF T])
  have F': "length (snd ys) < length xs" if "sp_ReadFields (Suc k) acc ms xs = Inr (r, ys)" for acc ms xs r ys
    using that by (cases ys) (auto simp: sp_ReadFields.simps(2) split: option.splits dest!: fld F)
  have U': "length ys < length xs" if "sp_ReadUnion (Suc k) name acc xs = Inr (cs, ys)" for name acc xs cs ys
    using that by (auto simp: sp_ReadUnion.simps(2) split: if_splits dest!: T' U)
  show ?case using T' F' U' by blast
qed

text \<open>With enough calls, one more changes nothing.\<close>

lemma sbind_varuint_cong:
  "(\<And>v ys. length ys < length xs \<Longrightarrow> f (v, ys) = g (v, ys)) \<Longrightarrow>
   sbind (varuint_value list_read xs) f = sbind (varuint_value list_read xs) g"
  by (rule sbind_cong [OF refl]) (auto dest: varuint_value_shrinks)

lemma sp_ReadField_cong:
  assumes "\<And>n ys. length ys < length xs \<Longrightarrow> rt n ys = rt' n ys"
  shows "sp_ReadField rt xs = sp_ReadField rt' xs"
  unfolding sp_ReadField_def
proof (rule sbind_varuint_cong, clarsimp, rule sbind_cong [OF refl], clarsimp,
    rule sbind_cong [OF refl], clarsimp, rule sbind_cong [OF refl], clarsimp)
  fix v ys n us w vs as ws
  assume "length ys < length xs" "string_value list_read ys = Inr (n, us)"
    "varuint_value list_read us = Inr (w, vs)" "read_aliases (unat w) vs = Inr (as, ws)"
  then have "length ws < length xs" by (auto dest!: shrinks)
  then show "sbind (rt n ws) f = sbind (rt' n ws) f" for f by (simp add: assms)
qed

lemma sp_Read_Suc:
  "(\<forall>name xs. length xs < k \<longrightarrow> sp_ReadType (Suc k) name xs = sp_ReadType k name xs) \<and>
   (\<forall>acc ms xs. length xs < k \<longrightarrow> sp_ReadFields (Suc k) acc ms xs = sp_ReadFields k acc ms xs) \<and>
   (\<forall>name acc xs. length xs < k \<longrightarrow> sp_ReadUnion (Suc k) name acc xs = sp_ReadUnion k name acc xs)"
proof (induction k)
  case 0
  then show ?case by simp
next
  case (Suc k)
  then have T: "\<And>name xs. length xs < k \<Longrightarrow> sp_ReadType (Suc k) name xs = sp_ReadType k name xs"
    and F: "\<And>acc ms xs. length xs < k \<Longrightarrow> sp_ReadFields (Suc k) acc ms xs = sp_ReadFields k acc ms xs"
    and U: "\<And>name acc xs. length xs < k \<Longrightarrow> sp_ReadUnion (Suc k) name acc xs = sp_ReadUnion k name acc xs"
    by blast+
  have T': "sp_ReadType (Suc (Suc k)) name xs = sp_ReadType (Suc k) name xs" if "length xs < Suc k" for name xs
  proof -
    have obj: "sbind (varuint_value list_read ys) (\<lambda>(fl, ys). sbind (sp_ReadFields (Suc k) [] 0 ys) (h fl))
        = sbind (varuint_value list_read ys) (\<lambda>(fl, ys). sbind (sp_ReadFields k [] 0 ys) (h fl))"
      if "length ys < k" for ys h
      by (rule sbind_varuint_cong) (use that F in simp)
    have arr: "sbind (varuint_value list_read ys) (\<lambda>(n, ys). sbind (sp_ReadType (Suc k) name ys) (h n))
        = sbind (varuint_value list_read ys) (\<lambda>(n, ys). sbind (sp_ReadType k name ys) (h n))"
      if "length ys < k" for ys h
      by (rule sbind_varuint_cong) (use that T in simp)
    show ?thesis
      unfolding sp_ReadType.simps(2) [of "Suc k" name xs] sp_ReadType.simps(2) [of k name xs]
      by (rule sbind_varuint_cong) (use that T U in \<open>simp add: obj arr Let_def\<close>)
  qed
  have F': "sp_ReadFields (Suc (Suc k)) acc ms xs = sp_ReadFields (Suc k) acc ms xs" if "length xs < Suc k" for acc ms xs
  proof -
    have fld: "sp_ReadField (\<lambda>name ys. sp_ReadType (Suc k) name ys) xs = sp_ReadField (\<lambda>name ys. sp_ReadType k name ys) xs"
      by (rule sp_ReadField_cong) (use that T in simp)
    have sh: "length ys < k" if "sp_ReadField (\<lambda>name ys. sp_ReadType k name ys) xs = Inr (f, ys)" for f ys
    proof -
      have "length vs \<le> length us" if "sp_ReadType k n us = Inr (e, vs)" for n us e vs
        using that sp_Read_shrinks [of k] by (blast intro: less_imp_le)
      then have "length ys < length xs" by (rule sp_ReadField_shrinks [OF that])
      with \<open>length xs < Suc k\<close> show ?thesis by simp
    qed
    show ?thesis
      unfolding sp_ReadFields.simps(2) [of "Suc k" acc ms xs] sp_ReadFields.simps(2) [of k acc ms xs] fld
      by (rule sbind_cong [OF refl]) (auto dest!: sh simp: F split: option.split)
  qed
  have U': "sp_ReadUnion (Suc (Suc k)) name acc xs = sp_ReadUnion (Suc k) name acc xs" if "length xs < Suc k" for name acc xs
  proof -
    have sh: "length ys < k" if "sp_ReadType (Suc k) name xs = Inr (c, ys)" for c ys
      using that sp_Read_shrinks [of "Suc k"] \<open>length xs < Suc k\<close> by (meson less_Suc_eq_le order_less_le_trans)
    show ?thesis
      unfolding sp_ReadUnion.simps(2) [of "Suc k" name acc xs] sp_ReadUnion.simps(2) [of k name acc xs] T' [OF that]
      by (rule sbind_cong [OF refl]) (auto dest!: sh simp: U)
  qed
  show ?case using T' F' U' by blast
qed

lemma sp_ReadType_fuel: "length xs < k \<Longrightarrow> sp_ReadType k name xs = sp_ReadType (Suc (length xs)) name xs"
  unfolding Suc_le_eq [symmetric] by (induction rule: dec_induct) (simp_all add: sp_Read_Suc)

subsection \<open>The bound is not hit\<close>

definition in_fuel :: "'a res \<Rightarrow> bool" where
  "in_fuel r \<longleftrightarrow> r \<noteq> Inl OutOfFuel"

named_theorems fuel_intros \<open>computations that do not run out of fuel\<close>

lemma in_fuel_simps [simp]: "in_fuel (Inr x)" "in_fuel (Inl e) \<longleftrightarrow> e \<noteq> OutOfFuel"
  by (simp_all add: in_fuel_def)

lemma in_fuel_sbind [fuel_intros]: "in_fuel r \<Longrightarrow> (\<And>x. r = Inr x \<Longrightarrow> in_fuel (f x)) \<Longrightarrow> in_fuel (sbind r f)"
  by (cases r) auto

lemma in_fuel_opt_value [fuel_intros]: "in_fuel (opt_value r)"
  by (auto simp: opt_value_def split: prod.split option.split)

lemma in_fuel_varuint [fuel_intros]: "in_fuel (tl_ReadVaruint list_read xs)"
  by (auto simp: tl_ReadVaruint_list split: prod.split option.split)

lemma in_fuel_string [fuel_intros]: "in_fuel (tl_ReadString list_read xs)"
  by (auto simp: tl_ReadString_def intro!: fuel_intros split: prod.split option.split)

lemma in_fuel_varint [fuel_intros]: "in_fuel (tl_ReadVarint list_read xs)"
  by (auto simp: tl_ReadVarint_def intro!: fuel_intros split: option.split)

lemma in_fuel_values [fuel_intros]: "in_fuel (varuint_value list_read xs)" "in_fuel (string_value list_read xs)"
  by (auto simp: varuint_value_def string_value_def intro!: fuel_intros)

lemma in_fuel_aliases [fuel_intros]: "in_fuel (read_aliases n xs)"
  by (induction n arbitrary: xs) (auto intro!: fuel_intros)

lemma in_fuel_uint [fuel_intros]: "in_fuel (ReadUIntLike list_read e xs)"
  by (induction e arbitrary: xs rule: element_induct) (auto simp: read_uint_def intro!: fuel_intros split: list.split)

lemma in_fuel_enum_items [fuel_intros]: "in_fuel (read_enum_items n c m xs)"
  by (induction n arbitrary: m xs) (auto intro!: fuel_intros)

lemma in_fuel_ignore [fuel_intros]: "in_fuel (list_ignore xs n)"
  by (simp add: list_ignore_def)

lemma in_fuel_repeat: "(\<And>s. in_fuel (f s)) \<Longrightarrow> in_fuel (repeat_res n f s)"
  by (induction n arbitrary: s) (auto intro!: fuel_intros)

lemma in_fuel_fields:
  "\<forall>(f, e) \<in> set fs. \<forall>us. in_fuel (el_Ignore list_read list_ignore e us) \<Longrightarrow>
   in_fuel (el_Ignore_fields list_read list_ignore fs xs)"
  by (induction fs arbitrary: xs) (auto simp: el_Ignore.simps intro!: in_fuel_sbind)

text \<open>The branches of a definition.\<close>

lemma in_fuel_if: "(c \<Longrightarrow> in_fuel a) \<Longrightarrow> (\<not> c \<Longrightarrow> in_fuel b) \<Longrightarrow> in_fuel (if c then a else b)"
  by simp

lemma in_fuel_case:
  "(\<And>x y. p = (x, y) \<Longrightarrow> in_fuel (f x y)) \<Longrightarrow> in_fuel (case p of (x, y) \<Rightarrow> f x y)"
  "in_fuel a \<Longrightarrow> (\<And>c ds. cs = c # ds \<Longrightarrow> in_fuel (g c ds)) \<Longrightarrow> in_fuel (case cs of [] \<Rightarrow> a | c # ds \<Rightarrow> g c ds)"
  by (simp_all split: prod.split list.split)

lemmas fuel_branches = in_fuel_if in_fuel_case in_fuel_sbind

lemma in_fuel_el_Ignore [fuel_intros]: "in_fuel (el_Ignore list_read list_ignore e xs)"
proof (induction e arbitrary: xs rule: element_induct)
  case (Element i cs fs)
  have child: "in_fuel (el_Ignore list_read list_ignore c us)" if "c \<in> set cs" for c us
    using Element.IH(1) that .
  have fields: "in_fuel (el_Ignore_fields list_read list_ignore fs us)" for us
    using Element.IH(2) by (intro in_fuel_fields) blast
  show ?case
    unfolding el_Ignore.simps(1)
    by (intro fuel_branches in_fuel_repeat fuel_intros fields child) simp_all
qed

lemma in_fuel_el_Read [fuel_intros]: "in_fuel (el_Read e xs)"
  by (auto simp: el_Read_def intro!: fuel_intros)

lemma in_fuel_field:
  assumes "\<And>n ys. length ys < length xs \<Longrightarrow> in_fuel (rt n ys)"
  shows "in_fuel (sp_ReadField rt xs)"
  unfolding sp_ReadField_def
  by (auto intro!: fuel_intros assms dest!: shrinks)

lemma sp_Read_in_fuel:
  "(\<forall>name xs. length xs < k \<longrightarrow> in_fuel (sp_ReadType k name xs)) \<and>
   (\<forall>acc ms xs. length xs < k \<longrightarrow> in_fuel (sp_ReadFields k acc ms xs)) \<and>
   (\<forall>name acc xs. length xs < k \<longrightarrow> in_fuel (sp_ReadUnion k name acc xs))"
proof (induction k)
  case 0
  then show ?case by simp
next
  case (Suc k)
  then have T: "\<And>name xs. length xs < k \<Longrightarrow> in_fuel (sp_ReadType k name xs)"
    and F: "\<And>acc ms xs. length xs < k \<Longrightarrow> in_fuel (sp_ReadFields k acc ms xs)"
    and U: "\<And>name acc xs. length xs < k \<Longrightarrow> in_fuel (sp_ReadUnion k name acc xs)"
    by blast+
  have shorter: "length ys < k" if "varuint_value list_read xs = Inr (v, ys)" "length xs \<le> k" for v xs ys
    using varuint_value_shrinks [OF that(1)] that(2) by simp
  have T': "in_fuel (sp_ReadType (Suc k) name xs)" if "length xs \<le> k" for name xs
    unfolding sp_ReadType.simps(2) Let_def
    using that by (auto intro!: fuel_intros T F U dest!: shorter dest: less_imp_le)
  have F': "in_fuel (sp_ReadFields (Suc k) acc ms xs)" if "length xs \<le> k" for acc ms xs
  proof -
    have "in_fuel (sp_ReadField (\<lambda>name ys. sp_ReadType k name ys) xs)"
      by (rule in_fuel_field) (use that T in simp)
    moreover have "length ys < k" if "sp_ReadField (\<lambda>name ys. sp_ReadType k name ys) xs = Inr (f, ys)" for f ys
      using sp_ReadField_shrinks [OF that] sp_Read_shrinks [of k] \<open>length xs \<le> k\<close>
      by (meson less_imp_le order_less_le_trans)
    ultimately show ?thesis
      by (auto simp: sp_ReadFields.simps(2) intro!: fuel_intros F split: option.split)
  qed
  have U': "in_fuel (sp_ReadUnion (Suc k) name acc xs)" if "length xs \<le> k" for name acc xs
  proof -
    have "length ys < k" if "sp_ReadType (Suc k) name xs = Inr (c, ys)" for c ys
      using that sp_Read_shrinks [of "Suc k"] \<open>length xs \<le> k\<close> by (meson order_less_le_trans)
    then show ?thesis
      using T' [OF that] by (auto simp: sp_ReadUnion.simps(2) intro!: fuel_intros U)
  qed
  show ?case using T' F' U' by (simp add: less_Suc_eq_le)
qed

section \<open>The element of a type\<close>

text \<open>The reference: the element the parser builds for the schema of a type.\<close>

fun insert_items :: "(u64 \<times> byte list) list \<Rightarrow> (u64 \<rightharpoonup> byte list) \<Rightarrow> (u64 \<rightharpoonup> byte list)" where
  "insert_items [] m = m"
| "insert_items ((k, v) # items) m = insert_items items (insert_item k v m)"

fun add_sizes :: "int \<Rightarrow> int list \<Rightarrow> int" where
  "add_sizes ms [] = ms"
| "add_sizes ms (n # ns) = add_sizes (if n < 0 then -1 else if 0 \<le> ms then ms + n else ms) ns"

fun fixed_type :: "cpp_type \<Rightarrow> int" where
  "fixed_type TBool = 1"
| "fixed_type (TInt n) = int n"
| "fixed_type (TUInt n) = int n"
| "fixed_type TFloat32 = 4"
| "fixed_type TFloat64 = 8"
| "fixed_type TPtime = 8"
| "fixed_type TDuration = 8"
| "fixed_type (TStruct fs ds) = (let n = add_sizes 0 (map (\<lambda>f. fixed_type (snd f)) fs) in if 0 \<le> n then n else -1)"
| "fixed_type _ = -1"

fun type_code :: "cpp_type \<Rightarrow> u64" where
  "type_code (TArray n t) = kFixedArray"
| "type_code (TVector t) = kArray"
| "type_code (TOptional t) = kUnion"
| "type_code (TEnum m) = kEnum"
| "type_code (TStruct fs ds) = kObject"
| "type_code t = hd (FindType t)"

definition base_info :: "bool \<Rightarrow> byte list \<Rightarrow> cpp_type \<Rightarrow> cpp_value \<Rightarrow> el_info" where
  "base_info e name ty v =
     (el_info_init (type_code ty) name)\<lparr>binary_schema := schema_bytes e ty v, maybe_fixed_size := fixed_type ty\<rparr>"

fun elem_of :: "bool \<Rightarrow> byte list \<Rightarrow> cpp_type \<Rightarrow> cpp_value \<Rightarrow> element"
  and fields_of :: "bool \<Rightarrow> (byte list \<times> cpp_type) list \<Rightarrow> cpp_value list \<Rightarrow> (field_info \<times> element) list" where
  "elem_of e name (TArray n t) v =
     Element ((base_info e name (TArray n t) v)\<lparr>array_size := of_nat n\<rparr>) [elem_of e name t (default_value t)] []"
| "elem_of e name (TVector t) v =
     Element (base_info e name (TVector t) v) [elem_of e name t (default_value t)] []"
| "elem_of e name (TOptional t) v =
     Element (base_info e name (TOptional t) v)
       [Element ((el_info_init kNull name)\<lparr>binary_schema := [1], maybe_fixed_size := 0\<rparr>) [] [],
        elem_of e name t (default_value t)] []"
| "elem_of e name (TEnum items) v =
     Element ((base_info e name (TEnum items) v)\<lparr>enum_items := insert_items items Map.empty\<rparr>)
       [Element ((el_info_init kVaruint name)\<lparr>binary_schema := [6]\<rparr>) [] []] []"
| "elem_of e name (TStruct fs ds) v =
     Element (base_info e name (TStruct fs ds) v) []
       (fields_of e fs (case v of VStruct xs \<Rightarrow> xs | _ \<Rightarrow> []))"
| "elem_of e name (TInt n) v = Element ((base_info e name (TInt n) v)\<lparr>int_size := int n\<rparr>) [] []"
| "elem_of e name (TUInt n) v = Element ((base_info e name (TUInt n) v)\<lparr>int_size := int n\<rparr>) [] []"
| "elem_of e name ty v = Element (base_info e name ty v) [] []"
| "fields_of e ((name, t) # fs) (x # xs) =
     (\<lparr>field_flags = 0, field_name = name, field_aliases = [], default_bytes = (if e then data_bytes x else [])\<rparr>,
      elem_of e name t x) # fields_of e fs xs"
| "fields_of e _ _ = []"

lemma el_info_elem_of:
  "el_type (el_info (elem_of e name ty v)) = type_code ty"
  "fixed_size (elem_of e name ty v) = fixed_type ty"
  "binary_schema (el_info (elem_of e name ty v)) = schema_bytes e ty v"
  by (cases ty; simp add: base_info_def el_info_init_def)+

lemma type_code_not_final [simp]: "type_code ty \<noteq> kFinal"
  by (cases ty) (simp_all add: type_codes)

subsection \<open>Fixed sizes\<close>

lemma add_sizes_neg: "ms < 0 \<Longrightarrow> add_sizes ms ns < 0"
  by (induction ns arbitrary: ms) auto

lemma add_sizes_nonneg:
  "0 \<le> add_sizes ms ns \<Longrightarrow> 0 \<le> ms \<and> (\<forall>n \<in> set ns. 0 \<le> n) \<and> add_sizes ms ns = ms + sum_list ns"
proof (induction ns arbitrary: ms)
  case (Cons n ns)
  have "\<not> n < 0" using Cons.prems add_sizes_neg [of "-1" ns] by auto
  moreover have "0 \<le> ms" using Cons.prems calculation add_sizes_neg [of ms ns] by (cases "0 \<le> ms") auto
  ultimately show ?case using Cons.prems Cons.IH [of "ms + n"] by simp
qed simp

lemma fixed_type_length:
  "has_type v ty \<Longrightarrow> 0 \<le> fixed_type ty \<Longrightarrow> int (length (data_bytes v)) = fixed_type ty"
proof (induction rule: has_type.induct)
  case (Struct xs fs ds)
  let ?ns = "map (\<lambda>f. fixed_type (snd f)) fs"
  have "0 \<le> add_sizes 0 ?ns" using Struct.prems by (simp add: Let_def split: if_splits)
  note sizes = add_sizes_nonneg [OF this]
  then have "\<forall>f \<in> set fs. 0 \<le> fixed_type (snd f)" by simp
  with Struct(1) have "int (length (concat (map data_bytes xs))) = sum_list ?ns"
    by (induction xs fs rule: list_all2_induct) auto
  with sizes show ?case by (simp add: Let_def)
qed simp_all

subsection \<open>Skipping data\<close>

text \<open>A stream whose \<open>ignore\<close> takes a signed count.\<close>

locale skip_stream = read_stream +
  fixes ignz :: "'a \<Rightarrow> int \<Rightarrow> 'a res"
  assumes ignz: "ok s \<Longrightarrow> 0 \<le> n \<Longrightarrow> ignz s n = Inr (ign s (nat n))"
begin

definition skips :: "byte list \<Rightarrow> 'a \<Rightarrow> ('a \<Rightarrow> 'a res) \<Rightarrow> bool" where
  "skips bs s f = (\<forall>rest. ok s \<longrightarrow> avail s = bs @ rest \<longrightarrow> (\<exists>t. f s = Inr t \<and> avail t = rest \<and> ok t))"

lemma skipsD: "skips bs s f \<Longrightarrow> ok s \<Longrightarrow> avail s = bs @ rest \<Longrightarrow> \<exists>t. f s = Inr t \<and> avail t = rest \<and> ok t"
  by (simp add: skips_def)

lemma skipsI: "(\<And>rest. ok s \<Longrightarrow> avail s = bs @ rest \<Longrightarrow> \<exists>t. f s = Inr t \<and> avail t = rest \<and> ok t) \<Longrightarrow> skips bs s f"
  by (simp add: skips_def)

lemma skips_ignz: "int (length bs) = n \<Longrightarrow> skips bs s (\<lambda>s. ignz s n)"
  by (auto simp: skips_def ignz ign_avail ign_ok)

lemma skips_Nil: "skips [] s Inr"
  by (simp add: skips_def)

lemma skips_seq:
  assumes "skips as s f" and "\<And>t. skips bs t g"
  shows "skips (as @ bs) s (\<lambda>s. sbind (f s) g)"
proof (rule skipsI)
  fix rest
  assume "ok s" "avail s = (as @ bs) @ rest"
  then obtain t where "f s = Inr t" "avail t = bs @ rest" "ok t"
    using skipsD [OF assms(1)] by fastforce
  with skipsD [OF assms(2) \<open>ok t\<close>] show "\<exists>u. sbind (f s) g = Inr u \<and> avail u = rest \<and> ok u" by simp
qed

lemma skips_varuint:
  assumes "n < 2 ^ 64" and "\<And>t. skips bs t (g (of_nat n))"
  shows "skips (leb128 n @ bs) s (\<lambda>s. sbind (varuint_value rd s) (\<lambda>(v, s). g v s))"
proof (rule skipsI)
  fix rest
  assume "ok s" "avail s = (leb128 n @ bs) @ rest"
  then obtain t where "tl_ReadVaruint rd s = Inr (Some (of_nat n), t)" "avail t = bs @ rest" "ok t"
    using rd_varuint_nat [of s n "bs @ rest"] assms(1) by auto
  with skipsD [OF assms(2) \<open>ok t\<close>]
  show "\<exists>u. sbind (varuint_value rd s) (\<lambda>(v, s). g v s) = Inr u \<and> avail u = rest \<and> ok u"
    by (simp add: varuint_value_def opt_value_def)
qed

lemma skips_repeat:
  assumes "\<And>x t. x \<in> set xs \<Longrightarrow> skips (data_bytes x) t f"
  shows "skips (concat (map data_bytes xs)) s (repeat_res (length xs) f)"
  using assms
proof (induction xs arbitrary: s)
  case (Cons x xs)
  then have "skips (data_bytes x @ concat (map data_bytes xs)) s (\<lambda>s. sbind (f s) (repeat_res (length xs) f))"
    by (intro skips_seq) auto
  then show ?case by (simp add: fun_eq_iff skips_def)
qed (simp add: skips_def)

end

lemma sint_u64_small: "0 \<le> k \<Longrightarrow> k < 2 ^ 63 \<Longrightarrow> sint (of_int k :: u64) = k"
  by (simp add: signed_of_int signed_take_bit_int_eq_self)

lemma sint_of_nat_small: "n < 2 ^ 63 \<Longrightarrow> sint (of_nat n :: u64) = int n"
  using sint_u64_small [of "int n"] by simp

lemma sint_product_small:
  "0 \<le> k \<Longrightarrow> int n * k < 2 ^ 63 \<Longrightarrow> sint (of_nat n * of_int k :: u64) = int n * k"
  using sint_u64_small [of "int n * k"] by simp

lemma length_member_le: "x \<in> set xs \<Longrightarrow> length (f x) \<le> length (concat (map f xs))"
  by (induction xs) auto

context skip_stream
begin

lemma el_Ignore_fixed:
  "0 \<le> fixed_size el \<Longrightarrow> el_Ignore rd ignz el = (\<lambda>s. ignz s (fixed_size el))"
  by (cases el) (simp add: fun_eq_iff el_Ignore.simps)

lemma elem_of_fixed_skips:
  "has_type v ty \<Longrightarrow> 0 \<le> fixed_type ty \<Longrightarrow> skips (data_bytes v) s (el_Ignore rd ignz (elem_of e name ty z))"
  by (simp add: el_Ignore_fixed el_info_elem_of skips_ignz fixed_type_length)

lemma items_skip:
  assumes "\<And>x s. x \<in> set xs \<Longrightarrow> has_type x t" and "length (concat (map data_bytes xs)) < 2 ^ 63"
    and "\<And>x s. x \<in> set xs \<Longrightarrow> skips (data_bytes x) s (el_Ignore rd ignz (elem_of e name t z))"
    and "length xs < 2 ^ 64"
  shows "skips (concat (map data_bytes xs)) s
    (\<lambda>s. if 0 \<le> fixed_type t then ignz s (sint (of_nat (length xs) * of_int (fixed_type t) :: u64))
         else repeat_res (unat (of_nat (length xs) :: u64)) (\<lambda>s. el_Ignore rd ignz (elem_of e name t z) s) s)"
proof (cases "0 \<le> fixed_type t")
  case True
  have "int (length (concat (map data_bytes xs))) = int (length xs) * fixed_type t"
    using assms(1) by (induction xs) (auto simp: fixed_type_length [OF _ True] algebra_simps)
  with True assms(2) show ?thesis
    by (simp add: sint_product_small skips_ignz)
next
  case False
  with assms(3,4) show ?thesis
    using skips_repeat [of xs "el_Ignore rd ignz (elem_of e name t z)" s]
    by (simp add: unat_of_nat take_bit_eq_mod skips_def)
qed

lemma fields_skip:
  assumes "list_all2 (\<lambda>x f. has_type x (snd f)) xs fs" and "list_all2 (\<lambda>x f. has_type x (snd f)) zs fs"
    and "\<And>i s name. i < length xs \<Longrightarrow>
       skips (data_bytes (xs ! i)) s (el_Ignore rd ignz (elem_of e name (snd (fs ! i)) (zs ! i)))"
  shows "skips (concat (map data_bytes xs)) s (el_Ignore_fields rd ignz (fields_of e fs zs))"
  using assms
proof (induction fs arbitrary: xs zs s rule: list.induct)
  case Nil
  from Nil.prems(1) have "xs = []" by simp
  then show ?case by (simp add: skips_def)
next
  case (Cons f fs)
  then obtain x xs' z zs' where eq: "xs = x # xs'" "zs = z # zs'" by (auto simp: list_all2_Cons2)
  obtain name t where f: "f = (name, t)" by (cases f)
  have 1: "skips (data_bytes x) s (el_Ignore rd ignz (elem_of e name t z))" for s
    using Cons.prems(3) [of 0 s name] eq f by simp
  have 2: "skips (concat (map data_bytes xs')) s (el_Ignore_fields rd ignz (fields_of e fs zs'))" for s
    using Cons.IH [of xs' zs'] Cons.prems(1,2) Cons.prems(3) [of "Suc i" for i] eq by simp
  show ?case
    using skips_seq [OF 1 2] eq f by (simp add: skips_def)
qed

lemma union_skips:
  assumes "maybe_fixed_size i < 0" and "el_type i = kUnion" and "n < length cs" and "n < 2 ^ 64"
    and "\<And>t. skips bs t (el_Ignore rd ignz (cs ! n))"
  shows "skips (leb128 n @ bs) s (el_Ignore rd ignz (Element i cs fs))"
proof -
  have "unat (of_nat n :: u64) = n" using assms(4) by (simp add: unat_of_nat take_bit_eq_mod)
  with assms have "skips (leb128 n @ bs) s (\<lambda>s. sbind (varuint_value rd s) (\<lambda>(index, s).
      if unat index > length cs then Inl (ErrorCode kInvalidUnionIndex)
      else if unat index = length cs then Inl BufferOverrun
      else el_Ignore rd ignz (cs ! unat index) s))"
    by (intro skips_varuint) simp_all
  with assms(1,2) show ?thesis by (simp add: skips_def el_Ignore.simps(1) type_codes)
qed

lemma el_Ignore_skips:
  "has_type v ty \<Longrightarrow> wf_type ty \<Longrightarrow> has_type z ty \<Longrightarrow> length (data_bytes v) < 2 ^ 63 \<Longrightarrow>
   skips (data_bytes v) s (el_Ignore rd ignz (elem_of e name ty z))"
proof (induction v ty arbitrary: z s name rule: has_type.induct)
  case (Bytes d)
  have "skips (leb128 (length d) @ d) s (\<lambda>s. sbind (varuint_value rd s) (\<lambda>(sz, s). ignz s (sint sz)))"
    using Bytes by (intro skips_varuint skips_ignz) (simp_all add: sint_of_nat_small)
  then show ?case
    by (simp add: skips_def el_Ignore.simps base_info_def el_info_init_def type_codes string_bytes_def)
next
  case (String d)
  have "skips (leb128 (length d) @ d) s (\<lambda>s. sbind (varuint_value rd s) (\<lambda>(sz, s). ignz s (sint sz)))"
    using String by (intro skips_varuint skips_ignz) (simp_all add: sint_of_nat_small kMaxStringSize_def)
  then show ?case
    by (simp add: skips_def el_Ignore.simps base_info_def el_info_init_def type_codes string_bytes_def)
next
  case (Array xs n t)
  have "skips (data_bytes x) s (el_Ignore rd ignz (elem_of e name t (default_value t)))" if "x \<in> set xs" for x s
    using Array that length_member_le [OF that, of data_bytes] default_has_type [of t]
    by (auto dest: order_le_less_trans)
  then have "skips (concat (map data_bytes xs)) s
    (\<lambda>s. if 0 \<le> fixed_type t then ignz s (sint (of_nat (length xs) * of_int (fixed_type t) :: u64))
         else repeat_res (unat (of_nat (length xs) :: u64)) (\<lambda>s. el_Ignore rd ignz (elem_of e name t (default_value t)) s) s)"
    using Array by (intro items_skip) auto
  moreover have "n = length xs" using Array by simp
  ultimately show ?case
    by (cases "0 \<le> fixed_type t")
      (simp_all add: skips_def el_Ignore.simps base_info_def el_info_init_def type_codes el_info_elem_of)
next
  case (Vector xs t)
  have "skips (data_bytes x) s (el_Ignore rd ignz (elem_of e name t (default_value t)))" if "x \<in> set xs" for x s
    using Vector that length_member_le [OF that, of data_bytes] default_has_type [of t]
    by (auto dest: order_le_less_trans)
  then have "skips (leb128 (length xs) @ concat (map data_bytes xs)) s
    (\<lambda>s. sbind (varuint_value rd s) (\<lambda>(n, s).
         if 0 \<le> fixed_type t then ignz s (sint (n * of_int (fixed_type t)))
         else repeat_res (unat n) (\<lambda>s. el_Ignore rd ignz (elem_of e name t (default_value t)) s) s))"
    using Vector by (intro skips_varuint items_skip) auto
  then show ?case
    by (cases "0 \<le> fixed_type t")
      (simp_all add: skips_def el_Ignore.simps base_info_def el_info_init_def type_codes el_info_elem_of)
next
  case (OptionalNone t)
  have "skips (leb128 0 @ []) s (el_Ignore rd ignz (elem_of e name (TOptional t) z))"
    unfolding elem_of.simps by (rule union_skips)
      (simp_all add: base_info_def el_info_init_def el_Ignore_fixed skips_ignz)
  then show ?case by (simp add: leb128_small)
next
  case (OptionalSome x t)
  have "skips (leb128 1 @ data_bytes x) s (el_Ignore rd ignz (elem_of e name (TOptional t) z))"
    unfolding elem_of.simps
    by (rule union_skips) (use OptionalSome default_has_type [of t] in
        \<open>simp_all add: base_info_def el_info_init_def\<close>)
  then show ?case by (simp add: leb128_small)
next
  case (Enum w m)
  have "skips (leb128 (unat w)) s (\<lambda>s. sbind (tl_ReadVaruint rd s) (\<lambda>(_, s). Inr s))"
    by (rule skipsI) (use rd_varuint in fastforce)
  then show ?case
    by (simp add: skips_def el_Ignore.simps(1) base_info_def el_info_init_def type_codes)
next
  case (Struct xs fs ds)
  then obtain zs where z: "z = VStruct zs" "list_all2 (\<lambda>x f. has_type x (snd f)) zs fs" by auto
  show ?case
  proof (cases "0 \<le> fixed_type (TStruct fs ds)")
    case True
    have "has_type (VStruct xs) (TStruct fs ds)"
      by (rule has_type.Struct) (use Struct(1) in \<open>rule list_all2_mono; simp\<close>)
    then show ?thesis using True by (rule elem_of_fixed_skips)
  next
    case False
    have xs: "list_all2 (\<lambda>x f. has_type x (snd f)) xs fs"
      using Struct(1) by (rule list_all2_mono) simp
    have "skips (data_bytes (xs ! i)) s (el_Ignore rd ignz (elem_of e name (snd (fs ! i)) (zs ! i)))"
      if "i < length xs" for i s name
    proof -
      have "length (data_bytes (xs ! i)) < 2 ^ 63"
        using Struct.prems(3) length_member_le [of "xs ! i" xs data_bytes] that by simp
      with Struct z that show ?thesis
        by (auto simp: list_all2_conv_all_nth all_set_conv_all_nth split_beta)
    qed
    from fields_skip [OF xs z(2) this] False z show ?thesis
      by (simp add: skips_def el_Ignore.simps(1) base_info_def el_info_init_def type_codes Let_def
          split: if_splits)
  qed
qed (rule elem_of_fixed_skips; auto intro: has_type.intros)+

end

interpretation list_skip: skip_stream list_read "\<lambda>xs n. drop n xs" "\<lambda>xs. xs" "\<lambda>_. True" list_ignore
  by unfold_locales (simp add: list_ignore_def)

text \<open>\<open>BufferReadStream::ignore\<close> for every count; a negative one moves backwards.\<close>

definition brs_ignorez :: "brs \<Rightarrow> int \<Rightarrow> brs res" where
  "brs_ignorez s n = Inr (brs_fast_ignore s (min n (brs_remaining s)))"

interpretation brs_skip: skip_stream brs_read brs_ignore brs_avail brs_ok brs_ignorez
  by unfold_locales (simp add: brs_ignorez_def brs_ignore_def)

lemma el_Read_bytes:
  "has_type v ty \<Longrightarrow> wf_type ty \<Longrightarrow> has_type z ty \<Longrightarrow> length (data_bytes v) < 2 ^ 63 \<Longrightarrow>
   el_Read (elem_of e name ty z) (data_bytes v @ rest) = Inr (data_bytes v, rest)"
  using list_skip.skipsD [OF list_skip.el_Ignore_skips, of v ty z "data_bytes v @ rest" rest e name]
  by (auto simp: el_Read_def)

section \<open>Parsing the schema of a type\<close>

lemma varuint_value_leb128: "n < 2 ^ 64 \<Longrightarrow> varuint_value list_read (leb128 n @ rest) = Inr (of_nat n, rest)"
  using tl_ReadVaruint_leb128 [of "of_nat n" rest]
  by (simp add: varuint_value_def opt_value_def unat_of_nat take_bit_eq_mod)

lemma varuint_value_u64: "varuint_value list_read (leb128 (unat v) @ rest) = Inr (v, rest)"
  by (simp add: varuint_value_def opt_value_def tl_ReadVaruint_leb128)

lemma string_value_bytes:
  "length d \<le> kMaxStringSize \<Longrightarrow> string_value list_read (string_bytes d @ rest) = Inr (d, rest)"
  by (simp add: string_value_def opt_value_def tl_ReadString_bytes)

lemma byte_value: "opt_value (tl_ReadScalar list_read (Suc 0) (b # rest)) = Inr (b :: byte, rest)"
  by (simp add: opt_value_def tl_ReadScalar_eq ReadScalar_list)

lemma read_enum_items_bytes:
  assumes "\<forall>(k, name) \<in> set items. length name \<le> kMaxStringSize"
  shows "read_enum_items (length items) (Element (i\<lparr>el_type := kVaruint\<rparr>) cs fs) m
     (concat (map (\<lambda>(key, name). leb128 (unat key) @ string_bytes name) items) @ rest)
   = Inr (insert_items items m, rest)"
  using assms
proof (induction items arbitrary: m)
  case (Cons item items)
  then show ?case
    by (cases item) (simp add: type_codes varuint_value_u64 string_value_bytes)
qed simp

definition final_field :: "byte list" where
  "final_field = leb128 0 @ string_bytes [] @ leb128 0 @ leb128 0 @ leb128 0"

lemma final_field_eq: "final_field = [0, 0, 0, 0, 0]"
  by (simp add: final_field_def string_bytes_def leb128_small)

lemma small_leb128: "n < 128 \<Longrightarrow> leb128 n @ rest = of_nat n # rest"
  by (simp add: leb128_small)

lemma varuint_value_small: "unat b < 128 \<Longrightarrow> varuint_value list_read (b # rest) = Inr (ucast b, rest)"
  using varuint_value_leb128 [of "unat b" rest]
  by (simp add: leb128_small)

lemma string_value_empty: "string_value list_read (0 # rest) = Inr ([], rest)"
  using string_value_bytes [of "[]" rest] by (simp add: string_bytes_def leb128_small)

lemma sp_ReadType_final:
  "sp_ReadType (Suc k) name (0 # rest) =
     Inr (Element ((el_info_init kFinal name)\<lparr>binary_schema := [0]\<rparr>) [] [], rest)"
  by (simp add: sp_ReadType.simps varuint_value_small type_codes Let_def)

lemma sp_ReadFields_final:
  "5 \<le> k \<Longrightarrow> sp_ReadFields k acc ms (final_field @ rest) = Inr (acc, ms, rest)"
  by (cases k; cases "k - 1")
    (simp_all add: sp_ReadFields.simps sp_ReadField_def final_field_eq varuint_value_small string_value_empty
      sp_ReadType_final byte_value el_info_init_def)

lemma sp_ReadFields_zeros:
  "5 \<le> k \<Longrightarrow> sp_ReadFields k acc ms (0 # 0 # 0 # 0 # 0 # rest) = Inr (acc, ms, rest)"
  using sp_ReadFields_final [of k acc ms rest] by (simp add: final_field_eq)

lemma sp_ReadType_null:
  "sp_ReadType (Suc k) name (1 # rest) =
     Inr (Element ((el_info_init kNull name)\<lparr>binary_schema := [1], maybe_fixed_size := 0\<rparr>) [] [], rest)"
  by (simp add: sp_ReadType.simps varuint_value_small type_codes Let_def el_info_init_def)

lemma sp_ReadType_varuint:
  "sp_ReadType (Suc k) name (6 # rest) =
     Inr (Element ((el_info_init kVaruint name)\<lparr>binary_schema := [6]\<rparr>) [] [], rest)"
  by (simp add: sp_ReadType.simps varuint_value_small type_codes Let_def el_info_init_def)

lemma sp_ReadUnion_optional:
  assumes "sp_ReadType (Suc k) name (xs @ 0 # rest) = Inr (c, 0 # rest)" and "el_type (el_info c) \<noteq> kFinal"
    and "0 < k"
  shows "sp_ReadUnion (Suc (Suc k)) name [] (1 # xs @ 0 # rest) =
    Inr ([Element ((el_info_init kNull name)\<lparr>binary_schema := [1], maybe_fixed_size := 0\<rparr>) [] [], c], rest)"
  using assms
  by (cases k) (simp_all add: sp_ReadUnion.simps sp_ReadType_null sp_ReadType_final el_info_init_def type_codes)

lemma sp_ReadField_field:
  assumes "read_type name (sch @ rest') = Inr (el, rest')" and "el_type (el_info el) \<noteq> kFinal"
    and "length name \<le> kMaxStringSize"
    and "rest' = (if e then leb128 1 @ d else leb128 0) @ rest" and "e \<Longrightarrow> el_Read el (d @ rest) = Inr (d, rest)"
  shows "sp_ReadField read_type (leb128 0 @ string_bytes name @ leb128 0 @ sch @ rest')
    = Inr (Some (\<lparr>field_flags = 0, field_name = name, field_aliases = [], default_bytes = (if e then d else [])\<rparr>, el), rest)"
  using assms
  by (auto simp: sp_ReadField_def small_leb128 varuint_value_small string_value_bytes byte_value)

lemma sp_ReadType_schema:
  "has_type v ty \<Longrightarrow> wf_type ty \<Longrightarrow> length (schema_bytes e ty v) < 2 ^ 63 \<Longrightarrow>
     length (schema_bytes e ty v @ rest) \<le> k \<Longrightarrow>
     sp_ReadType k name (schema_bytes e ty v @ rest) = Inr (elem_of e name ty v, rest)"
  "list_all2 (\<lambda>x f. has_type x (snd f)) xs fs \<Longrightarrow>
     \<forall>(name, t) \<in> set fs. length name \<le> kMaxStringSize \<and> wf_type t \<Longrightarrow>
     length (field_bytes e fs xs) < 2 ^ 63 \<Longrightarrow>
     length (field_bytes e fs xs @ final_field @ rest) \<le> k \<Longrightarrow>
     sp_ReadFields k acc ms (field_bytes e fs xs @ final_field @ rest)
       = Inr (acc @ fields_of e fs xs, add_sizes ms (map (\<lambda>f. fixed_type (snd f)) fs), rest)"
proof (induction e ty v and e fs xs arbitrary: k name rest and k acc ms rest
    rule: schema_bytes_field_bytes.induct)
  case (1 e n t v)
  then obtain j where k: "k = Suc j" by (cases k) simp_all
  have "sp_ReadType j name (schema_bytes e t (default_value t) @ rest)
      = Inr (elem_of e name t (default_value t), rest)"
    using 1 k by (intro "1.IH") (auto simp: default_has_type leb128_small)
  with k 1 show ?case
    by (simp add: sp_ReadType.simps small_leb128 varuint_value_small varuint_value_leb128 type_codes Let_def
        base_info_def el_info_init_def)
next
  case (2 e t v)
  then obtain j where k: "k = Suc j" by (cases k) simp_all
  have "sp_ReadType j name (schema_bytes e t (default_value t) @ rest)
      = Inr (elem_of e name t (default_value t), rest)"
    using 2 k by (intro "2.IH") (auto simp: default_has_type leb128_small)
  with k 2 show ?case
    by (simp add: sp_ReadType.simps small_leb128 varuint_value_small type_codes Let_def
        base_info_def el_info_init_def)
next
  case (3 e t v)
  have "0 < length (schema_bytes e t (default_value t))" by (cases t) simp_all
  with "3.prems" obtain j where k: "k = Suc (Suc (Suc j))" "0 < j"
    by (cases k; cases "k - 1"; cases "k - 2") (auto simp: leb128_small)
  have "sp_ReadType (Suc j) name (schema_bytes e t (default_value t) @ 0 # rest)
      = Inr (elem_of e name t (default_value t), 0 # rest)"
    using 3 k by (intro "3.IH") (auto simp: default_has_type leb128_small)
  then have "sp_ReadUnion (Suc (Suc j)) name [] (1 # schema_bytes e t (default_value t) @ 0 # rest)
      = Inr (children (elem_of e name (TOptional t) v), rest)"
    using k(2) by (simp add: sp_ReadUnion_optional el_info_elem_of)
  with k show ?case
    by (simp add: sp_ReadType.simps(2) leb128_small varuint_value_small type_codes Let_def
        base_info_def el_info_init_def numeral_3_eq_3)
next
  case (4 e items v)
  then obtain j where k: "k = Suc (Suc j)"
    by (cases k; cases "k - 1") (auto simp: leb128_small)
  have "unat (of_nat (length items) :: u64) = length items"
    using 4 by (simp add: unat_of_nat take_bit_eq_mod)
  moreover have "Element ((el_info_init kVaruint name)\<lparr>binary_schema := [6]\<rparr>) [] []
      = Element ((el_info_init kVaruint name)\<lparr>binary_schema := [6]\<rparr>\<lparr>el_type := kVaruint\<rparr>) [] []"
    by (simp add: el_info_init_def)
  ultimately show ?case
    using k 4 read_enum_items_bytes [of items "(el_info_init kVaruint name)\<lparr>binary_schema := [6]\<rparr>" "[]" "[]" Map.empty rest]
    by (simp add: sp_ReadType.simps(2) [of "Suc j"] sp_ReadType_varuint small_leb128 varuint_value_small
        varuint_value_leb128 type_codes Let_def base_info_def el_info_init_def)
next
  case (5 e fs ds v)
  then obtain xs where v: "v = VStruct xs" "list_all2 (\<lambda>x f. has_type x (snd f)) xs fs" by auto
  from "5.prems" obtain j where k: "k = Suc j" by (cases k) simp_all
  have "sp_ReadFields j [] 0 (field_bytes e fs xs @ final_field @ rest)
     = Inr ([] @ fields_of e fs xs, add_sizes 0 (map (\<lambda>f. fixed_type (snd f)) fs), rest)"
    using "5.IH" [where k = j and rest = rest and acc = "[]" and ms = 0] "5.prems" v k
    by (simp add: final_field_def leb128_small)
  moreover have "schema_bytes e (TStruct fs ds) v = 16 # 0 # field_bytes e fs xs @ final_field"
    using v by (simp add: final_field_def leb128_small)
  ultimately show ?case
    using k v by (simp add: sp_ReadType.simps(2) varuint_value_small type_codes Let_def
        base_info_def el_info_init_def del: schema_bytes.simps)
next
  case (7 e name t fs x xs)
  from "7.prems" obtain j where k: "k = Suc j" by (cases k) simp_all
  have wf: "wf_type t" "length name \<le> kMaxStringSize" "has_type x t" using "7.prems" by auto
  let ?rest = "field_bytes e fs xs @ final_field @ rest"
  let ?rest' = "(if e then leb128 1 @ data_bytes x else leb128 0) @ ?rest"
  have ty: "sp_ReadType j name (schema_bytes e t x @ ?rest') = Inr (elem_of e name t x, ?rest')"
    using 7 k by (intro "7.IH"(1)) (auto simp: leb128_small)
  have d: "e \<Longrightarrow> el_Read (elem_of e name t x) (data_bytes x @ ?rest) = Inr (data_bytes x, ?rest)"
    using wf "7.prems" by (intro el_Read_bytes) auto
  have "sp_ReadField (\<lambda>name ys. sp_ReadType j name ys)
       (leb128 0 @ string_bytes name @ leb128 0 @ schema_bytes e t x @ ?rest')
     = Inr (Some (\<lparr>field_flags = 0, field_name = name, field_aliases = [],
                   default_bytes = (if e then data_bytes x else [])\<rparr>, elem_of e name t x), ?rest)"
    by (rule sp_ReadField_field [where rest' = ?rest'])
      (rule ty, simp add: el_info_elem_of, rule wf(2), rule refl, erule d)
  then have fld: "sp_ReadField (\<lambda>name ys. sp_ReadType j name ys) (field_bytes e ((name, t) # fs) (x # xs) @ final_field @ rest)
      = Inr (Some (hd (fields_of e ((name, t) # fs) (x # xs))), ?rest)"
    by simp
  have "sp_ReadFields j acc' ms' ?rest
      = Inr (acc' @ fields_of e fs xs, add_sizes ms' (map (\<lambda>f. fixed_type (snd f)) fs), rest)" for acc' ms'
    using 7 k by (intro "7.IH"(2)) (auto simp: leb128_small)
  then show ?case
    unfolding k sp_ReadFields.simps(2) fld by (simp add: el_info_elem_of)
next
  case "8_1"
  then show ?case by (simp add: final_field_eq sp_ReadFields_zeros)
next
  case "8_2"
  then show ?case by (simp add: final_field_eq sp_ReadFields_zeros)
qed (case_tac k; simp add: sp_ReadType.simps small_leb128 varuint_value_small type_codes Let_def
      base_info_def el_info_init_def leb128_small int_sizes_def byte_value; auto simp: varuint_value_small byte_value)+

section \<open>The order of iteration\<close>

text \<open>The reference: every element before its parts, the parts in order.\<close>

function preorder :: "element \<Rightarrow> nat list \<Rightarrow> nat list list" where
  "preorder e p =
     p # concat (map (\<lambda>i. preorder (sub_elements e ! i) (i # p)) [0..<length (sub_elements e)])"
  by pat_completeness auto

lemma size_sub_element: "i < length (sub_elements e) \<Longrightarrow> size (sub_elements e ! i) < size e"
proof (cases e)
  case (Element j cs fs)
  moreover have "size (snd (fs ! i)) \<le> size_list (size_prod (\<lambda>_. 0) size) fs" if "i < length fs"
    using size_list_estimation' [OF nth_mem [OF that], of "size (snd (fs ! i))" "size_prod (\<lambda>_. 0) size"]
    by (simp add: size_prod_def split_beta)
  ultimately show "i < length (sub_elements e) \<Longrightarrow> ?thesis"
    using size_nth_child [of i cs] by (auto simp: sub_elements_def split: if_splits)
qed

termination preorder
  by (relation "measure (size \<circ> fst)") (auto simp: size_sub_element)

declare preorder.simps [simp del]

lemma visit_elements_preorder:
  "element_at root p = e \<Longrightarrow>
   visit_elements (length (preorder e p) + n) root p
     = preorder e p @ (case next_up root p of None \<Rightarrow> [] | Some q \<Rightarrow> visit_elements n root q)"
proof (induction e p arbitrary: n rule: preorder.induct)
  case (1 e p)
  let ?k = "length (sub_elements e)"
  let ?pre = "\<lambda>i. preorder (sub_elements e ! i) (i # p)"
  have from_child: "visit_elements (length (concat (map ?pre [i..<?k])) + n) root (i # p)
      = concat (map ?pre [i..<?k]) @ (case next_up root p of None \<Rightarrow> [] | Some q \<Rightarrow> visit_elements n root q)"
    if "i < ?k" for i
    using that
  proof (induction "?k - i" arbitrary: i)
    case (Suc j)
    have split: "[i..<?k] = i # [Suc i..<?k]" using Suc.prems by (simp add: upt_conv_Cons)
    let ?m = "length (concat (map ?pre [Suc i..<?k])) + n"
    have "visit_elements (length (?pre i) + ?m) root (i # p)
        = ?pre i @ (case next_up root (i # p) of None \<Rightarrow> [] | Some q \<Rightarrow> visit_elements ?m root q)"
      using "1.IH" [of i ?m] "1.prems" Suc.prems by simp
    also have "(case next_up root (i # p) of None \<Rightarrow> [] | Some q \<Rightarrow> visit_elements ?m root q)
        = concat (map ?pre [Suc i..<?k]) @ (case next_up root p of None \<Rightarrow> [] | Some q \<Rightarrow> visit_elements n root q)"
      using Suc.hyps(1) [of "Suc i"] Suc.hyps(2) Suc.prems "1.prems" by (cases "Suc i < ?k") (simp_all add: not_less split: option.split)
    finally show ?case by (simp add: split add.assoc)
  qed simp
  show ?case
  proof (cases "sub_elements e = []")
    case True
    then show ?thesis
      using "1.prems" by (simp add: preorder.simps [of e p] NextElement_def)
  next
    case False
    then have "visit_elements (length (preorder e p) + n) root p
        = p # visit_elements (length (concat (map ?pre [0..<?k])) + n) root (0 # p)"
      using "1.prems" by (simp add: preorder.simps [of e p] NextElement_def)
    with from_child [of 0] False show ?thesis
      by (simp add: preorder.simps [of e p])
  qed
qed

lemma preorder_suffix: "q \<in> set (preorder e p) \<Longrightarrow> \<exists>a. q = a @ p"
proof (induction e p arbitrary: q rule: preorder.induct)
  case (1 e p)
  show ?case
  proof (cases "q = p")
    case False
    then obtain i where "i < length (sub_elements e)" "q \<in> set (preorder (sub_elements e ! i) (i # p))"
      using "1.prems" by (auto simp: preorder.simps [of e p])
    with "1.IH" [of i q] show ?thesis by auto
  qed simp
qed

lemma distinct_concat_map:
  "distinct is \<Longrightarrow> (\<And>i. i \<in> set is \<Longrightarrow> distinct (f i)) \<Longrightarrow>
   (\<And>i j. i \<in> set is \<Longrightarrow> j \<in> set is \<Longrightarrow> i \<noteq> j \<Longrightarrow> set (f i) \<inter> set (f j) = {}) \<Longrightarrow>
   distinct (concat (map f is))"
  by (induction "is") (auto simp: disjoint_iff)

lemma distinct_preorder: "distinct (preorder e p)"
proof (induction e p rule: preorder.induct)
  case (1 e p)
  have "distinct (concat (map (\<lambda>i. preorder (sub_elements e ! i) (i # p)) [0..<length (sub_elements e)]))"
  proof (rule distinct_concat_map)
    fix i j :: nat
    assume "i \<noteq> j"
    then show "set (preorder (sub_elements e ! i) (i # p)) \<inter> set (preorder (sub_elements e ! j) (j # p)) = {}"
      by (auto dest!: preorder_suffix)
  qed (simp_all add: 1)
  moreover have "p \<notin> set (preorder (sub_elements e ! i) (i # p))" for i
    by (auto dest!: preorder_suffix dest: arg_cong [where f = length])
  ultimately show ?case by (simp add: preorder.simps [of e p])
qed

section \<open>Properties\<close>

text \<open>
  C24: a loop over \<open>elements()\<close> visits every element of the schema
  exactly once, each container before its parts and the parts in order, and then ends.
\<close>

theorem schema_iteration_preorder:
  "visit_elements (length (preorder root []) + n) root [] = preorder root []
   \<and> distinct (preorder root [])"
  using visit_elements_preorder [of root "[]" root n] by (simp add: distinct_preorder)

text \<open>
  C22: for every type the archives know, the schema
  \<open>BinarySchemaArchive\<close> writes is accepted by the parser, which remembers exactly its bytes; and
  the element it builds reads and skips exactly the bytes \<open>BinaryWriteArchive\<close> writes for any
  object of the type, whatever follows them, with the defaults in the schema or without. An
  element that knows its size has the size of every such object.
\<close>

theorem schema_describes_data:
  assumes "has_type v ty" and "wf_type ty"
    and "schema_Write e ty = Inr sch" and "archive_Write v = Inr d"
    and "length sch < 2 ^ 63" and "length d < 2 ^ 63"
  shows "\<exists>el s. BinarySchemaParser sch name = Inr el
    \<and> binary_schema (el_info el) = sch
    \<and> el_Read el (d @ rest) = Inr (d, rest)
    \<and> el_Ignore brs_read brs_ignorez el (brs_init (d @ rest)) = Inr s \<and> brs_avail s = rest
    \<and> (0 \<le> fixed_size el \<longrightarrow> int (length d) = fixed_size el)"
proof -
  let ?z = "default_value ty"
  have sch: "sch = schema_bytes e ty ?z" and d: "d = data_bytes v"
    using assms by (simp_all add: schema_Write_bytes archive_Write_bytes)
  have z: "has_type ?z ty" by (rule default_has_type) fact
  have "sp_ReadType (Suc (length sch)) name (sch @ []) = Inr (elem_of e name ty ?z, [])"
    unfolding sch using assms(2,5) z sch by (intro sp_ReadType_schema) simp_all
  then have "BinarySchemaParser sch name = Inr (elem_of e name ty ?z)"
    by (simp add: BinarySchemaParser_def)
  moreover have "el_Read (elem_of e name ty ?z) (d @ rest) = Inr (d, rest)"
    unfolding d using assms d z by (intro el_Read_bytes) simp_all
  moreover obtain s where "el_Ignore brs_read brs_ignorez (elem_of e name ty ?z) (brs_init (d @ rest)) = Inr s"
      "brs_avail s = rest"
    using brs_skip.skipsD [OF brs_skip.el_Ignore_skips [OF assms(1,2) z], of "brs_init (d @ rest)" rest e name]
      assms(6) d by auto
  ultimately show ?thesis
    using assms(1) d sch by (auto simp: el_info_elem_of fixed_type_length)
qed

theorem schema_describes_data_witness:
  "\<exists>el s. BinarySchemaParser (schema_bytes True demo_type (default_value demo_type)) (ascii ''demo'') = Inr el
    \<and> binary_schema (el_info el) = schema_bytes True demo_type (default_value demo_type)
    \<and> el_Read el (data_bytes demo_object @ [1, 2]) = Inr (data_bytes demo_object, [1, 2])
    \<and> el_Ignore brs_read brs_ignorez el (brs_init (data_bytes demo_object @ [1, 2])) = Inr s
    \<and> brs_avail s = [1, 2]
    \<and> (0 \<le> fixed_size el \<longrightarrow> int (length (data_bytes demo_object)) = fixed_size el)"
proof (rule schema_describes_data [OF demo_typed(1,2)])
  show "length (schema_bytes True demo_type (default_value demo_type)) < 2 ^ 63"
    and "length (data_bytes demo_object) < 2 ^ 63"
    by (simp_all add: demo_type_def demo_object_def string_bytes_def leb128_small type_codes)
qed (simp_all add: schema_Write_bytes archive_Write_bytes [OF demo_typed(1)] demo_typed)

text \<open>
  C23: the recursion of \<open>ReadType\<close> ends on every input: with a bound on
  the depth of its calls beyond the number of bytes of the input, the bound is never hit, a higher
  one changes nothing, and what is parsed is shorter than what was there before. So the parser,
  which is run with such a bound, ends in an element or in one of the code's own errors.
\<close>

theorem schema_parser_terminates:
  assumes "length xs < k"
  shows "sp_ReadType k name xs \<noteq> Inl OutOfFuel
    \<and> sp_ReadType k name xs = sp_ReadType (Suc (length xs)) name xs
    \<and> (\<forall>el ys. sp_ReadType k name xs = Inr (el, ys) \<longrightarrow> length ys < length xs)
    \<and> BinarySchemaParser xs name \<noteq> Inl OutOfFuel"
proof -
  have never: "sp_ReadType m name xs \<noteq> Inl OutOfFuel" if "length xs < m" for m
    using sp_Read_in_fuel [of m] that by (auto simp: in_fuel_def)
  have "BinarySchemaParser xs name \<noteq> Inl OutOfFuel"
    using never [of "Suc (length xs)"] by (auto simp: BinarySchemaParser_def sbind_def split: sum.split)
  with never [OF assms] sp_ReadType_fuel [OF assms, of name] sp_Read_shrinks [of k] show ?thesis by blast
qed

theorem schema_parser_terminates_witness:
  "sp_ReadType 9 [] [18, 2, 7] \<noteq> Inl OutOfFuel \<and> BinarySchemaParser [18, 18] [] \<noteq> Inl OutOfFuel"
proof -
  have "length [18, 2, 7 :: byte] < 9" and "length [18, 18 :: byte] < 9" by simp_all
  from schema_parser_terminates [OF this(1), of "[]"] schema_parser_terminates [OF this(2), of "[]"]
  show ?thesis by blast
qed

text \<open>
  C25: the index of a union is compared with \<open>>\<close> where \<open>>=\<close> is
  meant: an index beyond the number of alternatives is reported, the number itself is not and
  the element behind the last one is used.
\<close>

theorem schema_union_index_unchecked:
  assumes "has_type z (TOptional t)" and "wf_type t" and "n < 2 ^ 64" and "2 \<le> n"
  shows "el_Read (elem_of e name (TOptional t) z) (leb128 n @ rest)
    = (if n = 2 then Inl BufferOverrun else Inl (ErrorCode kInvalidUnionIndex))"
  using assms
  by (simp add: el_Read_def el_Ignore.simps(1) base_info_def el_info_init_def type_codes
      varuint_value_leb128 unat_of_nat take_bit_eq_mod)

theorem schema_union_index_unchecked_witness:
  "el_Read (elem_of True [] (TOptional TBool) (VOptional None)) [2, 0] = Inl BufferOverrun"
  using schema_union_index_unchecked [of "VOptional None" TBool 2 True "[]" "[0]"]
  by (simp add: OptionalNone leb128_small)

end
