(* ===== verification/File_Writer.thy ===== *)
theory File_Writer
  imports Telemetry_Format
begin

text \<open>
  \<open>telemetry/file_writer.cc\<close> and the part of \<open>base/thread_writer.h\<close> it rests on: log files are
  written as blocks, each in a buffer of its own, which a background thread moves to the file
  and hands back for reuse. An operation of the writer is atomic for the background thread but
  for the two lists both share under a mutex, the queue of the \<open>ThreadWriter\<close> and the list of
  reclaimed buffers; \<open>fw_background\<close> is one buffer moved, and may happen between any two
  operations. \<open>std::map\<close> is an association list sorted by key where it is iterated over.
\<close>

section \<open>Definitions\<close>

subsection \<open>Ordered maps\<close>

text \<open>\<open>m[k] = v\<close> of a \<open>std::map\<close>; \<open>map_of\<close> finds.\<close>

fun map_put :: "'k::linorder \<Rightarrow> 'v \<Rightarrow> ('k \<times> 'v) list \<Rightarrow> ('k \<times> 'v) list" where
  "map_put k v [] = [(k, v)]"
| "map_put k v ((k', v') # m) =
     (if k = k' then (k, v) # m
      else if k < k' then (k, v) # (k', v') # m
      else (k', v') # map_put k v m)"

subsection \<open>ThreadWriter\<close>

text \<open>\<open>ThreadWriter::OStream\<close>: a string stream whose first \<open>start_\<close> bytes are not part of it.\<close>

record ostream =
  os_data :: fos
  os_start :: nat

definition os_init :: ostream where
  "os_init = \<lparr>os_data = fos_init, os_start = 0\<rparr>"

definition os_clear :: "ostream \<Rightarrow> ostream" where
  "os_clear b = b\<lparr>os_data := fos_clear (os_data b), os_start := 0\<rparr>"

definition os_size :: "ostream \<Rightarrow> nat" where
  "os_size b = fo_size (os_data b) - os_start b"

definition os_view :: "ostream \<Rightarrow> byte list" where
  "os_view b = drop (os_start b) (fos_str (os_data b))"

definition os_write :: "ostream \<Rightarrow> byte list \<Rightarrow> ostream res" where
  "os_write b d = sbind (fos_write (os_data b) d) (\<lambda>f. Inr (b\<lparr>os_data := f\<rparr>))"

text \<open>
  The writer: the position after all that was passed to \<open>Write\<close>, the queue, and the file with
  all that \<open>fwrite\<close> was given (\<open>child_offset_\<close> is its length). \<open>fwrite\<close> of no bytes returns zero,
  which is taken for an error.
\<close>

record thread_writer =
  tw_position :: u64
  tw_data :: "ostream list"
  tw_file :: "byte list"

definition tw_init :: thread_writer where
  "tw_init = \<lparr>tw_position = 0, tw_data = [], tw_file = []\<rparr>"

definition tw_Write :: "thread_writer \<Rightarrow> ostream \<Rightarrow> thread_writer" where
  "tw_Write w b = w\<lparr>tw_position := tw_position w + of_nat (os_size b), tw_data := tw_data w @ [b]\<rparr>"

definition tw_WriteFront :: "thread_writer \<Rightarrow> (ostream \<times> thread_writer) res" where
  "tw_WriteFront w =
     (case tw_data w of
        [] \<Rightarrow> Inl BufferOverrun
      | b # bs \<Rightarrow>
          if os_size b = 0 then Inl Terminated
          else Inr (b, w\<lparr>tw_data := bs, tw_file := tw_file w @ os_view b\<rparr>))"

text \<open>\<open>RunWork\<close> of the thread and \<open>WriteAll\<close> of the destructor: until the queue is empty.\<close>

function tw_WriteAll :: "thread_writer \<Rightarrow> (ostream list \<times> thread_writer) res" where
  "tw_WriteAll w =
     (if tw_data w = [] then Inr ([], w)
      else sbind (tw_WriteFront w) (\<lambda>(b, w). sbind (tw_WriteAll w) (\<lambda>(bs, w). Inr (b # bs, w))))"
  by pat_completeness auto

termination tw_WriteAll
  by (relation "measure (length \<circ> tw_data)")
    (auto simp: tw_WriteFront_def split: list.splits if_splits)

declare tw_WriteAll.simps [simp del]

subsection \<open>The state of the writer\<close>

definition kSchemaBlock :: u64 where "kSchemaBlock = 1"
definition kDataBlock :: u64 where "kDataBlock = 2"
definition kIndexBlock :: u64 where "kIndexBlock = 3"
definition kCompressionDictionary :: u64 where "kCompressionDictionary = 4"
definition kSeekMarker :: u64 where "kSeekMarker = 5"
definition kNumTypes :: u64 where "kNumTypes = kSeekMarker"

definition kPreviousOffset :: u64 where "kPreviousOffset = 1"
definition kTimestampFlag :: u64 where "kTimestampFlag = 2"
definition kChecksum :: u64 where "kChecksum = 4"
definition kSnappy :: u64 where "kSnappy = 16"

definition kBufferStartPadding :: nat where "kBufferStartPadding = 32"

text \<open>
  The options; \<open>seek_enabled\<close> is \<open>seek_block_period_s != 0.0\<close>. \<open>blocking\<close> and
  \<open>compression_level\<close> are not used by the code.
\<close>

record fw_options =
  write_previous_offsets :: bool
  default_compression :: bool
  default_checksum_data :: bool
  index_block :: bool
  seek_enabled :: bool
  timestamps_system :: bool

record override =
  ov_require :: bool
  ov_disable :: bool

definition evaluate :: "override \<Rightarrow> bool \<Rightarrow> bool" where
  "evaluate ov default_value =
     (if ov_require ov then True else if ov_disable ov then False else default_value)"

record write_flags =
  wf_compression :: override
  wf_checksum :: override

text \<open>The libraries called: CRC-32, snappy, and the comparison of boost time points with the period.\<close>

record fw_env =
  crc32 :: "byte list \<Rightarrow> u32"
  snappy_max :: "nat \<Rightarrow> nat"
  snappy_compress :: "byte list \<Rightarrow> byte list"
  seek_due :: "btime \<Rightarrow> btime \<Rightarrow> bool"

text \<open>A position that was never set is \<open>None\<close>; -1 in \<open>last_position\<close> says that there is no data yet.\<close>

record schema_record =
  sc_name :: "byte list"
  sc_identifier :: u64
  sc_flags :: u64
  sc_schema :: "byte list"
  schema_position :: "u64 option"
  last_position :: u64

definition schema_record_init :: schema_record where
  "schema_record_init = \<lparr>sc_name = [], sc_identifier = 0, sc_flags = 0, sc_schema = [],
     schema_position = None, last_position = -1\<rparr>"

record file_writer =
  options :: fw_options
  writer :: "thread_writer option"
  identifier_map :: "byte list \<rightharpoonup> u64"
  reverse_identifier_map :: "(u64 \<times> byte list) list"
  next_id :: u64
  buffers :: "ostream list"
  schema :: "(u64 \<times> schema_record) list"
  last_seek_block :: btime

definition fw_init :: "fw_options \<Rightarrow> file_writer" where
  "fw_init o' = \<lparr>options = o', writer = None, identifier_map = Map.empty, reverse_identifier_map = [],
     next_id = 1, buffers = [], schema = [], last_seek_block = not_a_date_time\<rparr>"

subsection \<open>Buffers\<close>

definition fw_GetBuffer :: "file_writer \<Rightarrow> ostream \<times> file_writer" where
  "fw_GetBuffer s =
     (let (b, s) = (if buffers s = [] then (os_init, s)
                    else (last (buffers s), s\<lparr>buffers := butlast (buffers s)\<rparr>))
      in (b\<lparr>os_data := fos_resize (os_data b) kBufferStartPadding, os_start := kBufferStartPadding\<rparr>, s))"

definition fw_Reclaim :: "file_writer \<Rightarrow> ostream \<Rightarrow> file_writer" where
  "fw_Reclaim s b = s\<lparr>buffers := buffers s @ [b]\<rparr>"

definition fw_Write :: "file_writer \<Rightarrow> ostream \<Rightarrow> file_writer" where
  "fw_Write s b = s\<lparr>writer := map_option (\<lambda>w. tw_Write w b) (writer s)\<rparr>"

text \<open>The background thread writes one buffer and hands it back.\<close>

definition fw_background :: "file_writer \<Rightarrow> file_writer res" where
  "fw_background s =
     (case writer s of
        None \<Rightarrow> Inr s
      | Some w \<Rightarrow> sbind (tw_WriteFront w) (\<lambda>(b, w). Inr (fw_Reclaim (s\<lparr>writer := Some w\<rparr>) b)))"

text \<open>
  A \<open>BufferWriteStream\<close> over \<open>n\<close> bytes of the buffer's storage from offset \<open>off\<close>, which may lie
  in front of \<open>start_\<close>; what is written to the stream is in the buffer afterwards.
\<close>

definition os_span :: "ostream \<Rightarrow> nat \<Rightarrow> nat \<Rightarrow> (bws \<Rightarrow> bws res) \<Rightarrow> ostream res" where
  "os_span b off n f =
     (let base = fo_base (os_data b)
      in if off + n > length base then Inl BufferOverrun
         else sbind (f (bws_init (take n (drop off base)))) (\<lambda>w.
              Inr (b\<lparr>os_data := (os_data b)\<lparr>fo_base := overwrite base off (bw_mem w)\<rparr>\<rparr>)))"

subsection \<open>Identifiers\<close>

text \<open>
  The search for an unused identifier; among as many candidates as there are identifiers and
  one more there is one.
\<close>

fun next_unused :: "nat \<Rightarrow> u64 \<Rightarrow> (u64 \<times> byte list) list \<Rightarrow> u64" where
  "next_unused 0 i m = i"
| "next_unused (Suc k) i m = (if map_of m i \<noteq> None then next_unused k (i + 1) m else i)"

definition fw_AllocateIdentifier :: "file_writer \<Rightarrow> byte list \<Rightarrow> u64 \<times> file_writer" where
  "fw_AllocateIdentifier s record_name =
     (case identifier_map s record_name of
        Some i \<Rightarrow> (i, s)
      | None \<Rightarrow>
          let result = next_unused (length (reverse_identifier_map s)) (next_id s) (reverse_identifier_map s)
          in (result, s\<lparr>next_id := result + 1,
                identifier_map := (identifier_map s)(record_name \<mapsto> result),
                reverse_identifier_map := map_put result record_name (reverse_identifier_map s)\<rparr>))"

definition fw_ReserveIdentifier :: "file_writer \<Rightarrow> byte list \<Rightarrow> u64 \<Rightarrow> (bool \<times> file_writer) res" where
  "fw_ReserveIdentifier s record_name identifier =
     (case identifier_map s record_name of
        Some i \<Rightarrow> if i = identifier then Inr (True, s) else Inl Terminated
      | None \<Rightarrow>
          if map_of (reverse_identifier_map s) identifier \<noteq> None then Inr (False, s)
          else Inr (True, s\<lparr>identifier_map := (identifier_map s)(record_name \<mapsto> identifier),
                  reverse_identifier_map := map_put identifier record_name (reverse_identifier_map s)\<rparr>))"

subsection \<open>Blocks\<close>

definition fw_position :: "file_writer \<Rightarrow> u64" where
  "fw_position s = (case writer s of None \<Rightarrow> 0 | Some w \<Rightarrow> tw_position w)"

definition fw_GetPreviousOffset :: "file_writer \<Rightarrow> u64 \<Rightarrow> u64" where
  "fw_GetPreviousOffset s identifier =
     (case writer s of
        None \<Rightarrow> 0
      | Some w \<Rightarrow>
          (case map_of (schema s) identifier of
             None \<Rightarrow> 0
           | Some r \<Rightarrow> if last_position r <s 0 then 0 else tw_position w - last_position r))"

text \<open>\<open>WriteBlock\<close> of a view.\<close>

definition fw_WriteBlock :: "file_writer \<Rightarrow> u64 \<Rightarrow> byte list \<Rightarrow> file_writer res" where
  "fw_WriteBlock s block_type data =
     (case writer s of
        None \<Rightarrow> Inr s
      | Some _ \<Rightarrow>
          let (b, s) = fw_GetBuffer s in
          sbind (tl_WriteVaruint os_write b block_type) (\<lambda>b.
          sbind (tl_WriteVaruint os_write b (of_nat (length data))) (\<lambda>b.
          sbind (os_write b data) (\<lambda>b.
          Inr (fw_Write s b)))))"

text \<open>\<open>WriteBlock\<close> of a buffer: the header goes in front of what is there.\<close>

definition fw_WriteBlock_buffer :: "file_writer \<Rightarrow> u64 \<Rightarrow> ostream \<Rightarrow> file_writer res" where
  "fw_WriteBlock_buffer s block_type b =
     (case writer s of
        None \<Rightarrow> Inr s
      | Some _ \<Rightarrow>
          let block_size = 1 + tl_GetVaruintSize (of_nat (os_size b)) in
          sbind (mj_assert (os_start b \<ge> block_size)) (\<lambda>_.
          sbind (os_span b (os_start b - block_size) block_size (\<lambda>w.
            sbind (tl_WriteVaruint bws_write w block_type) (\<lambda>w.
            tl_WriteVaruint bws_write w (of_nat (os_size b))))) (\<lambda>b.
          Inr (fw_Write s (b\<lparr>os_start := os_start b - block_size\<rparr>)))))"

definition fw_WriteSchema :: "file_writer \<Rightarrow> u64 \<Rightarrow> byte list \<Rightarrow> file_writer res" where
  "fw_WriteSchema s identifier sch =
     (case map_of (reverse_identifier_map s) identifier of
        None \<Rightarrow> Inl Terminated
      | Some name \<Rightarrow>
          let s = s\<lparr>schema := map_put identifier
                \<lparr>sc_name = name, sc_identifier = identifier, sc_flags = 0, sc_schema = sch,
                 schema_position = Some (fw_position s), last_position = -1\<rparr> (schema s)\<rparr> in
          sbind (tl_WriteVaruint fos_write fos_init identifier) (\<lambda>f.
          sbind (tl_WriteVaruint fos_write f 0) (\<lambda>f.
          sbind (tl_WriteString fos_write f name) (\<lambda>f.
          sbind (fos_write f sch) (\<lambda>f.
          let (b, s) = fw_GetBuffer s in
          sbind (tl_WriteVaruint os_write b kSchemaBlock) (\<lambda>b.
          sbind (tl_WriteVaruint os_write b (of_nat (length (fos_str f)))) (\<lambda>b.
          sbind (os_write b (fos_str f)) (\<lambda>b.
          Inr (fw_Write s b)))))))))"

text \<open>The loop over the schemas reads each record before \<open>WriteSchema\<close> replaces it.\<close>

fun fw_write_schemas :: "file_writer \<Rightarrow> (u64 \<times> schema_record) list \<Rightarrow> file_writer res" where
  "fw_write_schemas s [] = Inr s"
| "fw_write_schemas s ((_, r) # rs) =
     sbind (fw_WriteSchema s (sc_identifier r) (sc_schema r)) (\<lambda>s. fw_write_schemas s rs)"

definition fw_PostOpen :: "file_writer \<Rightarrow> file_writer res" where
  "fw_PostOpen s =
     (let (b, s) = fw_GetBuffer s in
      sbind (os_write b (ascii ''TLOG0003'')) (\<lambda>b.
      sbind (tl_WriteVaruint os_write b 0) (\<lambda>b.
      let s = fw_Write s b in fw_write_schemas s (schema s))))"

definition fw_Open :: "file_writer \<Rightarrow> file_writer res" where
  "fw_Open s =
     sbind (mj_assert (writer s = None)) (\<lambda>_. fw_PostOpen (s\<lparr>writer := Some tw_init\<rparr>))"

fun fw_index_elements :: "(u64 \<times> schema_record) list \<Rightarrow> ostream \<Rightarrow> ostream res" where
  "fw_index_elements [] b = Inr b"
| "fw_index_elements ((identifier, r) # rs) b =
     sbind (tl_WriteVaruint os_write b identifier) (\<lambda>b.
     case schema_position r of
       None \<Rightarrow> Inl Uninit
     | Some p \<Rightarrow>
         sbind (tl_WriteScalar os_write 8 b p) (\<lambda>b.
         sbind (tl_WriteScalar os_write 8 b (last_position r)) (\<lambda>b.
         fw_index_elements rs b)))"

definition fw_WriteIndex :: "file_writer \<Rightarrow> file_writer res" where
  "fw_WriteIndex s =
     (let (b, s) = fw_GetBuffer s in
      sbind (tl_WriteVaruint os_write b 0) (\<lambda>b.
      sbind (tl_WriteVaruint os_write b (of_nat (length (schema s)))) (\<lambda>b.
      sbind (fw_index_elements (schema s) b) (\<lambda>b.
      let trailing_size = (of_nat (os_size b + 1 + tl_GetVaruintSize (of_nat (os_size b + 4 + 8)) + 4 + 8) :: u32) in
      sbind (tl_WriteScalar os_write 4 b trailing_size) (\<lambda>b.
      sbind (os_write b (ascii ''TLOGIDEX'')) (\<lambda>b.
      fw_WriteBlock_buffer s kIndexBlock b))))))"

text \<open>
  \<open>Close\<close>: the destructor of the \<open>ThreadWriter\<close> writes what is still queued, and its buffers are
  reclaimed; the file is complete.
\<close>

definition fw_Close :: "file_writer \<Rightarrow> (byte list option \<times> file_writer) res" where
  "fw_Close s =
     (case writer s of
        None \<Rightarrow> Inr (None, s)
      | Some _ \<Rightarrow>
          sbind (if index_block (options s) then fw_WriteIndex s else Inr s) (\<lambda>s.
          case writer s of
            None \<Rightarrow> Inr (None, s)
          | Some w \<Rightarrow>
              sbind (tw_WriteAll w) (\<lambda>(bs, w).
              Inr (Some (tw_file w),
                   s\<lparr>writer := None, last_seek_block := not_a_date_time, buffers := buffers s @ bs\<rparr>))))"

subsection \<open>Seek markers\<close>

definition has_data :: "schema_record \<Rightarrow> bool" where
  "has_data r = (\<not> last_position r <s 0)"

fun fw_seek_elements :: "u64 \<Rightarrow> (u64 \<times> schema_record) list \<Rightarrow> ostream \<Rightarrow> ostream res" where
  "fw_seek_elements position [] b = Inr b"
| "fw_seek_elements position ((identifier, r) # rs) b =
     (if \<not> has_data r then fw_seek_elements position rs b
      else sbind (tl_WriteVaruint os_write b identifier) (\<lambda>b.
           sbind (tl_WriteVaruint os_write b (position - last_position r)) (\<lambda>b.
           fw_seek_elements position rs b)))"

text \<open>The body of a marker, with zero for the checksum and the size of the header.\<close>

definition fw_seek_body :: "u64 \<Rightarrow> (u64 \<times> schema_record) list \<Rightarrow> btime \<Rightarrow> ostream \<Rightarrow> ostream res" where
  "fw_seek_body position sch timestamp b =
     sbind (tl_WriteScalar os_write 8 b (0xfdcab9a897867564 :: u64)) (\<lambda>b.
     sbind (tl_WriteScalar os_write 4 b (0 :: u32)) (\<lambda>b.
     sbind (tl_WriteScalar os_write 1 b (0 :: byte)) (\<lambda>b.
     sbind (tl_WriteVaruint os_write b 0) (\<lambda>b.
     sbind (tl_WriteTimestamp os_write b timestamp) (\<lambda>b.
     sbind (tl_WriteVaruint os_write b (of_nat (length (filter (\<lambda>p. has_data (snd p)) sch)))) (\<lambda>b.
     fw_seek_elements position sch b))))))"

text \<open>The header in front, then its size and the checksum in their places.\<close>

definition fw_seal_seek :: "fw_env \<Rightarrow> nat \<Rightarrow> ostream \<Rightarrow> ostream res" where
  "fw_seal_seek env crc_pos b =
     (let body_size = os_size b;
          header_size = 1 + tl_GetVaruintSize (of_nat body_size);
          b = b\<lparr>os_start := os_start b - header_size\<rparr> in
      sbind (os_span b (os_start b) header_size (\<lambda>w.
        sbind (tl_WriteVaruint bws_write w kSeekMarker) (\<lambda>w.
        tl_WriteVaruint bws_write w (of_nat body_size)))) (\<lambda>b.
      let b = b\<lparr>os_data := (os_data b)\<lparr>fo_base := (fo_base (os_data b))[crc_pos + 4 := of_nat header_size]\<rparr>\<rparr>;
          crc = crc32 env (take (header_size + body_size) (drop (os_start b) (fo_base (os_data b)))) in
      os_span b crc_pos 4 (\<lambda>w. tl_WriteScalar bws_write 4 w crc)))"

definition fw_WriteSeekBlock :: "fw_env \<Rightarrow> file_writer \<Rightarrow> btime \<Rightarrow> file_writer res" where
  "fw_WriteSeekBlock env s timestamp =
     (case writer s of
        None \<Rightarrow> Inl NullDeref
      | Some _ \<Rightarrow>
          let (b, s) = fw_GetBuffer s;
              orig_start = os_start b;
              crc_pos = orig_start + 8 in
          sbind (fw_seek_body (fw_position s) (schema s) timestamp b) (\<lambda>b.
          sbind (fw_seal_seek env crc_pos b) (\<lambda>b.
          Inr (fw_Write s b))))"

subsection \<open>Data\<close>

text \<open>Compression into a second buffer, kept when it is smaller.\<close>

definition fw_compress :: "fw_env \<Rightarrow> file_writer \<Rightarrow> ostream \<Rightarrow> (bool \<times> ostream \<times> file_writer) res" where
  "fw_compress env s b =
     (let original_size = os_size b;
          (b', s) = fw_GetBuffer s;
          f = fos_reserve (os_data b') (os_start b' + snappy_max env original_size);
          packed = snappy_compress env (os_view b) in
      if os_start b' + length packed > length (fo_base f) then Inl BufferOverrun
      else
        let f = f\<lparr>fo_base := overwrite (fo_base f) (os_start b') packed\<rparr> in
        if length packed < original_size
        then Inr (True, b'\<lparr>os_data := fos_resize f (os_start b' + length packed)\<rparr>, fw_Reclaim s b)
        else Inr (False, b, s))"

definition fw_data_header ::
  "fw_env \<Rightarrow> ostream \<Rightarrow> u64 \<Rightarrow> u64 \<Rightarrow> u64 \<Rightarrow> u64 option \<Rightarrow> btime option \<Rightarrow> bool \<Rightarrow> bws \<Rightarrow> bws res" where
  "fw_data_header env b body_size identifier flags previous_offset timestamp write_checksum w =
     sbind (tl_WriteVaruint bws_write w kDataBlock) (\<lambda>w.
     sbind (tl_WriteVaruint bws_write w body_size) (\<lambda>w.
     sbind (tl_WriteVaruint bws_write w identifier) (\<lambda>w.
     sbind (tl_WriteVaruint bws_write w flags) (\<lambda>w.
     sbind (case previous_offset of None \<Rightarrow> Inr w | Some off \<Rightarrow> tl_WriteVaruint bws_write w off) (\<lambda>w.
     sbind (case timestamp of None \<Rightarrow> Inr w | Some t \<Rightarrow> tl_WriteTimestamp bws_write w t) (\<lambda>w.
     if write_checksum then
       let position = bw_off w in
       sbind (tl_WriteScalar bws_write 4 w (0 :: u32)) (\<lambda>w.
       sbind (bws_reset w position) (\<lambda>w.
       tl_WriteScalar bws_write 4 w (crc32 env (bw_mem w @ os_view b))))
     else Inr w))))))"

text \<open>The header goes in front of the data; this is the block an identifier's record points to.\<close>

definition fw_frame_data ::
  "fw_env \<Rightarrow> file_writer \<Rightarrow> u64 \<Rightarrow> ostream \<Rightarrow> u64 option \<Rightarrow> btime option \<Rightarrow> bool \<Rightarrow> bool \<Rightarrow> file_writer res" where
  "fw_frame_data env s identifier b previous_offset timestamp_to_write write_checksum packed =
     (let flag_header_size =
            (case previous_offset of None \<Rightarrow> 0 | Some off \<Rightarrow> tl_GetVaruintSize off)
            + (if timestamp_to_write \<noteq> None then 8 else 0) + (if write_checksum then 4 else 0);
          flags = (if previous_offset \<noteq> None then kPreviousOffset else 0)
            OR (if timestamp_to_write \<noteq> None then kTimestampFlag else 0)
            OR (if write_checksum then kChecksum else 0) OR (if packed then kSnappy else 0);
          identifier_size = tl_GetVaruintSize identifier;
          flag_size = tl_GetVaruintSize flags;
          body_size = identifier_size + flag_size + flag_header_size + os_size b;
          header_size = identifier_size + flag_size + flag_header_size
            + tl_GetVaruintSize (of_nat body_size) + 1 in
      sbind (mj_assert (os_start b \<ge> header_size)) (\<lambda>_.
      sbind (os_span b (os_start b - header_size) header_size
        (fw_data_header env b (of_nat body_size) identifier flags previous_offset timestamp_to_write write_checksum)) (\<lambda>b.
      let b = b\<lparr>os_start := os_start b - header_size\<rparr>;
          r = (case map_of (schema s) identifier of None \<Rightarrow> schema_record_init | Some r \<Rightarrow> r);
          s = s\<lparr>schema := map_put identifier (r\<lparr>last_position := fw_position s\<rparr>) (schema s)\<rparr> in
      Inr (fw_Write s b))))"

definition fw_emit_data ::
  "fw_env \<Rightarrow> btime \<Rightarrow> file_writer \<Rightarrow> btime \<Rightarrow> u64 \<Rightarrow> ostream \<Rightarrow> write_flags \<Rightarrow> file_writer res" where
  "fw_emit_data env now s timestamp identifier b fl =
     (let o' = options s;
          previous_offset = (if write_previous_offsets o' then Some (fw_GetPreviousOffset s identifier) else None);
          timestamp_to_write =
            (if timestamp \<noteq> not_a_date_time \<or> timestamps_system o'
             then Some (if timestamp \<noteq> not_a_date_time then timestamp else now) else None);
          write_checksum = evaluate (wf_checksum fl) (default_checksum_data o') in
      sbind (if evaluate (wf_compression fl) (default_compression o') then fw_compress env s b
             else Inr (False, b, s)) (\<lambda>(packed, b, s).
      fw_frame_data env s identifier b previous_offset timestamp_to_write write_checksum packed))"

definition fw_maybe_seek :: "fw_env \<Rightarrow> btime \<Rightarrow> file_writer \<Rightarrow> file_writer res" where
  "fw_maybe_seek env timestamp s =
     (if \<not> seek_enabled (options s) then Inr s
      else if last_seek_block s = not_a_date_time then Inr (s\<lparr>last_seek_block := timestamp\<rparr>)
      else if timestamp \<noteq> not_a_date_time \<and> seek_due env timestamp (last_seek_block s) then
        sbind (fw_WriteSeekBlock env s timestamp) (\<lambda>s. Inr (s\<lparr>last_seek_block := timestamp\<rparr>))
      else Inr s)"

definition fw_WriteData_buffer ::
  "fw_env \<Rightarrow> btime \<Rightarrow> file_writer \<Rightarrow> btime \<Rightarrow> u64 \<Rightarrow> ostream \<Rightarrow> write_flags \<Rightarrow> file_writer res" where
  "fw_WriteData_buffer env now s timestamp identifier b fl =
     (case writer s of
        None \<Rightarrow> Inr s
      | Some _ \<Rightarrow> sbind (fw_emit_data env now s timestamp identifier b fl) (fw_maybe_seek env timestamp))"

definition fw_WriteData ::
  "fw_env \<Rightarrow> btime \<Rightarrow> file_writer \<Rightarrow> btime \<Rightarrow> u64 \<Rightarrow> byte list \<Rightarrow> write_flags \<Rightarrow> file_writer res" where
  "fw_WriteData env now s timestamp identifier serialized_data fl =
     (case writer s of
        None \<Rightarrow> Inr s
      | Some _ \<Rightarrow>
          let (b, s) = fw_GetBuffer s in
          sbind (os_write b serialized_data) (\<lambda>b.
          fw_WriteData_buffer env now s timestamp identifier b fl))"

section \<open>Buffers are streams\<close>

definition os_ok :: "ostream \<Rightarrow> bool" where
  "os_ok b = (fos_ok (os_data b) \<and> os_start b \<le> fo_size (os_data b))"

lemma os_size_view: "os_ok b \<Longrightarrow> os_size b = length (os_view b)"
  by (simp add: os_ok_def os_size_def os_view_def fos_str_def fos_ok_def)

lemma fos_write_start: "fos_write f d = Inr g \<Longrightarrow> fo_size g = fo_size f + length d"
  by (auto simp: fos_write_eq)

interpretation os: object_stream os_write os_view os_ok
proof unfold_locales
  fix s :: ostream and a b
  show "os_write s (a @ b) = sbind (os_write s a) (\<lambda>t. os_write t b)"
    by (cases "fos_write (os_data s) a") (simp_all add: os_write_def fos.wr_append res_simps)
next
  fix s d t
  assume *: "os_ok s" "os_write s d = Inr t"
  then obtain f where f: "fos_write (os_data s) d = Inr f" "t = s\<lparr>os_data := f\<rparr>"
    by (auto simp: os_write_def)
  have "fos_str f = fos_str (os_data s) @ d" "fos_ok f"
    using fos.wr_out fos.wr_ok f(1) *(1) by (auto simp: os_ok_def)
  with f * fos_write_start [OF f(1)] show "os_view t = os_view s @ d" "os_ok t"
    by (auto simp: os_view_def os_ok_def fos_str_def fos_ok_def)
next
  fix s
  assume "os_ok s"
  then show "os_write s [] = Inr s" by (simp add: os_write_def fos_obj.wr_Nil os_ok_def)
qed

lemma os_write_total: "\<exists>t. os_write b d = Inr t \<and> os_start t = os_start b"
  by (simp add: os_write_def fos_write_eq)

lemma os_write_Inr:
  assumes "os_ok b"
  obtains t where "os_write b d = Inr t" "os_ok t" "os_view t = os_view b @ d" "os_start t = os_start b"
  using os_write_total os.wr_out [OF assms] os.wr_ok [OF assms] by metis

text \<open>Writing a header in front of a buffer.\<close>

lemma os_span_front:
  assumes "os_ok b" and "off + n = os_start b"
    and "\<And>mem. length mem = n \<Longrightarrow> \<exists>w. f (bws_init mem) = Inr w \<and> bw_mem w = hdr"
    and "length hdr = n"
  obtains b' where "os_span b off n f = Inr b'" "os_start b' = os_start b"
    "os_ok (b'\<lparr>os_start := off\<rparr>)" "os_view (b'\<lparr>os_start := off\<rparr>) = hdr @ os_view b"
proof -
  let ?base = "fo_base (os_data b)"
  have len: "off + n \<le> fo_size (os_data b)" "fo_size (os_data b) \<le> length ?base"
    using assms(1,2) by (auto simp: os_ok_def fos_ok_def)
  then obtain w where w: "f (bws_init (take n (drop off ?base))) = Inr w" "bw_mem w = hdr"
    using assms(3) [of "take n (drop off ?base)"] by auto
  let ?b = "b\<lparr>os_data := (os_data b)\<lparr>fo_base := overwrite ?base off hdr\<rparr>\<rparr>"
  have "os_span b off n f = Inr ?b" using len w by (simp add: os_span_def Let_def)
  moreover have "os_view (?b\<lparr>os_start := off\<rparr>) = hdr @ os_view b"
    using len assms(2,4) by (auto simp: os_view_def fos_str_def overwrite_def min_def take_drop)
  moreover have "os_ok (?b\<lparr>os_start := off\<rparr>)"
    using len assms(2,4) by (simp add: os_ok_def fos_ok_def)
  ultimately show thesis using that by simp
qed

text \<open>A stream written full.\<close>

lemma bws_write_full:
  "length mem = length d \<Longrightarrow> \<exists>w. bws_write (bws_init mem) d = Inr w \<and> bw_mem w = d"
  by (simp add: bws_write_def bws_init_def overwrite_def)

lemma fw_GetBuffer_fresh:
  assumes "fw_GetBuffer s = (b, s')"
  shows "os_ok b" and "os_view b = []" and "os_start b = kBufferStartPadding"
    and "s' = s\<lparr>buffers := buffers s'\<rparr>"
  using assms
  by (auto simp: fw_GetBuffer_def os_ok_def os_view_def fos_str_def fos_ok_def fos_resize_def
      split: if_splits)

section \<open>What has been written\<close>

text \<open>The bytes of the log: in the file or on their way there. The order of the two never changes.\<close>

definition fw_log :: "file_writer \<Rightarrow> byte list" where
  "fw_log s = (case writer s of None \<Rightarrow> [] | Some w \<Rightarrow> tw_file w @ concat (map os_view (tw_data w)))"

definition fw_ok :: "file_writer \<Rightarrow> bool" where
  "fw_ok s = (\<forall>w. writer s = Some w \<longrightarrow>
     tw_position w = of_nat (length (fw_log s)) \<and>
     (\<forall>b \<in> set (tw_data w). os_ok b \<and> os_view b \<noteq> []))"

text \<open>An operation that adds \<open>d\<close> to an open log and leaves all but the streams alone.\<close>

definition emits :: "file_writer \<Rightarrow> byte list \<Rightarrow> file_writer \<Rightarrow> bool" where
  "emits s d s' = (s' = s\<lparr>writer := writer s', buffers := buffers s'\<rparr> \<and> fw_ok s' \<and> writer s' \<noteq> None
     \<and> fw_log s' = fw_log s @ d)"

lemma emitsD:
  assumes "emits s d s'"
  shows "fw_ok s'" "writer s' \<noteq> None" "fw_log s' = fw_log s @ d" "options s' = options s"
    "identifier_map s' = identifier_map s" "reverse_identifier_map s' = reverse_identifier_map s"
    "next_id s' = next_id s" "schema s' = schema s" "last_seek_block s' = last_seek_block s"
proof -
  have e: "s' = s\<lparr>writer := writer s', buffers := buffers s'\<rparr>" using assms by (simp add: emits_def)
  show "options s' = options s" "identifier_map s' = identifier_map s"
    "reverse_identifier_map s' = reverse_identifier_map s" "next_id s' = next_id s"
    "schema s' = schema s" "last_seek_block s' = last_seek_block s"
    by (subst e, simp)+
qed (use assms in \<open>auto simp: emits_def\<close>)

lemma fw_ok_buffers [simp]: "fw_ok (s\<lparr>buffers := bs\<rparr>) = fw_ok s" "fw_log (s\<lparr>buffers := bs\<rparr>) = fw_log s"
  by (simp_all add: fw_ok_def fw_log_def)

lemma emits_Write:
  assumes "fw_ok s" and "writer s \<noteq> None" and "os_ok b" and "os_view b \<noteq> []"
  shows "emits s (os_view b) (fw_Write (s\<lparr>buffers := bs\<rparr>) b)"
  using assms by (auto simp: emits_def fw_Write_def fw_ok_def fw_log_def tw_Write_def os_size_view)

lemma fw_position_eq: "fw_ok s \<Longrightarrow> writer s \<noteq> None \<Longrightarrow> fw_position s = of_nat (length (fw_log s))"
  by (auto simp: fw_ok_def fw_position_def)

text \<open>The background thread always succeeds and changes nothing that can be observed but the file.\<close>

lemma fw_background_invisible:
  assumes "fw_ok s" and "writer s = Some w" and "tw_data w \<noteq> []"
  shows "\<exists>s'. fw_background s = Inr s' \<and> emits s [] s'"
proof -
  obtain b bs where q: "tw_data w = b # bs" using assms(3) by (cases "tw_data w") auto
  then have "os_ok b" "os_view b \<noteq> []" using assms by (auto simp: fw_ok_def)
  then have "os_size b \<noteq> 0" by (simp add: os_size_view)
  with assms q \<open>os_ok b\<close> show ?thesis
    by (auto simp: fw_background_def tw_WriteFront_def fw_Reclaim_def emits_def fw_ok_def fw_log_def)
qed

lemma tw_WriteAll_complete:
  "\<forall>b \<in> set (tw_data w). os_ok b \<and> os_view b \<noteq> [] \<Longrightarrow>
   \<exists>w'. tw_WriteAll w = Inr (tw_data w, w') \<and> tw_file w' = tw_file w @ concat (map os_view (tw_data w))
      \<and> tw_data w' = []"
proof (induction "tw_data w" arbitrary: w)
  case Nil
  then show ?case by (simp add: tw_WriteAll.simps [of w])
next
  case (Cons b bs)
  then have "os_size b \<noteq> 0" by (metis length_0_conv list.set_intros(1) os_size_view)
  let ?w = "w\<lparr>tw_data := bs, tw_file := tw_file w @ os_view b\<rparr>"
  have front: "tw_WriteFront w = Inr (b, ?w)"
    using \<open>os_size b \<noteq> 0\<close> Cons.hyps(2) [symmetric] by (simp add: tw_WriteFront_def)
  have "\<forall>b \<in> set (tw_data ?w). os_ok b \<and> os_view b \<noteq> []"
    using Cons.prems Cons.hyps(2) [symmetric] by simp
  then obtain w' where "tw_WriteAll ?w = Inr (bs, w')" "tw_file w' = tw_file ?w @ concat (map os_view bs)"
      "tw_data w' = []"
    using Cons.hyps(1) [of ?w] by auto
  with front Cons.hyps(2) [symmetric] show ?case by (simp add: tw_WriteAll.simps [of w])
qed

section \<open>The blocks written\<close>

text \<open>The reference: the bytes of a block, and of the bodies of the kinds of blocks.\<close>

definition block_bytes :: "u64 \<Rightarrow> byte list \<Rightarrow> byte list" where
  "block_bytes ty body = leb128 (unat ty) @ leb128 (length body) @ body"

definition schema_body :: "u64 \<Rightarrow> byte list \<Rightarrow> byte list \<Rightarrow> byte list" where
  "schema_body identifier name sch = leb128 (unat identifier) @ leb128 0 @ string_bytes name @ sch"

definition log_header :: "byte list" where
  "log_header = ascii ''TLOG0003'' @ leb128 0"

lemma block_bytes_not_Nil [simp]: "block_bytes ty body \<noteq> []"
  by (simp add: block_bytes_def)

lemma os_seq_total:
  assumes "os_ok b"
  obtains t where "os_write b d = Inr t" "os_ok t" "os_view t = os_view b @ d" "os_start t = os_start b"
  using os_write_Inr [OF assms] by metis

lemma unat_of_nat_u64: "n < 2 ^ 64 \<Longrightarrow> unat (of_nat n :: u64) = n"
  by (simp add: unat_of_nat take_bit_eq_mod)

lemma of_nat_length_u64 [simp]: "length d < 2 ^ 64 \<Longrightarrow> unat (of_nat (length d) :: u64) = length d"
  by (simp add: unat_of_nat take_bit_eq_mod)

lemma fw_WriteBlock_emits:
  assumes "fw_ok s" and "writer s \<noteq> None" and "length data < 2 ^ 64"
  shows "\<exists>s'. fw_WriteBlock s ty data = Inr s' \<and> emits s (block_bytes ty data) s'"
proof -
  obtain b s1 where g: "fw_GetBuffer s = (b, s1)" by fastforce
  note fresh = fw_GetBuffer_fresh [OF g]
  obtain t where t: "os_write b (block_bytes ty data) = Inr t" "os_ok t" "os_view t = block_bytes ty data"
    using os_write_Inr [OF fresh(1), of "block_bytes ty data"] fresh(2) by auto
  then have "emits s (block_bytes ty data) (fw_Write s1 t)"
    using emits_Write [OF assms(1,2) t(2), of "buffers s1"] fresh(4) by simp
  moreover have "fw_WriteBlock s ty data = Inr (fw_Write s1 t)"
    using t(1) assms(2,3) g
    by (auto simp: fw_WriteBlock_def os.tl_WriteVaruint_leb128 os.wr_seq os.wr_seq_more block_bytes_def)
  ultimately show ?thesis by blast
qed

lemma fw_WriteSchema_emits:
  assumes "fw_ok s" and "writer s \<noteq> None" and "map_of (reverse_identifier_map s) identifier = Some name"
    and "length name < 2 ^ 64" and "length (schema_body identifier name sch) < 2 ^ 64"
  shows "\<exists>s'. fw_WriteSchema s identifier sch = Inr s' \<and>
    emits (s\<lparr>schema := map_put identifier
       \<lparr>sc_name = name, sc_identifier = identifier, sc_flags = 0, sc_schema = sch,
        schema_position = Some (of_nat (length (fw_log s))), last_position = -1\<rparr> (schema s)\<rparr>)
     (block_bytes kSchemaBlock (schema_body identifier name sch)) s'"
proof -
  let ?s = "s\<lparr>schema := map_put identifier
       \<lparr>sc_name = name, sc_identifier = identifier, sc_flags = 0, sc_schema = sch,
        schema_position = Some (of_nat (length (fw_log s))), last_position = -1\<rparr> (schema s)\<rparr>"
  let ?body = "schema_body identifier name sch"
  have s: "fw_ok ?s" "writer ?s \<noteq> None" using assms(1,2) by (simp_all add: fw_ok_def fw_log_def)
  obtain b s1 where g: "fw_GetBuffer ?s = (b, s1)" by fastforce
  note fresh = fw_GetBuffer_fresh [OF g]
  obtain t where t: "os_write b (block_bytes kSchemaBlock ?body) = Inr t" "os_ok t"
      "os_view t = block_bytes kSchemaBlock ?body"
    using os_write_Inr [OF fresh(1), of "block_bytes kSchemaBlock ?body"] fresh(2) by auto
  obtain f where f: "fos_write fos_init ?body = Inr f" by (simp add: fos_write_eq)
  then have str: "fos_str f = ?body"
    using fos.wr_out [of fos_init] by (simp add: fos_ok_def fos_init_def fos_str_def)
  have "emits ?s (block_bytes kSchemaBlock ?body) (fw_Write s1 t)"
    using emits_Write [OF s t(2), of "buffers s1"] fresh(4) t(3) by simp
  moreover have "fw_WriteSchema s identifier sch = Inr (fw_Write s1 t)"
    using t(1) g f assms(3-5) fw_position_eq [OF assms(1,2)]
    by (simp add: fw_WriteSchema_def Let_def fos.tl_WriteVaruint_leb128 fos.tl_WriteString_bytes fos.wr_seq_more
        schema_body_def [symmetric] str os.tl_WriteVaruint_leb128 os.wr_seq_more block_bytes_def)
  ultimately show ?thesis by blast
qed

subsection \<open>Data blocks\<close>

definition data_prefix :: "u64 \<Rightarrow> u64 \<Rightarrow> u64 option \<Rightarrow> btime option \<Rightarrow> byte list" where
  "data_prefix identifier flags previous_offset timestamp =
     leb128 (unat identifier) @ leb128 (unat flags)
     @ (case previous_offset of None \<Rightarrow> [] | Some off \<Rightarrow> leb128 (unat off))
     @ (case timestamp of None \<Rightarrow> [] | Some t \<Rightarrow> le_bytes 8 (ConvertPtimeToEpochMicroseconds t))"

definition data_header :: "u64 \<Rightarrow> u64 \<Rightarrow> u64 option \<Rightarrow> btime option \<Rightarrow> bool \<Rightarrow> nat \<Rightarrow> byte list" where
  "data_header identifier flags previous_offset timestamp checksum n =
     (let p = data_prefix identifier flags previous_offset timestamp
      in leb128 2 @ leb128 (length p + (if checksum then 4 else 0) + n) @ p)"

definition checksum_bytes :: "fw_env \<Rightarrow> bool \<Rightarrow> byte list \<Rightarrow> byte list \<Rightarrow> byte list" where
  "checksum_bytes env checksum hdr payload =
     (if checksum then le_bytes 4 (crc32 env (hdr @ [0, 0, 0, 0] @ payload)) else [])"

definition data_block ::
  "fw_env \<Rightarrow> u64 \<Rightarrow> u64 \<Rightarrow> u64 option \<Rightarrow> btime option \<Rightarrow> bool \<Rightarrow> byte list \<Rightarrow> byte list" where
  "data_block env identifier flags previous_offset timestamp checksum payload =
     (let hdr = data_header identifier flags previous_offset timestamp checksum (length payload)
      in hdr @ checksum_bytes env checksum hdr payload @ payload)"

lemma length_checksum_bytes [simp]: "length (checksum_bytes env ck hdr p) = (if ck then 4 else 0)"
  by (simp add: checksum_bytes_def)

lemma bws_write_at:
  "off + length d \<le> length mem \<Longrightarrow>
   bws_write \<lparr>bw_mem = mem, bw_off = off\<rparr> d = Inr \<lparr>bw_mem = overwrite mem off d, bw_off = off + length d\<rparr>"
  by (simp add: bws_write_def)

lemma le_bytes_4_zero: "le_bytes 4 (0 :: u32) = [0, 0, 0, 0]"
  by (simp add: numeral_eq_Suc)

lemma fw_data_header_bytes:
  assumes "body_size = of_nat (length (data_prefix identifier flags prev ts) + (if ck then 4 else 0) + length (os_view b))"
    and "length (data_prefix identifier flags prev ts) + (if ck then 4 else 0) + length (os_view b) < 2 ^ 64"
    and "length mem = length (data_header identifier flags prev ts ck (length (os_view b))) + (if ck then 4 else 0)"
  shows "\<exists>w. fw_data_header env b body_size identifier flags prev ts ck (bws_init mem) = Inr w
    \<and> bw_mem w = data_header identifier flags prev ts ck (length (os_view b))
        @ checksum_bytes env ck (data_header identifier flags prev ts ck (length (os_view b))) (os_view b)"
proof -
  let ?hdr = "data_header identifier flags prev ts ck (length (os_view b))"
  let ?n = "length ?hdr"
  have size: "unat body_size = length (data_prefix identifier flags prev ts) + (if ck then 4 else 0) + length (os_view b)"
    unfolding assms(1) by (rule unat_of_nat_u64 [OF assms(2)])
  have "fw_data_header env b body_size identifier flags prev ts ck (bws_init mem)
      = sbind (bws_write (bws_init mem) ?hdr) (\<lambda>w.
          if ck then
            let position = bw_off w in
            sbind (tl_WriteScalar bws_write 4 w (0 :: u32)) (\<lambda>w.
            sbind (bws_reset w position) (\<lambda>w.
            tl_WriteScalar bws_write 4 w (crc32 env (bw_mem w @ os_view b))))
          else Inr w)"
    by (cases prev; cases ts)
      (simp_all add: fw_data_header_def bws.tl_WriteVaruint_leb128 bws.wr_seq_more tl_WriteTimestamp_def
        tl_WriteScalar_def data_header_def data_prefix_def Let_def size kDataBlock_def)
  moreover have "?n \<le> length mem" using assms(3) by simp
  ultimately show ?thesis
    using assms(3)
    by (auto simp: bws_init_def bws_write_at bws_reset_def tl_WriteScalar_def Let_def checksum_bytes_def
        overwrite_def le_bytes_4_zero)
qed

text \<open>What an operation chooses to write: the compressed data when it is asked for and smaller.\<close>

definition env_ok :: "fw_env \<Rightarrow> bool" where
  "env_ok env = (\<forall>d. length (snappy_compress env d) \<le> snappy_max env (length d))"

definition packs :: "fw_env \<Rightarrow> fw_options \<Rightarrow> write_flags \<Rightarrow> byte list \<Rightarrow> bool" where
  "packs env o' fl d =
     (evaluate (wf_compression fl) (default_compression o') \<and> length (snappy_compress env d) < length d)"

definition payload_of :: "fw_env \<Rightarrow> fw_options \<Rightarrow> write_flags \<Rightarrow> byte list \<Rightarrow> byte list" where
  "payload_of env o' fl d = (if packs env o' fl d then snappy_compress env d else d)"

definition data_time :: "fw_options \<Rightarrow> btime \<Rightarrow> btime \<Rightarrow> btime option" where
  "data_time o' now timestamp =
     (if timestamp \<noteq> not_a_date_time \<or> timestamps_system o'
      then Some (if timestamp \<noteq> not_a_date_time then timestamp else now) else None)"

definition data_flags :: "bool \<Rightarrow> bool \<Rightarrow> bool \<Rightarrow> bool \<Rightarrow> u64" where
  "data_flags prev time checksum packed =
     ((if prev then kPreviousOffset else 0) OR (if time then kTimestampFlag else 0)
      OR (if checksum then kChecksum else 0) OR (if packed then kSnappy else 0))"

definition data_block_of ::
  "fw_env \<Rightarrow> btime \<Rightarrow> file_writer \<Rightarrow> btime \<Rightarrow> u64 \<Rightarrow> byte list \<Rightarrow> write_flags \<Rightarrow> byte list" where
  "data_block_of env now s timestamp identifier d fl =
     (let prev = (if write_previous_offsets (options s) then Some (fw_GetPreviousOffset s identifier) else None);
          time = data_time (options s) now timestamp;
          checksum = evaluate (wf_checksum fl) (default_checksum_data (options s))
      in data_block env identifier (data_flags (prev \<noteq> None) (time \<noteq> None) checksum (packs env (options s) fl d))
           prev time checksum (payload_of env (options s) fl d))"

definition data_schema :: "file_writer \<Rightarrow> u64 \<Rightarrow> (u64 \<times> schema_record) list" where
  "data_schema s identifier =
     map_put identifier
       ((case map_of (schema s) identifier of None \<Rightarrow> schema_record_init | Some r \<Rightarrow> r)
          \<lparr>last_position := fw_position s\<rparr>) (schema s)"

lemma os_size_eq: "os_ok b \<Longrightarrow> os_view b = d \<Longrightarrow> os_size b = length d"
  by (simp add: os_size_view)

lemma os_view_stored:
  assumes "32 + length d \<le> length (fo_base f)" and "os_start b = 32"
  shows "os_view (b\<lparr>os_data := fos_resize (f\<lparr>fo_base := overwrite (fo_base f) 32 d\<rparr>) (32 + length d)\<rparr>) = d"
    and "os_ok (b\<lparr>os_data := fos_resize (f\<lparr>fo_base := overwrite (fo_base f) 32 d\<rparr>) (32 + length d)\<rparr>)"
  using assms
  by (cases d; auto simp: os_view_def os_ok_def fos_str_def fos_ok_def fos_resize_def overwrite_def min_def)+

lemma fw_compress_payload:
  assumes "env_ok env" and "os_ok b" and "os_start b = kBufferStartPadding"
  shows "\<exists>b' bs. fw_compress env s b
      = Inr (length (snappy_compress env (os_view b)) < length (os_view b), b', s\<lparr>buffers := bs\<rparr>)
    \<and> os_ok b' \<and> os_start b' = kBufferStartPadding
    \<and> os_view b' = (if length (snappy_compress env (os_view b)) < length (os_view b)
                    then snappy_compress env (os_view b) else os_view b)"
proof -
  obtain b1 s1 where g: "fw_GetBuffer s = (b1, s1)" by fastforce
  note fresh = fw_GetBuffer_fresh [OF g]
  let ?packed = "snappy_compress env (os_view b)"
  let ?f = "fos_reserve (os_data b1) (32 + snappy_max env (length (os_view b)))"
  let ?g = "?f\<lparr>fo_base := overwrite (fo_base ?f) 32 ?packed\<rparr>"
  have s1: "s1 = s\<lparr>buffers := buffers s1\<rparr>" by (rule fresh)
  have len: "length ?packed \<le> snappy_max env (length (os_view b))" using assms(1) by (simp add: env_ok_def)
  then have base: "32 + length ?packed \<le> length (fo_base ?f)"
    by (simp add: fos_reserve_def)
  then have view: "os_view (b1\<lparr>os_data := fos_resize ?g (32 + length ?packed)\<rparr>) = ?packed"
    "os_ok (b1\<lparr>os_data := fos_resize ?g (32 + length ?packed)\<rparr>)"
    using fresh(3) by (simp_all add: os_view_stored kBufferStartPadding_def)
  have "fw_Reclaim s1 b = s\<lparr>buffers := buffers s1 @ [b]\<rparr>"
    by (subst s1) (simp add: fw_Reclaim_def)
  then have "fw_compress env s b
      = Inr (if length ?packed < length (os_view b)
             then (True, b1\<lparr>os_data := fos_resize ?g (32 + length ?packed)\<rparr>, s\<lparr>buffers := buffers s1 @ [b]\<rparr>)
             else (False, b, s\<lparr>buffers := buffers s1\<rparr>))"
    using g fresh(3) base s1 assms(2)
    by (simp add: fw_compress_def os_size_view kBufferStartPadding_def Let_def)
  with view fresh(3) assms(2,3) show ?thesis by (auto split: if_splits)
qed

lemma length_leb128_bound: "n < 2 ^ (7 * k) \<Longrightarrow> 0 < k \<Longrightarrow> length (leb128 n) \<le> k"
  using length_leb128_le [of n "k - 1"] by simp

lemma data_flags_small: "unat (data_flags p t c z) < 128"
  by (cases p; cases t; cases c; cases z)
    (simp_all add: data_flags_def kPreviousOffset_def kTimestampFlag_def kChecksum_def kSnappy_def)

lemma length_data_prefix:
  assumes "unat identifier < 2 ^ 14" and "unat flags < 128"
  shows "length (data_prefix identifier flags prev ts) \<le> 21"
proof -
  have "length (leb128 (unat identifier)) \<le> 2" "length (leb128 (unat flags)) \<le> 1"
    using length_leb128_bound [of "unat identifier" 2] length_leb128_bound [of "unat flags" 1] assms by simp_all
  moreover have "length (leb128 (unat (the prev))) \<le> 10" by (rule length_leb128_u64)
  ultimately show ?thesis
    by (cases prev; cases ts) (simp_all add: data_prefix_def)
qed

lemma data_header_fits:
  assumes "unat identifier < 2 ^ 14" and "unat flags < 128" and "n < 2 ^ 41"
  shows "length (data_header identifier flags prev ts ck n) + (if ck then 4 else 0) \<le> kBufferStartPadding"
proof -
  let ?p = "data_prefix identifier flags prev ts"
  have p: "length ?p \<le> 21" using assms(1,2) by (rule length_data_prefix)
  have "length ?p + (if ck then 4 else 0) + n < 2 ^ (7 * 6)" using p assms(3) by simp
  then have "length (leb128 (length ?p + (if ck then 4 else 0) + n)) \<le> 6"
    by (rule length_leb128_bound) simp
  with p show ?thesis by (cases ck) (simp_all add: data_header_def Let_def kBufferStartPadding_def leb128_small)
qed

text \<open>Whether the header fits in the bytes reserved in front of the data; it does for small identifiers.\<close>

definition header_fits :: "u64 \<Rightarrow> u64 option \<Rightarrow> btime option \<Rightarrow> bool \<Rightarrow> bool \<Rightarrow> nat \<Rightarrow> bool" where
  "header_fits identifier prev ts ck packed n =
     (length (data_header identifier (data_flags (prev \<noteq> None) (ts \<noteq> None) ck packed) prev ts ck n)
        + (if ck then 4 else 0) \<le> kBufferStartPadding)"

lemma header_fits_small: "unat identifier < 2 ^ 14 \<Longrightarrow> n < 2 ^ 41 \<Longrightarrow> header_fits identifier prev ts ck packed n"
  unfolding header_fits_def by (rule data_header_fits [OF _ data_flags_small])

lemma data_header_sizes:
  assumes "length (data_prefix identifier flags prev ts) + (if ck then 4 else 0) + n < 2 ^ 64"
  shows "tl_GetVaruintSize identifier + tl_GetVaruintSize flags
        + ((case prev of None \<Rightarrow> 0 | Some off \<Rightarrow> tl_GetVaruintSize off)
           + (if ts \<noteq> None then 8 else 0) + (if ck then 4 else 0))
      = length (data_prefix identifier flags prev ts) + (if ck then 4 else 0)"
    and "length (data_prefix identifier flags prev ts) + (if ck then 4 else 0)
        + tl_GetVaruintSize (of_nat (length (data_prefix identifier flags prev ts) + (if ck then 4 else 0) + n)) + 1
      = length (data_header identifier flags prev ts ck n) + (if ck then 4 else 0)"
proof -
  show "tl_GetVaruintSize identifier + tl_GetVaruintSize flags
        + ((case prev of None \<Rightarrow> 0 | Some off \<Rightarrow> tl_GetVaruintSize off)
           + (if ts \<noteq> None then 8 else 0) + (if ck then 4 else 0))
      = length (data_prefix identifier flags prev ts) + (if ck then 4 else 0)"
    by (cases prev; cases ts) (simp_all add: tl_GetVaruintSize_length data_prefix_def)
  show "length (data_prefix identifier flags prev ts) + (if ck then 4 else 0)
        + tl_GetVaruintSize (of_nat (length (data_prefix identifier flags prev ts) + (if ck then 4 else 0) + n)) + 1
      = length (data_header identifier flags prev ts ck n) + (if ck then 4 else 0)"
    using unat_of_nat_u64 [OF assms]
    by (simp add: data_header_def Let_def tl_GetVaruintSize_length leb128_small)
qed

lemma length_data_prefix_any: "length (data_prefix identifier flags prev ts) \<le> 38"
proof -
  have "length (leb128 (unat identifier)) \<le> 10" "length (leb128 (unat flags)) \<le> 10"
    "length (leb128 (unat (the prev))) \<le> 10" by (rule length_leb128_u64)+
  then show ?thesis by (cases prev; cases ts) (simp_all add: data_prefix_def)
qed

lemma fw_frame_data_too_long:
  assumes "os_ok b" and "os_start b = kBufferStartPadding" and "length (os_view b) < 2 ^ 60"
    and "\<not> header_fits identifier prev ts ck packed (length (os_view b))"
  shows "fw_frame_data env s identifier b prev ts ck packed = Inl AssertFailed"
proof -
  obtain flags where flags: "flags = data_flags (prev \<noteq> None) (ts \<noteq> None) ck packed" by blast
  have fl: "((if prev \<noteq> None then kPreviousOffset else 0) OR (if ts \<noteq> None then kTimestampFlag else 0)
      OR (if ck then kChecksum else 0) OR (if packed then kSnappy else 0)) = flags"
    by (simp only: flags data_flags_def)
  let ?p = "data_prefix identifier flags prev ts"
  have "length ?p \<le> 38" by (rule length_data_prefix_any)
  then have "length ?p + (if ck then 4 else 0) + length (os_view b) < 2 ^ 64"
    using assms(3) by (cases ck) simp_all
  note sizes = data_header_sizes [OF this]
  show ?thesis
    using assms(2,4)
    unfolding fw_frame_data_def Let_def fl sizes os_size_view [OF assms(1)] header_fits_def flags [symmetric]
    by (simp add: mj_assert_def)
qed

lemma fw_frame_data_block:
  assumes "fw_ok s" and "writer s \<noteq> None" and "os_ok b" and "os_start b = kBufferStartPadding"
    and "length (os_view b) < 2 ^ 60"
    and "header_fits identifier prev ts ck packed (length (os_view b))"
  shows "\<exists>s'. fw_frame_data env s identifier b prev ts ck packed = Inr s'
    \<and> emits (s\<lparr>schema := data_schema s identifier\<rparr>)
        (data_block env identifier (data_flags (prev \<noteq> None) (ts \<noteq> None) ck packed) prev ts ck (os_view b)) s'"
proof -
  obtain flags where flags: "flags = data_flags (prev \<noteq> None) (ts \<noteq> None) ck packed" by blast
  then have small: "unat flags < 128" using data_flags_small by blast
  let ?d = "os_view b"
  let ?p = "data_prefix identifier flags prev ts"
  let ?hdr = "data_header identifier flags prev ts ck (length ?d)"
  obtain h where h: "h = ?hdr @ checksum_bytes env ck ?hdr ?d" by blast
  obtain body where body: "body = length ?p + (if ck then 4 else 0) + length ?d" by blast
  have fits: "length h \<le> kBufferStartPadding"
    using assms(6) by (simp add: h header_fits_def flags)
  then have "length ?p \<le> 32" by (simp add: h data_header_def Let_def kBufferStartPadding_def)
  then have body64: "body < 2 ^ 64" using assms(5) by (cases ck) (simp_all add: body)
  obtain b2 where b2: "os_span b (os_start b - length h) (length h)
        (fw_data_header env b (of_nat body) identifier flags prev ts ck) = Inr b2"
      "os_start b2 = os_start b" "os_ok (b2\<lparr>os_start := os_start b - length h\<rparr>)"
      "os_view (b2\<lparr>os_start := os_start b - length h\<rparr>) = h @ ?d"
  proof (rule os_span_front [OF assms(3), of "os_start b - length h" "length h"
        "fw_data_header env b (of_nat body) identifier flags prev ts ck" h])
    show "os_start b - length h + length h = os_start b" using fits assms(4) by simp
    show "\<exists>w. fw_data_header env b (of_nat body) identifier flags prev ts ck (bws_init mem) = Inr w
        \<and> bw_mem w = h" if "length mem = length h" for mem
      unfolding h
      by (rule fw_data_header_bytes) (use body body64 that in \<open>simp_all add: h\<close>)
  qed auto
  let ?s1 = "s\<lparr>schema := data_schema s identifier\<rparr>"
  let ?b = "b2\<lparr>os_start := os_start b - length h\<rparr>"
  have s1: "fw_ok ?s1" "writer ?s1 \<noteq> None" using assms(1,2) by (simp_all add: fw_ok_def fw_log_def)
  have "os_view ?b = data_block env identifier flags prev ts ck ?d"
    using b2(4) by (simp only: h data_block_def Let_def append_assoc)
  moreover have "os_view ?b \<noteq> []" using b2(4) by (simp add: h data_header_def Let_def)
  ultimately have "emits ?s1 (data_block env identifier flags prev ts ck ?d) (fw_Write ?s1 ?b)"
    using emits_Write [OF s1 b2(3), of "buffers s"] by simp
  moreover have "fw_frame_data env s identifier b prev ts ck packed = Inr (fw_Write ?s1 ?b)"
  proof -
    have fl: "((if prev \<noteq> None then kPreviousOffset else 0) OR (if ts \<noteq> None then kTimestampFlag else 0)
      OR (if ck then kChecksum else 0) OR (if packed then kSnappy else 0)) = flags"
      by (simp only: flags data_flags_def)
    note sizes = data_header_sizes [OF body64 [unfolded body]]
    have hlen: "length ?hdr + (if ck then 4 else 0) = length h" by (simp add: h)
    show ?thesis
      using b2(1,2) fits assms(4)
      unfolding fw_frame_data_def Let_def fl sizes os_size_view [OF assms(3)] hlen
      by (simp add: mj_assert_def data_schema_def body)
  qed
  ultimately show ?thesis unfolding flags by blast
qed

lemma buffers_irrelevant [simp]:
  "fw_position (s\<lparr>buffers := bs\<rparr>) = fw_position s"
  "fw_GetPreviousOffset (s\<lparr>buffers := bs\<rparr>) identifier = fw_GetPreviousOffset s identifier"
  "data_schema (s\<lparr>buffers := bs\<rparr>) identifier = data_schema s identifier"
  by (simp_all add: fw_position_def fw_GetPreviousOffset_def data_schema_def split: option.split)

lemma emits_buffers [simp]: "emits (s\<lparr>buffers := bs\<rparr>) d s' = emits s d s'"
proof -
  have "s\<lparr>buffers := bs, writer := writer s', buffers := buffers s'\<rparr> = s\<lparr>writer := writer s', buffers := buffers s'\<rparr>"
    by simp
  then show ?thesis by (simp add: emits_def)
qed

lemma emits_trans:
  assumes "emits s d s'" and "emits s' e s''"
  shows "emits s (d @ e) s''"
proof -
  have "s' = s\<lparr>writer := writer s', buffers := buffers s'\<rparr>" "s'' = s'\<lparr>writer := writer s'', buffers := buffers s''\<rparr>"
    using assms by (simp_all add: emits_def)
  then have "s'' = s\<lparr>writer := writer s'', buffers := buffers s''\<rparr>"
    by (cases s; cases s'; cases s''; simp)
  with assms show ?thesis by (simp add: emits_def)
qed

lemma fw_emit_data_block:
  assumes "fw_ok s" and "writer s \<noteq> None" and "env_ok env"
    and "os_ok b" and "os_start b = kBufferStartPadding" and "length (os_view b) < 2 ^ 60"
    and prev_def: "prev = (if write_previous_offsets (options s) then Some (fw_GetPreviousOffset s identifier) else None)"
    and ts_def: "ts = data_time (options s) now timestamp"
    and ck_def: "ck = evaluate (wf_checksum fl) (default_checksum_data (options s))"
    and packed_def: "packed = packs env (options s) fl (os_view b)"
    and d_def: "d = payload_of env (options s) fl (os_view b)"
  shows "if header_fits identifier prev ts ck packed (length d)
    then \<exists>s'. fw_emit_data env now s timestamp identifier b fl = Inr s'
      \<and> emits (s\<lparr>schema := data_schema s identifier\<rparr>)
          (data_block_of env now s timestamp identifier (os_view b) fl) s'
    else fw_emit_data env now s timestamp identifier b fl = Inl AssertFailed"
proof -
  have "\<exists>b' bs. (if evaluate (wf_compression fl) (default_compression (options s)) then fw_compress env s b
        else Inr (False, b, s)) = Inr (packed, b', s\<lparr>buffers := bs\<rparr>)
      \<and> os_ok b' \<and> os_start b' = kBufferStartPadding \<and> os_view b' = d"
  proof (cases "evaluate (wf_compression fl) (default_compression (options s))")
    case True
    with fw_compress_payload [OF assms(3-5), of s] show ?thesis
      by (auto simp: packs_def payload_of_def packed_def d_def)
  next
    case False
    then have "s = s\<lparr>buffers := buffers s\<rparr>" by simp
    with False assms(4,5) show ?thesis
      by (auto simp: packs_def payload_of_def packed_def d_def intro!: exI [of _ "buffers s"])
  qed
  then obtain b1 bs where b1: "(if evaluate (wf_compression fl) (default_compression (options s))
        then fw_compress env s b else Inr (False, b, s)) = Inr (packed, b1, s\<lparr>buffers := bs\<rparr>)"
      "os_ok b1" "os_start b1 = kBufferStartPadding" "os_view b1 = d" by blast
  have dlen: "length (os_view b1) < 2 ^ 60" using assms(6) by (auto simp: payload_of_def packs_def b1(4) d_def)
  have frame: "fw_emit_data env now s timestamp identifier b fl
      = fw_frame_data env (s\<lparr>buffers := bs\<rparr>) identifier b1 prev ts ck packed"
    using b1(1) by (simp add: fw_emit_data_def Let_def prev_def ts_def ck_def data_time_def)
  have s: "fw_ok (s\<lparr>buffers := bs\<rparr>)" "writer (s\<lparr>buffers := bs\<rparr>) \<noteq> None" using assms(1,2) by simp_all
  have sch: "data_schema (s\<lparr>buffers := bs\<rparr>) i = data_schema s i" for i
    by (simp add: data_schema_def fw_position_def)
  have swap: "s\<lparr>buffers := bs, schema := x\<rparr> = s\<lparr>schema := x, buffers := bs\<rparr>" for x by simp
  have blk: "data_block_of env now s timestamp identifier (os_view b) fl
      = data_block env identifier (data_flags (prev \<noteq> None) (ts \<noteq> None) ck packed) prev ts ck d"
    unfolding prev_def ts_def ck_def packed_def d_def by (simp only: data_block_of_def Let_def)
  show ?thesis
    using fw_frame_data_block [OF s b1(2,3) dlen]
      fw_frame_data_too_long [OF b1(2,3) dlen, where s = "s\<lparr>buffers := bs\<rparr>"]
    unfolding frame b1(4) sch swap emits_buffers blk by simp
qed

subsection \<open>Changes inside a block\<close>

lemma os_view_update:
  assumes "os_ok b" and "k < length (os_view b)"
  shows "os_view (b\<lparr>os_data := (os_data b)\<lparr>fo_base := (fo_base (os_data b))[os_start b + k := v]\<rparr>\<rparr>)
      = (os_view b)[k := v]"
    and "os_ok (b\<lparr>os_data := (os_data b)\<lparr>fo_base := (fo_base (os_data b))[os_start b + k := v]\<rparr>\<rparr>)"
  using assms
  by (auto simp: os_view_def os_ok_def fos_str_def fos_ok_def nth_list_update intro!: nth_equalityI)

lemma nth_overwrite:
  "i + length ys \<le> length xs \<Longrightarrow> j < length xs \<Longrightarrow>
   overwrite xs i ys ! j = (if i \<le> j \<and> j < i + length ys then ys ! (j - i) else xs ! j)"
  by (auto simp: overwrite_def nth_append min_def)

lemma drop_take_overwrite:
  assumes "m + k + length d \<le> n" and "n \<le> length xs"
  shows "drop m (take n (overwrite xs (m + k) d)) = overwrite (drop m (take n xs)) k d"
  using assms by (intro nth_equalityI) (auto simp: nth_overwrite)

lemma os_span_inside:
  assumes "os_ok b" and "k + length d \<le> length (os_view b)"
    and "\<And>mem. length mem = length d \<Longrightarrow> \<exists>w. f (bws_init mem) = Inr w \<and> bw_mem w = d"
  obtains b' where "os_span b (os_start b + k) (length d) f = Inr b'" "os_start b' = os_start b"
    "os_ok b'" "os_view b' = overwrite (os_view b) k d"
proof -
  let ?base = "fo_base (os_data b)"
  have len: "os_start b + k + length d \<le> fo_size (os_data b)" "fo_size (os_data b) \<le> length ?base"
    using assms(1,2) by (auto simp: os_ok_def fos_ok_def os_view_def fos_str_def)
  then obtain w where w: "f (bws_init (take (length d) (drop (os_start b + k) ?base))) = Inr w" "bw_mem w = d"
    using assms(3) [of "take (length d) (drop (os_start b + k) ?base)"] by auto
  let ?b = "b\<lparr>os_data := (os_data b)\<lparr>fo_base := overwrite ?base (os_start b + k) d\<rparr>\<rparr>"
  have "os_span b (os_start b + k) (length d) f = Inr ?b" using len w by (simp add: os_span_def Let_def)
  moreover have "os_view ?b = overwrite (os_view b) k d"
    using drop_take_overwrite [OF len] by (simp add: os_view_def fos_str_def)
  moreover have "os_ok ?b"
    using len assms(1) by (simp add: os_ok_def fos_ok_def)
  ultimately show thesis using that by simp
qed

subsection \<open>Seek markers\<close>

definition seek_element :: "u64 \<Rightarrow> u64 \<times> schema_record \<Rightarrow> byte list" where
  "seek_element position p =
     (if has_data (snd p) then leb128 (unat (fst p)) @ leb128 (unat (position - last_position (snd p))) else [])"

definition seek_rest :: "u64 \<Rightarrow> (u64 \<times> schema_record) list \<Rightarrow> btime \<Rightarrow> byte list" where
  "seek_rest position sch timestamp =
     leb128 0 @ le_bytes 8 (ConvertPtimeToEpochMicroseconds timestamp)
     @ leb128 (unat (of_nat (length (filter (\<lambda>p. has_data (snd p)) sch)) :: u64))
     @ concat (map (seek_element position) sch)"

text \<open>The body with the checksum and the size of the header in place.\<close>

definition seek_body :: "u32 \<Rightarrow> byte \<Rightarrow> byte list \<Rightarrow> byte list" where
  "seek_body crc header_size rest = le_bytes 8 (0xfdcab9a897867564 :: u64) @ le_bytes 4 crc @ [header_size] @ rest"

definition seek_block :: "fw_env \<Rightarrow> u64 \<Rightarrow> (u64 \<times> schema_record) list \<Rightarrow> btime \<Rightarrow> byte list" where
  "seek_block env position sch timestamp =
     (let rest = seek_rest position sch timestamp;
          hdr = leb128 5 @ leb128 (unat (of_nat (13 + length rest) :: u64));
          n = of_nat (length hdr)
      in hdr @ seek_body (crc32 env (hdr @ seek_body 0 n rest)) n rest)"

lemma length_seek_body [simp]: "length (seek_body crc n rest) = 13 + length rest"
  by (simp add: seek_body_def)

lemma seek_body_size: "(seek_body crc n rest)[12 := m] = seek_body crc m rest"
  by (simp add: seek_body_def list_update_append)

lemma seek_body_crc: "overwrite (seek_body crc n rest) 8 (le_bytes 4 c) = seek_body c n rest"
  by (simp add: seek_body_def overwrite_def)

lemma overwrite_append_right: "overwrite (a @ b) (length a + k) d = a @ overwrite b k d"
  by (simp add: overwrite_def)

lemma fw_seek_elements_bytes:
  "os_ok b \<Longrightarrow> fw_seek_elements position sch b = os_write b (concat (map (seek_element position) sch))"
proof (induction sch arbitrary: b)
  case Nil
  then show ?case by (simp add: os.wr_Nil)
next
  case (Cons p sch)
  obtain i r where p: "p = (i, r)" by force
  show ?case
  proof (cases "has_data r")
    case True
    have "fw_seek_elements position (p # sch) b
        = sbind (os_write b (seek_element position p)) (fw_seek_elements position sch)"
      using True by (simp add: p seek_element_def os.tl_WriteVaruint_leb128 os.wr_seq_more)
    also have "\<dots> = sbind (os_write b (seek_element position p)) (\<lambda>b. os_write b (concat (map (seek_element position) sch)))"
      using os_write_total [of b "seek_element position p"] os.wr_ok [OF Cons.prems] Cons.IH by auto
    finally show ?thesis by (simp add: os.wr_seq)
  next
    case False
    with Cons show ?thesis by (simp add: p seek_element_def)
  qed
qed

lemma bws_write_two:
  "length mem = length a + length d \<Longrightarrow>
   \<exists>w. sbind (bws_write (bws_init mem) a) (\<lambda>w. bws_write w d) = Inr w \<and> bw_mem w = a @ d"
  using bws_write_full [of mem "a @ d"] by (simp add: bws.wr_seq)

lemma fw_seek_body_bytes:
  assumes "os_ok b"
  shows "fw_seek_body position sch timestamp b = os_write b (seek_body 0 0 (seek_rest position sch timestamp))"
proof -
  let ?f = "le_bytes 8 (0xfdcab9a897867564 :: u64) @ le_bytes 4 (0 :: u32) @ le_bytes 1 (0 :: byte) @ leb128 0
    @ le_bytes 8 (ConvertPtimeToEpochMicroseconds timestamp)
    @ leb128 (unat (of_nat (length (filter (\<lambda>p. has_data (snd p)) sch)) :: u64))"
  have "fw_seek_body position sch timestamp b = sbind (os_write b ?f) (fw_seek_elements position sch)"
    by (simp add: fw_seek_body_def tl_WriteScalar_def tl_WriteTimestamp_def os.tl_WriteVaruint_leb128 os.wr_seq_more
        del: le_bytes.simps)
  also have "\<dots> = sbind (os_write b ?f) (\<lambda>b. os_write b (concat (map (seek_element position) sch)))"
    using os_write_total [of b ?f] os.wr_ok [OF assms] by (auto simp: fw_seek_elements_bytes)
  also have "\<dots> = os_write b (?f @ concat (map (seek_element position) sch))" by (rule os.wr_seq)
  also have "\<dots> = os_write b (seek_body 0 0 (seek_rest position sch timestamp))"
    by (simp add: seek_body_def seek_rest_def)
  finally show ?thesis .
qed

lemma os_view_take: "os_ok b \<Longrightarrow> os_size b = n \<Longrightarrow> take n (drop (os_start b) (fo_base (os_data b))) = os_view b"
  by (auto simp: os_view_def os_size_def fos_str_def take_drop min_def os_ok_def)

lemma fw_seal_seek_bytes:
  assumes "os_ok b" and "os_start b = kBufferStartPadding" and "os_view b = seek_body 0 0 rest"
  defines "hdr \<equiv> leb128 5 @ leb128 (unat (of_nat (13 + length rest) :: u64))"
  shows "\<exists>b'. fw_seal_seek env (kBufferStartPadding + 8) b = Inr b' \<and> os_ok b'
    \<and> os_view b' = hdr @ seek_body (crc32 env (hdr @ seek_body 0 (of_nat (length hdr)) rest)) (of_nat (length hdr)) rest"
proof -
  have hlen: "length hdr = 1 + tl_GetVaruintSize (of_nat (13 + length rest))"
    by (simp add: hdr_def tl_GetVaruintSize_length leb128_small)
  have hsmall: "length hdr \<le> kBufferStartPadding"
    using length_leb128_u64 [of "of_nat (13 + length rest)"]
    by (simp add: hdr_def leb128_small kBufferStartPadding_def)
  let ?n = "of_nat (length hdr) :: byte"
  have size: "os_size b = 13 + length rest" using assms(1,3) by (simp add: os_size_view)
  let ?off = "os_start b - length hdr"
  let ?f = "\<lambda>w. sbind (tl_WriteVaruint bws_write w kSeekMarker) (\<lambda>w.
        tl_WriteVaruint bws_write w (of_nat (13 + length rest)))"
  obtain b1 where b1: "os_span b ?off (length hdr) ?f = Inr b1" "os_start b1 = os_start b"
    "os_ok (b1\<lparr>os_start := ?off\<rparr>)" "os_view (b1\<lparr>os_start := ?off\<rparr>) = hdr @ os_view b"
  proof (rule os_span_front [OF assms(1), of ?off "length hdr" ?f hdr])
    show "?off + length hdr = os_start b" using hsmall assms(2) by simp
    show "\<exists>w. ?f (bws_init mem) = Inr w \<and> bw_mem w = hdr" if "length mem = length hdr" for mem
      using bws_write_full [OF that]
      by (simp add: bws.tl_WriteVaruint_leb128 bws.wr_seq hdr_def kSeekMarker_def)
  qed auto
  let ?b = "b1\<lparr>os_start := ?off\<rparr>"
  have span: "os_span (b\<lparr>os_start := ?off\<rparr>) ?off (length hdr) ?f = Inr ?b"
    using b1(1) by (auto simp: os_span_def Let_def sbind_eq_Inr_iff split: if_splits)
  have k: "kBufferStartPadding + 12 = os_start ?b + (length hdr + 12)"
    "kBufferStartPadding + 8 = os_start ?b + (length hdr + 8)"
    using hsmall assms(2) by simp_all
  have "length hdr + 12 < length (os_view ?b)" by (simp add: b1(4) assms(3))
  from os_view_update [OF b1(3) this, of ?n] obtain b2 where b2:
      "b2 = ?b\<lparr>os_data := (os_data ?b)\<lparr>fo_base := (fo_base (os_data ?b))[os_start ?b + (length hdr + 12) := ?n]\<rparr>\<rparr>"
      "os_view b2 = (os_view ?b)[length hdr + 12 := ?n]" "os_ok b2" by blast
  have view2: "os_view b2 = hdr @ seek_body 0 ?n rest"
    unfolding b2(2) b1(4) assms(3) by (simp add: list_update_append seek_body_size)
  have start2: "os_start b2 = ?off" by (simp add: b2(1))
  have k8: "kBufferStartPadding + 8 = ?off + (length hdr + 8)" using hsmall assms(2) by simp
  have "os_size b2 = length hdr + (13 + length rest)"
    unfolding os_size_view [OF b2(3)] view2 by simp
  then have take2: "take (length hdr + (13 + length rest)) (drop ?off (fo_base (os_data b2)))
      = hdr @ seek_body 0 ?n rest"
    using os_view_take [OF b2(3)] view2 start2 by simp
  let ?crc = "crc32 env (hdr @ seek_body 0 ?n rest)"
  obtain b3 where b3: "os_span b2 (os_start b2 + (length hdr + 8)) (length (le_bytes 4 ?crc))
      (\<lambda>w. tl_WriteScalar bws_write 4 w ?crc) = Inr b3" "os_ok b3"
      "os_view b3 = overwrite (os_view b2) (length hdr + 8) (le_bytes 4 ?crc)"
  proof (rule os_span_inside [OF b2(3), of "length hdr + 8" "le_bytes 4 ?crc" "\<lambda>w. tl_WriteScalar bws_write 4 w ?crc"])
    show "length hdr + 8 + length (le_bytes 4 ?crc) \<le> length (os_view b2)" by (simp add: view2)
    show "\<exists>w. tl_WriteScalar bws_write 4 (bws_init mem) ?crc = Inr w \<and> bw_mem w = le_bytes 4 ?crc"
      if "length mem = length (le_bytes 4 ?crc)" for mem
      using bws_write_full [OF that] by (simp add: tl_WriteScalar_def)
  qed auto
  have "fw_seal_seek env (kBufferStartPadding + 8) b = Inr b3"
  proof -
    have 2: "b2 = b1\<lparr>os_start := ?off, os_data := (os_data b1)\<lparr>fo_base :=
        (fo_base (os_data b1))[12 + kBufferStartPadding := ?n]\<rparr>\<rparr>"
      unfolding b2(1) k(1) [symmetric] by (simp add: add.commute)
    have 3: "os_span b2 (kBufferStartPadding + 8) 4 (\<lambda>w. tl_WriteScalar bws_write 4 w ?crc) = Inr b3"
      using b3(1) unfolding start2 k8 [symmetric] by simp
    show ?thesis
      using span 3 take2
      unfolding fw_seal_seek_def Let_def size hlen [symmetric]
      by (simp add: 2)
  qed
  moreover have "os_view b3 = hdr @ seek_body ?crc ?n rest"
    unfolding b3(3) view2 overwrite_append_right seek_body_crc ..
  ultimately show ?thesis using b3(2) by blast
qed

lemma fw_WriteSeekBlock_emits:
  assumes "fw_ok s" and "writer s \<noteq> None"
  shows "\<exists>s'. fw_WriteSeekBlock env s timestamp = Inr s'
    \<and> emits s (seek_block env (fw_position s) (schema s) timestamp) s'"
proof -
  obtain b s1 where g: "fw_GetBuffer s = (b, s1)" by fastforce
  note fresh = fw_GetBuffer_fresh [OF g]
  have s1: "fw_position s1 = fw_position s" "schema s1 = schema s"
    by (subst fresh(4), simp add: fw_position_def)+
  let ?rest = "seek_rest (fw_position s) (schema s) timestamp"
  obtain t where t: "os_write b (seek_body 0 0 ?rest) = Inr t" "os_ok t"
      "os_view t = seek_body 0 0 ?rest" "os_start t = kBufferStartPadding"
    using os_write_Inr [OF fresh(1), of "seek_body 0 0 ?rest"] fresh(2,3) by auto
  obtain b' where b': "fw_seal_seek env (kBufferStartPadding + 8) t = Inr b'" "os_ok b'"
      "os_view b' = seek_block env (fw_position s) (schema s) timestamp"
    using fw_seal_seek_bytes [OF t(2,4,3), of env] unfolding seek_block_def Let_def by blast
  have "os_view b' \<noteq> []" by (simp add: b'(3) seek_block_def Let_def)
  from emits_Write [OF assms b'(2) this, of "buffers s1"]
  have "emits s (seek_block env (fw_position s) (schema s) timestamp) (fw_Write s1 b')"
    using fresh(4) b'(3) by simp
  moreover have "fw_WriteSeekBlock env s timestamp = Inr (fw_Write s1 b')"
    using assms(2) g t(1) b'(1) fresh(1,3) s1
    by (auto simp: fw_WriteSeekBlock_def fw_seek_body_bytes)
  ultimately show ?thesis by blast
qed

section \<open>The operations\<close>

definition seek_written :: "fw_env \<Rightarrow> file_writer \<Rightarrow> btime \<Rightarrow> bool" where
  "seek_written env s timestamp =
     (seek_enabled (options s) \<and> last_seek_block s \<noteq> not_a_date_time \<and> timestamp \<noteq> not_a_date_time
      \<and> seek_due env timestamp (last_seek_block s))"

definition next_seek :: "fw_env \<Rightarrow> file_writer \<Rightarrow> btime \<Rightarrow> btime" where
  "next_seek env s timestamp =
     (if seek_enabled (options s) \<and> last_seek_block s = not_a_date_time \<or> seek_written env s timestamp
      then timestamp else last_seek_block s)"

lemma fw_ok_last_seek [simp]:
  "fw_ok (s\<lparr>last_seek_block := x\<rparr>) = fw_ok s" "fw_log (s\<lparr>last_seek_block := x\<rparr>) = fw_log s"
  by (simp_all add: fw_ok_def fw_log_def)

lemma fw_ok_schema [simp]:
  "fw_ok (s\<lparr>schema := x\<rparr>) = fw_ok s" "fw_log (s\<lparr>schema := x\<rparr>) = fw_log s"
  by (simp_all add: fw_ok_def fw_log_def)

lemma emits_last_seek: "emits s d s' \<Longrightarrow> emits (s\<lparr>last_seek_block := x\<rparr>) d (s'\<lparr>last_seek_block := x\<rparr>)"
  by (cases s; cases s') (simp add: emits_def fw_ok_def fw_log_def)

lemma emits_refl: "fw_ok s \<Longrightarrow> writer s \<noteq> None \<Longrightarrow> emits s [] s"
  by (simp add: emits_def)

lemma fw_maybe_seek_emits:
  assumes "fw_ok s" and "writer s \<noteq> None"
  shows "\<exists>s'. fw_maybe_seek env timestamp s = Inr s'
    \<and> emits (s\<lparr>last_seek_block := next_seek env s timestamp\<rparr>)
        (if seek_written env s timestamp then seek_block env (fw_position s) (schema s) timestamp else []) s'"
proof -
  obtain s1 where s1: "fw_WriteSeekBlock env s timestamp = Inr s1"
      "emits s (seek_block env (fw_position s) (schema s) timestamp) s1"
    using fw_WriteSeekBlock_emits [OF assms] by blast
  have "emits (s\<lparr>last_seek_block := x\<rparr>) [] (s\<lparr>last_seek_block := x\<rparr>)" for x
    by (rule emits_refl) (use assms in simp_all)
  from this [of timestamp] this [of "last_seek_block s"] s1(1) emits_last_seek [OF s1(2), of timestamp]
  show ?thesis
    by (auto simp: fw_maybe_seek_def next_seek_def seek_written_def)
qed

text \<open>The flags and sizes of the block written for some data, and whether its header fits.\<close>

definition data_fits :: "fw_env \<Rightarrow> btime \<Rightarrow> file_writer \<Rightarrow> btime \<Rightarrow> u64 \<Rightarrow> byte list \<Rightarrow> write_flags \<Rightarrow> bool" where
  "data_fits env now s timestamp identifier d fl =
     header_fits identifier
       (if write_previous_offsets (options s) then Some (fw_GetPreviousOffset s identifier) else None)
       (data_time (options s) now timestamp) (evaluate (wf_checksum fl) (default_checksum_data (options s)))
       (packs env (options s) fl d) (length (payload_of env (options s) fl d))"

definition data_bytes_written ::
  "fw_env \<Rightarrow> btime \<Rightarrow> file_writer \<Rightarrow> btime \<Rightarrow> u64 \<Rightarrow> byte list \<Rightarrow> write_flags \<Rightarrow> byte list" where
  "data_bytes_written env now s timestamp identifier d fl =
     (let blk = data_block_of env now s timestamp identifier d fl
      in blk @ (if seek_written env s timestamp
                then seek_block env (fw_position s + of_nat (length blk)) (data_schema s identifier) timestamp
                else []))"

lemma fw_emit_data_fits:
  assumes "fw_ok s" and "writer s \<noteq> None" and "env_ok env"
    and "os_ok b" and "os_start b = kBufferStartPadding" and "length (os_view b) < 2 ^ 60"
  shows "if data_fits env now s timestamp identifier (os_view b) fl
    then \<exists>s'. fw_emit_data env now s timestamp identifier b fl = Inr s'
      \<and> emits (s\<lparr>schema := data_schema s identifier\<rparr>)
          (data_block_of env now s timestamp identifier (os_view b) fl) s'
    else fw_emit_data env now s timestamp identifier b fl = Inl AssertFailed"
  unfolding data_fits_def by (rule fw_emit_data_block [OF assms refl refl refl refl refl])

lemma fw_WriteData_buffer_emits:
  assumes "fw_ok s" and "writer s \<noteq> None" and "env_ok env"
    and "os_ok b" and "os_start b = kBufferStartPadding" and "length (os_view b) < 2 ^ 60"
  shows "if data_fits env now s timestamp identifier (os_view b) fl
    then \<exists>s'. fw_WriteData_buffer env now s timestamp identifier b fl = Inr s'
      \<and> emits (s\<lparr>schema := data_schema s identifier, last_seek_block := next_seek env s timestamp\<rparr>)
          (data_bytes_written env now s timestamp identifier (os_view b) fl) s'
    else fw_WriteData_buffer env now s timestamp identifier b fl = Inl AssertFailed"
proof (cases "data_fits env now s timestamp identifier (os_view b) fl")
  case True
  let ?blk = "data_block_of env now s timestamp identifier (os_view b) fl"
  obtain s1 where s1: "fw_emit_data env now s timestamp identifier b fl = Inr s1"
      "emits (s\<lparr>schema := data_schema s identifier\<rparr>) ?blk s1"
    using True fw_emit_data_fits [OF assms, of now timestamp "identifier" fl] by auto
  have e: "fw_ok s1" "writer s1 \<noteq> None" "fw_log s1 = fw_log s @ ?blk" "options s1 = options s"
      "schema s1 = data_schema s identifier" "last_seek_block s1 = last_seek_block s"
    using emitsD [OF s1(2)] by simp_all
  have pos: "fw_position s1 = fw_position s + of_nat (length ?blk)"
    using fw_position_eq [OF e(1,2)] fw_position_eq [OF assms(1,2)] e(3) by simp
  have seek: "next_seek env s1 timestamp = next_seek env s timestamp"
      "seek_written env s1 timestamp = seek_written env s timestamp"
    using e by (simp_all add: next_seek_def seek_written_def)
  obtain s2 where s2: "fw_maybe_seek env timestamp s1 = Inr s2"
      "emits (s1\<lparr>last_seek_block := next_seek env s timestamp\<rparr>)
        (if seek_written env s timestamp
         then seek_block env (fw_position s + of_nat (length ?blk)) (data_schema s identifier) timestamp else []) s2"
    using fw_maybe_seek_emits [OF e(1,2), of env timestamp] unfolding seek pos e(5) by blast
  from emits_trans [OF emits_last_seek [OF s1(2), of "next_seek env s timestamp"] s2(2)] s1(1) s2(1) True assms(2)
  show ?thesis by (auto simp: fw_WriteData_buffer_def data_bytes_written_def Let_def)
next
  case False
  then show ?thesis
    using assms(2) fw_emit_data_fits [OF assms, of now timestamp "identifier" fl]
    by (auto simp: fw_WriteData_buffer_def)
qed

lemma fw_WriteData_emits:
  assumes "fw_ok s" and "writer s \<noteq> None" and "env_ok env" and "length d < 2 ^ 60"
  shows "if data_fits env now s timestamp identifier d fl
    then \<exists>s'. fw_WriteData env now s timestamp identifier d fl = Inr s'
      \<and> emits (s\<lparr>schema := data_schema s identifier, last_seek_block := next_seek env s timestamp\<rparr>)
          (data_bytes_written env now s timestamp identifier d fl) s'
    else fw_WriteData env now s timestamp identifier d fl = Inl AssertFailed"
proof -
  obtain b bs where g: "fw_GetBuffer s = (b, s\<lparr>buffers := bs\<rparr>)"
    using fw_GetBuffer_fresh(4) by (metis surj_pair)
  note fresh = fw_GetBuffer_fresh [OF g]
  obtain t where t: "os_write b d = Inr t" "os_ok t" "os_view t = d" "os_start t = kBufferStartPadding"
    using os_write_Inr [OF fresh(1), of d] fresh(2,3) by auto
  have same: "data_fits env now (s\<lparr>buffers := bs\<rparr>) timestamp identifier d fl = data_fits env now s timestamp identifier d fl"
    "data_schema (s\<lparr>buffers := bs\<rparr>) identifier = data_schema s identifier"
    "next_seek env (s\<lparr>buffers := bs\<rparr>) timestamp = next_seek env s timestamp"
    "data_bytes_written env now (s\<lparr>buffers := bs\<rparr>) timestamp identifier d fl
      = data_bytes_written env now s timestamp identifier d fl"
    by (simp_all add: data_fits_def next_seek_def data_bytes_written_def data_block_of_def seek_written_def Let_def)
  have swap: "s\<lparr>buffers := bs, schema := x, last_seek_block := y\<rparr> = s\<lparr>schema := x, last_seek_block := y, buffers := bs\<rparr>"
    for x y by simp
  have eq: "fw_WriteData env now s timestamp identifier d fl
      = fw_WriteData_buffer env now (s\<lparr>buffers := bs\<rparr>) timestamp identifier t fl"
    using assms(2) g t(1) by (auto simp: fw_WriteData_def)
  note main = fw_WriteData_buffer_emits [of "s\<lparr>buffers := bs\<rparr>" env t now timestamp "identifier" fl,
      unfolded t(3) same swap emits_buffers]
  show ?thesis unfolding eq by (rule main) (use assms t(2,4) in simp_all)
qed

lemma fw_WriteBlock_buffer_emits:
  assumes "fw_ok s" and "writer s \<noteq> None" and "os_ok b" and "os_start b = kBufferStartPadding"
    and "unat ty < 128" and "length (os_view b) < 2 ^ 64"
  shows "\<exists>s'. fw_WriteBlock_buffer s ty b = Inr s' \<and> emits s (block_bytes ty (os_view b)) s'"
proof -
  let ?d = "os_view b"
  let ?hdr = "leb128 (unat ty) @ leb128 (length ?d)"
  let ?off = "os_start b - length ?hdr"
  let ?f = "\<lambda>w. sbind (tl_WriteVaruint bws_write w ty) (\<lambda>w. tl_WriteVaruint bws_write w (of_nat (length ?d)))"
  have u: "unat (of_nat (length ?d) :: u64) = length ?d" using assms(6) by (rule unat_of_nat_u64)
  have hlen: "1 + tl_GetVaruintSize (of_nat (length ?d)) = length ?hdr"
    using assms(5) by (simp add: tl_GetVaruintSize_length u leb128_small)
  have "length ?hdr \<le> kBufferStartPadding"
    using length_leb128_u64 [of "of_nat (length ?d)"] assms(5) u by (simp add: leb128_small kBufferStartPadding_def)
  then have hsmall: "length ?hdr \<le> os_start b" using assms(4) by simp
  obtain b1 where b1: "os_span b ?off (length ?hdr) ?f = Inr b1" "os_start b1 = os_start b"
    "os_ok (b1\<lparr>os_start := ?off\<rparr>)" "os_view (b1\<lparr>os_start := ?off\<rparr>) = ?hdr @ os_view b"
  proof (rule os_span_front [OF assms(3), of ?off "length ?hdr" ?f ?hdr])
    show "?off + length ?hdr = os_start b" using hsmall by simp
    show "\<exists>w. ?f (bws_init mem) = Inr w \<and> bw_mem w = ?hdr" if "length mem = length ?hdr" for mem
      using bws_write_full [OF that] by (simp add: bws.tl_WriteVaruint_leb128 bws.wr_seq u)
  qed auto
  have view: "os_view (b1\<lparr>os_start := ?off\<rparr>) = block_bytes ty ?d"
    unfolding b1(4) by (simp add: block_bytes_def)
  then have "emits s (block_bytes ty ?d) (fw_Write s (b1\<lparr>os_start := ?off\<rparr>))"
    using emits_Write [OF assms(1,2) b1(3), of "buffers s"] by simp
  moreover have "fw_WriteBlock_buffer s ty b = Inr (fw_Write s (b1\<lparr>os_start := ?off\<rparr>))"
    using b1(1,2) hsmall assms(2)
    unfolding fw_WriteBlock_buffer_def Let_def os_size_view [OF assms(3)] hlen by auto
  ultimately show ?thesis by blast
qed

subsection \<open>Identifiers\<close>

definition ids_ok :: "file_writer \<Rightarrow> bool" where
  "ids_ok s = (\<forall>name i. identifier_map s name = Some i \<longleftrightarrow> map_of (reverse_identifier_map s) i = Some name)"

lemma map_of_map_put [simp]: "map_of (map_put k v m) = (map_of m)(k \<mapsto> v)"
  by (induction k v m rule: map_put.induct) (auto simp: fun_eq_iff)

lemma next_unused_candidates:
  "\<exists>j \<le> k. next_unused k i m = i + of_nat j \<and> (\<forall>l < j. map_of m (i + of_nat l) \<noteq> None)
     \<and> (j < k \<longrightarrow> map_of m (i + of_nat j) = None)"
proof (induction k arbitrary: i)
  case 0
  then show ?case by simp
next
  case (Suc k)
  show ?case
  proof (cases "map_of m i = None")
    case True
    then show ?thesis by (intro exI [of _ 0]) simp
  next
    case False
    obtain j where j: "j \<le> k" "next_unused k (i + 1) m = i + 1 + of_nat j"
        "\<forall>l < j. map_of m (i + 1 + of_nat l) \<noteq> None" "j < k \<longrightarrow> map_of m (i + 1 + of_nat j) = None"
      using Suc [of "i + 1"] by blast
    have "map_of m (i + of_nat l) \<noteq> None" if "l < Suc j" for l
      using that False j(3) by (cases l) (auto simp: ac_simps)
    with False j show ?thesis by (intro exI [of _ "Suc j"]) (auto simp: ac_simps)
  qed
qed

text \<open>As many candidates as identifiers and one more cannot all be in use.\<close>

lemma next_unused_free:
  assumes "length m < 2 ^ 64"
  shows "map_of m (next_unused (length m) i m) = None"
proof -
  obtain j where j: "j \<le> length m" "next_unused (length m) i m = i + of_nat j"
      "\<forall>l < j. map_of m (i + of_nat l) \<noteq> None" "j < length m \<longrightarrow> map_of m (i + of_nat j) = None"
    using next_unused_candidates by blast
  show ?thesis
  proof (rule ccontr)
    assume used: "map_of m (next_unused (length m) i m) \<noteq> None"
    with j have jl: "j = length m" by auto
    have inj: "inj_on (\<lambda>l. i + of_nat l :: u64) {..length m}"
    proof (rule inj_onI)
      fix x y assume "x \<in> {..length m}" "y \<in> {..length m}" "i + of_nat x = i + (of_nat y :: u64)"
      then have "unat (of_nat x :: u64) = unat (of_nat y :: u64)" "x < 2 ^ 64" "y < 2 ^ 64"
        using assms by auto
      then show "x = y" by (simp only: unat_of_nat_u64)
    qed
    have "(\<lambda>l. i + of_nat l) ` {..length m} \<subseteq> fst ` set m"
    proof
      fix x assume "x \<in> (\<lambda>l. i + of_nat l) ` {..length m}"
      then obtain l where "l \<le> length m" "x = i + of_nat l" by auto
      with j(3) used j(2) jl have "map_of m x \<noteq> None" by (cases "l = length m") auto
      then show "x \<in> fst ` set m" by (simp add: map_of_eq_None_iff)
    qed
    then have "card ((\<lambda>l. i + of_nat l :: u64) ` {..length m}) \<le> card (fst ` set m)"
      by (rule card_mono [rotated]) simp
    also have "\<dots> \<le> length m" by (metis card_length length_map list.set_map)
    finally show False using card_image [OF inj] by simp
  qed
qed

definition ids_add :: "file_writer \<Rightarrow> byte list \<Rightarrow> u64 \<Rightarrow> file_writer" where
  "ids_add s name i = s\<lparr>identifier_map := (identifier_map s)(name \<mapsto> i),
     reverse_identifier_map := map_put i name (reverse_identifier_map s)\<rparr>"

lemma ids_ok_add:
  assumes "ids_ok s" and "identifier_map s name = None" and "map_of (reverse_identifier_map s) i = None"
  shows "ids_ok (ids_add s name i)" and "\<forall>n. identifier_map s n \<noteq> Some i"
proof -
  have *: "map_of (reverse_identifier_map s) j = Some n \<longleftrightarrow> identifier_map s n = Some j" for n j
    using assms(1) by (simp add: ids_ok_def)
  show none: "\<forall>n. identifier_map s n \<noteq> Some i" using assms(3) * [of i] by simp
  show "ids_ok (ids_add s name i)"
    using assms(2) none by (auto simp: ids_ok_def ids_add_def *)
qed

lemma ids_ok_next_id [simp]: "ids_ok (s\<lparr>next_id := x\<rparr>) = ids_ok s"
  by (simp add: ids_ok_def)

lemma fw_AllocateIdentifier_cases:
  assumes "ids_ok s" and "length (reverse_identifier_map s) < 2 ^ 64"
    and "fw_AllocateIdentifier s name = (i, s')"
  shows "s' = s \<and> identifier_map s name = Some i
    \<or> s' = (ids_add s name i)\<lparr>next_id := i + 1\<rparr> \<and> identifier_map s name = None
      \<and> (\<forall>n. identifier_map s n \<noteq> Some i) \<and> ids_ok s'"
proof (cases "identifier_map s name")
  case None
  let ?i = "next_unused (length (reverse_identifier_map s)) (next_id s) (reverse_identifier_map s)"
  have "map_of (reverse_identifier_map s) ?i = None" by (rule next_unused_free [OF assms(2)])
  from ids_ok_add [OF assms(1) None this] show ?thesis
    using None assms(3) by (auto simp: fw_AllocateIdentifier_def Let_def ids_add_def ids_ok_def)
qed (use assms(3) in \<open>simp add: fw_AllocateIdentifier_def\<close>)

lemma fw_ReserveIdentifier_cases:
  assumes "ids_ok s" and "fw_ReserveIdentifier s name i = Inr (ok, s')"
  shows "s' = s \<and> (if ok then identifier_map s name = Some i else (\<exists>n. n \<noteq> name \<and> identifier_map s n = Some i))
    \<or> s' = ids_add s name i \<and> ok \<and> identifier_map s name = None
      \<and> (\<forall>n. identifier_map s n \<noteq> Some i) \<and> ids_ok s'"
proof -
  have *: "map_of (reverse_identifier_map s) j = Some n \<longleftrightarrow> identifier_map s n = Some j" for n j
    using assms(1) by (simp add: ids_ok_def)
  show ?thesis
  proof (cases "identifier_map s name")
    case (Some j)
    with assms(2) show ?thesis by (simp add: fw_ReserveIdentifier_def split: if_splits)
  next
    case None
    show ?thesis
    proof (cases "map_of (reverse_identifier_map s) i")
      case (Some n)
      then have "identifier_map s n = Some i" by (simp add: *)
      with Some None assms(2) show ?thesis
        by (auto simp: fw_ReserveIdentifier_def intro!: exI [of _ n])
    next
      case N: None
      from ids_ok_add [OF assms(1) None N] None N assms(2) show ?thesis
        by (simp add: fw_ReserveIdentifier_def ids_add_def)
    qed
  qed
qed

subsection \<open>The index\<close>

definition index_element :: "u64 \<times> schema_record \<Rightarrow> byte list" where
  "index_element p = leb128 (unat (fst p)) @ le_bytes 8 (the (schema_position (snd p))) @ le_bytes 8 (last_position (snd p))"

definition index_records :: "(u64 \<times> schema_record) list \<Rightarrow> byte list" where
  "index_records sch = leb128 0 @ leb128 (unat (of_nat (length sch) :: u64)) @ concat (map index_element sch)"

definition trailing_size :: "nat \<Rightarrow> nat" where
  "trailing_size n = n + 1 + tl_GetVaruintSize (of_nat (n + 4 + 8)) + 4 + 8"

definition index_body :: "(u64 \<times> schema_record) list \<Rightarrow> byte list" where
  "index_body sch =
     (let r = index_records sch
      in r @ le_bytes 4 (of_nat (trailing_size (length r)) :: u32) @ ascii ''TLOGIDEX'')"

text \<open>The size recorded at the end is the size of the whole block: the reader goes back by it.\<close>

lemma index_trailing_size:
  assumes "length (index_body sch) < 2 ^ 64"
  shows "trailing_size (length (index_records sch)) = length (block_bytes kIndexBlock (index_body sch))"
proof -
  have n: "length (index_records sch) + 12 = length (index_body sch)"
    by (simp add: index_body_def Let_def ascii_def)
  then have "unat (of_nat (length (index_records sch) + 4 + 8) :: u64) = length (index_body sch)"
    using unat_of_nat_u64 [OF assms] by (simp add: add.assoc)
  with n show ?thesis
    by (simp add: trailing_size_def block_bytes_def kIndexBlock_def leb128_small tl_GetVaruintSize_length)
qed

lemma fw_index_elements_bytes:
  "os_ok b \<Longrightarrow> \<forall>p \<in> set sch. schema_position (snd p) \<noteq> None \<Longrightarrow>
   fw_index_elements sch b = os_write b (concat (map index_element sch))"
proof (induction sch arbitrary: b)
  case Nil
  then show ?case by (simp add: os.wr_Nil)
next
  case (Cons p sch)
  obtain i r where p: "p = (i, r)" by force
  obtain q where q: "schema_position r = Some q" using Cons.prems(2) p by auto
  have "fw_index_elements (p # sch) b
      = sbind (os_write b (index_element p)) (fw_index_elements sch)"
    by (simp add: p q index_element_def os.tl_WriteVaruint_leb128 tl_WriteScalar_def os.wr_seq_more
        del: le_bytes.simps)
  also have "\<dots> = sbind (os_write b (index_element p)) (\<lambda>b. os_write b (concat (map index_element sch)))"
    using os_write_total [of b "index_element p"] os.wr_ok [OF Cons.prems(1)] Cons.IH Cons.prems(2) by auto
  finally show ?case by (simp add: os.wr_seq)
qed

lemma fw_index_elements_uninit:
  "\<exists>p \<in> set sch. schema_position (snd p) = None \<Longrightarrow> fw_index_elements sch b = Inl Uninit"
proof (induction sch arbitrary: b)
  case Nil
  then show ?case by simp
next
  case (Cons p sch)
  obtain i r where p: "p = (i, r)" by force
  obtain b1 where b1: "os_write b (leb128 (unat i)) = Inr b1" using os_write_total by blast
  show ?case
  proof (cases "schema_position r")
    case None
    then show ?thesis using b1 by (simp add: p os.tl_WriteVaruint_leb128)
  next
    case (Some q)
    then obtain b2 where "os_write b1 (le_bytes 8 q @ le_bytes 8 (last_position r)) = Inr b2"
      using os_write_total by blast
    with Some b1 Cons show ?thesis
      by (auto simp: p os.tl_WriteVaruint_leb128 tl_WriteScalar_def os.wr_seq_more simp del: le_bytes.simps)
  qed
qed

lemma fw_WriteIndex_emits:
  assumes "fw_ok s" and "writer s \<noteq> None" and "length (index_body (schema s)) < 2 ^ 64"
  shows "if \<forall>p \<in> set (schema s). schema_position (snd p) \<noteq> None
    then \<exists>s'. fw_WriteIndex s = Inr s' \<and> emits s (block_bytes kIndexBlock (index_body (schema s))) s'
    else fw_WriteIndex s = Inl Uninit"
proof -
  obtain b bs where g: "fw_GetBuffer s = (b, s\<lparr>buffers := bs\<rparr>)"
    using fw_GetBuffer_fresh(4) by (metis surj_pair)
  note fresh = fw_GetBuffer_fresh [OF g]
  let ?n = "leb128 0 @ leb128 (unat (of_nat (length (schema s)) :: u64))"
  obtain b1 where b1: "os_write b ?n = Inr b1" "os_ok b1" using os_write_Inr [OF fresh(1)] by blast
  have start: "fw_WriteIndex s = sbind (fw_index_elements (schema s) b1) (\<lambda>b.
      sbind (os_write b (le_bytes 4 (of_nat (trailing_size (os_size b)) :: u32) @ ascii ''TLOGIDEX''))
        (fw_WriteBlock_buffer (s\<lparr>buffers := bs\<rparr>) kIndexBlock))"
    using g b1(1)
    by (simp add: fw_WriteIndex_def os.tl_WriteVaruint_leb128 os.wr_seq_more trailing_size_def Let_def
        tl_WriteScalar_def)
  show ?thesis
  proof (cases "\<forall>p \<in> set (schema s). schema_position (snd p) \<noteq> None")
    case True
    obtain b2 where b2: "os_write b (index_records (schema s)) = Inr b2" "os_ok b2"
        "os_view b2 = index_records (schema s)" "os_start b2 = kBufferStartPadding"
      using os_write_Inr [OF fresh(1), of "index_records (schema s)"] fresh(2,3) by auto
    have el: "fw_index_elements (schema s) b1 = Inr b2"
      using fw_index_elements_bytes [OF b1(2) True] b1(1) b2(1) os.wr_seq [of b ?n "concat (map index_element (schema s))"]
      by (simp add: index_records_def)
    let ?t = "le_bytes 4 (of_nat (trailing_size (os_size b2)) :: u32) @ ascii ''TLOGIDEX''"
    obtain b3 where b3: "os_write b2 ?t = Inr b3" "os_ok b3" "os_view b3 = index_body (schema s)"
        "os_start b3 = kBufferStartPadding"
      using os_write_Inr [OF b2(2), of ?t] b2(3,4) os_size_view [OF b2(2)]
      by (auto simp: index_body_def Let_def)
    have "unat kIndexBlock < 128" by (simp add: kIndexBlock_def)
    from fw_WriteBlock_buffer_emits [of "s\<lparr>buffers := bs\<rparr>" b3, OF _ _ b3(2,4) this] assms b3(3)
    obtain s' where "fw_WriteBlock_buffer (s\<lparr>buffers := bs\<rparr>) kIndexBlock b3 = Inr s'"
        "emits s (block_bytes kIndexBlock (index_body (schema s))) s'" by auto
    with True show ?thesis unfolding start el sbind_Inr b3(1) by simp
  next
    case False
    then have "fw_index_elements (schema s) b1 = Inl Uninit"
      by (intro fw_index_elements_uninit) auto
    with False show ?thesis by (simp add: start)
  qed
qed

section \<open>Logs as sequences of blocks\<close>

definition log_bytes :: "(u64 \<times> byte list) list \<Rightarrow> byte list" where
  "log_bytes bs = log_header @ concat (map (\<lambda>(ty, body). block_bytes ty body) bs)"

lemma log_bytes_append [simp]: "log_bytes (bs @ cs) = log_bytes bs @ concat (map (\<lambda>(ty, body). block_bytes ty body) cs)"
  by (simp add: log_bytes_def)

definition data_body ::
  "fw_env \<Rightarrow> u64 \<Rightarrow> u64 \<Rightarrow> u64 option \<Rightarrow> btime option \<Rightarrow> bool \<Rightarrow> byte list \<Rightarrow> byte list" where
  "data_body env identifier flags prev ts ck payload =
     data_prefix identifier flags prev ts
     @ checksum_bytes env ck (data_header identifier flags prev ts ck (length payload)) payload @ payload"

lemma data_block_bytes:
  "data_block env identifier flags prev ts ck payload
    = block_bytes kDataBlock (data_body env identifier flags prev ts ck payload)"
  by (cases ck)
    (simp_all add: data_block_def data_body_def data_header_def block_bytes_def Let_def kDataBlock_def add.assoc)

definition data_body_of ::
  "fw_env \<Rightarrow> btime \<Rightarrow> file_writer \<Rightarrow> btime \<Rightarrow> u64 \<Rightarrow> byte list \<Rightarrow> write_flags \<Rightarrow> byte list" where
  "data_body_of env now s timestamp identifier d fl =
     (let prev = (if write_previous_offsets (options s) then Some (fw_GetPreviousOffset s identifier) else None);
          time = data_time (options s) now timestamp;
          checksum = evaluate (wf_checksum fl) (default_checksum_data (options s))
      in data_body env identifier (data_flags (prev \<noteq> None) (time \<noteq> None) checksum (packs env (options s) fl d))
           prev time checksum (payload_of env (options s) fl d))"

definition seek_body_of :: "fw_env \<Rightarrow> u64 \<Rightarrow> (u64 \<times> schema_record) list \<Rightarrow> btime \<Rightarrow> byte list" where
  "seek_body_of env position sch timestamp =
     (let rest = seek_rest position sch timestamp;
          hdr = leb128 5 @ leb128 (13 + length rest);
          n = of_nat (length hdr)
      in seek_body (crc32 env (hdr @ seek_body 0 n rest)) n rest)"

lemma length_seek_rest: "length (seek_rest position sch timestamp) \<le> 19 + 20 * length sch"
proof -
  have "length (seek_element position p) \<le> 20" for p
    using length_leb128_u64 [of "fst p"] length_leb128_u64 [of "position - last_position (snd p)"]
    by (simp add: seek_element_def)
  then have "length (concat (map (seek_element position) sch)) \<le> 20 * length sch"
    by (induction sch) (simp_all add: add_mono)
  then show ?thesis
    using length_leb128_u64 [of "of_nat (length (filter (\<lambda>p. has_data (snd p)) sch))"]
    by (simp add: seek_rest_def leb128_small)
qed

lemma seek_block_bytes:
  assumes "length sch < 2 ^ 50"
  shows "seek_block env position sch timestamp = block_bytes kSeekMarker (seek_body_of env position sch timestamp)"
proof -
  have "13 + length (seek_rest position sch timestamp) < 2 ^ 64"
    using length_seek_rest [of position sch timestamp] assms by simp
  from unat_of_nat_u64 [OF this] show ?thesis
    by (simp add: seek_block_def seek_body_of_def block_bytes_def Let_def kSeekMarker_def)
qed

definition data_blocks ::
  "fw_env \<Rightarrow> btime \<Rightarrow> file_writer \<Rightarrow> btime \<Rightarrow> u64 \<Rightarrow> byte list \<Rightarrow> write_flags \<Rightarrow> (u64 \<times> byte list) list" where
  "data_blocks env now s timestamp identifier d fl =
     (let body = data_body_of env now s timestamp identifier d fl
      in (kDataBlock, body) #
         (if seek_written env s timestamp
          then [(kSeekMarker, seek_body_of env
                   (fw_position s + of_nat (length (block_bytes kDataBlock body))) (data_schema s identifier) timestamp)]
          else []))"

lemma length_map_put: "length (map_put k v m) \<le> Suc (length m)"
  by (induction k v m rule: map_put.induct) auto

lemma data_bytes_written_blocks:
  assumes "length (schema s) < 2 ^ 50 - 1"
  shows "data_bytes_written env now s timestamp identifier d fl
    = concat (map (\<lambda>(ty, body). block_bytes ty body) (data_blocks env now s timestamp identifier d fl))"
proof -
  have blk: "data_block_of env now s timestamp identifier d fl
      = block_bytes kDataBlock (data_body_of env now s timestamp identifier d fl)"
    by (simp only: data_block_of_def data_body_of_def Let_def data_block_bytes)
  have "length (data_schema s identifier) < 2 ^ 50"
    unfolding data_schema_def by (rule le_less_trans [OF length_map_put]) (use assms in simp)
  from seek_block_bytes [OF this] show ?thesis
    by (simp add: data_bytes_written_def data_blocks_def Let_def blk)
qed

text \<open>
  A log being written: the calls of the application and the work of the background thread, in
  any order, and the blocks that the calls account for. A buffer that the application hands
  over is one of \<open>GetBuffer\<close>, to which it has written.
\<close>

inductive log_run :: "fw_env \<Rightarrow> fw_options \<Rightarrow> (u64 \<times> byte list) list \<Rightarrow> file_writer \<Rightarrow> bool"
  for env and o' where
  opened: "fw_Open (fw_init o') = Inr s \<Longrightarrow> log_run env o' [] s"
| background: "log_run env o' bs s \<Longrightarrow> fw_background s = Inr s' \<Longrightarrow> log_run env o' bs s'"
| allocated: "log_run env o' bs s \<Longrightarrow> length (reverse_identifier_map s) < 2 ^ 64 \<Longrightarrow>
    fw_AllocateIdentifier s name = (i, s') \<Longrightarrow> log_run env o' bs s'"
| reserved: "log_run env o' bs s \<Longrightarrow> fw_ReserveIdentifier s name i = Inr (got, s') \<Longrightarrow> log_run env o' bs s'"
| schema_written: "log_run env o' bs s \<Longrightarrow> map_of (reverse_identifier_map s) i = Some name \<Longrightarrow>
    length name < 2 ^ 64 \<Longrightarrow> length (schema_body i name sch) < 2 ^ 64 \<Longrightarrow>
    fw_WriteSchema s i sch = Inr s' \<Longrightarrow> log_run env o' (bs @ [(kSchemaBlock, schema_body i name sch)]) s'"
| data_written: "log_run env o' bs s \<Longrightarrow> length d < 2 ^ 60 \<Longrightarrow> length (schema s) < 2 ^ 50 - 1 \<Longrightarrow>
    fw_WriteData env now s timestamp i d fl = Inr s' \<Longrightarrow>
    log_run env o' (bs @ data_blocks env now s timestamp i d fl) s'"
| block_written: "log_run env o' bs s \<Longrightarrow> length d < 2 ^ 64 \<Longrightarrow> fw_WriteBlock s ty d = Inr s' \<Longrightarrow>
    log_run env o' (bs @ [(ty, d)]) s'"
| buffer_taken: "log_run env o' bs s \<Longrightarrow> fw_GetBuffer s = (b, s') \<Longrightarrow> log_run env o' bs s'"
| data_buffer_written: "log_run env o' bs s \<Longrightarrow> os_ok b \<Longrightarrow> os_start b = kBufferStartPadding \<Longrightarrow>
    length (os_view b) < 2 ^ 60 \<Longrightarrow> length (schema s) < 2 ^ 50 - 1 \<Longrightarrow>
    fw_WriteData_buffer env now s timestamp i b fl = Inr s' \<Longrightarrow>
    log_run env o' (bs @ data_blocks env now s timestamp i (os_view b) fl) s'"
| block_buffer_written: "log_run env o' bs s \<Longrightarrow> os_ok b \<Longrightarrow> os_start b = kBufferStartPadding \<Longrightarrow>
    unat ty < 128 \<Longrightarrow> length (os_view b) < 2 ^ 64 \<Longrightarrow> fw_WriteBlock_buffer s ty b = Inr s' \<Longrightarrow>
    log_run env o' (bs @ [(ty, os_view b)]) s'"

definition log_inv :: "(u64 \<times> byte list) list \<Rightarrow> file_writer \<Rightarrow> bool" where
  "log_inv bs s = (fw_ok s \<and> writer s \<noteq> None \<and> ids_ok s \<and> fw_log s = log_bytes bs)"

lemma log_inv_emits:
  assumes "log_inv bs s" and "emits (s\<lparr>schema := x, last_seek_block := y\<rparr>) d s'"
    and "d = concat (map (\<lambda>(ty, body). block_bytes ty body) cs)"
  shows "log_inv (bs @ cs) s'"
proof -
  note e = emitsD [OF assms(2)]
  have "ids_ok s'" using assms(1) e(5,6) by (simp add: log_inv_def ids_ok_def)
  then show ?thesis using assms(1,3) e(1-3) by (simp add: log_inv_def)
qed

lemma log_inv_ids_add: "log_inv bs s \<Longrightarrow> ids_ok (ids_add s name i) \<Longrightarrow> log_inv bs (ids_add s name i)"
  by (simp add: log_inv_def ids_add_def fw_ok_def fw_log_def)

lemma log_inv_next_id [simp]: "log_inv bs (s\<lparr>next_id := x\<rparr>) = log_inv bs s"
  by (simp add: log_inv_def fw_ok_def fw_log_def)

lemma fw_Open_log:
  "\<exists>s. fw_Open (fw_init o') = Inr s \<and> log_inv [] s \<and> options s = o' \<and> schema s = []
     \<and> last_seek_block s = not_a_date_time \<and> identifier_map s = Map.empty \<and> reverse_identifier_map s = []
     \<and> next_id s = 1"
proof -
  let ?s = "(fw_init o')\<lparr>writer := Some tw_init\<rparr>"
  have s: "fw_ok ?s" "writer ?s \<noteq> None" "fw_log ?s = []"
    by (simp_all add: fw_ok_def fw_log_def tw_init_def)
  obtain b bs where g: "fw_GetBuffer ?s = (b, ?s\<lparr>buffers := bs\<rparr>)"
    using fw_GetBuffer_fresh(4) by (metis surj_pair)
  note fresh = fw_GetBuffer_fresh [OF g]
  obtain t where t: "os_write b log_header = Inr t" "os_ok t" "os_view t = log_header"
    using os_write_Inr [OF fresh(1), of log_header] fresh(2) by auto
  have "os_view t \<noteq> []" by (simp add: t(3) log_header_def)
  note e = emits_Write [OF s(1,2) t(2) this, of bs]
  let ?t = "fw_Write (?s\<lparr>buffers := bs\<rparr>) t"
  have "fw_Open (fw_init o') = fw_PostOpen ?s" by (simp add: fw_Open_def fw_init_def)
  also have "\<dots> = Inr ?t"
    using g t(1) emitsD(8) [OF e]
    by (simp add: fw_PostOpen_def os.tl_WriteVaruint_leb128 os.wr_seq_more log_header_def fw_init_def Let_def)
  finally have "fw_Open (fw_init o') = Inr ?t" .
  moreover have "log_inv [] ?t"
    using emitsD [OF e] s(3) t(3) by (simp add: log_inv_def ids_ok_def log_bytes_def fw_init_def)
  ultimately show ?thesis using emitsD [OF e] by (simp add: fw_init_def)
qed

lemma log_inv_emits_plain:
  assumes "log_inv bs s" and "emits s (block_bytes ty d) s'"
  shows "log_inv (bs @ [(ty, d)]) s'"
proof -
  have "emits (s\<lparr>schema := schema s, last_seek_block := last_seek_block s\<rparr>) (block_bytes ty d) s'"
    using assms(2) by simp
  then show ?thesis by (rule log_inv_emits [OF assms(1)]) simp
qed

lemma log_inv_emits_nothing:
  assumes "log_inv bs s" and "emits s [] s'"
  shows "log_inv bs s'"
proof -
  have "emits (s\<lparr>schema := schema s, last_seek_block := last_seek_block s\<rparr>) [] s'"
    using assms(2) by simp
  from log_inv_emits [OF assms(1) this, of "[]"] show ?thesis by simp
qed

lemma log_run_inv:
  assumes "log_run env o' bs s" and "env_ok env"
  shows "log_inv bs s"
  using assms(1)
proof induction
  case (opened s)
  then show ?case using fw_Open_log [of o'] by auto
next
  case (background bs s s')
  show ?case
  proof (cases "\<exists>w. writer s = Some w \<and> tw_data w \<noteq> []")
    case True
    then have "emits s [] s'"
      using background fw_background_invisible [of s] by (auto simp: log_inv_def)
    with background(3) show ?thesis by (rule log_inv_emits_nothing)
  next
    case False
    with background show ?thesis by (auto simp: log_inv_def fw_background_def tw_WriteFront_def)
  qed
next
  case (allocated bs s name i s')
  then have "ids_ok s" by (simp add: log_inv_def)
  from fw_AllocateIdentifier_cases [OF this allocated(2,3)] allocated(4)
  show ?case by (auto simp: log_inv_ids_add)
next
  case (reserved bs s name i got s')
  then have "ids_ok s" by (simp add: log_inv_def)
  from fw_ReserveIdentifier_cases [OF this reserved(2)] reserved(3)
  show ?case by (auto simp: log_inv_ids_add)
next
  case (schema_written bs s i name sch s')
  then have "fw_ok s" "writer s \<noteq> None" by (simp_all add: log_inv_def)
  from fw_WriteSchema_emits [OF this schema_written(2-4)] schema_written(5)
  obtain x where e: "emits (s\<lparr>schema := x\<rparr>) (block_bytes kSchemaBlock (schema_body i name sch)) s'" by auto
  have "log_inv bs (s\<lparr>schema := x\<rparr>)" using schema_written(6) by (simp add: log_inv_def ids_ok_def)
  then show ?case using e by (rule log_inv_emits_plain)
next
  case (data_written bs s d now timestamp i fl s')
  then have "fw_ok s" "writer s \<noteq> None" by (simp_all add: log_inv_def)
  from fw_WriteData_emits [OF this assms(2) data_written(2), of now timestamp i fl] data_written(4)
  have "emits (s\<lparr>schema := data_schema s i, last_seek_block := next_seek env s timestamp\<rparr>)
      (data_bytes_written env now s timestamp i d fl) s'"
    by (auto split: if_splits)
  with data_written(5) show ?case
    by (rule log_inv_emits) (rule data_bytes_written_blocks [OF data_written(3)])
next
  case (block_written bs s d ty s')
  then have "fw_ok s" "writer s \<noteq> None" by (simp_all add: log_inv_def)
  from fw_WriteBlock_emits [OF this block_written(2), of ty] block_written(3,4)
  show ?case by (auto intro: log_inv_emits_plain)
next
  case (buffer_taken bs s b s')
  then obtain x where "s' = s\<lparr>buffers := x\<rparr>" using fw_GetBuffer_fresh(4) by blast
  with buffer_taken(3) show ?case by (simp add: log_inv_def ids_ok_def)
next
  case (data_buffer_written bs s b now timestamp i fl s')
  then have "fw_ok s" "writer s \<noteq> None" by (simp_all add: log_inv_def)
  from fw_WriteData_buffer_emits [OF this assms(2) data_buffer_written(2-4), of now timestamp i fl] data_buffer_written(6)
  have "emits (s\<lparr>schema := data_schema s i, last_seek_block := next_seek env s timestamp\<rparr>)
      (data_bytes_written env now s timestamp i (os_view b) fl) s'"
    by (auto split: if_splits)
  with data_buffer_written(7) show ?case
    by (rule log_inv_emits) (rule data_bytes_written_blocks [OF data_buffer_written(5)])
next
  case (block_buffer_written bs s b ty s')
  then have "fw_ok s" "writer s \<noteq> None" by (simp_all add: log_inv_def)
  from fw_WriteBlock_buffer_emits [OF this block_buffer_written(2-5)] block_buffer_written(6,7)
  show ?case by (auto intro: log_inv_emits_plain)
qed

text \<open>Closing writes what is left in the queue.\<close>

lemma fw_ok_file:
  assumes "fw_ok s" and "writer s = Some w"
  shows "\<exists>bs w'. tw_WriteAll w = Inr (bs, w') \<and> tw_file w' = fw_log s"
proof -
  have "\<forall>b \<in> set (tw_data w). os_ok b \<and> os_view b \<noteq> []" using assms by (simp add: fw_ok_def)
  from tw_WriteAll_complete [OF this] show ?thesis using assms(2) by (auto simp: fw_log_def)
qed

lemma fw_Close_file:
  assumes "fw_ok s" and "writer s \<noteq> None" and "length (index_body (schema s)) < 2 ^ 64"
    and "index_block (options s) \<longrightarrow> (\<forall>p \<in> set (schema s). schema_position (snd p) \<noteq> None)"
  shows "\<exists>s'. fw_Close s = Inr (Some (fw_log s
      @ (if index_block (options s) then block_bytes kIndexBlock (index_body (schema s)) else [])), s')
    \<and> writer s' = None"
proof -
  obtain s1 where s1: "(if index_block (options s) then fw_WriteIndex s else Inr s) = Inr s1"
      "emits s (if index_block (options s) then block_bytes kIndexBlock (index_body (schema s)) else []) s1"
    using fw_WriteIndex_emits [OF assms(1-3)] assms(4) emits_refl [OF assms(1,2)]
    by (cases "index_block (options s)") auto
  note e = emitsD [OF s1(2)]
  obtain w where w: "writer s1 = Some w" using e(2) by auto
  obtain w0 where w0: "writer s = Some w0" using assms(2) by auto
  obtain rs w' where c: "tw_WriteAll w = Inr (rs, w')" "tw_file w' = fw_log s1"
    using fw_ok_file [OF e(1) w] by blast
  show ?thesis unfolding fw_Close_def w0 option.case s1(1) sbind_Inr w c by (simp add: e(3) c(2))
qed

section \<open>Properties\<close>

text \<open>
  C26: whatever calls the application makes on an open log, and
  whenever the background thread runs between them, the bytes in the file followed by the
  bytes still queued are the header and the blocks of the calls in the order of the calls;
  \<open>position()\<close> is their number, no queued buffer is empty (so that \<open>fwrite\<close> is never taken to
  have failed), and the two maps of identifiers stay inverse to each other.
\<close>

theorem file_writer_log_invariant:
  assumes "log_run env o' bs s" and "env_ok env"
  shows "fw_log s = log_bytes bs \<and> fw_position s = of_nat (length (log_bytes bs))
    \<and> (\<exists>w. writer s = Some w \<and> (\<forall>b \<in> set (tw_data w). os_size b \<noteq> 0))
    \<and> (\<forall>name i. identifier_map s name = Some i \<longleftrightarrow> map_of (reverse_identifier_map s) i = Some name)"
proof -
  have inv: "log_inv bs s" using assms by (rule log_run_inv)
  then have s: "fw_ok s" "writer s \<noteq> None" by (simp_all add: log_inv_def)
  then have "\<exists>w. writer s = Some w \<and> (\<forall>b \<in> set (tw_data w). os_size b \<noteq> 0)"
    by (auto simp: fw_ok_def os_size_view)
  with inv fw_position_eq [OF s] show ?thesis by (simp add: log_inv_def ids_ok_def)
qed

definition demo_env :: fw_env where
  "demo_env = \<lparr>crc32 = (\<lambda>d. of_nat (length d)), snappy_max = (\<lambda>n. n), snappy_compress = (\<lambda>d. take 1 d),
     seek_due = (\<lambda>_ _. True)\<rparr>"

definition demo_options :: fw_options where
  "demo_options = \<lparr>write_previous_offsets = True, default_compression = True, default_checksum_data = True,
     index_block = True, seek_enabled = True, timestamps_system = True\<rparr>"

lemma demo_env_ok: "env_ok demo_env"
  by (simp add: env_ok_def demo_env_def)

definition demo_write :: "file_writer \<Rightarrow> file_writer res" where
  "demo_write s = fw_WriteData demo_env (at_us 7) s (at_us 5) 1 [1, 2, 3]
     \<lparr>wf_compression = \<lparr>ov_require = False, ov_disable = False\<rparr>, wf_checksum = \<lparr>ov_require = False, ov_disable = False\<rparr>\<rparr>"

lemma demo_run:
  "\<exists>s s' bs. log_run demo_env demo_options [] s \<and> demo_write s = Inr s' \<and> bs \<noteq> [] \<and> log_run demo_env demo_options bs s'"
proof -
  obtain s where s: "fw_Open (fw_init demo_options) = Inr s" "log_inv [] s" "schema s = []"
    using fw_Open_log by blast
  have run: "log_run demo_env demo_options [] s" using s(1) by (rule log_run.opened)
  let ?fl = "\<lparr>wf_compression = \<lparr>ov_require = False, ov_disable = False\<rparr>,
      wf_checksum = \<lparr>ov_require = False, ov_disable = False\<rparr>\<rparr>"
  have ok: "fw_ok s" "writer s \<noteq> None" using s(2) by (simp_all add: log_inv_def)
  have "length (payload_of demo_env (options s) ?fl [1, 2, 3]) < 2 ^ 41"
    by (simp add: payload_of_def demo_env_def)
  then have "data_fits demo_env (at_us 7) s (at_us 5) 1 [1, 2, 3] ?fl"
    unfolding data_fits_def by (rule header_fits_small [rotated]) simp
  with fw_WriteData_emits [OF ok demo_env_ok, of "[1, 2, 3]" "at_us 7" "at_us 5" 1 ?fl]
  obtain s' where s': "demo_write s = Inr s'" unfolding demo_write_def by auto
  have "log_run demo_env demo_options ([] @ data_blocks demo_env (at_us 7) s (at_us 5) 1 [1, 2, 3] ?fl) s'"
    by (rule log_run.data_written [OF run _ _ s' [unfolded demo_write_def]]) (simp_all add: s(3))
  moreover have "data_blocks demo_env (at_us 7) s (at_us 5) 1 [1, 2, 3] ?fl \<noteq> []"
    by (simp add: data_blocks_def Let_def)
  ultimately show ?thesis using run s' by force
qed

theorem file_writer_log_invariant_witness:
  "\<exists>bs s. bs \<noteq> [] \<and> log_run demo_env demo_options bs s
    \<and> fw_log s = log_bytes bs \<and> fw_position s = of_nat (length (log_bytes bs))"
  using demo_run file_writer_log_invariant [OF _ demo_env_ok] by metis

text \<open>
  C27: \<open>WriteData\<close> on an open log appends exactly one data block, with the
  previous offset, the time and the checksum that the options ask for and the data compressed when
  that makes them smaller, and behind it a seek marker when one is due; it records the position
  of the block as the last of its identifier. When the header does not fit in front of the data
  the assertion fails, and nothing else can go wrong.
\<close>

theorem file_writer_data:
  assumes "log_run env o' bs s" and "env_ok env" and "length d < 2 ^ 60"
  shows "if data_fits env now s timestamp identifier d fl
    then \<exists>s'. fw_WriteData env now s timestamp identifier d fl = Inr s'
      \<and> fw_log s' = fw_log s @ data_bytes_written env now s timestamp identifier d fl
      \<and> schema s' = data_schema s identifier \<and> last_seek_block s' = next_seek env s timestamp
      \<and> identifier_map s' = identifier_map s \<and> options s' = options s
    else fw_WriteData env now s timestamp identifier d fl = Inl AssertFailed"
proof -
  have "fw_ok s" "writer s \<noteq> None" using log_run_inv [OF assms(1,2)] by (simp_all add: log_inv_def)
  from fw_WriteData_emits [OF this assms(2,3), of now timestamp "identifier" fl] show ?thesis
    by (auto simp: emitsD split: if_splits)
qed

theorem file_writer_data_witness:
  "\<exists>s. log_run demo_env demo_options [] s
    \<and> (\<exists>s'. demo_write s = Inr s' \<and> fw_log s' \<noteq> fw_log s \<and> schema s' = data_schema s 1)"
proof -
  obtain s s' where s: "log_run demo_env demo_options [] s" "demo_write s = Inr s'" using demo_run by blast
  have "length [1, 2, 3 :: byte] < 2 ^ 60" by simp
  note data = file_writer_data [OF s(1) demo_env_ok this, of "at_us 7" "at_us 5" 1
      "\<lparr>wf_compression = \<lparr>ov_require = False, ov_disable = False\<rparr>,
        wf_checksum = \<lparr>ov_require = False, ov_disable = False\<rparr>\<rparr>"]
  show ?thesis
    using s data by (auto simp: demo_write_def data_bytes_written_def data_block_of_def Let_def
        data_block_bytes split: if_splits)
qed

text \<open>
  C28: the 32 bytes that \<open>GetBuffer\<close> reserves are enough for the
  header of every data block with an identifier below \<open>2 ^ 14\<close> and less than \<open>2 ^ 41\<close> bytes of
  data; they are not enough for every identifier: with \<open>2 ^ 63\<close>, which \<open>ReserveIdentifier\<close>
  accepts, and a large previous offset the assertion in \<open>WriteData\<close> fails.
\<close>

theorem file_writer_padding_bound:
  assumes "unat identifier < 2 ^ 14" and "length d < 2 ^ 41" and "env_ok env"
  shows "data_fits env now s timestamp identifier d fl
    \<and> \<not> header_fits (2 ^ 63) (Some (2 ^ 63)) (Some t) True packed (length d)"
proof
  have "length (payload_of env (options s) fl d) < 2 ^ 41"
    using assms(2) by (auto simp: payload_of_def packs_def)
  then show "data_fits env now s timestamp identifier d fl"
    unfolding data_fits_def by (rule header_fits_small [OF assms(1)])
  have "length (leb128 (unat (2 ^ 63 :: u64))) = 10"
    by (simp add: leb128.simps)
  then show "\<not> header_fits (2 ^ 63) (Some (2 ^ 63)) (Some t) True packed (length d)"
    by (simp add: header_fits_def data_header_def data_prefix_def Let_def kBufferStartPadding_def)
qed

theorem file_writer_padding_bound_witness:
  "data_fits demo_env (at_us 0) (fw_init demo_options) (at_us 1) 5 [1]
      \<lparr>wf_compression = \<lparr>ov_require = True, ov_disable = False\<rparr>, wf_checksum = \<lparr>ov_require = True, ov_disable = False\<rparr>\<rparr>
    \<and> \<not> header_fits (2 ^ 63) (Some (2 ^ 63)) (Some (at_us 1)) True True (length [1 :: byte])"
  by (rule file_writer_padding_bound) (simp_all add: demo_env_ok)

text \<open>
  C29: on a log being written, \<open>AllocateIdentifier\<close> returns the
  identifier the name has, or one that no other name has, and records it for the name; all
  other names keep theirs.
\<close>

theorem file_writer_identifiers:
  assumes "log_run env o' bs s" and "env_ok env" and "length (reverse_identifier_map s) < 2 ^ 64"
    and "fw_AllocateIdentifier s name = (i, s')"
  shows "identifier_map s' = (identifier_map s)(name \<mapsto> i)
    \<and> (\<forall>n. n \<noteq> name \<longrightarrow> identifier_map s n \<noteq> Some i) \<and> fw_AllocateIdentifier s' name = (i, s')"
proof -
  have ids: "ids_ok s" using log_run_inv [OF assms(1,2)] by (simp add: log_inv_def)
  have again: "identifier_map s' name = Some i \<Longrightarrow> fw_AllocateIdentifier s' name = (i, s')"
    by (simp add: fw_AllocateIdentifier_def)
  from fw_AllocateIdentifier_cases [OF ids assms(3,4)] show ?thesis
  proof
    assume *: "s' = s \<and> identifier_map s name = Some i"
    then have "identifier_map s n \<noteq> Some i" if "n \<noteq> name" for n
      using ids that by (auto simp: ids_ok_def)
    with * again show ?thesis by (auto simp: fun_upd_idem)
  next
    assume "s' = (ids_add s name i)\<lparr>next_id := i + 1\<rparr> \<and> identifier_map s name = None
      \<and> (\<forall>n. identifier_map s n \<noteq> Some i) \<and> ids_ok s'"
    then show ?thesis using again by (simp add: ids_add_def)
  qed
qed

theorem file_writer_identifiers_witness:
  "\<exists>s s'. fw_AllocateIdentifier s (ascii ''a'') = (1, s') \<and> identifier_map s' = [ascii ''a'' \<mapsto> 1]"
proof -
  obtain s where s: "fw_Open (fw_init demo_options) = Inr s" "identifier_map s = Map.empty"
      "reverse_identifier_map s = []" "next_id s = 1"
    using fw_Open_log by blast
  obtain i s' where a: "fw_AllocateIdentifier s (ascii ''a'') = (i, s')" by fastforce
  have "identifier_map s' = (identifier_map s)(ascii ''a'' \<mapsto> i)"
    using file_writer_identifiers [OF log_run.opened [OF s(1)] demo_env_ok _ a] s(3) by simp
  moreover have "i = next_id s" using a s(2,3) by (auto simp: fw_AllocateIdentifier_def Let_def)
  ultimately show ?thesis using a s(2,4) by auto
qed

text \<open>
  C30: \<open>Close\<close> waits for everything queued: the file then holds the header
  and all blocks, and, when the options ask for it and every schema has been written, the index
  block; the last twelve bytes of an index are its size, which leads a reader from the end of
  the file to its first byte, and the magic word.
\<close>

theorem file_writer_close:
  assumes "log_run env o' bs s" and "env_ok env" and "length (index_body (schema s)) < 2 ^ 31"
    and "index_block (options s)" and "\<forall>p \<in> set (schema s). schema_position (snd p) \<noteq> None"
  shows "\<exists>file s'. fw_Close s = Inr (Some file, s') \<and> writer s' = None
    \<and> file = log_bytes (bs @ [(kIndexBlock, index_body (schema s))])
    \<and> drop (length file - 8) file = ascii ''TLOGIDEX''
    \<and> drop (length file - unat (le_word (take 4 (drop (length file - 12) file)) :: u32)) file
      = block_bytes kIndexBlock (index_body (schema s))"
proof -
  let ?i = "index_body (schema s)"
  have inv: "fw_ok s" "writer s \<noteq> None" "fw_log s = log_bytes bs"
    using log_run_inv [OF assms(1,2)] by (simp_all add: log_inv_def)
  obtain s' where s': "fw_Close s = Inr (Some (log_bytes bs @ block_bytes kIndexBlock ?i), s')" "writer s' = None"
    using fw_Close_file [OF inv(1,2)] assms(3-5) inv(3) by auto
  let ?file = "log_bytes bs @ block_bytes kIndexBlock ?i"
  let ?r = "index_records (schema s)"
  have size: "trailing_size (length ?r) = length (block_bytes kIndexBlock ?i)"
    by (rule index_trailing_size) (use assms(3) in simp)
  have "length (block_bytes kIndexBlock ?i) < 2 ^ 32"
  proof -
    have "length (leb128 (length ?i)) \<le> 5" by (rule length_leb128_bound) (use assms(3) in simp_all)
    then show ?thesis using assms(3) by (simp add: block_bytes_def kIndexBlock_def leb128_small)
  qed
  then have u: "unat (of_nat (trailing_size (length ?r)) :: u32) = length (block_bytes kIndexBlock ?i)"
    by (simp add: size unat_of_nat take_bit_eq_mod)
  have split: "?file = (log_bytes bs @ leb128 (unat kIndexBlock) @ leb128 (length ?i) @ ?r)
      @ le_bytes 4 (of_nat (trailing_size (length ?r)) :: u32) @ ascii ''TLOGIDEX''"
    by (simp add: block_bytes_def index_body_def Let_def)
  have magic: "length (ascii ''TLOGIDEX'') = 8" by (simp add: ascii_def)
  have end8: "drop (length ?file - 8) ?file = ascii ''TLOGIDEX''"
    unfolding split using magic by simp
  have end12: "take 4 (drop (length ?file - 12) ?file) = le_bytes 4 (of_nat (trailing_size (length ?r)) :: u32)"
    unfolding split using magic by simp
  have word: "(le_word (take 4 (drop (length ?file - 12) ?file)) :: u32) = of_nat (trailing_size (length ?r))"
    unfolding end12 by (rule le_word_le_bytes_full) simp
  have "drop (length ?file - unat (le_word (take 4 (drop (length ?file - 12) ?file)) :: u32)) ?file
      = block_bytes kIndexBlock ?i"
    unfolding word u by simp
  with s' end8 show ?thesis by auto
qed

theorem file_writer_close_witness:
  "\<exists>file s s'. fw_Open (fw_init demo_options) = Inr s \<and> fw_Close s = Inr (Some file, s')
    \<and> file = log_bytes [(kIndexBlock, index_body [])]"
proof -
  obtain s where s: "fw_Open (fw_init demo_options) = Inr s" "options s = demo_options" "schema s = []"
    using fw_Open_log by blast
  have "length (index_body (schema s)) < 2 ^ 31"
    by (simp add: s(3) index_body_def index_records_def ascii_def leb128_small)
  from file_writer_close [OF log_run.opened [OF s(1)] demo_env_ok this] show ?thesis
    using s by (auto simp: demo_options_def)
qed

end
