(* ===== verification/File_Reader.thy ===== *)
theory File_Reader
  imports Binary_Schema File_Writer
begin

text \<open>
  \<open>telemetry/file_reader.cc\<close> and \<open>base/file_stream.h\<close>: reading log files. The file is its bytes
  and the position of the \<open>FILE\<close>; the records live in a deque and are named by their place in
  it, where the code has pointers. CRC-32, the decompression of snappy and the comparison of
  boost time points are parameters. A member function that throws ends the model's call; what
  it had already stored is not part of the result.
\<close>

section \<open>Definitions\<close>

subsection \<open>The file\<close>

record file_ptr =
  fp_data :: "byte list"
  fp_pos :: nat

definition fp_size :: "file_ptr \<Rightarrow> int" where
  "fp_size f = int (length (fp_data f))"

definition fp_Tell :: "file_ptr \<Rightarrow> int" where
  "fp_Tell f = int (fp_pos f)"

text \<open>\<open>fseek\<close> fails for positions that an \<open>off_t\<close> cannot hold; past the end of the file is fine.\<close>

definition fp_Seek :: "file_ptr \<Rightarrow> int \<Rightarrow> file_ptr res" where
  "fp_Seek f index = (if index < 0 \<or> index \<ge> 2 ^ 63 then Inl Thrown else Inr (f\<lparr>fp_pos := nat index\<rparr>))"

definition fp_read :: "file_ptr \<Rightarrow> nat \<Rightarrow> byte list \<times> file_ptr" where
  "fp_read f n =
     (let d = take n (drop (fp_pos f) (fp_data f)) in (d, f\<lparr>fp_pos := fp_pos f + length d\<rparr>))"

definition fp_ignore :: "file_ptr \<Rightarrow> nat \<Rightarrow> file_ptr res" where
  "fp_ignore f n = fp_Seek f (fp_Tell f + int n)"

subsection \<open>Blocks\<close>

text \<open>
  \<open>BlockStream\<close>: a read past the end of the block fails an assertion. The readers of
  \<open>format.h\<close> run on streams whose reads return, so the stream is a result, and \<open>blk\<close> ends the
  call when the assertion has failed.
\<close>

record 'b block_stream =
  bk_base :: 'b
  bk_size :: int

definition bk_read ::
  "('b \<Rightarrow> nat \<Rightarrow> byte list \<times> 'b) \<Rightarrow> 'b block_stream res \<Rightarrow> nat \<Rightarrow> byte list \<times> 'b block_stream res" where
  "bk_read rd s n =
     (case s of
        Inl e \<Rightarrow> ([], Inl e)
      | Inr b \<Rightarrow>
          if int n > bk_size b then ([], Inl AssertFailed)
          else case rd (bk_base b) n of
                 (d, t) \<Rightarrow> (d, Inr \<lparr>bk_base = t, bk_size = bk_size b - int n\<rparr>))"

definition bk_shrink :: "'b block_stream \<Rightarrow> nat \<Rightarrow> 'b block_stream" where
  "bk_shrink b n = b\<lparr>bk_size := bk_size b - int n\<rparr>"

definition blk :: "('v \<times> 'b block_stream res) res \<Rightarrow> ('v \<times> 'b block_stream) res" where
  "blk r = sbind r (\<lambda>(v, b). sbind b (\<lambda>b. Inr (v, b)))"

text \<open>\<open>value()\<close> of an optional that was read.\<close>

definition some_value :: "('v option \<times> 's) res \<Rightarrow> ('v \<times> 's) res" where
  "some_value r = sbind r (\<lambda>(v, s). case v of None \<Rightarrow> Inl BadOptional | Some v \<Rightarrow> Inr (v, s))"

definition bk_varuint :: "('b \<Rightarrow> nat \<Rightarrow> byte list \<times> 'b) \<Rightarrow> 'b block_stream \<Rightarrow> (u64 \<times> 'b block_stream) res" where
  "bk_varuint rd b = some_value (blk (tl_ReadVaruint (bk_read rd) (Inr b)))"

definition bk_string :: "('b \<Rightarrow> nat \<Rightarrow> byte list \<times> 'b) \<Rightarrow> 'b block_stream \<Rightarrow> (byte list \<times> 'b block_stream) res" where
  "bk_string rd b = some_value (blk (tl_ReadString (bk_read rd) (Inr b)))"

definition bk_timestamp :: "('b \<Rightarrow> nat \<Rightarrow> byte list \<times> 'b) \<Rightarrow> 'b block_stream \<Rightarrow> (btime \<times> 'b block_stream) res" where
  "bk_timestamp rd b = some_value (blk (Inr (tl_ReadTimestamp (bk_read rd) (Inr b))))"

definition bk_scalar ::
  "('b \<Rightarrow> nat \<Rightarrow> byte list \<times> 'b) \<Rightarrow> nat \<Rightarrow> 'b block_stream \<Rightarrow> ('a::len word \<times> 'b block_stream) res" where
  "bk_scalar rd n b = some_value (blk (Inr (tl_ReadScalar (bk_read rd) n (Inr b))))"

text \<open>
  \<open>resize(remaining())\<close> and \<open>read\<close> of all that is left. A string cannot have a negative size;
  bytes that the file does not have stay zero.
\<close>

definition bk_rest :: "('b \<Rightarrow> nat \<Rightarrow> byte list \<times> 'b) \<Rightarrow> 'b block_stream \<Rightarrow> (byte list \<times> 'b block_stream) res" where
  "bk_rest rd b =
     (if bk_size b < 0 then Inl Thrown
      else let n = nat (bk_size b) in
        blk (case bk_read rd (Inr b) n of (d, b) \<Rightarrow> Inr (overwrite (replicate n 0) 0 d, b)))"

text \<open>The destructor, which must not throw, skips what is left in the file.\<close>

definition bk_end :: "file_ptr block_stream \<Rightarrow> file_ptr res" where
  "bk_end b =
     (if bk_size b > 0
      then (case fp_ignore (bk_base b) (nat (bk_size b)) of Inl _ \<Rightarrow> Inl Terminated | Inr f \<Rightarrow> Inr f)
      else Inr (bk_base b))"

subsection \<open>The reader\<close>

record fr_env =
  fr_crc32 :: "byte list \<Rightarrow> u32"
  snappy_uncompress :: "byte list \<Rightarrow> byte list option"
  time_less :: "btime \<Rightarrow> btime \<Rightarrow> bool"

record fr_record =
  rec_identifier :: u64
  rec_flags :: u64
  rec_name :: "byte list"
  raw_schema :: "byte list"
  rec_schema :: element

record file_reader =
  verify_checksums :: bool
  fptr :: file_ptr
  records :: "fr_record list"
  id_to_record :: "u64 \<rightharpoonup> nat"
  name_to_record :: "byte list \<rightharpoonup> nat"
  final_item :: int
  has_index :: bool
  all_records_found :: bool
  fr_start :: int

record item =
  it_index :: int
  it_timestamp :: btime
  it_data :: "byte list"
  it_flags :: u64
  it_record :: nat

definition kInvalidHeader :: fault where "kInvalidHeader = ErrorCode 3"
definition kInvalidBlockType :: fault where "kInvalidBlockType = ErrorCode 4"
definition kInvalidHeaderFlags :: fault where "kInvalidHeaderFlags = ErrorCode 5"
definition kUnknownBlockDataFlag :: fault where "kUnknownBlockDataFlag = ErrorCode 6"
definition kUnknownBlockSchemaFlag :: fault where "kUnknownBlockSchemaFlag = ErrorCode 7"
definition kUnknownIndexFlag :: fault where "kUnknownIndexFlag = ErrorCode 8"
definition kUnknownSeekMarkerFlag :: fault where "kUnknownSeekMarkerFlag = ErrorCode 9"
definition kDataChecksumMismatch :: fault where "kDataChecksumMismatch = ErrorCode 10"
definition kDecompressionError :: fault where "kDecompressionError = ErrorCode 11"

text \<open>
  \<open>Filter\<close>: the one of \<open>FullScan\<close>, or the context of a range of items.
\<close>

record item_context =
  ctx_records :: "byte list list"
  unknown_names :: "byte list set"
  ctx_ids :: "u64 set"

datatype item_filter = NoFilter | ItemFilter item_context

definition filter_check :: "item_filter \<Rightarrow> u64 \<Rightarrow> bool" where
  "filter_check f identifier =
     (case f of
        NoFilter \<Rightarrow> False
      | ItemFilter c \<Rightarrow> if ctx_records c = [] then True else identifier \<in> ctx_ids c)"

definition filter_new_schema :: "item_filter \<Rightarrow> u64 \<Rightarrow> byte list \<Rightarrow> item_filter" where
  "filter_new_schema f identifier name =
     (case f of
        NoFilter \<Rightarrow> NoFilter
      | ItemFilter c \<Rightarrow>
          if name \<in> unknown_names c
          then ItemFilter (c\<lparr>unknown_names := unknown_names c - {name}, ctx_ids := insert identifier (ctx_ids c)\<rparr>)
          else ItemFilter c)"

definition ReadHeader ::
  "('s \<Rightarrow> nat \<Rightarrow> byte list \<times> 's) \<Rightarrow> bool \<Rightarrow> 's \<Rightarrow> ((u64 \<times> u64) option \<times> 's) res" where
  "ReadHeader rd throw_on_error s =
     sbind (tl_ReadVaruint rd s) (\<lambda>(maybe_type, s).
     case maybe_type of
       None \<Rightarrow> Inr (None, s)
     | Some type \<Rightarrow>
         if type > kNumTypes \<or> type = 0 then
           if throw_on_error then Inl kInvalidBlockType else Inr (None, s)
         else sbind (some_value (tl_ReadVaruint rd s)) (\<lambda>(sz, s). Inr (Some (type, sz), s)))"

text \<open>\<open>static_cast<std::streamsize>\<close> of the size of a block.\<close>

definition block_stream_of :: "'b \<Rightarrow> u64 \<Rightarrow> 'b block_stream" where
  "block_stream_of base sz = \<lparr>bk_base = base, bk_size = sint sz\<rparr>"

text \<open>The record, whether it is new, and the stream behind what was read.\<close>

definition fr_ProcessSchema ::
  "file_reader \<Rightarrow> file_ptr block_stream \<Rightarrow> item_filter option \<Rightarrow>
   (nat \<times> item_filter option \<times> file_reader \<times> file_ptr block_stream) res" where
  "fr_ProcessSchema s b flt =
     sbind (bk_varuint fp_read b) (\<lambda>(identifier, b).
     case id_to_record s identifier of
       Some r \<Rightarrow> Inr (r, flt, s, b)
     | None \<Rightarrow>
         sbind (bk_varuint fp_read b) (\<lambda>(flags, b).
         if flags \<noteq> 0 then Inl kUnknownBlockSchemaFlag
         else
           sbind (bk_string fp_read b) (\<lambda>(name, b).
           sbind (bk_rest fp_read b) (\<lambda>(raw, b).
           sbind (BinarySchemaParser raw name) (\<lambda>sch.
           let r = length (records s);
               s = s\<lparr>records := records s @ [\<lparr>rec_identifier = identifier, rec_flags = flags,
                       rec_name = name, raw_schema = raw, rec_schema = sch\<rparr>],
                     id_to_record := (id_to_record s)(identifier \<mapsto> r),
                     name_to_record := (name_to_record s)(name \<mapsto> r)\<rparr>
           in Inr (r, map_option (\<lambda>f. filter_new_schema f identifier name) flt, s, b))))))"

text \<open>One round of the loop of \<open>ReadUntil\<close>.\<close>

datatype until = Eof | Found int int | Next

definition fr_ReadBlock :: "item_filter \<Rightarrow> file_reader \<Rightarrow> (until \<times> item_filter \<times> file_reader) res" where
  "fr_ReadBlock flt s =
     (let start = fp_Tell (fptr s) in
      sbind (ReadHeader fp_read True (fptr s)) (\<lambda>(maybe_header, f).
      case maybe_header of
        None \<Rightarrow> Inr (Eof, flt, s\<lparr>fptr := f\<rparr>)
      | Some (type, sz) \<Rightarrow>
          let b = block_stream_of f sz in
          if type = kDataBlock then
            let s = s\<lparr>final_item := max start (final_item s)\<rparr> in
            sbind (bk_varuint fp_read b) (\<lambda>(identifier, b).
            let next_block = fp_Tell (bk_base b) + bk_size b in
            sbind (bk_end b) (\<lambda>f.
            Inr (if filter_check flt identifier then Found start next_block else Next, flt, s\<lparr>fptr := f\<rparr>)))
          else if type = kSchemaBlock then
            sbind (fr_ProcessSchema s b (Some flt)) (\<lambda>(_, flt', s, b).
            sbind (bk_end b) (\<lambda>f. Inr (Next, case flt' of None \<Rightarrow> flt | Some g \<Rightarrow> g, s\<lparr>fptr := f\<rparr>)))
          else sbind (bk_end b) (\<lambda>f. Inr (Next, flt, s\<lparr>fptr := f\<rparr>))))"

text \<open>
  Every round reads the type of a block at least, so that the position grows; this is why the
  loop ends, whatever the file holds.
\<close>

locale moving_stream =
  fixes rd :: "'s \<Rightarrow> nat \<Rightarrow> byte list \<times> 's"
    and moves :: "'s \<Rightarrow> 's \<Rightarrow> bool"
  assumes rd_moves: "rd s n = (d, t) \<Longrightarrow> moves s t"
    and moves_trans: "moves s t \<Longrightarrow> moves t u \<Longrightarrow> moves s u"
begin

lemma tl_ReadScalar_moves: "tl_ReadScalar rd n s = (v, t) \<Longrightarrow> moves s t"
  by (auto simp: tl_ReadScalar_def intro: rd_moves split: prod.splits)

lemma tl_ReadVaruint_loop_moves: "tl_ReadVaruint_loop rd pos r s = Inr (v, t) \<Longrightarrow> moves s t"
proof (induction "64 - pos" arbitrary: pos r s rule: less_induct)
  case less
  obtain w u where w: "tl_ReadScalar rd 1 s = (w :: byte option, u)" by fastforce
  then have u: "moves s u" by (rule tl_ReadScalar_moves)
  have "moves u t" if "tl_ReadVaruint_loop rd (pos + 7) q u = Inr (v, t)" "pos < 64" for q
    by (rule less.hyps [OF _ that(1)]) (use that(2) in simp)
  with less.prems w u show ?case
    by (auto simp: tl_ReadVaruint_loop.simps [of rd pos] Let_def not_le split: option.splits if_splits
        intro: moves_trans)
qed

lemma tl_ReadVaruint_moves: "tl_ReadVaruint rd s = Inr (v, t) \<Longrightarrow> moves s t"
  unfolding tl_ReadVaruint_def by (rule tl_ReadVaruint_loop_moves)

lemma tl_ReadString_moves:
  assumes "tl_ReadString rd s = Inr (v, t)"
  shows "moves s t"
proof -
  obtain sz u where u: "tl_ReadVaruint rd s = Inr (sz, u)"
    using assms by (auto simp: tl_ReadString_def sbind_eq_Inr_iff)
  then have su: "moves s u" by (rule tl_ReadVaruint_moves)
  show ?thesis
  proof (cases sz)
    case None
    with assms u su show ?thesis by (simp add: tl_ReadString_def)
  next
    case (Some n)
    obtain d w where w: "rd u (unat n) = (d, w)" by fastforce
    then have "moves u w" by (rule rd_moves)
    with su have "moves s w" by (rule moves_trans)
    with assms u w Some show ?thesis by (simp add: tl_ReadString_def split: if_split_asm)
  qed
qed

end

definition fp_moves :: "file_ptr \<Rightarrow> file_ptr \<Rightarrow> bool" where
  "fp_moves f g \<longleftrightarrow> fp_data g = fp_data f \<and> fp_pos f \<le> fp_pos g"

interpretation fp: moving_stream fp_read fp_moves
  by unfold_locales (auto simp: fp_read_def fp_moves_def Let_def)

definition bk_moves :: "file_ptr block_stream res \<Rightarrow> file_ptr block_stream res \<Rightarrow> bool" where
  "bk_moves s t \<longleftrightarrow> (\<forall>b. t = Inr b \<longrightarrow> (\<exists>a. s = Inr a \<and> fp_moves (bk_base a) (bk_base b)))"

interpretation bk: moving_stream "bk_read fp_read" bk_moves
proof unfold_locales
  fix s n d t
  assume "bk_read fp_read s n = (d, t)"
  then show "bk_moves s t"
    by (cases s) (auto simp: bk_read_def bk_moves_def fp_moves_def fp_read_def Let_def split: if_split_asm)
next
  fix s t u
  assume "bk_moves s t" "bk_moves t u"
  then show "bk_moves s u" by (fastforce simp: bk_moves_def fp_moves_def)
qed

lemma bk_moves_Inr: "bk_moves (Inr a) (Inr b) = fp_moves (bk_base a) (bk_base b)"
  by (simp add: bk_moves_def)

lemma bk_reads_move:
  "bk_varuint fp_read a = Inr (v, b) \<Longrightarrow> fp_moves (bk_base a) (bk_base b)"
  "bk_string fp_read a = Inr (d, b) \<Longrightarrow> fp_moves (bk_base a) (bk_base b)"
  "bk_rest fp_read a = Inr (d, b) \<Longrightarrow> fp_moves (bk_base a) (bk_base b)"
proof -
  show "bk_varuint fp_read a = Inr (v, b) \<Longrightarrow> fp_moves (bk_base a) (bk_base b)"
    using bk.tl_ReadVaruint_moves [of "Inr a"]
    by (fastforce simp: bk_varuint_def some_value_def blk_def sbind_eq_Inr_iff bk_moves_Inr split: option.splits)
  show "bk_string fp_read a = Inr (d, b) \<Longrightarrow> fp_moves (bk_base a) (bk_base b)"
    using bk.tl_ReadString_moves [of "Inr a"]
    by (fastforce simp: bk_string_def some_value_def blk_def sbind_eq_Inr_iff bk_moves_Inr split: option.splits)
  show "bk_rest fp_read a = Inr (d, b) \<Longrightarrow> fp_moves (bk_base a) (bk_base b)"
    using bk.rd_moves [of "Inr a" "nat (bk_size a)"]
    by (cases "bk_read fp_read (Inr a) (nat (bk_size a))")
      (auto simp: bk_rest_def blk_def sbind_eq_Inr_iff bk_moves_Inr Let_def split: if_splits)
qed

lemma bk_end_moves: "bk_end b = Inr f \<Longrightarrow> fp_moves (bk_base b) f"
  by (auto simp: bk_end_def fp_ignore_def fp_Seek_def fp_Tell_def fp_moves_def split: if_splits sum.splits)

lemma fp_moves_trans: "fp_moves f g \<Longrightarrow> fp_moves g h \<Longrightarrow> fp_moves f h"
  by (auto simp: fp_moves_def)

lemma fr_ProcessSchema_moves:
  "fr_ProcessSchema s b flt = Inr (r, flt', s', b') \<Longrightarrow> fp_moves (bk_base b) (bk_base b') \<and> fptr s' = fptr s"
  by (auto simp: fr_ProcessSchema_def sbind_eq_Inr_iff Let_def split: option.splits if_splits
      dest!: bk_reads_move intro: fp_moves_trans)

lemma tl_ReadVaruint_advances:
  assumes "tl_ReadVaruint fp_read f = Inr (Some v, g)"
  shows "fp_data g = fp_data f \<and> fp_pos f < fp_pos g \<and> fp_pos f < length (fp_data f)"
proof -
  obtain d h where h: "fp_read f (Suc 0) = (d, h)" by fastforce
  show ?thesis
  proof (cases "drop (fp_pos f) (fp_data f)")
    case Nil
    with assms show ?thesis
      by (simp add: tl_ReadVaruint_def tl_ReadVaruint_loop.simps [of fp_read 0] tl_ReadScalar_def fp_read_def)
  next
    case (Cons x xs)
    then have h: "tl_ReadScalar fp_read 1 f = (Some x, f\<lparr>fp_pos := fp_pos f + 1\<rparr>)"
      by (simp add: tl_ReadScalar_def fp_read_def)
    have "fp_pos f < length (fp_data f)" using Cons by (metis drop_all leI list.distinct(1))
    moreover have "fp_data g = fp_data f \<and> fp_pos f < fp_pos g"
      if "tl_ReadVaruint_loop fp_read 7 q (f\<lparr>fp_pos := Suc (fp_pos f)\<rparr>) = Inr (Some v, g)" for q
      using fp.tl_ReadVaruint_loop_moves [OF that] by (simp add: fp_moves_def)
    ultimately show ?thesis
      using assms h
      by (auto simp: tl_ReadVaruint_def tl_ReadVaruint_loop.simps [of fp_read 0] Let_def split: if_splits)
  qed
qed

lemma ReadHeader_advances:
  "ReadHeader fp_read t f = Inr (Some (ty, sz), g) \<Longrightarrow>
   fp_data g = fp_data f \<and> fp_pos f < fp_pos g \<and> fp_pos f < length (fp_data f)"
  by (fastforce simp: ReadHeader_def some_value_def sbind_eq_Inr_iff split: option.splits if_splits
      dest: tl_ReadVaruint_advances)

lemma fr_ReadBlock_moves:
  assumes "fr_ReadBlock flt s = Inr (r, flt', s')" and "r \<noteq> Eof"
  shows "fp_data (fptr s') = fp_data (fptr s) \<and> fp_pos (fptr s) < fp_pos (fptr s')
    \<and> fp_pos (fptr s) < length (fp_data (fptr s))"
proof -
  obtain h f where h: "ReadHeader fp_read True (fptr s) = Inr (h, f)"
    using assms(1) by (auto simp: fr_ReadBlock_def Let_def sbind_eq_Inr_iff)
  obtain ty sz where hd: "h = Some (ty, sz)" using h assms by (cases h) (auto simp: fr_ReadBlock_def Let_def)
  have adv: "fp_data f = fp_data (fptr s)" "fp_pos (fptr s) < fp_pos f" "fp_pos (fptr s) < length (fp_data (fptr s))"
    using ReadHeader_advances h hd by blast+
  have "fp_moves f (fptr s')"
    using assms(1) h hd
    by (auto simp: fr_ReadBlock_def Let_def sbind_eq_Inr_iff block_stream_of_def split: if_splits
        dest!: bk_reads_move bk_end_moves fr_ProcessSchema_moves intro: fp_moves_trans)
  with adv show ?thesis by (auto simp: fp_moves_def)
qed

function fr_ReadUntil_loop :: "item_filter \<Rightarrow> file_reader \<Rightarrow> ((int \<times> int) \<times> item_filter \<times> file_reader) res" where
  "fr_ReadUntil_loop flt s =
     sbind (fr_ReadBlock flt s) (\<lambda>(r, flt, s).
     case r of
       Eof \<Rightarrow> Inr ((-1, -1), flt, s)
     | Found start next_block \<Rightarrow> Inr ((start, next_block), flt, s)
     | Next \<Rightarrow> fr_ReadUntil_loop flt s)"
  by pat_completeness auto

termination fr_ReadUntil_loop
  by (relation "measure (\<lambda>(flt, s). length (fp_data (fptr s)) - fp_pos (fptr s))")
    (auto dest!: fr_ReadBlock_moves)

declare fr_ReadUntil_loop.simps [simp del]

definition fr_ReadUntil :: "item_filter \<Rightarrow> file_reader \<Rightarrow> int \<Rightarrow> ((int \<times> int) \<times> item_filter \<times> file_reader) res" where
  "fr_ReadUntil flt s start =
     sbind (fp_Seek (fptr s) start) (\<lambda>f. fr_ReadUntil_loop flt (s\<lparr>fptr := f\<rparr>))"

subsection \<open>Items\<close>

text \<open>Flags that are set are cleared, so that unknown ones are left.\<close>

definition check_flags :: "u64 \<Rightarrow> u64 \<Rightarrow> bool \<times> u64" where
  "check_flags flags u64_flag =
     (if flags AND u64_flag \<noteq> 0 then (True, flags AND NOT u64_flag) else (False, flags))"

abbreviation crc_fp_read :: "file_ptr \<times> byte list \<Rightarrow> nat \<Rightarrow> byte list \<times> (file_ptr \<times> byte list)" where
  "crc_fp_read \<equiv> crc_rs_read fp_read"

text \<open>
  The checksum field: the checksum sees zeros, the value is read from the file itself, and the
  block shrinks by what was read behind its back.
\<close>

definition read_checksum :: "(file_ptr \<times> byte list) block_stream \<Rightarrow> (u32 \<times> (file_ptr \<times> byte list) block_stream) res" where
  "read_checksum b =
     (case bk_base b of
        (f, seen) \<Rightarrow>
          sbind (some_value (Inr (tl_ReadScalar fp_read 4 f))) (\<lambda>(checksum, f).
          Inr (checksum, bk_shrink (b\<lparr>bk_base := (f, seen @ [0, 0, 0, 0])\<rparr>) 4)))"

definition fr_Read :: "fr_env \<Rightarrow> file_reader \<Rightarrow> int \<Rightarrow> (item \<times> file_reader) res" where
  "fr_Read env s index =
     sbind (fp_Seek (fptr s) index) (\<lambda>f.
     sbind (ReadHeader crc_fp_read True (f, [])) (\<lambda>(maybe_header, c).
     case maybe_header of
       None \<Rightarrow> Inl AssertFailed
     | Some (type, sz) \<Rightarrow>
     sbind (mj_assert (type = kDataBlock)) (\<lambda>_.
     let b = block_stream_of c sz in
     sbind (bk_varuint crc_fp_read b) (\<lambda>(identifier, b).
     sbind (bk_varuint crc_fp_read b) (\<lambda>(all_flags, b).
     case check_flags all_flags kPreviousOffset of (has_previous, flags) \<Rightarrow>
     sbind (if has_previous then blk (tl_ReadVaruint (bk_read crc_fp_read) (Inr b)) else Inr (None, b)) (\<lambda>(_, b).
     case check_flags flags kTimestampFlag of (has_time, flags) \<Rightarrow>
     sbind (if has_time then bk_timestamp crc_fp_read b else Inr (not_a_date_time, b)) (\<lambda>(timestamp, b).
     case check_flags flags kChecksum of (has_checksum, flags) \<Rightarrow>
     sbind (if has_checksum then sbind (read_checksum b) (\<lambda>(c, b). Inr (Some c, b)) else Inr (None, b)) (\<lambda>(checksum, b).
     case check_flags flags kSnappy of (snappy, flags) \<Rightarrow>
     if flags \<noteq> 0 then Inl kUnknownBlockDataFlag
     else
       sbind (bk_rest crc_fp_read b) (\<lambda>(d, b).
       sbind (if snappy then (case snappy_uncompress env d of None \<Rightarrow> Inl kDecompressionError | Some d \<Rightarrow> Inr d)
              else Inr d) (\<lambda>d.
       if (case checksum of None \<Rightarrow> False
           | Some c \<Rightarrow> verify_checksums s \<and> c \<noteq> fr_crc32 env (snd (bk_base b)))
       then Inl kDataChecksumMismatch
       else (case id_to_record s identifier of
               None \<Rightarrow> Inl Thrown
             | Some r \<Rightarrow> Inr (\<lparr>it_index = index, it_timestamp = timestamp, it_data = d, it_flags = all_flags,
                 it_record = r\<rparr>, s\<lparr>fptr := fst (bk_base b)\<rparr>))))))))))))"

text \<open>The range of items: its context, \<open>begin\<close>, and \<open>++\<close> of an iterator; -1 is the end.\<close>

definition fr_items :: "file_reader \<Rightarrow> byte list list \<Rightarrow> item_filter" where
  "fr_items s names =
     ItemFilter \<lparr>ctx_records = names,
       unknown_names = {n \<in> set names. name_to_record s n = None},
       ctx_ids = (\<lambda>n. rec_identifier (records s ! the (name_to_record s n))) ` {n \<in> set names. name_to_record s n \<noteq> None}\<rparr>"

definition fr_begin :: "item_filter \<Rightarrow> file_reader \<Rightarrow> int \<Rightarrow> (int \<times> item_filter \<times> file_reader) res" where
  "fr_begin flt s start =
     sbind (fr_ReadUntil flt s (if start < 0 then fr_start s else start)) (\<lambda>((first, _), flt, s).
     Inr (first, flt, s))"

definition fr_next :: "item_filter \<Rightarrow> file_reader \<Rightarrow> int \<Rightarrow> (int \<times> item_filter \<times> file_reader) res" where
  "fr_next flt s index =
     sbind (fr_ReadUntil flt s index) (\<lambda>((_, after), flt, s).
     sbind (fr_ReadUntil flt s after) (\<lambda>((advanced, _), flt, s). Inr (advanced, flt, s)))"

text \<open>What bounds a loop over items: every item is behind the one before, and in the file.\<close>

interpretation bk_left: moving_stream "bk_read rd" "\<lambda>_ t. \<forall>b. t = Inr b \<longrightarrow> 0 \<le> bk_size b"
proof unfold_locales
  fix s :: "'a block_stream res" and n d t
  assume "bk_read rd s n = (d, t)"
  then show "\<forall>b. t = Inr b \<longrightarrow> 0 \<le> bk_size b"
    by (cases s) (auto simp: bk_read_def split: if_split_asm prod.split_asm)
qed simp

lemma bk_varuint_left: "bk_varuint rd a = Inr (v, b) \<Longrightarrow> 0 \<le> bk_size b"
  using bk_left.tl_ReadVaruint_moves [of rd "Inr a"]
  by (fastforce simp: bk_varuint_def some_value_def blk_def sbind_eq_Inr_iff split: option.splits)

lemma bk_varuint_both:
  "bk_varuint fp_read a = Inr (v, b) \<Longrightarrow> fp_moves (bk_base a) (bk_base b) \<and> 0 \<le> bk_size b"
  by (simp add: bk_reads_move bk_varuint_left)

lemma fr_ReadBlock_eof:
  "fr_ReadBlock flt s = Inr (Eof, flt', s') \<Longrightarrow> fp_data (fptr s') = fp_data (fptr s)"
  by (auto simp: fr_ReadBlock_def ReadHeader_def some_value_def sbind_eq_Inr_iff Let_def fp_moves_def
      split: option.splits if_splits dest!: fp.tl_ReadVaruint_moves)

lemma fr_ReadBlock_found:
  "fr_ReadBlock flt s = Inr (Found a b, flt', s') \<Longrightarrow> a = fp_Tell (fptr s) \<and> a < b"
proof -
  assume *: "fr_ReadBlock flt s = Inr (Found a b, flt', s')"
  obtain h f where h: "ReadHeader fp_read True (fptr s) = Inr (h, f)"
    using * by (auto simp: fr_ReadBlock_def Let_def sbind_eq_Inr_iff)
  obtain ty sz where hd: "h = Some (ty, sz)" using h * by (cases h) (auto simp: fr_ReadBlock_def Let_def)
  have "fp_pos (fptr s) < fp_pos f" using ReadHeader_advances h hd by blast
  with * h hd show ?thesis
    by (auto simp: fr_ReadBlock_def Let_def sbind_eq_Inr_iff block_stream_of_def fp_Tell_def fp_moves_def
        split: if_splits dest!: bk_varuint_both)
qed

lemma fr_ReadUntil_loop_found:
  "fr_ReadUntil_loop flt s = Inr ((a, b), flt', s') \<Longrightarrow>
   fp_data (fptr s') = fp_data (fptr s) \<and>
   (a = -1 \<and> b = -1 \<or> fp_Tell (fptr s) \<le> a \<and> a < fp_size (fptr s) \<and> a < b)"
proof (induction flt s rule: fr_ReadUntil_loop.induct)
  case (1 flt s)
  obtain r g u where r: "fr_ReadBlock flt s = Inr (r, g, u)"
    using 1(2) by (auto simp: fr_ReadUntil_loop.simps [of flt] sbind_eq_Inr_iff)
  show ?case
  proof (cases r)
    case Eof
    with r 1(2) fr_ReadBlock_eof [of flt s g u] show ?thesis by (simp add: fr_ReadUntil_loop.simps [of flt])
  next
    case (Found x y)
    with r 1(2) fr_ReadBlock_moves [OF r] fr_ReadBlock_found [of flt s x y g u] show ?thesis
      by (auto simp: fr_ReadUntil_loop.simps [of flt] fp_size_def fp_Tell_def)
  next
    case Next
    with r 1(2) have "fr_ReadUntil_loop g u = Inr ((a, b), flt', s')"
      by (simp add: fr_ReadUntil_loop.simps [of flt])
    from 1(1) [OF _ _ _ _ this] r Next fr_ReadBlock_moves [OF r]
    show ?thesis by (auto simp: fp_size_def fp_Tell_def)
  qed
qed

lemma fr_ReadUntil_found:
  assumes "fr_ReadUntil flt s start = Inr ((a, b), flt', s')"
  shows "fp_data (fptr s') = fp_data (fptr s)
    \<and> (a = -1 \<and> b = -1 \<or> start \<le> a \<and> a < fp_size (fptr s) \<and> a < b)"
proof -
  obtain f where f: "fp_Seek (fptr s) start = Inr f" "fr_ReadUntil_loop flt (s\<lparr>fptr := f\<rparr>) = Inr ((a, b), flt', s')"
    using assms by (auto simp: fr_ReadUntil_def sbind_eq_Inr_iff)
  then have "fp_data f = fp_data (fptr s)" "fp_Tell f = start"
    by (auto simp: fp_Seek_def fp_Tell_def split: if_splits)
  with fr_ReadUntil_loop_found [OF f(2)] show ?thesis by (simp add: fp_size_def)
qed

lemma fr_next_found:
  assumes "fr_next flt s index = Inr (i, flt', s')"
  shows "fp_data (fptr s') = fp_data (fptr s) \<and> (i = -1 \<or> index < i \<and> i < fp_size (fptr s))"
proof -
  obtain a b g u c where 1: "fr_ReadUntil flt s index = Inr ((a, b), g, u)"
      and 2: "fr_ReadUntil g u b = Inr ((i, c), flt', s')"
    using assms by (auto simp: fr_next_def sbind_eq_Inr_iff)
  have "b \<ge> 0" using 2 by (auto simp: fr_ReadUntil_def fp_Seek_def split: if_splits)
  with fr_ReadUntil_found [OF 1] fr_ReadUntil_found [OF 2] show ?thesis by (auto simp: fp_size_def)
qed

lemma crc_rs_read_fst: "crc_rs_read rd s n = (d, t) \<Longrightarrow> rd (fst s) n = (d, fst t)"
  by (auto simp: crc_rs_read_def split: prod.splits)

definition crc_moves :: "file_ptr \<times> byte list \<Rightarrow> file_ptr \<times> byte list \<Rightarrow> bool" where
  "crc_moves s t = fp_moves (fst s) (fst t)"

interpretation crc: moving_stream crc_fp_read crc_moves
  by unfold_locales (auto simp: crc_moves_def intro: fp.rd_moves fp_moves_trans dest: crc_rs_read_fst)

definition crc_bk_moves ::
  "(file_ptr \<times> byte list) block_stream res \<Rightarrow> (file_ptr \<times> byte list) block_stream res \<Rightarrow> bool" where
  "crc_bk_moves s t \<longleftrightarrow> (\<forall>b. t = Inr b \<longrightarrow> (\<exists>a. s = Inr a \<and> crc_moves (bk_base a) (bk_base b)))"

interpretation crc_bk: moving_stream "bk_read crc_fp_read" crc_bk_moves
proof unfold_locales
  fix s n d t
  assume "bk_read crc_fp_read s n = (d, t)"
  then show "crc_bk_moves s t"
    by (cases s)
      (auto simp: bk_read_def crc_bk_moves_def split: if_split_asm prod.split_asm intro: crc.rd_moves)
next
  fix s t u
  assume "crc_bk_moves s t" "crc_bk_moves t u"
  then show "crc_bk_moves s u" by (fastforce simp: crc_bk_moves_def intro: crc.moves_trans)
qed

lemma crc_blk_moves:
  "blk (tl_ReadVaruint (bk_read crc_fp_read) (Inr a)) = Inr (v, b) \<Longrightarrow> crc_moves (bk_base a) (bk_base b)"
  "bk_varuint crc_fp_read a = Inr (w, b) \<Longrightarrow> crc_moves (bk_base a) (bk_base b)"
  "bk_timestamp crc_fp_read a = Inr (x, b) \<Longrightarrow> crc_moves (bk_base a) (bk_base b)"
  "bk_rest crc_fp_read a = Inr (d, b) \<Longrightarrow> crc_moves (bk_base a) (bk_base b)"
proof -
  show *: "blk (tl_ReadVaruint (bk_read crc_fp_read) (Inr a)) = Inr (v, b) \<Longrightarrow> crc_moves (bk_base a) (bk_base b)" for v
    using crc_bk.tl_ReadVaruint_moves [of "Inr a"]
    by (fastforce simp: blk_def sbind_eq_Inr_iff crc_bk_moves_def)
  show "bk_varuint crc_fp_read a = Inr (w, b) \<Longrightarrow> crc_moves (bk_base a) (bk_base b)"
    by (auto simp: bk_varuint_def some_value_def sbind_eq_Inr_iff split: option.splits intro: *)
  show "bk_timestamp crc_fp_read a = Inr (x, b) \<Longrightarrow> crc_moves (bk_base a) (bk_base b)"
    using crc_bk.tl_ReadScalar_moves [of 8 "Inr a"]
    by (cases "tl_ReadScalar (bk_read crc_fp_read) 8 (Inr a) :: u64 option \<times> _")
      (fastforce simp: bk_timestamp_def tl_ReadTimestamp_def some_value_def blk_def sbind_eq_Inr_iff crc_bk_moves_def
        split: option.splits)
  show "bk_rest crc_fp_read a = Inr (d, b) \<Longrightarrow> crc_moves (bk_base a) (bk_base b)"
    using crc_bk.rd_moves [of "Inr a" "nat (bk_size a)"]
    by (cases "bk_read crc_fp_read (Inr a) (nat (bk_size a))")
      (auto simp: bk_rest_def blk_def sbind_eq_Inr_iff crc_bk_moves_def Let_def split: if_splits)
qed

lemma read_checksum_moves: "read_checksum a = Inr (c, b) \<Longrightarrow> crc_moves (bk_base a) (bk_base b)"
  by (cases "bk_base a"; cases "tl_ReadScalar fp_read 4 (fst (bk_base a)) :: u32 option \<times> _")
    (auto simp: read_checksum_def some_value_def bk_shrink_def crc_moves_def sbind_eq_Inr_iff
      split: option.splits dest: fp.tl_ReadScalar_moves)

lemma crc_ReadHeader_moves: "ReadHeader crc_fp_read t c = Inr (h, d) \<Longrightarrow> crc_moves c d"
  by (auto simp: ReadHeader_def some_value_def sbind_eq_Inr_iff split: option.splits if_splits
      intro: crc.moves_trans dest!: crc.tl_ReadVaruint_moves)

lemma crc_moves_data: "crc_moves s t \<Longrightarrow> fp_data (fst t) = fp_data (fst s)"
  by (simp add: crc_moves_def fp_moves_def)

lemma fr_Read_data:
  assumes "fr_Read env s index = Inr (i, s')"
  shows "fp_data (fptr s') = fp_data (fptr s) \<and> 0 \<le> index"
proof -
  obtain f where f: "fp_Seek (fptr s) index = Inr f"
    using assms by (auto simp: fr_Read_def sbind_eq_Inr_iff)
  then have 0: "fp_data f = fp_data (fptr s)" "0 \<le> index" by (auto simp: fp_Seek_def split: if_splits)
  obtain h c where h: "ReadHeader crc_fp_read True (f, []) = Inr (h, c)"
    using assms f by (auto simp: fr_Read_def sbind_eq_Inr_iff)
  obtain ty sz where hd: "h = Some (ty, sz)" using assms f h by (cases h) (auto simp: fr_Read_def)
  have 1: "fp_data (fst c) = fp_data f" using crc_moves_data [OF crc_ReadHeader_moves [OF h]] by simp
  let ?b = "block_stream_of c sz"
  obtain i1 b1 where b1: "bk_varuint crc_fp_read ?b = Inr (i1, b1)"
    using assms f h hd by (auto simp: fr_Read_def sbind_eq_Inr_iff Let_def)
  obtain fl b2 where b2: "bk_varuint crc_fp_read b1 = Inr (fl, b2)"
    using assms f h hd b1 by (auto simp: fr_Read_def sbind_eq_Inr_iff Let_def)
  have 2: "fp_data (fst (bk_base b2)) = fp_data f"
    using crc_moves_data [OF crc_blk_moves(2) [OF b1]] crc_moves_data [OF crc_blk_moves(2) [OF b2]] 1
    by (simp add: block_stream_of_def)
  obtain p fl2 where p: "check_flags fl kPreviousOffset = (p, fl2)" by fastforce
  obtain x b3 where b3: "(if p then blk (tl_ReadVaruint (bk_read crc_fp_read) (Inr b2)) else Inr (None, b2)) = Inr (x, b3)"
    using assms f h hd b1 b2 p by (auto simp: fr_Read_def sbind_eq_Inr_iff Let_def)
  have 3: "fp_data (fst (bk_base b3)) = fp_data f"
    using b3 2 crc_moves_data [OF crc_blk_moves(1)] by (fastforce split: if_splits)
  obtain q fl3 where q: "check_flags fl2 kTimestampFlag = (q, fl3)" by fastforce
  obtain t b4 where b4: "(if q then bk_timestamp crc_fp_read b3 else Inr (not_a_date_time, b3)) = Inr (t, b4)"
    using assms f h hd b1 b2 p b3 q by (auto simp: fr_Read_def sbind_eq_Inr_iff Let_def)
  have 4: "fp_data (fst (bk_base b4)) = fp_data f"
    using b4 3 crc_moves_data [OF crc_blk_moves(3)] by (fastforce split: if_splits)
  obtain k fl4 where k: "check_flags fl3 kChecksum = (k, fl4)" by fastforce
  obtain y b5 where b5: "(if k then sbind (read_checksum b4) (\<lambda>(c, b). Inr (Some c, b)) else Inr (None, b4)) = Inr (y, b5)"
    using assms f h hd b1 b2 p b3 q b4 k by (auto simp: fr_Read_def sbind_eq_Inr_iff Let_def)
  have 5: "fp_data (fst (bk_base b5)) = fp_data f"
    using b5 4 crc_moves_data [OF read_checksum_moves] by (fastforce simp: sbind_eq_Inr_iff split: if_splits)
  obtain z fl5 where z: "check_flags fl4 kSnappy = (z, fl5)" by fastforce
  obtain d b6 where b6: "bk_rest crc_fp_read b5 = Inr (d, b6)"
    using assms f h hd b1 b2 p b3 q b4 k b5 z
    by (auto simp: fr_Read_def sbind_eq_Inr_iff Let_def split: if_splits)
  have 6: "fp_data (fst (bk_base b6)) = fp_data f" using crc_moves_data [OF crc_blk_moves(4) [OF b6]] 5 by simp
  have "fptr s' = fst (bk_base b6)"
    using assms f h hd b1 b2 p b3 q b4 k b5 z b6
    by (auto simp: fr_Read_def sbind_eq_Inr_iff Let_def split: if_splits option.splits)
  with 0 6 show ?thesis by simp
qed

text \<open>
  \<open>for (const auto& item : items)\<close> with a body that folds and may break; the iterator reads the
  item anew whenever it is dereferenced.
\<close>

function fr_fold ::
  "fr_env \<Rightarrow> (item \<Rightarrow> 'c \<Rightarrow> bool \<times> 'c) \<Rightarrow> item_filter \<Rightarrow> file_reader \<Rightarrow> int \<Rightarrow> 'c \<Rightarrow>
   ('c \<times> item_filter \<times> file_reader) res" where
  "fr_fold env body flt s index acc =
     (if index = -1 then Inr (acc, flt, s)
      else sbind (fr_Read env s index) (\<lambda>(i, s).
           case body i acc of
             (stop, acc) \<Rightarrow>
               if stop then Inr (acc, flt, s)
               else sbind (fr_next flt s index) (\<lambda>(advanced, flt, s). fr_fold env body flt s advanced acc)))"
  by pat_completeness auto

termination fr_fold
  by (relation "measure (\<lambda>(env, body, flt, s, index, acc).
      if index = -1 then 0 else Suc (nat (fp_size (fptr s) - index)))")
    (auto simp: fp_size_def dest!: fr_Read_data fr_next_found)

declare fr_fold.simps [simp del]

definition fr_read_items :: "fr_env \<Rightarrow> file_reader \<Rightarrow> byte list list \<Rightarrow> int \<Rightarrow> (item list \<times> item_filter \<times> file_reader) res" where
  "fr_read_items env s names start =
     sbind (fr_begin (fr_items s names) s start) (\<lambda>(index, flt, s).
     fr_fold env (\<lambda>i acc. (False, acc @ [i])) flt s index [])"

subsection \<open>Records\<close>

definition fr_FullScan :: "file_reader \<Rightarrow> file_reader res" where
  "fr_FullScan s =
     sbind (fr_ReadUntil NoFilter s (fr_start s)) (\<lambda>(_, _, s). Inr (s\<lparr>all_records_found := True\<rparr>))"

definition fr_record_named :: "file_reader \<Rightarrow> byte list \<Rightarrow> (nat option \<times> file_reader) res" where
  "fr_record_named s name =
     (case name_to_record s name of
        Some r \<Rightarrow> Inr (Some r, s)
      | None \<Rightarrow>
          if all_records_found s then Inr (None, s)
          else sbind (fr_FullScan s) (\<lambda>s. Inr (name_to_record s name, s)))"

definition fr_records :: "file_reader \<Rightarrow> (fr_record list \<times> file_reader) res" where
  "fr_records s =
     sbind (if all_records_found s then Inr s else fr_FullScan s) (\<lambda>s. Inr (records s, s))"

definition fr_final_item :: "file_reader \<Rightarrow> (int \<times> file_reader) res" where
  "fr_final_item s =
     sbind (if all_records_found s then Inr s else fr_FullScan s) (\<lambda>s. Inr (final_item s, s))"

subsection \<open>Seeking\<close>

text \<open>\<open>SeekResult\<close> maps records, here their numbers, to positions; \<open>insert\<close> keeps what is there.\<close>

record seek_marker =
  sm_timestamp :: btime
  sm_index :: int
  sm_result :: "nat \<rightharpoonup> int"

fun fr_marker_elements ::
  "nat \<Rightarrow> (u64 \<rightharpoonup> nat) \<Rightarrow> int \<Rightarrow> (nat \<rightharpoonup> int) \<Rightarrow> (file_ptr \<times> byte list) block_stream \<Rightarrow>
   ((nat \<rightharpoonup> int) \<times> (file_ptr \<times> byte list) block_stream) res" where
  "fr_marker_elements 0 ids possible_start m b = Inr (m, b)"
| "fr_marker_elements (Suc k) ids possible_start m b =
     sbind (bk_varuint crc_fp_read b) (\<lambda>(identifier, b).
     sbind (bk_varuint crc_fp_read b) (\<lambda>(previous_offset, b).
     case ids identifier of
       None \<Rightarrow> Inl Thrown
     | Some r \<Rightarrow>
         let p = sint (of_int possible_start - previous_offset :: u64)
         in fr_marker_elements k ids possible_start (if m r = None then m(r \<mapsto> p) else m) b))"

text \<open>The body of a marker whose block starts at \<open>possible_start\<close>.\<close>

definition fr_read_marker ::
  "fr_env \<Rightarrow> file_reader \<Rightarrow> int \<Rightarrow> (file_ptr \<times> byte list) block_stream \<Rightarrow> (seek_marker option \<times> file_reader) res" where
  "fr_read_marker env s possible_start b =
     sbind (bk_scalar crc_fp_read 8 b) (\<lambda>(_ :: u64, b).
     sbind (read_checksum b) (\<lambda>(crc, b).
     sbind (bk_scalar crc_fp_read 1 b) (\<lambda>(_ :: byte, b).
     sbind (bk_varuint crc_fp_read b) (\<lambda>(flags, b).
     if flags \<noteq> 0 then Inl kUnknownSeekMarkerFlag
     else
       sbind (bk_timestamp crc_fp_read b) (\<lambda>(timestamp, b).
       sbind (bk_varuint crc_fp_read b) (\<lambda>(nelements, b).
       sbind (fr_marker_elements (unat nelements) (id_to_record s) possible_start Map.empty b) (\<lambda>(m, b).
       let s = s\<lparr>fptr := fst (bk_base b)\<rparr> in
       if bk_size b \<noteq> 0 then Inr (None, s)
       else if crc \<noteq> fr_crc32 env (snd (bk_base b)) then Inr (None, s)
       else Inr (Some \<lparr>sm_timestamp = timestamp, sm_index = possible_start, sm_result = m\<rparr>, s))))))))"

definition fr_EvaluateSeekMarker :: "fr_env \<Rightarrow> file_reader \<Rightarrow> int \<Rightarrow> (seek_marker option \<times> file_reader) res" where
  "fr_EvaluateSeekMarker env s index =
     (case (tl_ReadScalar fp_read 4 (fptr s) :: u32 option \<times> file_ptr) of
        (_, f) \<Rightarrow>
     sbind (some_value (Inr (tl_ReadScalar fp_read 1 f))) (\<lambda>(header_len :: byte, f).
     let s = s\<lparr>fptr := f\<rparr> in
     if header_len > 10 then Inr (None, s)
     else
       let possible_start = index - 7 - uint header_len in
       if possible_start < fr_start s then Inr (None, s)
       else
         sbind (fp_Seek f possible_start) (\<lambda>f.
         sbind (ReadHeader crc_fp_read False (f, [])) (\<lambda>(maybe_header, c).
         case maybe_header of
           None \<Rightarrow> Inr (None, s\<lparr>fptr := fst c\<rparr>)
         | Some (type, sz) \<Rightarrow>
             if type \<noteq> kSeekMarker then Inr (None, s\<lparr>fptr := fst c\<rparr>)
             else fr_read_marker env s possible_start (block_stream_of c sz)))))"

definition to_match :: "byte list" where
  "to_match = [0x64, 0x75, 0x86, 0x97, 0xa8, 0xb9, 0xca, 0xfd]"

text \<open>One byte of the search: the marker found, the reader, and how much of the pattern has matched.\<close>

definition fr_match_byte ::
  "fr_env \<Rightarrow> file_reader \<Rightarrow> int \<Rightarrow> nat \<Rightarrow> (seek_marker option \<times> file_reader \<times> nat) res" where
  "fr_match_byte env s index matched =
     (case fp_read (fptr s) 1 of
        (d, f) \<Rightarrow>
          let c = (case d of [] \<Rightarrow> 0 | x # _ \<Rightarrow> x);
              s = s\<lparr>fptr := f\<rparr> in
          if c = to_match ! matched then
            if matched + 1 = 8 then
              sbind (fr_EvaluateSeekMarker env s index) (\<lambda>(maybe_result, s).
              case maybe_result of
                Some r \<Rightarrow> Inr (Some r, s, 0)
              | None \<Rightarrow> sbind (fp_Seek (fptr s) index) (\<lambda>f. Inr (None, s\<lparr>fptr := f\<rparr>, 0)))
            else Inr (None, s, matched + 1)
          else Inr (None, s, 0))"

function fr_FindSeekMarker_loop ::
  "fr_env \<Rightarrow> int \<Rightarrow> file_reader \<Rightarrow> int \<Rightarrow> nat \<Rightarrow> (seek_marker option \<times> file_reader) res" where
  "fr_FindSeekMarker_loop env stop_point s index matched =
     sbind (fr_match_byte env s index matched) (\<lambda>(found, s, matched).
     case found of
       Some r \<Rightarrow> Inr (Some r, s)
     | None \<Rightarrow>
         if index + 1 \<ge> stop_point then Inr (None, s)
         else fr_FindSeekMarker_loop env stop_point s (index + 1) matched)"
  by pat_completeness auto

termination fr_FindSeekMarker_loop
  by (relation "measure (\<lambda>(env, stop_point, s, index, matched). nat (stop_point - index))") auto

declare fr_FindSeekMarker_loop.simps [simp del]

definition fr_FindSeekMarker :: "fr_env \<Rightarrow> file_reader \<Rightarrow> int \<Rightarrow> int \<Rightarrow> (seek_marker option \<times> file_reader) res" where
  "fr_FindSeekMarker env s index end_index =
     sbind (fp_Seek (fptr s) index) (\<lambda>f.
     fr_FindSeekMarker_loop env (min (fp_size f) end_index) (s\<lparr>fptr := f\<rparr>) index 0)"

text \<open>A marker that is found is not far in front of where the search began, and before its end.\<close>

lemma fr_read_marker_index:
  "fr_read_marker env s p b = Inr (Some r, s') \<Longrightarrow> sm_index r = p"
  by (auto simp: fr_read_marker_def sbind_eq_Inr_iff Let_def split: prod.splits if_split_asm)

lemma fr_EvaluateSeekMarker_index:
  assumes "fr_EvaluateSeekMarker env s index = Inr (Some r, s')"
  shows "index - 17 \<le> sm_index r \<and> sm_index r \<le> index - 7"
proof -
  obtain x f where x: "(tl_ReadScalar fp_read 4 (fptr s) :: u32 option \<times> file_ptr) = (x, f)" by fastforce
  obtain h g where h: "some_value (Inr (tl_ReadScalar fp_read 1 f)) = Inr (h :: byte, g)"
    using assms x by (auto simp: fr_EvaluateSeekMarker_def sbind_eq_Inr_iff)
  have "\<not> h > 10 \<and> sm_index r = index - 7 - uint h"
    using assms x h
    by (auto simp: fr_EvaluateSeekMarker_def sbind_eq_Inr_iff Let_def split: if_split_asm option.split_asm
        dest: fr_read_marker_index)
  then show ?thesis by (auto simp: word_less_alt)
qed

lemma fr_match_byte_found:
  assumes "fr_match_byte env s index matched = Inr (Some r, s', m)"
  shows "index - 17 \<le> sm_index r \<and> sm_index r \<le> index - 7 \<and> matched = 7"
  using assms fr_EvaluateSeekMarker_index [of env _ index r]
  by (fastforce simp: fr_match_byte_def sbind_eq_Inr_iff Let_def split: prod.splits if_split_asm option.split_asm)

lemma fr_FindSeekMarker_loop_index:
  "fr_FindSeekMarker_loop env stop_point s index matched = Inr (Some r, s') \<Longrightarrow>
   matched = 0 \<or> index < stop_point \<Longrightarrow> index - 17 \<le> sm_index r \<and> sm_index r < stop_point"
proof (induction env stop_point s index matched rule: fr_FindSeekMarker_loop.induct)
  case (1 env stop_point s index matched)
  obtain found u m where step: "fr_match_byte env s index matched = Inr (found, u, m)"
    using 1(2) by (auto simp: fr_FindSeekMarker_loop.simps [of env stop_point s index matched] sbind_eq_Inr_iff)
  show ?case
  proof (cases found)
    case None
    with 1(2) step have "index + 1 < stop_point" "fr_FindSeekMarker_loop env stop_point u (index + 1) m = Inr (Some r, s')"
      by (auto simp: fr_FindSeekMarker_loop.simps [of env stop_point s index matched] split: if_splits)
    with 1(1) [OF step refl refl None] show ?thesis by simp
  next
    case (Some q)
    with 1(2) step have "q = r"
      by (simp add: fr_FindSeekMarker_loop.simps [of env stop_point s index matched])
    with fr_match_byte_found [OF step [unfolded Some]] 1(3) show ?thesis by auto
  qed
qed

lemma fr_FindSeekMarker_index:
  "fr_FindSeekMarker env s index end_index = Inr (Some r, s') \<Longrightarrow> index - 17 \<le> sm_index r \<and> sm_index r < end_index"
  by (auto simp: fr_FindSeekMarker_def sbind_eq_Inr_iff dest!: fr_FindSeekMarker_loop_index)

definition kMinSpacing :: int where "kMinSpacing = 2 ^ 16"

function fr_seek_bounds ::
  "fr_env \<Rightarrow> btime \<Rightarrow> file_reader \<Rightarrow> int \<Rightarrow> int \<Rightarrow> (nat \<rightharpoonup> int) \<Rightarrow> (int \<times> (nat \<rightharpoonup> int) \<times> file_reader) res" where
  "fr_seek_bounds env timestamp s low high result =
     (if high - low > kMinSpacing then
        let mid_search_point = low + (high - low) div 2 in
        sbind (fr_FindSeekMarker env s mid_search_point high) (\<lambda>(seek, s).
        case seek of
          None \<Rightarrow> Inr (low, result, s)
        | Some m \<Rightarrow>
            if \<not> time_less env timestamp (sm_timestamp m)
            then fr_seek_bounds env timestamp s (sm_index m) high (sm_result m)
            else fr_seek_bounds env timestamp s low (sm_index m) result)
      else Inr (low, result, s))"
  by pat_completeness auto

termination fr_seek_bounds
  by (relation "measure (\<lambda>(env, timestamp, s, low, high, result). nat (high - low))")
    (auto simp: kMinSpacing_def dest!: fr_FindSeekMarker_index)

declare fr_seek_bounds.simps [simp del]

definition fr_Seek :: "fr_env \<Rightarrow> file_reader \<Rightarrow> btime \<Rightarrow> ((nat \<rightharpoonup> int) \<times> file_reader) res" where
  "fr_Seek env s timestamp =
     sbind (if all_records_found s then Inr s else fr_FullScan s) (\<lambda>s.
     sbind (fr_seek_bounds env timestamp s (fr_start s) (final_item s) Map.empty) (\<lambda>(low, result, s).
     sbind (fr_begin (fr_items s []) s low) (\<lambda>(index, flt, s).
     sbind (fr_fold env (\<lambda>i m.
         if it_timestamp i = not_a_date_time \<or> time_less env timestamp (it_timestamp i) then (True, m)
         else (False, m(it_record i \<mapsto>
                max (case m (it_record i) of None \<Rightarrow> 0 | Some p \<Rightarrow> p) (it_index i)))) flt s index result)
       (\<lambda>(result, _, s). Inr (result, s)))))"

subsection \<open>The index, and opening a file\<close>

fun fr_local_records :: "nat \<Rightarrow> file_ptr \<Rightarrow> ((u64 \<times> int \<times> int) list \<times> file_ptr) res" where
  "fr_local_records 0 f = Inr ([], f)"
| "fr_local_records (Suc k) f =
     sbind (some_value (tl_ReadVaruint fp_read f)) (\<lambda>(identifier, f).
     sbind (some_value (Inr (tl_ReadScalar fp_read 8 f))) (\<lambda>(schema_location :: u64, f).
     sbind (some_value (Inr (tl_ReadScalar fp_read 8 f))) (\<lambda>(final_record :: u64, f).
     sbind (fr_local_records k f) (\<lambda>(rs, f).
     Inr ((identifier, sint schema_location, sint final_record) # rs, f)))))"

fun fr_load_schemas :: "(u64 \<times> int \<times> int) list \<Rightarrow> file_reader \<Rightarrow> file_reader res" where
  "fr_load_schemas [] s = Inr s"
| "fr_load_schemas ((identifier, schema_location, final_record) # rs) s =
     sbind (fp_Seek (fptr s) schema_location) (\<lambda>f.
     sbind (some_value (ReadHeader fp_read True f)) (\<lambda>((_, sz), f).
     sbind (fr_ProcessSchema s (block_stream_of f sz) None) (\<lambda>(r, _, s, b).
     sbind (mj_assert (rec_identifier (records s ! r) = identifier)) (\<lambda>_.
     let s = s\<lparr>final_item := max final_record (final_item s)\<rparr> in
     sbind (bk_end b) (\<lambda>f. fr_load_schemas rs (s\<lparr>fptr := f\<rparr>))))))"

definition fr_MaybeProcessIndex :: "file_reader \<Rightarrow> file_reader res" where
  "fr_MaybeProcessIndex s =
     sbind (fp_Seek (fptr s) (fp_size (fptr s) - 8)) (\<lambda>f.
     case fp_read f 8 of
       (trailer, f) \<Rightarrow>
     if trailer \<noteq> ascii ''TLOGIDEX'' then Inr (s\<lparr>fptr := f\<rparr>)
     else
       sbind (fp_Seek f (fp_size f - 12)) (\<lambda>f.
       sbind (some_value (Inr (tl_ReadScalar fp_read 4 f))) (\<lambda>(trailer_size :: u32, f).
       if uint trailer_size \<ge> fp_size f - fr_start s then Inr (s\<lparr>fptr := f\<rparr>)
       else
         sbind (fp_Seek f (fp_size f - uint trailer_size)) (\<lambda>f.
         sbind (ReadHeader fp_read True f) (\<lambda>(maybe_header, f).
         case maybe_header of
           None \<Rightarrow> Inr (s\<lparr>fptr := f\<rparr>)
         | Some (type, _) \<Rightarrow>
             if type \<noteq> kIndexBlock then Inr (s\<lparr>fptr := f\<rparr>)
             else
               sbind (some_value (tl_ReadVaruint fp_read f)) (\<lambda>(flags, f).
               if flags \<noteq> 0 then Inl kUnknownIndexFlag
               else
                 sbind (some_value (tl_ReadVaruint fp_read f)) (\<lambda>(nelements, f).
                 sbind (fr_local_records (unat nelements) f) (\<lambda>(local_records, f).
                 sbind (mj_assert (records s = [])) (\<lambda>_.
                 sbind (fr_load_schemas local_records (s\<lparr>fptr := f, final_item := 0\<rparr>)) (\<lambda>s.
                 Inr (s\<lparr>has_index := True, all_records_found := True\<rparr>)))))))))))"

definition fr_open :: "bool \<Rightarrow> byte list \<Rightarrow> file_reader res" where
  "fr_open verify d =
     (case fp_read \<lparr>fp_data = d, fp_pos = 0\<rparr> 8 of
        (header, f) \<Rightarrow>
     if header \<noteq> ascii ''TLOG0003'' then Inl kInvalidHeader
     else
       sbind (tl_ReadVaruint fp_read f) (\<lambda>(header_flags, f).
       if header_flags \<noteq> Some 0 then Inl kInvalidHeaderFlags
       else
         fr_MaybeProcessIndex \<lparr>verify_checksums = verify, fptr = f, records = [], id_to_record = Map.empty,
           name_to_record = Map.empty, final_item = -1, has_index = False, all_records_found = False,
           fr_start = fp_Tell f\<rparr>))"

end
