(* ===== verification/Log_Files.thy ===== *)
theory Log_Files
  imports File_Reader
begin

text \<open>
  Log files from the writer to the reader: what \<open>FileReader\<close> makes of the blocks that
  \<open>FileWriter\<close> writes, wherever they stand in the file.
\<close>

section \<open>Streams that give what is asked for\<close>

text \<open>
  A weaker interface than that of a read stream, which a block satisfies too: nothing is said of
  reads past the end. A decoder that succeeds on the bytes that are left succeeds on the stream.
\<close>

locale exact_stream =
  fixes rd :: "'s \<Rightarrow> nat \<Rightarrow> byte list \<times> 's"
    and left :: "'s \<Rightarrow> byte list"
    and ok :: "'s \<Rightarrow> bool"
  assumes rd_exact: "ok s \<Longrightarrow> left s = d @ rest \<Longrightarrow> \<exists>t. rd s (length d) = (d, t) \<and> left t = rest \<and> ok t"
begin

lemma rd_exact_n:
  "ok s \<Longrightarrow> left s = d @ rest \<Longrightarrow> length d = n \<Longrightarrow> \<exists>t. rd s n = (d, t) \<and> left t = rest \<and> ok t"
  using rd_exact by blast

lemma ex_scalar:
  "ok s \<Longrightarrow> left s = d @ rest \<Longrightarrow> length d = n \<Longrightarrow>
   \<exists>t. tl_ReadScalar rd n s = (Some (le_word d), t) \<and> left t = rest \<and> ok t"
  using rd_exact [of s d rest] by (auto simp: tl_ReadScalar_def)

lemma ex_varuint_loop:
  "ok s \<Longrightarrow> tl_ReadVaruint_loop list_read pos r (left s) = Inr (Some v, rest) \<Longrightarrow>
   \<exists>t. tl_ReadVaruint_loop rd pos r s = Inr (Some v, t) \<and> left t = rest \<and> ok t"
proof (induction "64 - pos" arbitrary: pos r s rule: less_induct)
  case less
  show ?case
  proof (cases "left s")
    case Nil
    with less.prems show ?thesis by (simp add: tl_ReadVaruint_loop_Nil)
  next
    case (Cons b bs)
    obtain t where t: "tl_ReadScalar rd 1 s = (Some b, t)" "left t = bs" "ok t"
      using ex_scalar [of s "[b]" bs 1, where ?'a = 8] less.prems(1) Cons by auto
    have "tl_ReadVaruint_loop list_read pos r (b # bs)
      = (if pos \<ge> 64 then Inl BadShift
         else let result' = r OR push_bit pos (ucast (b AND 0x7f))
              in if b \<ge> 0x80 then tl_ReadVaruint_loop list_read (pos + 7) result' bs else Inr (Some result', bs))"
      by (simp add: tl_ReadVaruint_loop.simps [of list_read pos] tl_ReadScalar_def list_read_def)
    with less.prems(2) Cons t less.hyps [of "pos + 7" t] show ?thesis
      by (auto simp: tl_ReadVaruint_loop.simps [of rd pos] Let_def split: if_splits)
  qed
qed

lemma ex_varuint:
  "ok s \<Longrightarrow> left s = leb128 (unat v) @ rest \<Longrightarrow>
   \<exists>t. tl_ReadVaruint rd s = Inr (Some v, t) \<and> left t = rest \<and> ok t"
  using ex_varuint_loop [of s 0 0 v rest] tl_ReadVaruint_leb128 [of v rest]
  by (simp add: tl_ReadVaruint_def)

lemma ex_timestamp:
  "ok s \<Longrightarrow> left s = le_bytes 8 (ConvertPtimeToEpochMicroseconds x) @ rest \<Longrightarrow> btime_ok x \<Longrightarrow>
   \<exists>t. tl_ReadTimestamp rd s = (Some x, t) \<and> left t = rest \<and> ok t"
  using ex_scalar [of s "le_bytes 8 (ConvertPtimeToEpochMicroseconds x)" rest 8,
      where ?'a = 64]
  by (auto simp: tl_ReadTimestamp_def btime_roundtrip)

lemma ex_string:
  "ok s \<Longrightarrow> left s = string_bytes d @ rest \<Longrightarrow> length d \<le> kMaxStringSize \<Longrightarrow>
   \<exists>t. tl_ReadString rd s = Inr (Some d, t) \<and> left t = rest \<and> ok t"
proof -
  assume *: "ok s" "left s = string_bytes d @ rest" "length d \<le> kMaxStringSize"
  have n: "unat (of_nat (length d) :: u64) = length d"
    using *(3) by (simp add: kMaxStringSize_def unat_of_nat take_bit_eq_mod)
  obtain t where t: "tl_ReadVaruint rd s = Inr (Some (of_nat (length d)), t)" "left t = d @ rest" "ok t"
    using ex_varuint [OF *(1), of "of_nat (length d)" "d @ rest"] *(2) n by (auto simp: string_bytes_def)
  from rd_exact [OF t(3,2)] t(1) n *(3) show ?thesis by (auto simp: tl_ReadString_def)
qed

lemma ex_header:
  assumes "ok s" and "left s = leb128 (unat ty) @ leb128 n @ rest" and "n < 2 ^ 64"
    and "ty \<noteq> 0" and "ty \<le> kNumTypes"
  shows "\<exists>t. ReadHeader rd e s = Inr (Some (ty, of_nat n), t) \<and> left t = rest \<and> ok t"
proof -
  obtain t where t: "tl_ReadVaruint rd s = Inr (Some ty, t)" "left t = leb128 n @ rest" "ok t"
    using ex_varuint [OF assms(1,2)] by blast
  have "leb128 n = leb128 (unat (of_nat n :: u64))" using assms(3) by (simp add: unat_of_nat_u64)
  with ex_varuint [OF t(3)] t(2) obtain u where "tl_ReadVaruint rd t = Inr (Some (of_nat n), u)" "left u = rest" "ok u"
    by metis
  with t(1) assms(4,5) show ?thesis by (auto simp: ReadHeader_def some_value_def)
qed

end

definition fp_left :: "file_ptr \<Rightarrow> byte list" where
  "fp_left f = drop (fp_pos f) (fp_data f)"

interpretation fpx: exact_stream fp_read fp_left "\<lambda>_. True"
proof unfold_locales
  fix s d rest
  assume *: "fp_left s = d @ rest"
  then have "drop (length d) (fp_left s) = rest" "take (length d) (fp_left s) = d" by simp_all
  then show "\<exists>t. fp_read s (length d) = (d, t) \<and> fp_left t = rest \<and> True"
    by (simp add: fp_read_def fp_left_def add.commute)
qed

text \<open>
  Through a checksum, the bytes seen and the bytes left are always the same bytes \<open>tot\<close>.
\<close>

definition crc_left :: "file_ptr \<times> byte list \<Rightarrow> byte list" where
  "crc_left s = fp_left (fst s)"

definition crc_ok :: "byte list \<Rightarrow> file_ptr \<times> byte list \<Rightarrow> bool" where
  "crc_ok tot s = (snd s @ crc_left s = tot)"

interpretation crcx: exact_stream crc_fp_read crc_left "crc_ok tot" for tot
proof unfold_locales
  fix s d rest
  assume *: "crc_ok tot s" "crc_left s = d @ rest"
  then obtain f where "fp_read (fst s) (length d) = (d, f)" "fp_left f = rest"
    using fpx.rd_exact [of "fst s" d rest] by (auto simp: crc_left_def)
  with * show "\<exists>t. crc_fp_read s (length d) = (d, t) \<and> crc_left t = rest \<and> crc_ok tot t"
    by (auto simp: crc_rs_read_def crc_left_def crc_ok_def)
qed

text \<open>A block that lies in its base stream is such a stream again.\<close>

definition bk_left :: "('b \<Rightarrow> byte list) \<Rightarrow> 'b block_stream \<Rightarrow> byte list" where
  "bk_left left b = take (nat (bk_size b)) (left (bk_base b))"

definition bk_ok ::
  "('b \<Rightarrow> byte list) \<Rightarrow> ('b \<Rightarrow> bool) \<Rightarrow> byte list \<Rightarrow> 'b block_stream \<Rightarrow> bool" where
  "bk_ok left ok post b = (ok (bk_base b) \<and> 0 \<le> bk_size b \<and> nat (bk_size b) \<le> length (left (bk_base b))
     \<and> drop (nat (bk_size b)) (left (bk_base b)) = post)"

definition res_left :: "('b \<Rightarrow> byte list) \<Rightarrow> 'b block_stream res \<Rightarrow> byte list" where
  "res_left left = case_sum (\<lambda>_. []) (bk_left left)"

definition res_ok :: "('b \<Rightarrow> byte list) \<Rightarrow> ('b \<Rightarrow> bool) \<Rightarrow> byte list \<Rightarrow> 'b block_stream res \<Rightarrow> bool" where
  "res_ok left ok post = case_sum (\<lambda>_. False) (bk_ok left ok post)"

lemma res_simps_Inr [simp]: "res_left left (Inr b) = bk_left left b" "res_ok left ok post (Inr b) = bk_ok left ok post b"
  by (simp_all add: res_left_def res_ok_def)

lemma res_ok_cases: "res_ok left ok post s \<Longrightarrow> \<exists>b. s = Inr b \<and> bk_ok left ok post b"
  by (cases s) (simp_all add: res_ok_def)

lemma length_bk_left: "bk_ok left ok post b \<Longrightarrow> int (length (bk_left left b)) = bk_size b"
  by (simp add: bk_ok_def bk_left_def)

locale block_base = exact_stream

sublocale block_base \<subseteq> bkx: exact_stream "bk_read rd"
    "res_left left" "res_ok left ok post" for post
proof unfold_locales
  fix s d rest
  assume *: "res_ok left ok post s" "res_left left s = d @ rest"
  then obtain b where b: "s = Inr b" "bk_ok left ok post b" "bk_left left b = d @ rest" using res_ok_cases by fastforce
  have n: "int (length d + length rest) = bk_size b" using length_bk_left [OF b(2)] b(3) by simp
  then have "left (bk_base b) = d @ rest @ drop (nat (bk_size b)) (left (bk_base b))"
    using b(3) append_take_drop_id [of "nat (bk_size b)" "left (bk_base b)"] by (simp add: bk_left_def)
  moreover have "ok (bk_base b)" using b(2) by (simp add: bk_ok_def)
  ultimately obtain t where t: "rd (bk_base b) (length d) = (d, t)" "ok t"
      "left t = rest @ drop (nat (bk_size b)) (left (bk_base b))"
    using rd_exact by blast
  from n have "int (length d) \<le> bk_size b" "nat (bk_size b - int (length d)) = length rest" by linarith+
  with b t show "\<exists>t. bk_read rd s (length d) = (d, t) \<and> res_left left t = rest
      \<and> res_ok left ok post t"
    by (auto simp: bk_read_def bk_left_def bk_ok_def)
qed

context block_base
begin

lemma blk_intro:
  "\<exists>t. r = Inr (v, t) \<and> res_left left t = rest \<and> res_ok left ok post t \<Longrightarrow>
   \<exists>b. blk r = Inr (v, b) \<and> bk_left left b = rest \<and> bk_ok left ok post b"
  by (auto simp: blk_def dest!: res_ok_cases)

lemma blk_varuint:
  "bk_ok left ok post b \<Longrightarrow> bk_left left b = leb128 (unat v) @ rest \<Longrightarrow>
   \<exists>c. blk (tl_ReadVaruint (bk_read rd) (Inr b)) = Inr (Some v, c) \<and> bk_left left c = rest \<and> bk_ok left ok post c"
  by (rule blk_intro) (rule bkx.ex_varuint, simp_all)

lemma bk_varuint_bytes:
  "bk_ok left ok post b \<Longrightarrow> bk_left left b = leb128 (unat v) @ rest \<Longrightarrow>
   \<exists>c. bk_varuint rd b = Inr (v, c) \<and> bk_left left c = rest \<and> bk_ok left ok post c"
  using blk_varuint [of post b v rest] by (auto simp: bk_varuint_def some_value_def)

lemma bk_string_bytes:
  "bk_ok left ok post b \<Longrightarrow> bk_left left b = string_bytes d @ rest \<Longrightarrow> length d \<le> kMaxStringSize \<Longrightarrow>
   \<exists>c. bk_string rd b = Inr (d, c) \<and> bk_left left c = rest \<and> bk_ok left ok post c"
  using blk_intro [OF bkx.ex_string [of post "Inr b" d rest]] by (auto simp: bk_string_def some_value_def)

lemma bk_timestamp_bytes:
  "bk_ok left ok post b \<Longrightarrow> bk_left left b = le_bytes 8 (ConvertPtimeToEpochMicroseconds x) @ rest \<Longrightarrow> btime_ok x \<Longrightarrow>
   \<exists>c. bk_timestamp rd b = Inr (x, c) \<and> bk_left left c = rest \<and> bk_ok left ok post c"
  using blk_intro [of "Inr (tl_ReadTimestamp (bk_read rd) (Inr b))" "Some x" rest post]
    bkx.ex_timestamp [of post "Inr b" x rest]
  by (auto simp: bk_timestamp_def some_value_def)

lemma bk_scalar_bytes:
  assumes "bk_ok left ok post b" and "bk_left left b = d @ rest" and "length d = n"
  shows "\<exists>c. bk_scalar rd n b = Inr (le_word d :: 'w::len word, c) \<and> bk_left left c = rest \<and> bk_ok left ok post c"
proof -
  obtain t where t: "tl_ReadScalar (bk_read rd) n (Inr b) = (Some (le_word d :: 'w word), t)"
      "res_left left t = rest" "res_ok left ok post t"
    using bkx.ex_scalar [of post "Inr b" d rest n] assms by auto
  with blk_intro [of "Inr (Some (le_word d :: 'w word), t)" "Some (le_word d)" rest post] show ?thesis
    by (auto simp: bk_scalar_def some_value_def)
qed

lemma bk_rest_bytes:
  assumes "bk_ok left ok post b"
  shows "\<exists>c. bk_rest rd b = Inr (bk_left left b, c) \<and> bk_left left c = [] \<and> bk_ok left ok post c"
proof -
  have n: "length (bk_left left b) = nat (bk_size b)" "0 \<le> bk_size b"
    using length_bk_left [OF assms] assms by (auto simp: bk_ok_def)
  from bkx.rd_exact_n [of post "Inr b" "bk_left left b" "[]" "nat (bk_size b)"] n assms
  obtain t where t: "bk_read rd (Inr b) (nat (bk_size b)) = (bk_left left b, t)"
      "res_left left t = []" "res_ok left ok post t" by auto
  with n have "bk_rest rd b = blk (Inr (bk_left left b, t))"
    by (simp add: bk_rest_def Let_def overwrite_def)
  with blk_intro [of "Inr (bk_left left b, t)" "bk_left left b" "[]" post] t show ?thesis by auto
qed

end

interpretation crcb: block_base crc_fp_read crc_left "crc_ok tot" for tot ..

lemma block_stream_of_bytes:
  assumes "length body < 2 ^ 63" and "left base = body @ post" and "ok base"
  shows "bk_ok left ok post (block_stream_of base (of_nat (length body)))"
    and "bk_left left (block_stream_of base (of_nat (length body))) = body"
    and "bk_size (block_stream_of base (of_nat (length body))) = int (length body)"
proof -
  have "sint (of_nat (length body) :: u64) = int (length body)"
    using assms(1) by (simp add: signed_of_nat signed_take_bit_int_eq_self)
  with assms(2,3) show "bk_ok left ok post (block_stream_of base (of_nat (length body)))"
    "bk_left left (block_stream_of base (of_nat (length body))) = body"
    "bk_size (block_stream_of base (of_nat (length body))) = int (length body)"
    by (simp_all add: bk_ok_def bk_left_def block_stream_of_def)
qed

lemma read_checksum_bytes:
  assumes "bk_ok crc_left (crc_ok (seen @ cs @ mo)) post b" and "bk_left crc_left b = cs @ rest"
    and "length cs = 4" and "snd (bk_base b) = seen"
  shows "\<exists>c. read_checksum b = Inr (le_word cs, c) \<and> bk_left crc_left c = rest
    \<and> bk_ok crc_left (crc_ok (seen @ [0, 0, 0, 0] @ mo)) post c"
proof -
  obtain f s where base: "bk_base b = (f, s)" by fastforce
  have b: "0 \<le> bk_size b" "nat (bk_size b) \<le> length (fp_left f)" "drop (nat (bk_size b)) (fp_left f) = post"
      "s @ fp_left f = seen @ cs @ mo" "s = seen" "take (nat (bk_size b)) (fp_left f) = cs @ rest"
    using assms(1,2,4) unfolding bk_ok_def bk_left_def crc_ok_def crc_left_def base by auto
  then have "fp_left f = cs @ rest @ post" "mo = rest @ post"
    using append_take_drop_id [of "nat (bk_size b)" "fp_left f"] by auto
  with fpx.ex_scalar [of f cs "rest @ post" 4, where ?'a = 32] assms(3) obtain g where
      g: "tl_ReadScalar fp_read 4 f = (Some (le_word cs :: u32), g)" "fp_left g = rest @ post" by auto
  have "nat (bk_size b) = length (cs @ rest)" using b(2,6) by (metis length_take min.absorb2)
  then have "bk_size b - 4 = int (length rest)" using assms(3) b(1) by simp
  with g b \<open>mo = rest @ post\<close> show ?thesis
    by (simp add: read_checksum_def base some_value_def bk_shrink_def bk_ok_def bk_left_def crc_ok_def crc_left_def)
qed

lemma check_flags_data:
  "check_flags (data_flags p t c z) kPreviousOffset = (p, data_flags False t c z)"
  "check_flags (data_flags False t c z) kTimestampFlag = (t, data_flags False False c z)"
  "check_flags (data_flags False False c z) kChecksum = (c, data_flags False False False z)"
  "check_flags (data_flags False False False z) kSnappy = (z, data_flags False False False False)"
  "data_flags False False False False = 0"
  by (cases p; cases t; cases c; cases z;
    simp add: check_flags_def data_flags_def kPreviousOffset_def kTimestampFlag_def kChecksum_def kSnappy_def)+

lemma fp_Seek_front:
  "n \<le> length (fp_data f) \<Longrightarrow> n < 2 ^ 63 \<Longrightarrow>
   \<exists>g. fp_Seek f (int n) = Inr g \<and> fp_left g = drop n (fp_data f) \<and> fp_data g = fp_data f"
  by (simp add: fp_Seek_def fp_left_def)

section \<open>One data block\<close>

lemma bk_ok_split: "bk_ok left ok post b \<Longrightarrow> left (bk_base b) = bk_left left b @ post"
  unfolding bk_ok_def bk_left_def by (metis append_take_drop_id)

text \<open>A data block with any bytes in the place of its checksum, and what \<open>Read\<close> makes of it.\<close>

definition stored_body :: "u64 \<Rightarrow> u64 \<Rightarrow> u64 option \<Rightarrow> btime option \<Rightarrow> byte list \<Rightarrow> byte list \<Rightarrow> byte list" where
  "stored_body identifier flags prev ts cs payload = data_prefix identifier flags prev ts @ cs @ payload"

definition stored_data :: "fr_env \<Rightarrow> bool \<Rightarrow> byte list \<Rightarrow> byte list option" where
  "stored_data renv packed payload = (if packed then snappy_uncompress renv payload else Some payload)"

definition block_checksum ::
  "fr_env \<Rightarrow> u64 \<Rightarrow> u64 \<Rightarrow> u64 option \<Rightarrow> btime option \<Rightarrow> byte list \<Rightarrow> u32" where
  "block_checksum renv identifier flags prev ts payload =
     fr_crc32 renv (data_header identifier flags prev ts True (length payload) @ [0, 0, 0, 0] @ payload)"

lemma fr_Read_stored_block:
  assumes d: "fp_data (fptr s) = pre @ block_bytes kDataBlock (stored_body identifier flags prev ts cs payload) @ post"
    and fl: "flags = data_flags (prev \<noteq> None) (ts \<noteq> None) ck packed"
    and cs: "length cs = (if ck then 4 else 0)"
    and len: "length (stored_body identifier flags prev ts cs payload) < 2 ^ 63" "length pre < 2 ^ 63"
    and time: "\<And>x. ts = Some x \<Longrightarrow> btime_ok x"
  shows "\<exists>f. fr_Read renv s (int (length pre)) =
    (case stored_data renv packed payload of
       None \<Rightarrow> Inl kDecompressionError
     | Some x \<Rightarrow>
         if ck \<and> verify_checksums s \<and> le_word cs \<noteq> block_checksum renv identifier flags prev ts payload
         then Inl kDataChecksumMismatch
         else (case id_to_record s identifier of
                 None \<Rightarrow> Inl Thrown
               | Some r \<Rightarrow> Inr (\<lparr>it_index = int (length pre),
                   it_timestamp = (case ts of None \<Rightarrow> not_a_date_time | Some t \<Rightarrow> t), it_data = x, it_flags = flags,
                   it_record = r\<rparr>, s\<lparr>fptr := f\<rparr>)))"
proof -
  let ?body = "stored_body identifier flags prev ts cs payload"
  let ?hdr = "data_header identifier flags prev ts ck (length payload)"
  let ?P = "case prev of None \<Rightarrow> [] | Some off \<Rightarrow> leb128 (unat off)"
  let ?T = "case ts of None \<Rightarrow> [] | Some t \<Rightarrow> le_bytes 8 (ConvertPtimeToEpochMicroseconds t)"
  let ?tot = "block_bytes kDataBlock ?body @ post"
  obtain f where f: "fp_Seek (fptr s) (int (length pre)) = Inr f" "fp_left f = ?tot"
    using fp_Seek_front [of "length pre" "fptr s"] d len(2) by auto
  have k: "kDataBlock \<noteq> 0" "kDataBlock \<le> kNumTypes" by (simp_all add: kDataBlock_def kNumTypes_def kSeekMarker_def)
  obtain c where c: "ReadHeader crc_fp_read True (f, []) = Inr (Some (kDataBlock, of_nat (length ?body)), c)"
      "crc_left c = ?body @ post" "crc_ok ?tot c"
    using crcx.ex_header [of ?tot "(f, [])" kDataBlock "length ?body" "?body @ post" True] f(2) len(1) k
    by (auto simp: crc_left_def crc_ok_def block_bytes_def)
  let ?b = "block_stream_of c (of_nat (length ?body))"
  note b = block_stream_of_bytes [of ?body crc_left c post "crc_ok ?tot", OF len(1) c(2,3)]
  have left0: "bk_left crc_left ?b = leb128 (unat identifier) @ leb128 (unat flags) @ ?P @ ?T @ cs @ payload"
    unfolding b(2) by (simp add: stored_body_def data_prefix_def)
  obtain b1 where b1: "bk_varuint crc_fp_read ?b = Inr (identifier, b1)"
      "bk_left crc_left b1 = leb128 (unat flags) @ ?P @ ?T @ cs @ payload" "bk_ok crc_left (crc_ok ?tot) post b1"
    using crcb.bk_varuint_bytes [OF b(1) left0] by blast
  obtain b2 where b2: "bk_varuint crc_fp_read b1 = Inr (flags, b2)"
      "bk_left crc_left b2 = ?P @ ?T @ cs @ payload" "bk_ok crc_left (crc_ok ?tot) post b2"
    using crcb.bk_varuint_bytes [OF b1(3,2)] by blast
  obtain v b3 where b3: "(if prev \<noteq> None then blk (tl_ReadVaruint (bk_read crc_fp_read) (Inr b2)) else Inr (None, b2)) = Inr (v, b3)"
      "bk_left crc_left b3 = ?T @ cs @ payload" "bk_ok crc_left (crc_ok ?tot) post b3"
  proof (cases prev)
    case None
    with b2(2,3) that show thesis by simp
  next
    case (Some off)
    with b2(2) crcb.blk_varuint [OF b2(3), of off "?T @ cs @ payload"] that show thesis by auto
  qed
  obtain b4 where b4: "(if ts \<noteq> None then bk_timestamp crc_fp_read b3 else Inr (not_a_date_time, b3))
        = Inr (case ts of None \<Rightarrow> not_a_date_time | Some t \<Rightarrow> t, b4)"
      "bk_left crc_left b4 = cs @ payload" "bk_ok crc_left (crc_ok ?tot) post b4"
  proof (cases ts)
    case None
    with b3(2,3) that show thesis by simp
  next
    case (Some t)
    with b3(2) crcb.bk_timestamp_bytes [OF b3(3), of t "cs @ payload"] time that show thesis by auto
  qed
  have tot: "?tot = ?hdr @ cs @ payload @ post"
    using cs by (cases ck) (simp_all add: block_bytes_def stored_body_def data_header_def Let_def kDataBlock_def add.assoc)
  have seen: "snd (bk_base b4) = ?hdr"
  proof -
    have "crc_left (bk_base b4) = (cs @ payload) @ post"
      using bk_ok_split [OF b4(3)] b4(2) by simp
    with b4(3) show ?thesis unfolding tot bk_ok_def crc_ok_def by simp
  qed
  obtain y b5 where b5: "(if ck then sbind (read_checksum b4) (\<lambda>(c, b). Inr (Some c, b)) else Inr (None, b4)) = Inr (y, b5)"
      "bk_left crc_left b5 = payload" "bk_ok crc_left (crc_ok (?hdr @ (if ck then [0, 0, 0, 0] else []) @ payload @ post)) post b5"
      "y = (if ck then Some (le_word cs) else None)"
  proof (cases ck)
    case True
    have "length cs = 4" using cs True by simp
    from read_checksum_bytes [OF b4(3) [unfolded tot] b4(2) this seen] True that show thesis by auto
  next
    case False
    with b4 tot cs that show thesis by simp
  qed
  obtain b6 where b6: "bk_rest crc_fp_read b5 = Inr (payload, b6)" "bk_left crc_left b6 = []"
      "bk_ok crc_left (crc_ok (?hdr @ (if ck then [0, 0, 0, 0] else []) @ payload @ post)) post b6"
    using crcb.bk_rest_bytes [OF b5(3)] b5(2) by auto
  have seen6: "snd (bk_base b6) = ?hdr @ (if ck then [0, 0, 0, 0] else []) @ payload"
  proof -
    have "crc_left (bk_base b6) = post"
      using bk_ok_split [OF b6(3)] b6(2) by simp
    with b6(3) show ?thesis unfolding bk_ok_def crc_ok_def by simp
  qed
  have cf: "check_flags flags kPreviousOffset = (prev \<noteq> None, data_flags False (ts \<noteq> None) ck packed)"
    unfolding fl by (rule check_flags_data)
  have as: "mj_assert True = Inr ()" by simp
  have un: "(if packed then (case snappy_uncompress renv payload of None \<Rightarrow> Inl kDecompressionError | Some d \<Rightarrow> Inr d)
      else Inr payload) = (case stored_data renv packed payload of None \<Rightarrow> Inl kDecompressionError | Some d \<Rightarrow> Inr d)"
    by (simp add: stored_data_def)
  have ck: "(case y of None \<Rightarrow> False | Some c \<Rightarrow> verify_checksums s \<and> c \<noteq> fr_crc32 renv (snd (bk_base b6)))
      \<longleftrightarrow> ck \<and> verify_checksums s \<and> le_word cs \<noteq> block_checksum renv identifier flags prev ts payload"
    using b5(4) seen6 by (cases ck) (simp_all add: block_checksum_def)
  have step: "fr_Read renv s (int (length pre)) =
    sbind (case stored_data renv packed payload of None \<Rightarrow> Inl kDecompressionError | Some d \<Rightarrow> Inr d) (\<lambda>d.
      if ck \<and> verify_checksums s \<and> le_word cs \<noteq> block_checksum renv identifier flags prev ts payload
      then Inl kDataChecksumMismatch
      else (case id_to_record s identifier of
               None \<Rightarrow> Inl Thrown
             | Some r \<Rightarrow> Inr (\<lparr>it_index = int (length pre),
                 it_timestamp = (case ts of None \<Rightarrow> not_a_date_time | Some t \<Rightarrow> t), it_data = d, it_flags = flags,
                 it_record = r\<rparr>, s\<lparr>fptr := fst (bk_base b6)\<rparr>)))"
    unfolding fr_Read_def f(1) sbind_Inr c(1)
    by (simp only: prod.case option.case sbind_Inr Let_def b1(1) b2(1) cf b3(1) check_flags_data b4(1) b5(1) b6(1)
        un ck as simp_thms if_False if_True)
  show ?thesis
    unfolding step by (cases "stored_data renv packed payload") auto
qed

lemma fr_Read_data_block:
  assumes d: "fp_data (fptr s) = pre @ block_bytes kDataBlock (data_body env identifier flags prev ts ck payload) @ post"
    and fl: "flags = data_flags (prev \<noteq> None) (ts \<noteq> None) ck packed"
    and len: "length (data_body env identifier flags prev ts ck payload) < 2 ^ 63" "length pre < 2 ^ 63"
    and time: "\<And>x. ts = Some x \<Longrightarrow> btime_ok x"
    and rec: "id_to_record s identifier = Some r"
    and crc: "fr_crc32 renv = crc32 env"
    and un: "if packed then snappy_uncompress renv payload = Some x else x = payload"
  shows "\<exists>f. fr_Read renv s (int (length pre)) = Inr (\<lparr>it_index = int (length pre),
      it_timestamp = (case ts of None \<Rightarrow> not_a_date_time | Some t \<Rightarrow> t), it_data = x, it_flags = flags,
      it_record = r\<rparr>, s\<lparr>fptr := f\<rparr>)"
proof -
  let ?cs = "checksum_bytes env ck (data_header identifier flags prev ts ck (length payload)) payload"
  have body: "data_body env identifier flags prev ts ck payload = stored_body identifier flags prev ts ?cs payload"
    by (simp add: data_body_def stored_body_def)
  have cs: "length ?cs = (if ck then 4 else 0)" by (simp add: checksum_bytes_def)
  have "\<not> (ck \<and> le_word ?cs \<noteq> block_checksum renv identifier flags prev ts payload)"
    using crc by (simp add: checksum_bytes_def block_checksum_def)
  moreover have "stored_data renv packed payload = Some x" using un by (simp add: stored_data_def split: if_splits)
  ultimately show ?thesis
    using fr_Read_stored_block [OF d [unfolded body] fl cs len [unfolded body] time, of renv] rec by auto
qed

section \<open>Logs\<close>

text \<open>A log as a list of entries, and the blocks they stand for.\<close>

datatype log_entry =
    SchemaEntry u64 "byte list" "byte list"
  | DataEntry u64 "u64 option" "btime option" bool bool "byte list"
  | OtherEntry u64 "byte list"

fun entry_block :: "fw_env \<Rightarrow> log_entry \<Rightarrow> u64 \<times> byte list" where
  "entry_block env (SchemaEntry i name raw) = (kSchemaBlock, schema_body i name raw)"
| "entry_block env (DataEntry i prev ts ck packed payload) =
     (kDataBlock, data_body env i (data_flags (prev \<noteq> None) (ts \<noteq> None) ck packed) prev ts ck payload)"
| "entry_block env (OtherEntry ty body) = (ty, body)"

definition entry_bytes :: "fw_env \<Rightarrow> log_entry \<Rightarrow> byte list" where
  "entry_bytes env e = (case entry_block env e of (ty, body) \<Rightarrow> block_bytes ty body)"

definition entry_data :: "fr_env \<Rightarrow> bool \<Rightarrow> byte list \<Rightarrow> byte list option" where
  "entry_data renv packed payload = (if packed then snappy_uncompress renv payload else Some payload)"

text \<open>What a reader can read: a schema that parses comes before its data.\<close>

fun entries_ok :: "fr_env \<Rightarrow> u64 set \<Rightarrow> log_entry list \<Rightarrow> bool" where
  "entries_ok renv known [] = True"
| "entries_ok renv known (SchemaEntry i name raw # es) =
     (length name \<le> kMaxStringSize \<and> isl (BinarySchemaParser raw name) = False \<and> entries_ok renv (insert i known) es)"
| "entries_ok renv known (DataEntry i prev ts ck packed payload # es) =
     (i \<in> known \<and> (case ts of None \<Rightarrow> True | Some t \<Rightarrow> btime_ok t) \<and> entry_data renv packed payload \<noteq> None
      \<and> entries_ok renv known es)"
| "entries_ok renv known (OtherEntry ty body # es) = (ty \<in> {3, 4, 5} \<and> entries_ok renv known es)"

subsection \<open>One block\<close>

definition fp_in :: "byte list \<Rightarrow> file_ptr \<Rightarrow> bool" where
  "fp_in D f = (fp_data f = D \<and> fp_pos f \<le> length D)"

interpretation fpd: exact_stream fp_read fp_left "fp_in D" for D
proof unfold_locales
  fix s d rest
  assume *: "fp_in D s" "fp_left s = d @ rest"
  have "length (fp_left s) = length D - fp_pos s" using *(1) by (simp add: fp_in_def fp_left_def)
  moreover have "fp_pos s \<le> length D" "length (fp_left s) = length d + length rest"
    using * by (simp_all add: fp_in_def)
  ultimately have "fp_pos s + length d \<le> length D" by arith
  moreover have "drop (length d) (fp_left s) = rest" "take (length d) (fp_left s) = d" using *(2) by simp_all
  ultimately show "\<exists>t. fp_read s (length d) = (d, t) \<and> fp_left t = rest \<and> fp_in D t"
    using *(1) by (simp add: fp_read_def fp_left_def fp_in_def add.commute)
qed

interpretation fpb: block_base fp_read fp_left "fp_in D" for D ..

definition file_at :: "byte list \<Rightarrow> byte list \<Rightarrow> file_ptr" where
  "file_at D rest = \<lparr>fp_data = D, fp_pos = length D - length rest\<rparr>"

lemma file_at_unique: "fp_in D f \<Longrightarrow> fp_left f = rest \<Longrightarrow> f = file_at D rest"
  by (cases f) (auto simp: fp_in_def fp_left_def file_at_def)

lemma file_at_in: "fp_in D (file_at D rest)" "fp_data (file_at D rest) = D"
  by (simp_all add: fp_in_def file_at_def)

lemma file_at_left: "D = pre @ rest \<Longrightarrow> fp_left (file_at D rest) = rest"
  by (simp add: fp_left_def file_at_def)

lemma bk_end_at:
  assumes "bk_ok fp_left (fp_in D) post b" and "length D < 2 ^ 63"
  shows "bk_end b = Inr (file_at D post)"
proof -
  have b: "fp_data (bk_base b) = D" "fp_pos (bk_base b) \<le> length D" "0 \<le> bk_size b"
      "nat (bk_size b) \<le> length (fp_left (bk_base b))" "drop (nat (bk_size b)) (fp_left (bk_base b)) = post"
    using assms(1) by (simp_all add: bk_ok_def fp_in_def)
  have n: "fp_pos (bk_base b) + nat (bk_size b) \<le> length D" using b(1,2,4) by (simp add: fp_left_def)
  show ?thesis
  proof (cases "bk_size b > 0")
    case True
    let ?f = "(bk_base b)\<lparr>fp_pos := fp_pos (bk_base b) + nat (bk_size b)\<rparr>"
    have "bk_end b = Inr ?f"
      using True n assms(2) by (simp add: bk_end_def fp_ignore_def fp_Seek_def fp_Tell_def nat_add_distrib)
    moreover have "fp_in D ?f" "fp_left ?f = post"
      using b n by (auto simp: fp_in_def fp_left_def add.commute)
    ultimately show ?thesis using file_at_unique [of D ?f post] by simp
  next
    case False
    with b have "fp_in D (bk_base b)" "fp_left (bk_base b) = post" by (simp_all add: fp_in_def)
    from file_at_unique [OF this] False show ?thesis by (simp add: bk_end_def)
  qed
qed

lemma fp_Seek_at:
  assumes "fp_data f = pre @ rest" and "length pre < 2 ^ 63"
  shows "fp_Seek f (int (length pre)) = Inr (file_at (pre @ rest) rest)"
  using assms by (cases f) (simp add: fp_Seek_def file_at_def)

text \<open>Every block begins alike.\<close>

lemma fr_ReadBlock_header:
  assumes "fptr s = file_at D (block_bytes ty body @ post)" and "D = pre @ block_bytes ty body @ post"
    and "length D < 2 ^ 63" and "ty \<noteq> 0" and "ty \<le> kNumTypes"
  obtains f where "ReadHeader fp_read True (fptr s) = Inr (Some (ty, of_nat (length body)), f)"
    and "bk_ok fp_left (fp_in D) post (block_stream_of f (of_nat (length body)))"
    and "bk_left fp_left (block_stream_of f (of_nat (length body))) = body"
proof -
  have len: "length body < 2 ^ 63" using assms(2,3) by (simp add: block_bytes_def)
  have "fp_left (fptr s) = leb128 (unat ty) @ leb128 (length body) @ body @ post"
    using file_at_left [OF assms(2)] assms(1) by (simp add: block_bytes_def)
  from fpd.ex_header [OF _ this _ assms(4,5), of D True] file_at_in len assms(1)
  obtain f where f: "ReadHeader fp_read True (fptr s) = Inr (Some (ty, of_nat (length body)), f)"
      "fp_left f = body @ post" "fp_in D f" by auto
  with block_stream_of_bytes [OF len, of fp_left f post "fp_in D"] that show thesis by blast
qed

text \<open>What a reader knows when it has passed an entry at \<open>pos\<close>.\<close>

fun see_entry :: "file_reader \<Rightarrow> nat \<Rightarrow> log_entry \<Rightarrow> file_reader" where
  "see_entry s pos (SchemaEntry i name raw) =
     (if id_to_record s i \<noteq> None then s
      else s\<lparr>records := records s @ [\<lparr>rec_identifier = i, rec_flags = 0, rec_name = name, raw_schema = raw,
               rec_schema = projr (BinarySchemaParser raw name)\<rparr>],
             id_to_record := (id_to_record s)(i \<mapsto> length (records s)),
             name_to_record := (name_to_record s)(name \<mapsto> length (records s))\<rparr>)"
| "see_entry s pos (DataEntry i prev ts ck packed payload) = s\<lparr>final_item := max (int pos) (final_item s)\<rparr>"
| "see_entry s pos (OtherEntry ty body) = s"

fun entry_ok :: "log_entry \<Rightarrow> bool" where
  "entry_ok (SchemaEntry i name raw) = (length name \<le> kMaxStringSize \<and> isl (BinarySchemaParser raw name) = False)"
| "entry_ok (DataEntry i prev ts ck packed payload) = True"
| "entry_ok (OtherEntry ty body) = (ty \<in> {3, 4, 5})"

definition block_end :: "item_filter \<Rightarrow> int \<Rightarrow> int \<Rightarrow> log_entry \<Rightarrow> until" where
  "block_end flt start next_block e =
     (case e of
        DataEntry i _ _ _ _ _ \<Rightarrow> if filter_check flt i then Found start next_block else Next
      | _ \<Rightarrow> Next)"

lemma file_at_Tell: "D = pre @ rest \<Longrightarrow> fp_Tell (file_at D rest) = int (length pre)"
  by (simp add: fp_Tell_def file_at_def)

lemma bk_end_Tell:
  "bk_ok fp_left (fp_in D) post b \<Longrightarrow> fp_Tell (bk_base b) + bk_size b = int (length D) - int (length post)"
  using length_bk_left [of fp_left "fp_in D" post b] bk_ok_split [of fp_left "fp_in D" post b]
  by (auto simp: bk_ok_def fp_in_def fp_left_def fp_Tell_def)

lemma fr_ProcessSchema_bytes:
  assumes "bk_ok fp_left (fp_in D) post b" and "bk_left fp_left b = schema_body i name raw"
    and "length name \<le> kMaxStringSize" and "BinarySchemaParser raw name = Inr el"
  shows "\<exists>r c. fr_ProcessSchema s b flt
      = Inr (r, if id_to_record s i = None then map_option (\<lambda>f. filter_new_schema f i name) flt else flt,
          see_entry s pos (SchemaEntry i name raw), c)
    \<and> bk_ok fp_left (fp_in D) post c \<and> id_to_record (see_entry s pos (SchemaEntry i name raw)) i = Some r"
proof -
  obtain b1 where b1: "bk_varuint fp_read b = Inr (i, b1)"
      "bk_left fp_left b1 = leb128 (unat (0 :: u64)) @ string_bytes name @ raw" "bk_ok fp_left (fp_in D) post b1"
    using fpb.bk_varuint_bytes [OF assms(1), of i] assms(2) by (auto simp: schema_body_def)
  show ?thesis
  proof (cases "id_to_record s i")
    case (Some r)
    with b1 show ?thesis by (auto simp: fr_ProcessSchema_def)
  next
    case None
    obtain b2 where b2: "bk_varuint fp_read b1 = Inr (0, b2)" "bk_left fp_left b2 = string_bytes name @ raw"
        "bk_ok fp_left (fp_in D) post b2"
      using fpb.bk_varuint_bytes [OF b1(3,2)] by blast
    obtain b3 where b3: "bk_string fp_read b2 = Inr (name, b3)" "bk_left fp_left b3 = raw" "bk_ok fp_left (fp_in D) post b3"
      using fpb.bk_string_bytes [OF b2(3,2) assms(3)] by blast
    obtain b4 where b4: "bk_rest fp_read b3 = Inr (raw, b4)" "bk_ok fp_left (fp_in D) post b4"
      using fpb.bk_rest_bytes [OF b3(3)] b3(2) by blast
    with None b1(1) b2(1) b3(1) assms(4) show ?thesis by (auto simp: fr_ProcessSchema_def Let_def)
  qed
qed

lemma fr_ReadBlock_entry:
  assumes "fptr s = file_at D (entry_bytes env e @ post)" and "D = pre @ entry_bytes env e @ post"
    and "length D < 2 ^ 63" and "entry_ok e" and flt: "\<And>i n. filter_new_schema flt i n = flt"
  shows "fr_ReadBlock flt s
    = Inr (block_end flt (int (length pre)) (int (length pre) + int (length (entry_bytes env e))) e,
        flt, (see_entry s (length pre) e)\<lparr>fptr := file_at D post\<rparr>)"
proof -
  obtain ty body where ty: "entry_block env e = (ty, body)" by fastforce
  have e: "entry_bytes env e = block_bytes ty body" by (simp add: entry_bytes_def ty)
  have "ty \<noteq> 0 \<and> ty \<le> kNumTypes"
    using assms(4) ty by (cases e) (auto simp: kSchemaBlock_def kDataBlock_def kNumTypes_def kSeekMarker_def)
  then obtain f where f: "ReadHeader fp_read True (fptr s) = Inr (Some (ty, of_nat (length body)), f)"
      "bk_ok fp_left (fp_in D) post (block_stream_of f (of_nat (length body)))"
      "bk_left fp_left (block_stream_of f (of_nat (length body))) = body"
    using fr_ReadBlock_header [of s D ty body post pre] assms(1-3) unfolding e by metis
  let ?b = "block_stream_of f (of_nat (length body)) :: file_ptr block_stream"
  have tell: "fp_Tell (fptr s) = int (length pre)" using assms(1) file_at_Tell [OF assms(2)] by simp
  have next_block: "int (length D) - int (length post) = int (length pre) + int (length (entry_bytes env e))"
    using assms(2) by simp
  show ?thesis
  proof (cases e)
    case (SchemaEntry i name raw)
    then have b: "ty = kSchemaBlock" "body = schema_body i name raw" using ty by auto
    obtain el where el: "BinarySchemaParser raw name = Inr el" "length name \<le> kMaxStringSize"
      using assms(4) SchemaEntry by (cases "BinarySchemaParser raw name") auto
    obtain r c where c: "fr_ProcessSchema s ?b (Some flt)
        = Inr (r, Some flt, see_entry s (length pre) (SchemaEntry i name raw), c)" "bk_ok fp_left (fp_in D) post c"
      using fr_ProcessSchema_bytes [OF f(2) _ el(2,1), of i s "Some flt" "length pre"] f(3) b(2) flt by auto
    have ns: "kSchemaBlock \<noteq> kDataBlock" by (simp add: kSchemaBlock_def kDataBlock_def)
    show ?thesis
      using f(1) c(1) bk_end_at [OF c(2) assms(3)] ns
      by (simp add: fr_ReadBlock_def Let_def b(1) SchemaEntry block_end_def del: see_entry.simps)
  next
    case (DataEntry i prev ts ck packed payload)
    then have b: "ty = kDataBlock" using ty by simp
    obtain rest where "body = leb128 (unat i) @ rest"
      using ty DataEntry by (auto simp: data_body_def data_prefix_def)
    then obtain c where c: "bk_varuint fp_read ?b = Inr (i, c)" "bk_ok fp_left (fp_in D) post c"
      using fpb.bk_varuint_bytes [OF f(2), of i rest] f(3) by auto
    show ?thesis
      using f(1) c(1) bk_end_at [OF c(2) assms(3)] bk_end_Tell [OF c(2)] tell next_block
      by (simp add: fr_ReadBlock_def Let_def b DataEntry block_end_def)
  next
    case (OtherEntry u bd)
    then have "ty \<noteq> kDataBlock" "ty \<noteq> kSchemaBlock"
      using assms(4) ty by (auto simp: kSchemaBlock_def kDataBlock_def)
    with f(1) bk_end_at [OF f(2) assms(3)] show ?thesis
      by (simp add: fr_ReadBlock_def Let_def OtherEntry block_end_def)
  qed
qed

subsection \<open>All blocks\<close>

definition entries_bytes :: "fw_env \<Rightarrow> log_entry list \<Rightarrow> byte list" where
  "entries_bytes env es = concat (map (entry_bytes env) es)"

lemma entries_bytes_simps [simp]:
  "entries_bytes env [] = []" "entries_bytes env (e # es) = entry_bytes env e @ entries_bytes env es"
  by (simp_all add: entries_bytes_def)

definition all_items :: item_filter where
  "all_items = ItemFilter \<lparr>ctx_records = [], unknown_names = {}, ctx_ids = {}\<rparr>"

lemma all_items_simps [simp]:
  "filter_new_schema all_items i n = all_items" "filter_check all_items i"
  "filter_new_schema NoFilter i n = NoFilter" "\<not> filter_check NoFilter i"
  by (simp_all add: all_items_def filter_new_schema_def filter_check_def)

fun see_entries :: "fw_env \<Rightarrow> file_reader \<Rightarrow> nat \<Rightarrow> log_entry list \<Rightarrow> file_reader" where
  "see_entries env s pos [] = s"
| "see_entries env s pos (e # es) = see_entries env (see_entry s pos e) (pos + length (entry_bytes env e)) es"

lemma see_entry_fptr [simp]:
  "see_entry (s\<lparr>fptr := f\<rparr>) pos e = (see_entry s pos e)\<lparr>fptr := f\<rparr>" "fptr (see_entry s pos e) = fptr s"
  by (cases e; simp)+

lemma see_entries_fptr [simp]: "see_entries env (s\<lparr>fptr := f\<rparr>) pos es = (see_entries env s pos es)\<lparr>fptr := f\<rparr>"
  by (induction es arbitrary: s pos) simp_all

lemma fr_ReadUntil_at:
  assumes "fp_data (fptr s) = pre @ rest" and "length (pre @ rest) < 2 ^ 63"
  shows "fr_ReadUntil flt s (int (length pre)) = fr_ReadUntil_loop flt (s\<lparr>fptr := file_at (pre @ rest) rest\<rparr>)"
  using fp_Seek_at [OF assms(1)] assms(2) by (simp add: fr_ReadUntil_def)

lemma fr_ReadUntil_entry:
  assumes "fp_data (fptr s) = pre @ entry_bytes env e @ post" and "length (pre @ entry_bytes env e @ post) < 2 ^ 63"
    and "entry_ok e" and "\<And>i n. filter_new_schema flt i n = flt"
  shows "fr_ReadUntil flt s (int (length pre))
    = (case block_end flt (int (length pre)) (int (length pre) + int (length (entry_bytes env e))) e of
         Found a b \<Rightarrow> Inr ((a, b), flt, (see_entry s (length pre) e)\<lparr>fptr := file_at (pre @ entry_bytes env e @ post) post\<rparr>)
       | _ \<Rightarrow> fr_ReadUntil flt ((see_entry s (length pre) e)\<lparr>fptr := file_at (pre @ entry_bytes env e @ post) post\<rparr>)
                (int (length (pre @ entry_bytes env e))))"
proof -
  let ?D = "pre @ entry_bytes env e @ post"
  let ?s = "s\<lparr>fptr := file_at ?D (entry_bytes env e @ post)\<rparr>"
  let ?t = "(see_entry s (length pre) e)\<lparr>fptr := file_at ?D post\<rparr>"
  have "fr_ReadBlock flt ?s = Inr (block_end flt (int (length pre)) (int (length pre) + int (length (entry_bytes env e))) e, flt, ?t)"
    using fr_ReadBlock_entry [of ?s ?D env e post pre flt] assms by simp
  moreover have "fr_ReadUntil flt ?t (int (length (pre @ entry_bytes env e))) = fr_ReadUntil_loop flt ?t"
    using fr_ReadUntil_at [of ?t "pre @ entry_bytes env e" post flt] assms(2) by (simp add: file_at_in)
  ultimately show ?thesis
    unfolding fr_ReadUntil_at [OF assms(1,2)] fr_ReadUntil_loop.simps [of flt ?s]
    by (auto simp: block_end_def split: log_entry.split until.split if_splits)
qed

lemma fr_ReadUntil_eof:
  assumes "fp_data (fptr s) = pre" and "length pre < 2 ^ 63"
  shows "fr_ReadUntil flt s (int (length pre)) = Inr ((-1, -1), flt, s\<lparr>fptr := file_at pre []\<rparr>)"
proof -
  have "tl_ReadVaruint fp_read (file_at pre []) = Inr (None, file_at pre [])"
    by (simp add: tl_ReadVaruint_def tl_ReadVaruint_loop.simps [of fp_read 0] tl_ReadScalar_def fp_read_def file_at_def)
  then show ?thesis
    using fr_ReadUntil_at [of s pre "[]" flt] assms
    by (simp add: fr_ReadUntil_loop.simps [of flt] fr_ReadBlock_def ReadHeader_def Let_def)
qed

text \<open>The items of a log for a reader in state \<open>s\<close>.\<close>

definition entry_items :: "fr_env \<Rightarrow> file_reader \<Rightarrow> nat \<Rightarrow> log_entry \<Rightarrow> item list" where
  "entry_items renv s pos e =
     (case e of
        DataEntry i prev ts ck packed payload \<Rightarrow>
          [\<lparr>it_index = int pos, it_timestamp = (case ts of None \<Rightarrow> not_a_date_time | Some t \<Rightarrow> t),
            it_data = the (entry_data renv packed payload),
            it_flags = data_flags (prev \<noteq> None) (ts \<noteq> None) ck packed, it_record = the (id_to_record s i)\<rparr>]
      | _ \<Rightarrow> [])"

fun log_items :: "fw_env \<Rightarrow> fr_env \<Rightarrow> file_reader \<Rightarrow> nat \<Rightarrow> log_entry list \<Rightarrow> item list" where
  "log_items env renv s pos [] = []"
| "log_items env renv s pos (e # es) =
     entry_items renv s pos e @ log_items env renv (see_entry s pos e) (pos + length (entry_bytes env e)) es"

lemma log_items_fptr [simp]:
  "entry_items renv (s\<lparr>fptr := f\<rparr>) pos e = entry_items renv s pos e"
  "log_items env renv (s\<lparr>fptr := f\<rparr>) pos es = log_items env renv s pos es"
proof -
  show 1: "entry_items renv (s\<lparr>fptr := f\<rparr>) pos e = entry_items renv s pos e" for s pos e
    by (simp add: entry_items_def split: log_entry.split)
  show "log_items env renv (s\<lparr>fptr := f\<rparr>) pos es = log_items env renv s pos es"
    by (induction es arbitrary: s pos) (simp_all add: 1)
qed

lemma entries_ok_Cons:
  assumes "entries_ok renv known (e # es)" and "\<And>i. i \<in> known \<Longrightarrow> id_to_record s i \<noteq> None"
  shows "entry_ok e \<and> (\<exists>known'. entries_ok renv known' es \<and> (\<forall>i \<in> known'. id_to_record (see_entry s pos e) i \<noteq> None))"
proof (cases e)
  case (SchemaEntry i name raw)
  with assms show ?thesis by (auto intro!: exI [of _ "insert i known"])
next
  case (DataEntry i prev ts ck packed payload)
  with assms show ?thesis by (auto intro!: exI [of _ known])
next
  case (OtherEntry ty body)
  with assms show ?thesis by (auto intro!: exI [of _ known])
qed

abbreviation collect :: "item \<Rightarrow> item list \<Rightarrow> bool \<times> item list" where
  "collect \<equiv> \<lambda>i acc. (False, acc @ [i])"

lemma fr_fold_step:
  assumes e: "e = DataEntry i prev ts ck packed payload"
    and d: "fp_data (fptr s) = pre @ entry_bytes env e @ post" "length (pre @ entry_bytes env e @ post) < 2 ^ 63"
    and ok: "case ts of None \<Rightarrow> True | Some t \<Rightarrow> btime_ok t" "entry_data renv packed payload \<noteq> None"
      "id_to_record s i \<noteq> None" "fr_crc32 renv = crc32 env"
    and f: "final_item s \<ge> int (length pre)" and same: "id_to_record s0 i = id_to_record s i"
  shows "fr_fold renv collect all_items s (int (length pre)) acc
    = sbind (fr_ReadUntil all_items (s\<lparr>fptr := file_at (pre @ entry_bytes env e @ post) post\<rparr>)
        (int (length (pre @ entry_bytes env e)))) (\<lambda>((a, _), flt, s).
      fr_fold renv collect flt s a (acc @ entry_items renv s0 (length pre) e))"
proof -
  let ?D = "pre @ entry_bytes env e @ post"
  let ?flags = "data_flags (prev \<noteq> None) (ts \<noteq> None) ck packed"
  let ?body = "data_body env i ?flags prev ts ck payload"
  have blk: "entry_bytes env e = block_bytes kDataBlock ?body" by (simp add: e entry_bytes_def)
  have len: "length ?body < 2 ^ 63" "length pre < 2 ^ 63" using d(2) by (simp_all add: blk block_bytes_def)
  obtain x where x: "entry_data renv packed payload = Some x" using ok(2) by blast
  then have un: "if packed then snappy_uncompress renv payload = Some x else x = payload"
    by (auto simp: entry_data_def split: if_splits)
  obtain r where r: "id_to_record s i = Some r" using ok(3) by blast
  obtain g where g: "fr_Read renv s (int (length pre)) = Inr (\<lparr>it_index = int (length pre),
      it_timestamp = (case ts of None \<Rightarrow> not_a_date_time | Some t \<Rightarrow> t), it_data = x, it_flags = ?flags,
      it_record = r\<rparr>, s\<lparr>fptr := g\<rparr>)"
    using fr_Read_data_block [OF d(1) [unfolded blk] refl len _ r ok(4) un] ok(1) by (auto split: option.splits)
  have gd: "fp_data g = ?D" using fr_Read_data [OF g] d(1) by simp
  have see: "see_entry s (length pre) e = s" using f by (simp add: e max_def)
  have u: "fr_ReadUntil all_items (s\<lparr>fptr := g\<rparr>) (int (length pre))
      = Inr ((int (length pre), int (length pre) + int (length (entry_bytes env e))), all_items, s\<lparr>fptr := file_at ?D post\<rparr>)"
    using fr_ReadUntil_entry [of "s\<lparr>fptr := g\<rparr>" pre env e post all_items] gd d(2) see
    by (simp add: e block_end_def)
  have items: "entry_items renv s0 (length pre) e = [\<lparr>it_index = int (length pre),
      it_timestamp = (case ts of None \<Rightarrow> not_a_date_time | Some t \<Rightarrow> t), it_data = x, it_flags = ?flags,
      it_record = r\<rparr>]"
    using x r same by (simp add: e entry_items_def)
  show ?thesis
    unfolding fr_fold.simps [of renv collect all_items s] g sbind_Inr items
    by (simp add: u fr_next_def split_def sbind_assoc)
qed

lemma fr_read_log:
  assumes "fp_data (fptr s) = pre @ entries_bytes env es" and "length (pre @ entries_bytes env es) < 2 ^ 63"
    and "entries_ok renv known es" and "\<And>i. i \<in> known \<Longrightarrow> id_to_record s i \<noteq> None"
    and "fr_crc32 renv = crc32 env"
  shows "sbind (fr_ReadUntil all_items s (int (length pre))) (\<lambda>((a, _), flt, s). fr_fold renv collect flt s a acc)
    = Inr (acc @ log_items env renv s (length pre) es, all_items,
        (see_entries env s (length pre) es)\<lparr>fptr := file_at (pre @ entries_bytes env es) []\<rparr>)"
  using assms(1-4)
proof (induction es arbitrary: s pre known acc)
  case Nil
  then show ?case by (simp add: fr_ReadUntil_eof fr_fold.simps [of renv collect all_items _ "-1"])
next
  case (Cons e es)
  let ?D = "pre @ entry_bytes env e @ entries_bytes env es"
  let ?t = "(see_entry s (length pre) e)\<lparr>fptr := file_at ?D (entries_bytes env es)\<rparr>"
  obtain known' where k: "entry_ok e" "entries_ok renv known' es"
      "\<And>i. i \<in> known' \<Longrightarrow> id_to_record (see_entry s (length pre) e) i \<noteq> None"
    using entries_ok_Cons [OF Cons.prems(3,4), where pos = "length pre"] by blast
  have d: "fp_data (fptr s) = ?D" "length ?D < 2 ^ 63" using Cons.prems(1,2) by simp_all
  have IH: "sbind (fr_ReadUntil all_items ?t (int (length (pre @ entry_bytes env e)))) (\<lambda>((a, _), flt, s). fr_fold renv collect flt s a acc')
    = Inr (acc' @ log_items env renv ?t (length (pre @ entry_bytes env e)) es, all_items,
        (see_entries env ?t (length (pre @ entry_bytes env e)) es)\<lparr>fptr := file_at ?D []\<rparr>)" for acc'
    using Cons.IH [of ?t "pre @ entry_bytes env e" known' acc'] d k(2,3) by (simp add: file_at_in)
  note until = fr_ReadUntil_entry [OF d k(1), of all_items, simplified]
  show ?case
  proof (cases e)
    case (DataEntry i prev ts ck packed payload)
    have find: "fr_ReadUntil all_items s (int (length pre))
        = Inr ((int (length pre), int (length pre) + int (length (entry_bytes env e))), all_items, ?t)"
      using until by (simp add: DataEntry block_end_def)
    have ok: "case ts of None \<Rightarrow> True | Some t \<Rightarrow> btime_ok t" "entry_data renv packed payload \<noteq> None"
      "id_to_record s i \<noteq> None"
      using Cons.prems(3,4) by (simp_all add: DataEntry)
    have t: "fp_data (fptr ?t) = ?D" "id_to_record ?t i = id_to_record s i" "int (length pre) \<le> final_item ?t"
      "?t\<lparr>fptr := file_at ?D (entries_bytes env es)\<rparr> = ?t"
      by (simp_all add: DataEntry file_at_in)
    have "id_to_record ?t i \<noteq> None" unfolding t(2) by (rule ok(3))
    note step = fr_fold_step [OF DataEntry t(1) d(2) ok(1,2) this assms(5) t(3) t(2) [symmetric], of acc]
    have "fr_fold renv collect all_items ?t (int (length pre)) acc
        = sbind (fr_ReadUntil all_items ?t (int (length (pre @ entry_bytes env e)))) (\<lambda>((a, _), flt, u).
            fr_fold renv collect flt u a (acc @ entry_items renv s (length pre) e))"
      using step unfolding t(4) .
    with find IH show ?thesis by simp
  next
    case (SchemaEntry i name raw)
    with until IH [of acc] show ?thesis by (simp add: block_end_def entry_items_def)
  next
    case (OtherEntry ty body)
    with until IH [of acc] show ?thesis by (simp add: block_end_def entry_items_def)
  qed
qed

subsection \<open>Opening a log\<close>

definition fresh_reader :: "bool \<Rightarrow> file_ptr \<Rightarrow> file_reader" where
  "fresh_reader v f = \<lparr>verify_checksums = v, fptr = f, records = [], id_to_record = Map.empty,
     name_to_record = Map.empty, final_item = -1, has_index = False, all_records_found = False,
     fr_start = int (length log_header)\<rparr>"

lemma log_header_bytes: "log_header = ascii ''TLOG0003'' @ [0]" and length_log_header: "length log_header = 9"
  by (simp_all add: log_header_def leb128_small ascii_def)

lemma fr_open_log:
  assumes "D = log_header @ rest"
  shows "fr_open v D = fr_MaybeProcessIndex (fresh_reader v (file_at D rest))"
proof -
  let ?f = "\<lparr>fp_data = D, fp_pos = 0\<rparr>"
  have f: "fp_in D ?f" "fp_left ?f = ascii ''TLOG0003'' @ leb128 (unat (0 :: u64)) @ rest"
    using assms by (simp_all add: fp_in_def fp_left_def log_header_bytes leb128_small)
  obtain g where g: "fp_read ?f 8 = (ascii ''TLOG0003'', g)" "fp_left g = leb128 (unat (0 :: u64)) @ rest" "fp_in D g"
    using fpd.rd_exact_n [OF f, of 8] by (auto simp: ascii_def)
  obtain h where h: "tl_ReadVaruint fp_read g = Inr (Some 0, h)" "fp_left h = rest" "fp_in D h"
    using fpd.ex_varuint [OF g(3,2)] by blast
  have "h = file_at D rest" using h(2,3) file_at_unique by blast
  moreover have "fp_Tell (file_at D rest) = int (length log_header)" using file_at_Tell [OF assms] .
  ultimately show ?thesis by (simp add: fr_open_def g(1) h(1) fresh_reader_def)
qed

lemma fr_MaybeProcessIndex_none:
  assumes "fp_data (fptr s) = D" and "8 \<le> length D" and "length D < 2 ^ 63"
    and "drop (length D - 8) D \<noteq> ascii ''TLOGIDEX''"
  shows "\<exists>f. fr_MaybeProcessIndex s = Inr (s\<lparr>fptr := f\<rparr>) \<and> fp_data f = D"
proof -
  have size: "fp_size (fptr s) - 8 = int (length D - 8)" using assms(1,2) by (simp add: fp_size_def)
  have less: "length D - 8 < 2 ^ 63" using assms(3) by simp
  obtain f where f: "fp_Seek (fptr s) (fp_size (fptr s) - 8) = Inr f" "fp_left f = drop (length D - 8) D" "fp_data f = D"
    using fp_Seek_front [OF _ less, of "fptr s"] assms(1) unfolding size by auto
  have "fp_read f 8 = (drop (length D - 8) D, f\<lparr>fp_pos := fp_pos f + 8\<rparr>)"
    using f(2,3) assms(2) by (simp add: fp_read_def fp_left_def)
  with f(1,3) assms(4) show ?thesis by (auto simp: fr_MaybeProcessIndex_def)
qed

lemma fr_items_all: "fr_items s [] = all_items"
  by (simp add: fr_items_def all_items_def)

text \<open>
  The items of a log in terms of its entries alone: with the record of the schema that the reader
  has for the identifier, from the index (\<open>recs\<close>) or else from the first schema block.
\<close>

definition schema_entry_record :: "u64 \<Rightarrow> byte list \<Rightarrow> byte list \<Rightarrow> fr_record" where
  "schema_entry_record i name raw = \<lparr>rec_identifier = i, rec_flags = 0, rec_name = name, raw_schema = raw,
     rec_schema = projr (BinarySchemaParser raw name)\<rparr>"

definition learn_schema :: "log_entry \<Rightarrow> (u64 \<rightharpoonup> fr_record) \<Rightarrow> (u64 \<rightharpoonup> fr_record)" where
  "learn_schema e recs =
     (case e of
        SchemaEntry i name raw \<Rightarrow> if recs i = None then recs(i \<mapsto> schema_entry_record i name raw) else recs
      | _ \<Rightarrow> recs)"

type_synonym item_view = "int \<times> btime \<times> byte list \<times> u64 \<times> fr_record"

definition view_item :: "file_reader \<Rightarrow> item \<Rightarrow> item_view" where
  "view_item s i = (it_index i, it_timestamp i, it_data i, it_flags i, records s ! it_record i)"

lemma view_item_fptr [simp]: "view_item (s\<lparr>fptr := f\<rparr>) = view_item s"
  by (rule ext) (simp add: view_item_def)

fun log_view :: "fw_env \<Rightarrow> fr_env \<Rightarrow> (u64 \<rightharpoonup> fr_record) \<Rightarrow> nat \<Rightarrow> log_entry list \<Rightarrow> item_view list" where
  "log_view env renv recs pos [] = []"
| "log_view env renv recs pos (e # es) =
     (case e of
        DataEntry i prev ts ck packed payload \<Rightarrow>
          [(int pos, case ts of None \<Rightarrow> not_a_date_time | Some t \<Rightarrow> t, the (entry_data renv packed payload),
            data_flags (prev \<noteq> None) (ts \<noteq> None) ck packed, the (recs i))]
      | _ \<Rightarrow> [])
     @ log_view env renv (learn_schema e recs) (pos + length (entry_bytes env e)) es"

definition recs_ok :: "file_reader \<Rightarrow> (u64 \<rightharpoonup> fr_record) \<Rightarrow> bool" where
  "recs_ok s recs = (\<forall>i. case id_to_record s i of
     None \<Rightarrow> recs i = None
   | Some r \<Rightarrow> r < length (records s) \<and> rec_identifier (records s ! r) = i \<and> recs i = Some (records s ! r))"

lemma recs_ok_None: "recs_ok s recs \<Longrightarrow> id_to_record s i = None \<longleftrightarrow> recs i = None"
  by (auto simp: recs_ok_def split: option.splits dest: spec [of _ i])

lemma recs_ok_Some:
  "recs_ok s recs \<Longrightarrow> id_to_record s i = Some r \<Longrightarrow>
   r < length (records s) \<and> rec_identifier (records s ! r) = i \<and> recs i = Some (records s ! r)"
  by (auto simp: recs_ok_def split: option.splits dest: spec [of _ i])

lemma recs_ok_irrelevant [simp]:
  "recs_ok (s\<lparr>final_item := x\<rparr>) recs = recs_ok s recs" "recs_ok (s\<lparr>fptr := f\<rparr>) recs = recs_ok s recs"
  by (simp_all add: recs_ok_def cong: option.case_cong)

lemma recs_ok_see:
  assumes "recs_ok s recs"
  shows "recs_ok (see_entry s pos e) (learn_schema e recs)"
proof (cases e)
  case (SchemaEntry i name raw)
  show ?thesis
  proof (cases "id_to_record s i")
    case None
    then have new: "learn_schema e recs = recs(i \<mapsto> schema_entry_record i name raw)"
      using recs_ok_None [OF assms] by (simp add: learn_schema_def SchemaEntry)
    show ?thesis unfolding recs_ok_def
    proof
      fix j
      show "case id_to_record (see_entry s pos e) j of
          None \<Rightarrow> learn_schema e recs j = None
        | Some r \<Rightarrow> r < length (records (see_entry s pos e)) \<and> rec_identifier (records (see_entry s pos e) ! r) = j
            \<and> learn_schema e recs j = Some (records (see_entry s pos e) ! r)"
        using recs_ok_Some [OF assms, of j] recs_ok_None [OF assms, of j] None unfolding new
        by (cases "j = i"; cases "id_to_record s j")
          (auto simp: SchemaEntry nth_append schema_entry_record_def)
    qed
  next
    case (Some r)
    with recs_ok_Some [OF assms Some] assms show ?thesis by (simp add: SchemaEntry learn_schema_def)
  qed
qed (use assms in \<open>simp_all add: learn_schema_def\<close>)

lemma see_records: "\<exists>rs. records (see_entries env s pos es) = records s @ rs"
proof (induction es arbitrary: s pos)
  case (Cons e es)
  have "\<exists>rs. records (see_entry s pos e) = records s @ rs" by (cases e) auto
  with Cons show ?case by (metis append.assoc see_entries.simps(2))
qed simp

lemma log_items_view:
  "entries_ok renv known es \<Longrightarrow> (\<And>i. i \<in> known \<Longrightarrow> id_to_record s i \<noteq> None) \<Longrightarrow> recs_ok s recs \<Longrightarrow>
   map (view_item (see_entries env s pos es)) (log_items env renv s pos es) = log_view env renv recs pos es"
proof (induction es arbitrary: s pos recs known)
  case (Cons e es)
  let ?t = "see_entry s pos e" and ?p = "pos + length (entry_bytes env e)"
  obtain known' where k: "entries_ok renv known' es" "\<And>i. i \<in> known' \<Longrightarrow> id_to_record ?t i \<noteq> None"
    using entries_ok_Cons [OF Cons.prems(1,2), where pos = pos] by blast
  obtain rs where rs: "records (see_entries env ?t ?p es) = records ?t @ rs" using see_records by blast
  note tail = Cons.IH [OF k recs_ok_see [OF Cons.prems(3)], where pos = ?p]
  show ?case
  proof (cases e)
    case (DataEntry i prev ts ck packed payload)
    obtain r where "id_to_record s i = Some r" using Cons.prems(1,2) DataEntry by auto
    with recs_ok_Some [OF Cons.prems(3)] have "r < length (records s)" "recs i = Some (records s ! r)"
        "id_to_record s i = Some r" by auto
    then have "map (view_item (see_entries env s pos (e # es))) (entry_items renv s pos e)
        = [(int pos, case ts of None \<Rightarrow> not_a_date_time | Some t \<Rightarrow> t, the (entry_data renv packed payload),
            data_flags (prev \<noteq> None) (ts \<noteq> None) ck packed, the (recs i))]"
      using rs by (simp add: entry_items_def view_item_def DataEntry nth_append)
    with tail show ?thesis by (simp add: DataEntry)
  qed (use tail in \<open>simp_all add: entry_items_def\<close>)
qed simp

lemma entries_log_bytes: "log_bytes (map (entry_block env) es) = log_header @ entries_bytes env es"
proof -
  have "(\<lambda>(ty, body). block_bytes ty body) \<circ> entry_block env = entry_bytes env"
    by (rule ext) (simp add: entry_bytes_def)
  then show ?thesis by (simp add: log_bytes_def entries_bytes_def)
qed

lemma read_items_view:
  assumes "fp_data (fptr s) = log_header @ entries_bytes env es" and "fr_start s = int (length log_header)"
    and "recs_ok s recs" and "length (log_header @ entries_bytes env es) < 2 ^ 63" and "entries_ok renv {} es"
    and "fr_crc32 renv = crc32 env"
  shows "\<exists>items s'. fr_read_items renv s [] (-1) = Inr (items, all_items, s')
    \<and> map (view_item s') items = log_view env renv recs (length log_header) es"
proof -
  note r = fr_read_log [OF assms(1,4,5) _ assms(6), of "[]", simplified]
  let ?items = "log_items env renv s (length log_header) es"
  let ?s' = "(see_entries env s (length log_header) es)\<lparr>fptr := file_at (log_header @ entries_bytes env es) []\<rparr>"
  have "fr_read_items renv s [] (-1) = Inr (?items, all_items, ?s')"
    unfolding fr_read_items_def fr_begin_def fr_items_all assms(2)
    using r by (simp add: sbind_assoc split_def)
  moreover have "map (view_item (see_entries env s (length log_header) es)) ?items
      = log_view env renv recs (length log_header) es"
    by (rule log_items_view [OF assms(5) _ assms(3)]) simp
  then have "map (view_item ?s') ?items = log_view env renv recs (length log_header) es"
    by (simp add: view_item_def)
  ultimately show ?thesis by blast
qed

lemma open_without_index:
  assumes "D = log_header @ rest" and "length D < 2 ^ 63" and "drop (length D - 8) D \<noteq> ascii ''TLOGIDEX''"
  shows "\<exists>s. fr_open v D = Inr s \<and> fp_data (fptr s) = D \<and> fr_start s = int (length log_header) \<and> recs_ok s Map.empty"
proof -
  let ?s = "fresh_reader v (file_at D rest)"
  have D: "fp_data (fptr ?s) = D" "8 \<le> length D"
    using assms(1) by (simp_all add: fresh_reader_def file_at_in length_log_header)
  obtain f where f: "fr_MaybeProcessIndex ?s = Inr (?s\<lparr>fptr := f\<rparr>)" "fp_data f = D"
    using fr_MaybeProcessIndex_none [OF D assms(2,3)] by blast
  have "recs_ok (fresh_reader v g) Map.empty" for g by (simp add: recs_ok_def fresh_reader_def)
  with f show ?thesis unfolding fr_open_log [OF assms(1)] by (auto simp: fresh_reader_def)
qed

subsection \<open>Opening a log that has an index\<close>

text \<open>The records that the index of a writer's schemas stands for.\<close>

definition indexed :: "(u64 \<times> schema_record) list \<Rightarrow> u64 \<rightharpoonup> fr_record" where
  "indexed sch i = map_option (\<lambda>r. schema_entry_record i (sc_name r) (sc_schema r)) (map_of sch i)"

lemma fr_local_records_index:
  "fp_in D f \<Longrightarrow> fp_left f = concat (map index_element sch) @ rest \<Longrightarrow>
   \<exists>g. fr_local_records (length sch) f
     = Inr (map (\<lambda>(i, r). (i, sint (the (schema_position r)), sint (last_position r))) sch, g)
     \<and> fp_left g = rest \<and> fp_in D g"
proof (induction sch arbitrary: f)
  case (Cons p sch)
  obtain i r where p: "p = (i, r)" by force
  let ?more = "concat (map index_element sch) @ rest"
  have left: "fp_left f = leb128 (unat i) @ le_bytes 8 (the (schema_position r)) @ le_bytes 8 (last_position r) @ ?more"
    using Cons.prems(2) by (simp add: p index_element_def [of "(i, r)"])
  obtain f1 where f1: "tl_ReadVaruint fp_read f = Inr (Some i, f1)" "fp_in D f1"
      "fp_left f1 = le_bytes 8 (the (schema_position r)) @ le_bytes 8 (last_position r) @ ?more"
    using fpd.ex_varuint [OF Cons.prems(1) left] by blast
  have le: "length (le_bytes 8 w) = 8" "le_word (le_bytes 8 w) = w" for w :: u64
    by (simp, rule le_word_le_bytes_full) simp
  obtain f2 where f2: "tl_ReadScalar fp_read 8 f1 = (Some (the (schema_position r)), f2)" "fp_in D f2"
      "fp_left f2 = le_bytes 8 (last_position r) @ ?more"
    using fpd.ex_scalar [OF f1(2,3) le(1), where ?'a = 64] unfolding le(2) by blast
  obtain f3 where f3: "tl_ReadScalar fp_read 8 f2 = (Some (last_position r), f3)" "fp_in D f3" "fp_left f3 = ?more"
    using fpd.ex_scalar [OF f2(2,3) le(1), where ?'a = 64] unfolding le(2) by blast
  from Cons.IH [OF f3(2,3)] f1(1) f2(1) f3(1) show ?case by (auto simp: p some_value_def)
qed simp

definition schema_in :: "byte list \<Rightarrow> fw_env \<Rightarrow> u64 \<times> schema_record \<Rightarrow> bool" where
  "schema_in D env p =
     (\<exists>pre post. D = pre @ entry_bytes env (SchemaEntry (fst p) (sc_name (snd p)) (sc_schema (snd p))) @ post
        \<and> sint (the (schema_position (snd p))) = int (length pre)
        \<and> entry_ok (SchemaEntry (fst p) (sc_name (snd p)) (sc_schema (snd p))))"

lemma fr_load_schemas_index:
  assumes "length D < 2 ^ 63"
  shows "fp_data (fptr s) = D \<Longrightarrow> recs_ok s recs \<Longrightarrow> \<forall>p \<in> set sch. schema_in D env p \<Longrightarrow>
   \<exists>t. fr_load_schemas (map (\<lambda>(i, r). (i, sint (the (schema_position r)), sint (last_position r))) sch) s = Inr t
     \<and> fp_data (fptr t) = D \<and> fr_start t = fr_start s \<and> recs_ok t (indexed sch ++ recs)"
proof (induction sch arbitrary: s recs)
  case Nil
  have "indexed [] ++ recs = recs" by (rule ext) (simp add: indexed_def map_add_def split: option.split)
  with Nil show ?case by simp
next
  case (Cons p sch)
  obtain i r where p: "p = (i, r)" by force
  let ?e = "SchemaEntry i (sc_name r) (sc_schema r)"
  obtain pre post where e: "D = pre @ entry_bytes env ?e @ post" "sint (the (schema_position r)) = int (length pre)"
      "entry_ok ?e"
    using Cons.prems(3) by (auto simp: p schema_in_def)
  have b: "entry_bytes env ?e = block_bytes kSchemaBlock (schema_body i (sc_name r) (sc_schema r))"
    by (simp add: entry_bytes_def)
  let ?body = "schema_body i (sc_name r) (sc_schema r)"
  let ?f = "file_at D (block_bytes kSchemaBlock ?body @ post)"
  have seek: "fp_Seek (fptr s) (int (length pre)) = Inr ?f"
    using fp_Seek_at [of "fptr s" pre "block_bytes kSchemaBlock ?body @ post"] Cons.prems(1) e(1) b assms by simp
  have k: "kSchemaBlock \<noteq> 0" "kSchemaBlock \<le> kNumTypes" by (simp_all add: kSchemaBlock_def kNumTypes_def kSeekMarker_def)
  obtain g where g: "ReadHeader fp_read True ?f = Inr (Some (kSchemaBlock, of_nat (length ?body)), g)"
      "bk_ok fp_left (fp_in D) post (block_stream_of g (of_nat (length ?body)))"
      "bk_left fp_left (block_stream_of g (of_nat (length ?body))) = ?body"
    using fr_ReadBlock_header [of "s\<lparr>fptr := ?f\<rparr>" D kSchemaBlock ?body post pre] e(1) b assms k by auto
  obtain el where el: "BinarySchemaParser (sc_schema r) (sc_name r) = Inr el" "length (sc_name r) \<le> kMaxStringSize"
    using e(3) by (cases "BinarySchemaParser (sc_schema r) (sc_name r)") auto
  let ?t = "see_entry s (length pre) ?e"
  obtain q c where c: "fr_ProcessSchema s (block_stream_of g (of_nat (length ?body))) None = Inr (q, None, ?t, c)"
      "bk_ok fp_left (fp_in D) post c" "id_to_record ?t i = Some q"
    using fr_ProcessSchema_bytes [OF g(2,3) el(2,1), of s None "length pre"] by auto
  note ok = recs_ok_see [OF Cons.prems(2), of "length pre" ?e]
  have as: "rec_identifier (records ?t ! q) = i" using recs_ok_Some [OF ok c(3)] by simp
  let ?u = "?t\<lparr>final_item := max (sint (last_position r)) (final_item ?t), fptr := file_at D post\<rparr>"
  have step: "fr_load_schemas (map (\<lambda>(i, r). (i, sint (the (schema_position r)), sint (last_position r))) (p # sch)) s
      = fr_load_schemas (map (\<lambda>(i, r). (i, sint (the (schema_position r)), sint (last_position r))) sch) ?u"
    using seek g(1) c(1) as bk_end_at [OF c(2) assms] by (simp add: p e(2) some_value_def del: see_entry.simps)
  have add: "indexed sch ++ learn_schema ?e recs = indexed (p # sch) ++ recs"
    by (rule ext) (auto simp: p indexed_def map_add_def learn_schema_def split: option.split)
  have st: "fr_start ?u = fr_start s" by simp
  have "fp_data (fptr ?u) = D" "recs_ok ?u (learn_schema ?e recs)"
    using ok by (simp_all add: file_at_in del: see_entry.simps)
  from Cons.IH [OF this] Cons.prems(3) show ?case unfolding step add st by simp
qed

lemma length_index_elements: "length sch \<le> length (concat (map index_element sch))"
  by (induction sch) (simp_all add: index_element_def)

lemma index_trailer:
  assumes "length (index_body sch) < 2 ^ 31"
  shows "\<exists>x w. block_bytes kIndexBlock (index_body sch) = x @ le_bytes 4 (w :: u32) @ ascii ''TLOGIDEX''
    \<and> uint w = int (length (block_bytes kIndexBlock (index_body sch)))"
proof -
  let ?i = "index_body sch" and ?r = "index_records sch"
  let ?w = "of_nat (trailing_size (length ?r)) :: u32"
  have size: "trailing_size (length ?r) = length (block_bytes kIndexBlock ?i)"
    by (rule index_trailing_size) (use assms in simp)
  have "length (leb128 (length ?i)) \<le> 5" by (rule length_leb128_bound) (use assms in simp_all)
  then have "length (block_bytes kIndexBlock ?i) < 2 ^ 32"
    using assms by (simp add: block_bytes_def kIndexBlock_def leb128_small)
  then have "uint ?w = int (length (block_bytes kIndexBlock ?i))"
    by (simp add: size unsigned_of_nat take_bit_eq_mod)
  moreover have "block_bytes kIndexBlock ?i = (leb128 (unat kIndexBlock) @ leb128 (length ?i) @ ?r) @ le_bytes 4 ?w @ ascii ''TLOGIDEX''"
    by (simp add: block_bytes_def index_body_def Let_def)
  ultimately show ?thesis by blast
qed

lemma open_with_index:
  assumes D: "D = log_header @ mid @ block_bytes kIndexBlock (index_body sch)"
    and len: "length D < 2 ^ 63" "length (index_body sch) < 2 ^ 31"
    and sch: "\<forall>p \<in> set sch. schema_in D env p" "mid = [] \<Longrightarrow> sch = []"
  shows "\<exists>s. fr_open v D = Inr s \<and> fp_data (fptr s) = D \<and> fr_start s = int (length log_header) \<and> recs_ok s (indexed sch)"
proof -
  let ?B = "block_bytes kIndexBlock (index_body sch)" and ?L = "log_header @ mid"
  let ?s = "fresh_reader v (file_at D (mid @ ?B))"
  have fresh: "recs_ok (fresh_reader v g) Map.empty" for g by (simp add: recs_ok_def fresh_reader_def)
  have op: "fr_open v D = fr_MaybeProcessIndex ?s" by (rule fr_open_log) (use D in simp)
  obtain x w where w: "?B = x @ le_bytes 4 (w :: u32) @ ascii ''TLOGIDEX''" "uint w = int (length ?B)"
    using index_trailer [OF len(2)] by blast
  have magic: "length (ascii ''TLOGIDEX'') = 8" by (simp add: ascii_def)
  have size: "fp_size f - 8 = int (length (?L @ x @ le_bytes 4 w))" "fp_size f - 12 = int (length (?L @ x))"
      "fp_size f - uint w = int (length ?L)" "fp_size f - fr_start ?s = int (length mid + length ?B)"
    if "fp_data f = D" for f
    using that magic w(2) unfolding fp_size_def D by (simp_all add: w(1) fresh_reader_def)
  have seek: "fp_Seek f (int (length pre)) = Inr (file_at D rest)" if "fp_data f = D" "D = pre @ rest" for f pre rest
    using fp_Seek_at [of f pre rest] that len(1) by simp
  have sd: "fp_data (fptr ?s) = D" by (simp add: fresh_reader_def file_at_in)
  let ?f8 = "file_at D (ascii ''TLOGIDEX'')"
  have s8: "fp_Seek (fptr ?s) (fp_size (fptr ?s) - 8) = Inr ?f8"
    unfolding size(1) [OF sd] by (rule seek [OF sd]) (simp add: D w(1))
  have l8: "fp_left ?f8 = ascii ''TLOGIDEX'' @ []"
    using file_at_left [of D "?L @ x @ le_bytes 4 w"] by (simp add: D w(1))
  obtain g where g: "fp_read ?f8 8 = (ascii ''TLOGIDEX'', g)" "fp_in D g"
    using fpd.rd_exact_n [OF file_at_in(1) l8 magic] by blast
  have gd: "fp_data g = D" using g(2) by (simp add: fp_in_def)
  let ?f12 = "file_at D (le_bytes 4 w @ ascii ''TLOGIDEX'')"
  have s12: "fp_Seek g (fp_size g - 12) = Inr ?f12"
    using seek [OF gd, of "?L @ x"] size(2) [OF gd] by (simp add: D w(1))
  have l12: "fp_left ?f12 = le_bytes 4 w @ ascii ''TLOGIDEX''"
    using file_at_left [of D "?L @ x"] by (simp add: D w(1))
  have le: "length (le_bytes 4 w) = 4" "le_word (le_bytes 4 w) = w"
    by (simp, rule le_word_le_bytes_full) simp
  obtain h where h: "tl_ReadScalar fp_read 4 ?f12 = (Some w, h)" "fp_in D h"
    using fpd.ex_scalar [OF file_at_in(1) l12 le(1), where ?'a = 32] unfolding le(2) by blast
  have hd: "fp_data h = D" using h(2) by (simp add: fp_in_def)
  show ?thesis
  proof (cases "mid = []")
    case True
    have "fr_MaybeProcessIndex ?s = Inr (?s\<lparr>fptr := h\<rparr>)"
      using s8 g(1) s12 h(1) size(4) [OF hd] w(2) True by (simp add: fr_MaybeProcessIndex_def some_value_def)
    moreover have "indexed sch = Map.empty" using sch(2) [OF True] by (simp add: indexed_def fun_eq_iff)
    moreover have "?s\<lparr>fptr := h\<rparr> = fresh_reader v h" by (simp add: fresh_reader_def)
    ultimately show ?thesis using op hd fresh [of h] by (simp add: fresh_reader_def)
  next
    case False
    let ?fB = "file_at D ?B"
    have sB: "fp_Seek h (fp_size h - uint w) = Inr ?fB" using seek [OF hd, of ?L] size(3) [OF hd] by (simp add: D)
    have lB: "fp_left ?fB = leb128 (unat kIndexBlock) @ leb128 (length (index_body sch)) @ index_body sch"
      using file_at_left [of D ?L] by (simp add: D block_bytes_def)
    have k: "kIndexBlock \<noteq> 0" "kIndexBlock \<le> kNumTypes" by (simp_all add: kIndexBlock_def kNumTypes_def kSeekMarker_def)
    have "length (index_body sch) < 2 ^ 64" using len(2) by simp
    from fpd.ex_header [OF file_at_in(1) lB this k] obtain f1 where
      f1: "ReadHeader fp_read True ?fB = Inr (Some (kIndexBlock, of_nat (length (index_body sch))), f1)"
        "fp_left f1 = index_body sch" "fp_in D f1" by blast
    let ?n = "of_nat (length sch) :: u64" and ?t = "le_bytes 4 (of_nat (trailing_size (length (index_records sch))) :: u32) @ ascii ''TLOGIDEX''"
    have n: "unat ?n = length sch"
      using length_index_elements [of sch] len(2) by (simp add: index_body_def index_records_def Let_def unat_of_nat_u64)
    have l1: "fp_left f1 = leb128 (unat (0 :: u64)) @ leb128 (unat ?n) @ concat (map index_element sch) @ ?t"
      unfolding f1(2) by (simp add: index_body_def index_records_def Let_def)
    obtain f2 where f2: "tl_ReadVaruint fp_read f1 = Inr (Some 0, f2)" "fp_in D f2"
        "fp_left f2 = leb128 (unat ?n) @ concat (map index_element sch) @ ?t"
      using fpd.ex_varuint [OF f1(3) l1] by blast
    obtain f3 where f3: "tl_ReadVaruint fp_read f2 = Inr (Some ?n, f3)" "fp_in D f3"
        "fp_left f3 = concat (map index_element sch) @ ?t"
      using fpd.ex_varuint [OF f2(2,3)] by blast
    let ?ls = "map (\<lambda>(i, r). (i, sint (the (schema_position r)), sint (last_position r))) sch"
    obtain f4 where f4: "fr_local_records (length sch) f3 = Inr (?ls, f4)" "fp_in D f4"
      using fr_local_records_index [OF f3(2,3)] by blast
    have "fp_data (fptr (fresh_reader v f4\<lparr>final_item := 0\<rparr>)) = D" "recs_ok (fresh_reader v f4\<lparr>final_item := 0\<rparr>) Map.empty"
      using f4(2) fresh [of f4] by (simp_all add: fp_in_def) (simp add: fresh_reader_def)
    from fr_load_schemas_index [OF len(1) this sch(1)] obtain t where
      t: "fr_load_schemas ?ls (fresh_reader v f4\<lparr>final_item := 0\<rparr>) = Inr t" "fp_data (fptr t) = D"
        "fr_start t = int (length log_header)" "recs_ok t (indexed sch)"
      by (auto simp: fresh_reader_def)
    have less: "\<not> uint w \<ge> fp_size h - fr_start ?s" using size(4) [OF hd] w(2) False by simp
    have rec: "records ?s = []" "?s\<lparr>fptr := f4, final_item := 0\<rparr> = fresh_reader v f4\<lparr>final_item := 0\<rparr>"
      by (simp_all add: fresh_reader_def)
    have "fr_MaybeProcessIndex ?s = Inr (t\<lparr>has_index := True, all_records_found := True\<rparr>)"
      unfolding fr_MaybeProcessIndex_def s8 sbind_Inr g(1) prod.case s12 h(1) some_value_def option.case sB f1(1)
        f2(1) f3(1) n f4(1) rec t(1) using less by simp
    with t(2-4) op show ?thesis by (simp add: recs_ok_def cong: option.case_cong)
  qed
qed

subsection \<open>The schemas of a writer\<close>

text \<open>Every position that the writer remembers is that of a schema block it has written.\<close>

definition schema_block :: "u64 \<times> schema_record \<Rightarrow> u64 \<times> byte list" where
  "schema_block p = (kSchemaBlock, schema_body (fst p) (sc_name (snd p)) (sc_schema (snd p)))"

definition placed :: "(u64 \<times> byte list) list \<Rightarrow> u64 \<times> schema_record \<Rightarrow> bool" where
  "placed bs p =
     (\<forall>q. schema_position (snd p) = Some q \<longrightarrow> length (sc_name (snd p)) < 2 ^ 64
        \<and> (\<exists>pre post. bs = pre @ schema_block p # post \<and> q = of_nat (length (log_bytes pre))))"

definition schemas_placed :: "(u64 \<times> byte list) list \<Rightarrow> (u64 \<times> schema_record) list \<Rightarrow> bool" where
  "schemas_placed bs sch = (\<forall>p \<in> set sch. placed bs p)"

lemma schemas_placed_append: "schemas_placed bs sch \<Longrightarrow> schemas_placed (bs @ cs) sch"
  unfolding schemas_placed_def placed_def by fastforce

lemma set_map_put: "set (map_put k v m) \<subseteq> insert (k, v) (set m)"
  by (induction k v m rule: map_put.induct) auto

lemma schemas_placed_put: "schemas_placed bs sch \<Longrightarrow> placed bs (i, r) \<Longrightarrow> schemas_placed bs (map_put i r sch)"
  using set_map_put [of i r sch] unfolding schemas_placed_def by blast

lemma data_schema_placed:
  assumes "schemas_placed bs (schema s)"
  shows "schemas_placed bs (data_schema s i)"
  unfolding data_schema_def
proof (rule schemas_placed_put [OF assms])
  show "placed bs (i, (case map_of (schema s) i of None \<Rightarrow> schema_record_init | Some r \<Rightarrow> r)\<lparr>last_position := fw_position s\<rparr>)"
  proof (cases "map_of (schema s) i")
    case None
    then show ?thesis by (simp add: placed_def schema_record_init_def)
  next
    case (Some r)
    then have "placed bs (i, r)" using assms map_of_SomeD by (fastforce simp: schemas_placed_def)
    with Some show ?thesis by (simp add: placed_def schema_block_def)
  qed
qed

lemma log_run_placed:
  assumes "log_run env o' bs s" and "env_ok env"
  shows "schemas_placed bs (schema s)"
  using assms(1)
proof induction
  case (opened s)
  then show ?case using fw_Open_log [of o'] by (auto simp: schemas_placed_def placed_def)
next
  case (background bs s s')
  have "schema s' = schema s"
    using background(2) by (auto simp: fw_background_def fw_Reclaim_def sbind_eq_Inr_iff split: option.splits if_splits prod.splits)
  with background(3) show ?case by simp
next
  case (allocated bs s name i s')
  then have "ids_ok s" using log_run_inv [OF allocated(1) assms(2)] by (simp add: log_inv_def)
  from fw_AllocateIdentifier_cases [OF this allocated(2,3)] allocated(4)
  show ?case by (auto simp: ids_add_def)
next
  case (reserved bs s name i got s')
  then have "ids_ok s" using log_run_inv [OF reserved(1) assms(2)] by (simp add: log_inv_def)
  from fw_ReserveIdentifier_cases [OF this reserved(2)] reserved(3)
  show ?case by (auto simp: ids_add_def)
next
  case (schema_written bs s i name sch s')
  then have s: "fw_ok s" "writer s \<noteq> None" "fw_log s = log_bytes bs"
    using log_run_inv [OF schema_written(1) assms(2)] by (simp_all add: log_inv_def)
  let ?r = "\<lparr>sc_name = name, sc_identifier = i, sc_flags = 0, sc_schema = sch,
      schema_position = Some (of_nat (length (fw_log s))), last_position = -1\<rparr>"
  from fw_WriteSchema_emits [OF s(1,2) schema_written(2-4)] schema_written(5)
  have "schema s' = map_put i ?r (schema s)" using emitsD(8) by fastforce
  moreover have "placed (bs @ [(kSchemaBlock, schema_body i name sch)]) (i, ?r)"
  proof -
    have "bs @ [(kSchemaBlock, schema_body i name sch)] = bs @ schema_block (i, ?r) # []"
      by (simp add: schema_block_def)
    then show ?thesis unfolding placed_def using s(3) schema_written(3) by fastforce
  qed
  ultimately show ?case using schemas_placed_put [OF schemas_placed_append [OF schema_written(6)]] by metis
next
  case (data_written bs s d now timestamp i fl s')
  then have s: "fw_ok s" "writer s \<noteq> None"
    using log_run_inv [OF data_written(1) assms(2)] by (simp_all add: log_inv_def)
  from fw_WriteData_emits [OF s assms(2) data_written(2), of now timestamp i fl] data_written(4)
  have "schema s' = data_schema s i" using emitsD(8) by (fastforce split: if_splits)
  then show ?case using data_schema_placed [OF data_written(5)] by (simp add: schemas_placed_append)
next
  case (block_written bs s d ty s')
  then have s: "fw_ok s" "writer s \<noteq> None"
    using log_run_inv [OF block_written(1) assms(2)] by (simp_all add: log_inv_def)
  from fw_WriteBlock_emits [OF s block_written(2), of ty] block_written(3)
  have "schema s' = schema s" using emitsD(8) by fastforce
  with block_written(4) show ?case by (simp add: schemas_placed_append)
next
  case (buffer_taken bs s b s')
  then obtain x where "s' = s\<lparr>buffers := x\<rparr>" using fw_GetBuffer_fresh(4) by blast
  with buffer_taken(3) show ?case by simp
next
  case (data_buffer_written bs s b now timestamp i fl s')
  then have s: "fw_ok s" "writer s \<noteq> None"
    using log_run_inv [OF data_buffer_written(1) assms(2)] by (simp_all add: log_inv_def)
  from fw_WriteData_buffer_emits [OF s assms(2) data_buffer_written(2-4), of now timestamp i fl] data_buffer_written(6)
  have "schema s' = data_schema s i" using emitsD(8) by (fastforce split: if_splits)
  then show ?case using data_schema_placed [OF data_buffer_written(7)] by (simp add: schemas_placed_append)
next
  case (block_buffer_written bs s b ty s')
  then have s: "fw_ok s" "writer s \<noteq> None"
    using log_run_inv [OF block_buffer_written(1) assms(2)] by (simp_all add: log_inv_def)
  from fw_WriteBlock_buffer_emits [OF s block_buffer_written(2-5)] block_buffer_written(6)
  have "schema s' = schema s" using emitsD(8) by fastforce
  with block_buffer_written(7) show ?case by (simp add: schemas_placed_append)
qed

lemma leb128_injective:
  assumes "leb128 (unat (v :: u64)) @ a = leb128 (unat w) @ b"
  shows "v = w \<and> a = b"
proof -
  have "(Inr (Some v, a) :: (u64 option \<times> byte list) res) = Inr (Some w, b)"
    by (rule trans [OF tl_ReadVaruint_leb128 [of v a, symmetric]])
      (simp only: assms tl_ReadVaruint_leb128)
  then show ?thesis by (simp only: sum.inject prod.inject option.inject)
qed

lemma schema_body_injective:
  assumes "schema_body i name raw = schema_body j name' raw'" and "length name < 2 ^ 64" and "length name' < 2 ^ 64"
  shows "i = j \<and> name = name' \<and> raw = raw'"
proof -
  have n: "length name = unat (of_nat (length name) :: u64)" "length name' = unat (of_nat (length name') :: u64)"
    using assms(2,3) by (simp_all add: unat_of_nat_u64)
  have b: "leb128 (unat i) @ leb128 0 @ leb128 (length name) @ name @ raw
      = leb128 (unat j) @ leb128 0 @ leb128 (length name') @ name' @ raw'"
    using assms(1) by (simp add: schema_body_def string_bytes_def del: append_same_eq same_append_eq)
  have i: "i = j" "leb128 (length name) @ name @ raw = leb128 (length name') @ name' @ raw'"
    using leb128_injective [OF b] by simp_all
  have "(of_nat (length name) :: u64) = of_nat (length name') \<and> name @ raw = name' @ raw'"
    by (rule leb128_injective) (use i(2) in \<open>simp only: n [symmetric]\<close>)
  moreover from this n have "length name = length name'" by metis
  ultimately show ?thesis using i(1) by simp
qed

lemma entries_ok_set: "entries_ok renv known es \<Longrightarrow> e \<in> set es \<Longrightarrow> entry_ok e"
  by (induction renv known es rule: entries_ok.induct) auto

lemma entries_ok_other: "entries_ok renv known (es @ [OtherEntry ty body]) \<longleftrightarrow> entries_ok renv known es \<and> ty \<in> {3, 4, 5}"
  by (induction renv known es rule: entries_ok.induct) auto

lemma log_view_other: "log_view env renv recs pos (es @ [OtherEntry ty body]) = log_view env renv recs pos es"
  by (induction es arbitrary: recs pos) simp_all

text \<open>In a log that can be read, those blocks are schema entries, and stand where the index says.\<close>

lemma placed_schema_in:
  assumes "schemas_placed (map (entry_block env) es) sch" and "entries_ok renv {} es" and "(i, r) \<in> set sch"
    and "schema_position r \<noteq> None" and "length (log_bytes (map (entry_block env) es)) < 2 ^ 63"
  shows "schema_in (log_bytes (map (entry_block env) es) @ rest) env (i, r)"
proof -
  obtain q where q: "schema_position r = Some q" using assms(4) by blast
  obtain pre post where b: "map (entry_block env) es = pre @ schema_block (i, r) # post" "q = of_nat (length (log_bytes pre))"
      "length (sc_name r) < 2 ^ 64"
    using assms(1,3) q unfolding schemas_placed_def placed_def by (metis snd_conv)
  obtain as e cs where es: "es = as @ e # cs" "map (entry_block env) as = pre" "entry_block env e = schema_block (i, r)"
    using b(1) by (auto simp: map_eq_append_conv map_eq_Cons_conv)
  have ok: "entry_ok e" using entries_ok_set [OF assms(2)] es(1) by simp
  have e: "e = SchemaEntry i (sc_name r) (sc_schema r)"
  proof (cases e)
    case (SchemaEntry j name raw)
    have "length name < 2 ^ 64" using ok SchemaEntry by (simp add: kMaxStringSize_def)
    with schema_body_injective [OF _ this b(3)] es(3) SchemaEntry show ?thesis by (simp add: schema_block_def)
  next
    case DataEntry
    with es(3) show ?thesis by (simp add: schema_block_def kDataBlock_def kSchemaBlock_def)
  next
    case OtherEntry
    with es(3) ok show ?thesis by (auto simp: schema_block_def kSchemaBlock_def)
  qed
  have log: "log_bytes (map (entry_block env) es) @ rest
      = log_bytes pre @ entry_bytes env e @ entries_bytes env cs @ rest"
    unfolding es(2) [symmetric] entries_log_bytes es(1) by (simp add: entries_bytes_def)
  moreover have "length (log_bytes pre) < 2 ^ 63"
    using assms(5) unfolding es(2) [symmetric] entries_log_bytes es(1) by (simp add: entries_bytes_def)
  then have "sint (of_nat (length (log_bytes pre)) :: u64) = int (length (log_bytes pre))"
    by (simp add: signed_of_nat signed_take_bit_int_eq_self)
  ultimately show ?thesis using ok q b(2) unfolding schema_in_def e by fastforce
qed

section \<open>Properties\<close>

text \<open>
  C31: a log written by calls of \<open>FileWriter\<close>, with the background thread
  running in between, and closed, is read back by \<open>FileReader\<close>: iterating over all items gives
  the data blocks in the order they were written, each at its position, with the time, the
  flags, the uncompressed data, and the record of its schema (identifier, name, raw and parsed
  schema), which comes from the index when the log has one, and else from the first
  schema block of the identifier. The conditions are that every schema parses and comes before its
  data; that the reader's checksum and decompression are those of the writer; that the index, which
  is written by default, is smaller than 2 GiB and every schema of the writer has been
  written; and that a log without an index does not happen to end like one.
\<close>

theorem log_written_is_read:
  assumes "log_run env o' (map (entry_block env) es) w" and "env_ok env"
    and "entries_ok renv {} es" and "fr_crc32 renv = crc32 env"
    and "length (log_bytes (map (entry_block env) es)) < 2 ^ 62"
    and "if index_block (options w)
      then length (index_body (schema w)) < 2 ^ 31
        \<and> (\<forall>p \<in> set (schema w). schema_position (snd p) \<noteq> None)
      else drop (length (log_bytes (map (entry_block env) es)) - 8) (log_bytes (map (entry_block env) es)) \<noteq> ascii ''TLOGIDEX''"
  shows "\<exists>file w' s items s'. fw_Close w = Inr (Some file, w') \<and> fr_open v file = Inr s
    \<and> fr_read_items renv s [] (-1) = Inr (items, all_items, s')
    \<and> map (view_item s') items
      = log_view env renv (if index_block (options w) then indexed (schema w) else Map.empty) (length log_header) es"
proof -
  let ?bs = "map (entry_block env) es" and ?i = "index_body (schema w)"
  have inv: "fw_ok w" "writer w \<noteq> None" "fw_log w = log_bytes ?bs"
    using log_run_inv [OF assms(1,2)] by (simp_all add: log_inv_def)
  have close: "\<exists>w'. fw_Close w = Inr (Some (log_bytes ?bs @ (if index_block (options w) then block_bytes kIndexBlock ?i else [])), w')"
    if "index_block (options w) \<longrightarrow> length ?i < 2 ^ 31"
  proof (cases "index_block (options w)")
    case True
    with fw_Close_file [OF inv(1,2)] inv(3) assms(6) that show ?thesis by auto
  next
    case False
    then obtain w0 where w0: "writer w = Some w0" using inv(2) by auto
    then obtain bs w1 where w1: "tw_WriteAll w0 = Inr (bs, w1)" "tw_file w1 = log_bytes ?bs"
      using fw_ok_file [OF inv(1) w0] inv(3) by auto
    with w0 False show ?thesis by (simp add: fw_Close_def)
  qed
  show ?thesis
  proof (cases "index_block (options w)")
    case False
    have D: "log_bytes ?bs = log_header @ entries_bytes env es" by (rule entries_log_bytes)
    have len: "length (log_bytes ?bs) < 2 ^ 63" using assms(5) by simp
    obtain s where "fr_open v (log_bytes ?bs) = Inr s" "fp_data (fptr s) = log_bytes ?bs"
        "fr_start s = int (length log_header)" "recs_ok s Map.empty"
      using open_without_index [OF D len] assms(6) False by auto
    with read_items_view [of s env es Map.empty renv] D len assms(3,4) close False show ?thesis by auto
  next
    case True
    let ?es = "es @ [OtherEntry kIndexBlock ?i]" and ?D = "log_bytes ?bs @ block_bytes kIndexBlock ?i"
    have i: "length ?i < 2 ^ 31" using assms(6) True by simp
    have D: "?D = log_header @ entries_bytes env es @ block_bytes kIndexBlock ?i" "?D = log_header @ entries_bytes env ?es"
      unfolding entries_log_bytes by (simp_all add: entries_bytes_def entry_bytes_def)
    have "length (leb128 (length ?i)) \<le> 5" by (rule length_leb128_bound) (use i in simp_all)
    then have len: "length ?D < 2 ^ 63"
      using assms(5) i by (simp add: block_bytes_def kIndexBlock_def leb128_small)
    have placed: "schemas_placed ?bs (schema w)" using assms(1,2) by (rule log_run_placed)
    have sch: "\<forall>p \<in> set (schema w). schema_in ?D env p"
      using placed_schema_in [OF placed assms(3)] assms(5,6) True by auto
    have "es = []" if "entries_bytes env es = []"
      using that by (cases es; cases "entry_block env (hd es)") (auto simp: entry_bytes_def)
    then have empty: "schema w = []" if "entries_bytes env es = []"
      using that placed assms(6) True by (cases "schema w") (auto simp: schemas_placed_def placed_def)
    obtain s where s: "fr_open v ?D = Inr s" "fp_data (fptr s) = ?D" "fr_start s = int (length log_header)" "recs_ok s (indexed (schema w))"
      using open_with_index [OF D(1) len i sch empty] by blast
    have "entries_ok renv {} ?es" using assms(3) by (simp add: entries_ok_other kIndexBlock_def)
    from read_items_view [OF s(2) [unfolded D(2)] s(3,4) len [unfolded D(2)] this assms(4)]
    obtain items s' where "fr_read_items renv s [] (-1) = Inr (items, all_items, s')"
        "map (view_item s') items = log_view env renv (indexed (schema w)) (length log_header) es"
      unfolding log_view_other by blast
    with s(1) close True i show ?thesis by auto
  qed
qed

definition plain_options :: fw_options where
  "plain_options = \<lparr>write_previous_offsets = True, default_compression = False, default_checksum_data = True,
     index_block = True, seek_enabled = False, timestamps_system = True\<rparr>"

definition plain_flags :: write_flags where
  "plain_flags = \<lparr>wf_compression = \<lparr>ov_require = False, ov_disable = False\<rparr>,
     wf_checksum = \<lparr>ov_require = False, ov_disable = False\<rparr>\<rparr>"

definition demo_reader :: fr_env where
  "demo_reader = \<lparr>fr_crc32 = crc32 demo_env, snappy_uncompress = (\<lambda>d. None), time_less = (\<lambda>_ _. False)\<rparr>"

definition demo_entries :: "log_entry list" where
  "demo_entries = [SchemaEntry 1 (ascii ''a'') [2],
     DataEntry 1 (Some 0) (Some (at_us 5)) True False [0, 0, 0, 0, 0, 0, 0, 0]]"

lemma demo_log:
  "\<exists>w. log_run demo_env plain_options (map (entry_block demo_env) demo_entries) w \<and> index_block (options w)
     \<and> length (index_body (schema w)) < 2 ^ 31 \<and> (\<forall>p \<in> set (schema w). schema_position (snd p) \<noteq> None)"
proof -
  obtain s where s: "fw_Open (fw_init plain_options) = Inr s" "log_inv [] s" "schema s = []" "identifier_map s = Map.empty"
      "reverse_identifier_map s = []" "next_id s = 1" "options s = plain_options"
    using fw_Open_log by blast
  have run: "log_run demo_env plain_options [] s" using s(1) by (rule log_run.opened)
  let ?s1 = "(ids_add s (ascii ''a'') 1)\<lparr>next_id := 2\<rparr>"
  have "fw_AllocateIdentifier s (ascii ''a'') = (1, ?s1)"
    using s(4-6) by (simp add: fw_AllocateIdentifier_def ids_add_def)
  from log_run.allocated [OF run _ this] s(5) have run1: "log_run demo_env plain_options [] ?s1" by simp
  have inv1: "fw_ok ?s1" "writer ?s1 \<noteq> None" using log_run_inv [OF run1 demo_env_ok] by (simp_all add: log_inv_def)
  have name: "map_of (reverse_identifier_map ?s1) 1 = Some (ascii ''a'')" using s(5) by (simp add: ids_add_def)
  have lens: "length (ascii ''a'') < 2 ^ 64" "length (schema_body 1 (ascii ''a'') [2]) < 2 ^ 64"
    by (simp_all add: ascii_def schema_body_def string_bytes_def leb128_small)
  obtain s2 where s2: "fw_WriteSchema ?s1 1 [2] = Inr s2"
      "options s2 = plain_options" "\<exists>p. schema s2 = [(1, p)] \<and> last_position p = -1 \<and> schema_position p \<noteq> None"
    using fw_WriteSchema_emits [OF inv1 name lens] emitsD s(3,7) by (fastforce simp: ids_add_def)
  have run2: "log_run demo_env plain_options ([] @ [(kSchemaBlock, schema_body 1 (ascii ''a'') [2])]) s2"
    by (rule log_run.schema_written [OF run1 name lens s2(1)])
  have inv2: "fw_ok s2" "writer s2 \<noteq> None" using log_run_inv [OF run2 demo_env_ok] by (simp_all add: log_inv_def)
  let ?d = "[0, 0, 0, 0, 0, 0, 0, 0] :: byte list"
  have prev: "fw_GetPreviousOffset s2 1 = 0"
    using s2(3) by (auto simp: fw_GetPreviousOffset_def split: option.split)
  have pl: "\<not> packs demo_env plain_options plain_flags ?d" "payload_of demo_env plain_options plain_flags ?d = ?d"
    by (simp_all add: payload_of_def packs_def evaluate_def plain_flags_def plain_options_def)
  have "data_fits demo_env (at_us 7) s2 (at_us 5) 1 ?d plain_flags"
    unfolding data_fits_def s2(2) pl(2) by (rule header_fits_small) simp_all
  with fw_WriteData_emits [OF inv2 demo_env_ok, of ?d "at_us 7" "at_us 5" 1 plain_flags]
  obtain s3 where s3: "fw_WriteData demo_env (at_us 7) s2 (at_us 5) 1 ?d plain_flags = Inr s3" "options s3 = plain_options"
      "schema s3 = data_schema s2 1"
    using emitsD s2(2) by fastforce
  have run3: "log_run demo_env plain_options (([] @ [(kSchemaBlock, schema_body 1 (ascii ''a'') [2])])
      @ data_blocks demo_env (at_us 7) s2 (at_us 5) 1 ?d plain_flags) s3"
    by (rule log_run.data_written [OF run2 _ _ s3(1)]) (use s2(3) in auto)
  have "data_blocks demo_env (at_us 7) s2 (at_us 5) 1 ?d plain_flags = [entry_block demo_env (demo_entries ! 1)]"
    unfolding data_blocks_def data_body_of_def s2(2) pl(2) prev seek_written_def pl(1) [THEN eq_False [THEN iffD2]]
    by (simp add: demo_entries_def data_time_def evaluate_def plain_flags_def plain_options_def pl(1) [unfolded plain_flags_def plain_options_def])
  moreover obtain q where q: "schema s3 = [(1, q)]" "schema_position q \<noteq> None"
    using s3(3) s2(3) by (auto simp: data_schema_def)
  moreover have "length (index_body [(1, q)]) < 2 ^ 31"
    by (simp add: index_body_def index_records_def index_element_def Let_def leb128_small ascii_def)
  ultimately show ?thesis using run3 s3(2) by (auto simp: demo_entries_def plain_options_def)
qed

lemma demo_entries_ok: "entries_ok demo_reader {} demo_entries"
proof -
  have "varuint_value list_read (leb128 2 @ []) = Inr (of_nat 2, [])" by (rule varuint_value_leb128) simp
  then have "\<exists>el. BinarySchemaParser [2] (ascii ''a'') = Inr el"
    by (simp add: BinarySchemaParser_def sp_ReadType.simps(2) Let_def leb128_small type_codes)
  then show ?thesis by (auto simp: demo_entries_def entry_data_def btime_ok_def int64_max_def int64_min_def
      kMaxStringSize_def ascii_def)
qed

theorem log_written_is_read_witness:
  "\<exists>w file w' s items s'. log_run demo_env plain_options (map (entry_block demo_env) demo_entries) w
    \<and> index_block (options w) \<and> fw_Close w = Inr (Some file, w') \<and> fr_open True file = Inr s
    \<and> fr_read_items demo_reader s [] (-1) = Inr (items, all_items, s')
    \<and> map (view_item s') items = log_view demo_env demo_reader (indexed (schema w)) (length log_header) demo_entries"
proof -
  obtain w where w: "log_run demo_env plain_options (map (entry_block demo_env) demo_entries) w"
      "index_block (options w)" "length (index_body (schema w)) < 2 ^ 31"
      "\<forall>p \<in> set (schema w). schema_position (snd p) \<noteq> None"
    using demo_log by blast
  have crc: "fr_crc32 demo_reader = crc32 demo_env" by (simp add: demo_reader_def)
  let ?body = "data_body demo_env 1 (data_flags True True True False) (Some 0) (Some (at_us 5)) True [0, 0, 0, 0, 0, 0, 0, 0]"
  have "unat (data_flags True True True False) = 7"
    by (simp add: data_flags_def kPreviousOffset_def kTimestampFlag_def kChecksum_def)
  then have "length ?body < 100"
    by (simp add: data_body_def data_prefix_def checksum_bytes_def leb128_small)
  then have "length (log_bytes (map (entry_block demo_env) demo_entries)) < 200"
    by (simp add: demo_entries_def log_bytes_def block_bytes_def schema_body_def log_header_def leb128_small ascii_def
        string_bytes_def kSchemaBlock_def kDataBlock_def)
  then have "length (log_bytes (map (entry_block demo_env) demo_entries)) < 2 ^ 62" by simp
  from log_written_is_read [OF w(1) demo_env_ok demo_entries_ok crc this] w show ?thesis by fastforce
qed

text \<open>
  C32: what \<open>Read\<close> makes of a data block, whatever bytes stand in the place of
  its checksum: data that does not decompress and, when the reader verifies, any checksum other
  than the one of the block with zeros in its place are the errors the code names; an identifier
  without a schema throws; otherwise the item has the flags, the time (or none) and the
  uncompressed data of the block, and a reader that does not verify accepts every checksum.
\<close>

theorem data_block_read:
  assumes "fp_data (fptr s) = pre @ block_bytes kDataBlock (stored_body identifier flags prev ts cs payload) @ post"
    and "flags = data_flags (prev \<noteq> None) (ts \<noteq> None) ck packed"
    and "length cs = (if ck then 4 else 0)"
    and "length (stored_body identifier flags prev ts cs payload) < 2 ^ 63" and "length pre < 2 ^ 63"
    and "\<And>x. ts = Some x \<Longrightarrow> btime_ok x"
  shows "\<exists>f. fr_Read renv s (int (length pre)) =
    (case stored_data renv packed payload of
       None \<Rightarrow> Inl kDecompressionError
     | Some x \<Rightarrow>
         if ck \<and> verify_checksums s \<and> le_word cs \<noteq> block_checksum renv identifier flags prev ts payload
         then Inl kDataChecksumMismatch
         else (case id_to_record s identifier of
                 None \<Rightarrow> Inl Thrown
               | Some r \<Rightarrow> Inr (\<lparr>it_index = int (length pre),
                   it_timestamp = (case ts of None \<Rightarrow> not_a_date_time | Some t \<Rightarrow> t), it_data = x, it_flags = flags,
                   it_record = r\<rparr>, s\<lparr>fptr := f\<rparr>)))"
  by (rule fr_Read_stored_block) (use assms in auto)

definition corrupt_log :: "bool \<Rightarrow> file_reader" where
  "corrupt_log verify = \<lparr>verify_checksums = verify,
     fptr = \<lparr>fp_data = [9, 9] @ block_bytes kDataBlock (stored_body 1 4 None None [1, 2, 3, 4] [7]) @ [5], fp_pos = 0\<rparr>,
     records = [], id_to_record = [1 \<mapsto> 0], name_to_record = Map.empty, final_item = -1, has_index = False,
     all_records_found = True, fr_start = 0\<rparr>"

theorem data_block_read_witness:
  "fr_Read demo_reader (corrupt_log True) 2 = Inl kDataChecksumMismatch
   \<and> (\<exists>f. fr_Read demo_reader (corrupt_log False) 2 = Inr (\<lparr>it_index = 2, it_timestamp = not_a_date_time,
       it_data = [7], it_flags = 4, it_record = 0\<rparr>, (corrupt_log False)\<lparr>fptr := f\<rparr>))"
proof -
  have crc: "block_checksum demo_reader 1 4 None None [7] = 9"
    by (simp add: block_checksum_def demo_reader_def demo_env_def data_header_def data_prefix_def Let_def leb128_small)
  have word: "le_word [1, 2, 3, 4] = (67305985 :: u32)" by simp
  have fl: "(4 :: u64) = data_flags ((None :: u64 option) \<noteq> None) ((None :: btime option) \<noteq> None) True False"
    by (simp add: data_flags_def kChecksum_def)
  have len: "length (stored_body 1 4 None None [1, 2, 3, 4] [7]) < 2 ^ 63"
    by (simp add: stored_body_def data_prefix_def leb128_small)
  have log: "fp_data (fptr (corrupt_log v)) = [9, 9] @ block_bytes kDataBlock (stored_body 1 4 None None [1, 2, 3, 4] [7]) @ [5]"
    "verify_checksums (corrupt_log v) = v" "id_to_record (corrupt_log v) 1 = Some 0" for v
    by (simp_all add: corrupt_log_def)
  have data: "stored_data demo_reader False [7] = Some [7]" by (simp add: stored_data_def)
  have "\<exists>f. fr_Read demo_reader (corrupt_log verify) 2 = (if verify then Inl kDataChecksumMismatch
      else Inr (\<lparr>it_index = 2, it_timestamp = not_a_date_time, it_data = [7], it_flags = 4, it_record = 0\<rparr>,
        (corrupt_log verify)\<lparr>fptr := f\<rparr>))" for verify
    using data_block_read [OF log(1) fl _ len, of demo_reader verify] crc word log(2,3) data
    by (cases verify) simp_all
  from this [of True] this [of False] show ?thesis by simp
qed

end
