(* ===== verification/Event_Queue.thy ===== *)
theory Event_Queue
  imports Prelude "HOL-Library.Multiset"
begin

text \<open>
  \<open>micro/atomic_event_queue.h\<close>: a queue of callbacks that is filled from any thread or
  interrupt and emptied by one poller, without locks. The atomic operations are sequentially
  consistent, so that an execution is an interleaving of the accesses of the threads: each call
  of \<open>Queue\<close> and of \<open>Poll\<close> is a program counter with the values it has loaded, and a step is
  one access to the shared entries. The access to the callback itself, which is not atomic, is
  a step of its own; that no two threads ever reach such steps for the same entry is proved.
\<close>

section \<open>Definitions\<close>

record 'f entry =
  ev_state :: u32
  ev_function :: "'f option"

definition entry_init :: "'f entry" where
  "entry_init = \<lparr>ev_state = 0, ev_function = None\<rparr>"

record 'f event_queue =
  entries :: "'f entry list"
  ev_count :: int

definition event_queue_init :: "nat \<Rightarrow> 'f event_queue" where
  "event_queue_init n = \<lparr>entries = replicate n entry_init, ev_count = 0\<rparr>"

abbreviation set_entry :: "'f event_queue \<Rightarrow> nat \<Rightarrow> 'f entry \<Rightarrow> 'f event_queue" where
  "set_entry q i e \<equiv> q\<lparr>entries := (entries q)[i := e]\<rparr>"

subsection \<open>Queue\<close>

text \<open>
  A call of \<open>Queue\<close> stands before: the load of the state of an entry, the \<open>fetch_or\<close> that claims
  it, the assignment of the callback, the \<open>fetch_or\<close> that publishes it, the increment of the
  count; or it has returned, with the callback queued or dropped.
\<close>

datatype queue_pc = QLoad nat | QClaim nat | QStore nat | QPublish nat | QCount | QQueued | QDropped

record 'f queue_call =
  call_function :: 'f
  ignore_full :: bool
  call_pc :: queue_pc

definition Queue_start :: "'f \<Rightarrow> bool \<Rightarrow> 'f queue_call" where
  "Queue_start f ign = \<lparr>call_function = f, ignore_full = ign, call_pc = QLoad 0\<rparr>"

fun Queue_step :: "'f queue_call \<Rightarrow> 'f event_queue \<Rightarrow> ('f queue_call \<times> 'f event_queue) res" where
  "Queue_step c q =
     (case call_pc c of
        QLoad i \<Rightarrow>
          if i < length (entries q) then
            Inr (c\<lparr>call_pc := (if ev_state (entries q ! i) = 0 then QClaim i else QLoad (i + 1))\<rparr>, q)
          else if ignore_full c then Inr (c\<lparr>call_pc := QDropped\<rparr>, q)
          else Inl AssertFailed
      | QClaim i \<Rightarrow>
          let e = entries q ! i
          in Inr (c\<lparr>call_pc := (if ev_state e \<noteq> 0 then QLoad (i + 1) else QStore i)\<rparr>,
                  set_entry q i (e\<lparr>ev_state := ev_state e OR 1\<rparr>))
      | QStore i \<Rightarrow>
          Inr (c\<lparr>call_pc := QPublish i\<rparr>,
               set_entry q i ((entries q ! i)\<lparr>ev_function := Some (call_function c)\<rparr>))
      | QPublish i \<Rightarrow>
          let e = entries q ! i
          in sbind (mj_assert (ev_state e = 1)) (\<lambda>_.
             Inr (c\<lparr>call_pc := QCount\<rparr>, set_entry q i (e\<lparr>ev_state := ev_state e OR 2\<rparr>)))
      | QCount \<Rightarrow> Inr (c\<lparr>call_pc := QQueued\<rparr>, q\<lparr>ev_count := ev_count q + 1\<rparr>)
      | QQueued \<Rightarrow> Inr (c, q)
      | QDropped \<Rightarrow> Inr (c, q))"

subsection \<open>Poll\<close>

text \<open>
  \<open>Poll\<close> stands before: the load of the count in round \<open>i\<close>, the load of the state, the
  \<open>fetch_or\<close> that takes the entry, the copy of its callback, the clearing of the callback, the
  \<open>fetch_and\<close> that frees the entry, the call, the decrement of the count; or it has returned.
  The callbacks that were called are recorded.
\<close>

datatype 'f poll_pc = PIdle | PCount nat | PLoad nat | PTake nat | PCopy nat | PClear nat 'f | PFree nat 'f
  | PRun nat 'f | PUncount nat

fun Poll_step :: "'f poll_pc \<Rightarrow> 'f event_queue \<Rightarrow> 'f list \<Rightarrow> ('f poll_pc \<times> 'f event_queue \<times> 'f list) res" where
  "Poll_step PIdle q called = Inr (PIdle, q, called)"
| "Poll_step (PCount i) q called =
     Inr (if i < length (entries q) \<and> ev_count q \<noteq> 0 then PLoad i else PIdle, q, called)"
| "Poll_step (PLoad i) q called =
     (if ev_state (entries q ! i) = 3 then Inr (PTake i, q, called)
      else if ev_state (entries q ! i) = 7 then Inl AssertFailed
      else Inr (PCount (i + 1), q, called))"
| "Poll_step (PTake i) q called =
     (let e = entries q ! i
      in sbind (mj_assert (ev_state e = 3)) (\<lambda>_.
         Inr (PCopy i, set_entry q i (e\<lparr>ev_state := ev_state e OR 4\<rparr>), called)))"
| "Poll_step (PCopy i) q called =
     (case ev_function (entries q ! i) of None \<Rightarrow> Inl Thrown | Some f \<Rightarrow> Inr (PClear i f, q, called))"
| "Poll_step (PClear i f) q called =
     Inr (PFree i f, set_entry q i ((entries q ! i)\<lparr>ev_function := None\<rparr>), called)"
| "Poll_step (PFree i f) q called =
     (let e = entries q ! i
      in sbind (mj_assert (ev_state e = 7)) (\<lambda>_.
         Inr (PRun i f, set_entry q i (e\<lparr>ev_state := ev_state e AND 0\<rparr>), called)))"
| "Poll_step (PRun i f) q called = Inr (PUncount i, q, called @ [f])"
| "Poll_step (PUncount i) q called = Inr (PCount (i + 1), q\<lparr>ev_count := ev_count q - 1\<rparr>, called)"

subsection \<open>All threads\<close>

record 'f event_system =
  ev_queue :: "'f event_queue"
  calls :: "'f queue_call list"
  poll_pc :: "'f poll_pc"
  called :: "'f list"

definition event_system_init :: "nat \<Rightarrow> 'f event_system" where
  "event_system_init n = \<lparr>ev_queue = event_queue_init n, calls = [], poll_pc = PIdle, called = []\<rparr>"

definition step_call :: "nat \<Rightarrow> 'f event_system \<Rightarrow> 'f event_system res" where
  "step_call k s =
     sbind (Queue_step (calls s ! k) (ev_queue s)) (\<lambda>(c, q).
     Inr (s\<lparr>calls := (calls s)[k := c], ev_queue := q\<rparr>))"

definition step_poll :: "'f event_system \<Rightarrow> 'f event_system res" where
  "step_poll s =
     sbind (Poll_step (poll_pc s) (ev_queue s) (called s)) (\<lambda>(p, q, r).
     Inr (s\<lparr>poll_pc := p, ev_queue := q, called := r\<rparr>))"

text \<open>
  The executions: at any moment a new call of \<open>Queue\<close> may begin, also from within a callback,
  any call may make a step, and the one poller may begin or go on.
\<close>

inductive event_reach :: "nat \<Rightarrow> 'f event_system \<Rightarrow> bool" where
  init: "event_reach n (event_system_init n)"
| queue: "event_reach n s \<Longrightarrow> event_reach n (s\<lparr>calls := calls s @ [Queue_start f ign]\<rparr>)"
| call: "event_reach n s \<Longrightarrow> k < length (calls s) \<Longrightarrow> step_call k s = Inr s' \<Longrightarrow> event_reach n s'"
| poll: "event_reach n s \<Longrightarrow> poll_pc s = PIdle \<Longrightarrow> event_reach n (s\<lparr>poll_pc := PCount 0\<rparr>)"
| step: "event_reach n s \<Longrightarrow> step_poll s = Inr s' \<Longrightarrow> event_reach n s'"

text \<open>\<open>Poll\<close> without any other thread: to its return, for at most \<open>k\<close> steps.\<close>

fun poll_alone :: "nat \<Rightarrow> 'f event_system \<Rightarrow> 'f event_system res" where
  "poll_alone 0 s = Inr s"
| "poll_alone (Suc k) s = (if poll_pc s = PIdle then Inr s else sbind (step_poll s) (poll_alone k))"

section \<open>Pending callbacks\<close>

definition slot :: "'f entry \<Rightarrow> 'f list" where
  "slot e = (if ev_state e = 3 then (case ev_function e of None \<Rightarrow> [] | Some f \<Rightarrow> [f]) else [])"

definition pending :: "'f event_queue \<Rightarrow> 'f list" where
  "pending q = concat (map slot (entries q))"

text \<open>The callback the poller has taken but not called yet.\<close>

fun in_flight :: "'f event_queue \<Rightarrow> 'f poll_pc \<Rightarrow> 'f list" where
  "in_flight q (PCopy i) = (case ev_function (entries q ! i) of None \<Rightarrow> [] | Some f \<Rightarrow> [f])"
| "in_flight q (PClear i f) = [f]"
| "in_flight q (PFree i f) = [f]"
| "in_flight q (PRun i f) = [f]"
| "in_flight q _ = []"

text \<open>The callbacks whose calls have published them.\<close>

definition published :: "'f queue_call \<Rightarrow> 'f list" where
  "published c = (if call_pc c = QCount \<or> call_pc c = QQueued then [call_function c] else [])"

definition uncounted :: "'f queue_call \<Rightarrow> unit list" where
  "uncounted c = (if call_pc c = QCount then [()] else [])"

definition taken :: "'f poll_pc \<Rightarrow> int" where
  "taken p = (case p of PCopy _ \<Rightarrow> 1 | PClear _ _ \<Rightarrow> 1 | PFree _ _ \<Rightarrow> 1 | PRun _ _ \<Rightarrow> 1 | PUncount _ \<Rightarrow> 1 | _ \<Rightarrow> 0)"

lemma mset_concat_update:
  "i < length xs \<Longrightarrow> mset (concat (map g (xs[i := y]))) + mset (g (xs ! i)) = mset (concat (map g xs)) + mset (g y)"
  by (induction xs arbitrary: i) (auto split: nat.split)

lemma length_concat_update:
  "i < length xs \<Longrightarrow> length (concat (map g (xs[i := y]))) + length (g (xs ! i)) = length (concat (map g xs)) + length (g y)"
  by (induction xs arbitrary: i) (auto split: nat.split)

section \<open>The invariant\<close>

definition owns :: "queue_pc \<Rightarrow> nat \<Rightarrow> bool" where
  "owns p i \<longleftrightarrow> p = QStore i \<or> p = QPublish i"

definition takes_entry :: "'f poll_pc \<Rightarrow> nat \<Rightarrow> bool" where
  "takes_entry p i \<longleftrightarrow> p = PCopy i \<or> (\<exists>f. p = PClear i f) \<or> (\<exists>f. p = PFree i f)"

definition call_ok :: "'f event_queue \<Rightarrow> 'f queue_call \<Rightarrow> bool" where
  "call_ok q c =
     (case call_pc c of
        QLoad i \<Rightarrow> i \<le> length (entries q)
      | QClaim i \<Rightarrow> i < length (entries q)
      | QStore i \<Rightarrow> i < length (entries q) \<and> ev_state (entries q ! i) = 1
      | QPublish i \<Rightarrow> i < length (entries q) \<and> ev_state (entries q ! i) = 1
          \<and> ev_function (entries q ! i) = Some (call_function c)
      | _ \<Rightarrow> True)"

definition poll_ok :: "'f event_queue \<Rightarrow> 'f poll_pc \<Rightarrow> bool" where
  "poll_ok q p =
     (case p of
        PLoad i \<Rightarrow> i < length (entries q)
      | PTake i \<Rightarrow> i < length (entries q) \<and> ev_state (entries q ! i) = 3
      | PCopy i \<Rightarrow> i < length (entries q) \<and> ev_state (entries q ! i) = 7 \<and> ev_function (entries q ! i) \<noteq> None
      | PClear i f \<Rightarrow> i < length (entries q) \<and> ev_state (entries q ! i) = 7 \<and> ev_function (entries q ! i) = Some f
      | PFree i f \<Rightarrow> i < length (entries q) \<and> ev_state (entries q ! i) = 7
      | _ \<Rightarrow> True)"

definition entry_ok :: "'f queue_call list \<Rightarrow> 'f poll_pc \<Rightarrow> nat \<Rightarrow> 'f entry \<Rightarrow> bool" where
  "entry_ok cs p i e \<longleftrightarrow>
     ev_state e \<in> {0, 1, 3, 7}
     \<and> (ev_state e = 1 \<longrightarrow> (\<exists>k < length cs. owns (call_pc (cs ! k)) i))
     \<and> (ev_state e = 3 \<longrightarrow> ev_function e \<noteq> None)
     \<and> (ev_state e = 7 \<longrightarrow> takes_entry p i)"

text \<open>Who owns which entry.\<close>

definition sole_owners :: "'f queue_call list \<Rightarrow> bool" where
  "sole_owners cs \<longleftrightarrow> (\<forall>i k l. k < length cs \<longrightarrow> l < length cs \<longrightarrow>
     owns (call_pc (cs ! k)) i \<longrightarrow> owns (call_pc (cs ! l)) i \<longrightarrow> k = l)"

definition own_inv :: "nat \<Rightarrow> 'f event_system \<Rightarrow> bool" where
  "own_inv n s \<longleftrightarrow>
     length (entries (ev_queue s)) = n
     \<and> (\<forall>k < length (calls s). call_ok (ev_queue s) (calls s ! k))
     \<and> sole_owners (calls s)
     \<and> (\<forall>i < n. entry_ok (calls s) (poll_pc s) i (entries (ev_queue s) ! i))
     \<and> poll_ok (ev_queue s) (poll_pc s)"

text \<open>Where the callbacks are, and what the count counts.\<close>

definition book_inv :: "'f event_system \<Rightarrow> bool" where
  "book_inv s \<longleftrightarrow>
     mset (concat (map published (calls s)))
         = mset (called s) + mset (in_flight (ev_queue s) (poll_pc s)) + mset (pending (ev_queue s))
     \<and> ev_count (ev_queue s) + int (length (concat (map uncounted (calls s))))
         = int (length (pending (ev_queue s))) + taken (poll_pc s)"

lemma own_inv_init: "own_inv n (event_system_init n)"
  by (simp add: own_inv_def sole_owners_def event_system_init_def event_queue_init_def entry_ok_def entry_init_def poll_ok_def)

lemma own_inv_queue: "own_inv n s \<Longrightarrow> own_inv n (s\<lparr>calls := calls s @ [Queue_start f ign]\<rparr>)"
  by (auto simp: own_inv_def sole_owners_def entry_ok_def call_ok_def Queue_start_def owns_def nth_append less_Suc_eq)

lemma own_inv_poll: "own_inv n s \<Longrightarrow> poll_pc s = PIdle \<Longrightarrow> own_inv n (s\<lparr>poll_pc := PCount 0\<rparr>)"
  by (auto simp: own_inv_def entry_ok_def poll_ok_def takes_entry_def)

lemma call_ok_same: "call_ok q c \<Longrightarrow> \<not> owns (call_pc c) i \<Longrightarrow> call_ok (set_entry q i e) c"
  by (auto simp: call_ok_def owns_def nth_list_update split: queue_pc.splits)

lemma poll_ok_same:
  "poll_ok q p \<Longrightarrow> i < length (entries q) \<Longrightarrow> ev_state (entries q ! i) \<in> {0, 1} \<Longrightarrow> poll_ok (set_entry q i e) p"
  by (auto simp: poll_ok_def nth_list_update split: poll_pc.splits)

lemma own_inv_calls_stay:
  assumes "own_inv n s" and "i < n" and "ev_state (entries (ev_queue s) ! i) \<noteq> 1" and "k < length (calls s)"
  shows "call_ok (set_entry (ev_queue s) i e) (calls s ! k)"
  using assms by (intro call_ok_same) (auto simp: own_inv_def call_ok_def owns_def split: queue_pc.splits)

text \<open>The poller moves on, and maybe replaces an entry that no call of \<open>Queue\<close> owns.\<close>

lemma own_inv_poll_moves:
  assumes "own_inv n s" and "poll_ok (ev_queue s) p"
    and "\<And>j. takes_entry (poll_pc s) j \<Longrightarrow> takes_entry p j"
  shows "own_inv n (s\<lparr>poll_pc := p, called := r\<rparr>)"
  using assms by (auto simp: own_inv_def entry_ok_def)

lemma own_inv_poll_sets:
  assumes inv: "own_inv n s" and i: "i < n" "ev_state (entries (ev_queue s) ! i) \<noteq> 1"
    and e: "entry_ok (calls s) p i e" and p: "poll_ok (set_entry (ev_queue s) i e) p"
    and "\<And>j. j \<noteq> i \<Longrightarrow> takes_entry (poll_pc s) j \<Longrightarrow> takes_entry p j"
  shows "own_inv n (s\<lparr>poll_pc := p, ev_queue := set_entry (ev_queue s) i e, called := r\<rparr>)"
proof -
  have entry: "entry_ok (calls s) p j (entries (set_entry (ev_queue s) i e) ! j)" if "j < n" for j
  proof (cases "j = i")
    case False
    with inv that have "entry_ok (calls s) (poll_pc s) j (entries (ev_queue s) ! j)" by (simp add: own_inv_def)
    with False assms(6) show ?thesis by (auto simp: entry_ok_def)
  qed (use inv e i in \<open>simp add: own_inv_def\<close>)
  show ?thesis
    using inv p own_inv_calls_stay [OF inv i] entry by (simp add: own_inv_def)
qed

lemma own_inv_count: "own_inv n s \<Longrightarrow> own_inv n (s\<lparr>ev_queue := (ev_queue s)\<lparr>ev_count := c\<rparr>\<rparr>)"
  by (simp add: own_inv_def call_ok_def poll_ok_def split: queue_pc.splits poll_pc.splits)

lemma own_inv_step_poll:
  assumes inv: "own_inv n s" and "step_poll s = Inr s'"
  shows "own_inv n s'"
proof -
  let ?q = "ev_queue s"
  obtain p q r where step: "Poll_step (poll_pc s) ?q (called s) = Inr (p, q, r)"
      and s': "s' = s\<lparr>poll_pc := p, ev_queue := q, called := r\<rparr>"
    using assms(2) by (auto simp: step_poll_def)
  have ok: "poll_ok ?q (poll_pc s)" "length (entries ?q) = n"
      "\<And>i. i < n \<Longrightarrow> entry_ok (calls s) (poll_pc s) i (entries ?q ! i)"
    using inv by (auto simp: own_inv_def)
  show ?thesis
  proof (cases "poll_pc s")
    case (PTake i)
    have e: "i < n" "ev_state (entries ?q ! i) = 3" using ok(1,2) PTake by (simp_all add: poll_ok_def)
    let ?e = "(entries ?q ! i)\<lparr>ev_state := 7\<rparr>"
    from e step PTake have eq: "p = PCopy i" "q = set_entry ?q i ?e" by auto
    have f: "ev_function (entries ?q ! i) \<noteq> None" using ok(3) [OF e(1)] e(2) by (simp add: entry_ok_def)
    have "entry_ok (calls s) (PCopy i) i ?e"
      using ok(3) [OF e(1)] e(2) by (auto simp: entry_ok_def takes_entry_def)
    with e show ?thesis unfolding s' eq
      by (intro own_inv_poll_sets [OF inv]) (use ok(2) f in \<open>auto simp: PTake poll_ok_def takes_entry_def\<close>)
  next
    case (PClear i f)
    have e: "i < n" "ev_state (entries ?q ! i) = 7" using ok(1,2) PClear by (simp_all add: poll_ok_def)
    let ?e = "(entries ?q ! i)\<lparr>ev_function := None\<rparr>"
    from e step PClear have eq: "p = PFree i f" "q = set_entry ?q i ?e" by auto
    have "entry_ok (calls s) (PFree i f) i ?e"
      using ok(3) [OF e(1)] e(2) by (auto simp: entry_ok_def takes_entry_def)
    with e show ?thesis unfolding s' eq
      by (intro own_inv_poll_sets [OF inv]) (use ok(2) in \<open>auto simp: PClear poll_ok_def takes_entry_def\<close>)
  next
    case (PFree i f)
    have e: "i < n" "ev_state (entries ?q ! i) = 7" using ok(1,2) PFree by (simp_all add: poll_ok_def)
    let ?e = "(entries ?q ! i)\<lparr>ev_state := 0\<rparr>"
    from e step PFree have eq: "p = PRun i f" "q = set_entry ?q i ?e" by auto
    have "entry_ok (calls s) (PRun i f) i ?e"
      using ok(3) [OF e(1)] e(2) by (auto simp: entry_ok_def takes_entry_def)
    with e show ?thesis unfolding s' eq
      by (intro own_inv_poll_sets [OF inv]) (use ok(2) in \<open>auto simp: PFree poll_ok_def takes_entry_def\<close>)
  next
    case (PUncount i)
    with step have eq: "p = PCount (i + 1)" "q = ?q\<lparr>ev_count := ev_count ?q - 1\<rparr>" by auto
    have "own_inv n (s\<lparr>poll_pc := PCount (i + 1), called := r\<rparr>)"
      by (rule own_inv_poll_moves [OF inv]) (simp_all add: PUncount poll_ok_def takes_entry_def)
    from own_inv_count [OF this, of "ev_count ?q - 1"] show ?thesis unfolding s' eq by (cases s) simp
  qed (use step ok s' own_inv_poll_moves [OF inv, of p r] in
      \<open>auto simp: poll_ok_def takes_entry_def split: if_splits option.splits\<close>)
qed

lemma sole_ownersD:
  "sole_owners cs \<Longrightarrow> k < length cs \<Longrightarrow> l < length cs \<Longrightarrow> owns (call_pc (cs ! k)) i \<Longrightarrow>
   owns (call_pc (cs ! l)) i \<Longrightarrow> k = l"
  unfolding sole_owners_def by blast

lemma sole_owners_update:
  assumes "sole_owners cs" and "\<And>i l. l < length cs \<Longrightarrow> l \<noteq> k \<Longrightarrow> owns (call_pc c) i \<Longrightarrow> \<not> owns (call_pc (cs ! l)) i"
  shows "sole_owners (cs[k := c])"
  unfolding sole_owners_def
proof (intro allI impI)
  fix j l m
  assume "l < length (cs[k := c])" "m < length (cs[k := c])"
    and o: "owns (call_pc (cs[k := c] ! l)) j" "owns (call_pc (cs[k := c] ! m)) j"
  then have lm: "l < length cs" "m < length cs" by simp_all
  with o sole_ownersD [OF assms(1), of l m j] assms(2) [of l j] assms(2) [of m j] show "l = m"
    by (cases "l = k"; cases "m = k") auto
qed

text \<open>A call of \<open>Queue\<close> moves on without owning an entry before or after.\<close>

lemma own_inv_call_moves:
  assumes inv: "own_inv n s" and c: "call_ok (ev_queue s) c" "\<And>i. \<not> owns (call_pc (calls s ! k)) i" "\<And>i. \<not> owns (call_pc c) i"
    and k: "k < length (calls s)"
  shows "own_inv n (s\<lparr>calls := (calls s)[k := c]\<rparr>)"
proof -
  have "entry_ok ((calls s)[k := c]) (poll_pc s) i (entries (ev_queue s) ! i)" if "i < n" for i
  proof -
    have e: "entry_ok (calls s) (poll_pc s) i (entries (ev_queue s) ! i)" using inv that by (simp add: own_inv_def)
    have "\<exists>l < length (calls s). owns (call_pc ((calls s)[k := c] ! l)) i"
      if "l < length (calls s)" "owns (call_pc (calls s ! l)) i" for l
      using that c(2) by (metis nth_list_update_neq)
    with e show ?thesis by (auto simp: entry_ok_def)
  qed
  moreover have "sole_owners ((calls s)[k := c])"
    by (rule sole_owners_update) (use inv c(3) in \<open>auto simp: own_inv_def\<close>)
  moreover have "call_ok (ev_queue s) ((calls s)[k := c] ! l)" if "l < length (calls s)" for l
    using that inv c(1) by (cases "l = k") (simp_all add: own_inv_def)
  ultimately show ?thesis using inv by (simp add: own_inv_def)
qed

text \<open>A call replaces an entry that is free or its own.\<close>

lemma own_inv_call_sets:
  assumes inv: "own_inv n s" and k: "k < length (calls s)" and i: "i < n"
    and other: "\<And>l. l < length (calls s) \<Longrightarrow> l \<noteq> k \<Longrightarrow> \<not> owns (call_pc (calls s ! l)) i"
    and st: "ev_state (entries (ev_queue s) ! i) \<in> {0, 1}"
    and was: "\<And>j. j \<noteq> i \<Longrightarrow> \<not> owns (call_pc (calls s ! k)) j" "\<And>j. j \<noteq> i \<Longrightarrow> \<not> owns (call_pc c) j"
    and c: "call_ok (set_entry (ev_queue s) i e) c"
    and e: "ev_state e = 1 \<and> owns (call_pc c) i \<or> ev_state e = 3 \<and> ev_function e \<noteq> None"
  shows "own_inv n (s\<lparr>calls := (calls s)[k := c], ev_queue := set_entry (ev_queue s) i e\<rparr>)"
proof -
  let ?q = "set_entry (ev_queue s) i e"
  have "call_ok ?q ((calls s)[k := c] ! l)" if "l < length (calls s)" for l
  proof (cases "l = k")
    case False
    have "call_ok (ev_queue s) (calls s ! l)" using inv that by (simp add: own_inv_def)
    from call_ok_same [OF this other [OF that False]] False show ?thesis by simp
  qed (use k c in simp)
  moreover have "sole_owners ((calls s)[k := c])"
  proof (rule sole_owners_update)
    show "sole_owners (calls s)" using inv by (simp add: own_inv_def)
    fix j l
    assume l: "l < length (calls s)" "l \<noteq> k" "owns (call_pc c) j"
    then have "j = i" using was(2) by blast
    with l other show "\<not> owns (call_pc (calls s ! l)) j" by simp
  qed
  moreover have "entry_ok ((calls s)[k := c]) (poll_pc s) j (entries ?q ! j)" if "j < n" for j
  proof (cases "j = i")
    case True
    with e k i inv show ?thesis by (auto simp: entry_ok_def own_inv_def intro!: exI [of _ k])
  next
    case False
    have "entry_ok (calls s) (poll_pc s) j (entries (ev_queue s) ! j)" using inv that by (simp add: own_inv_def)
    moreover have "\<exists>l < length (calls s). owns (call_pc ((calls s)[k := c] ! l)) j"
      if "l < length (calls s)" "owns (call_pc (calls s ! l)) j" for l
      using that was(1) [OF False] by (metis nth_list_update_neq)
    ultimately show ?thesis using False by (auto simp: entry_ok_def)
  qed
  moreover have "poll_ok ?q (poll_pc s)"
    using inv st i by (intro poll_ok_same) (auto simp: own_inv_def)
  ultimately show ?thesis using inv by (simp add: own_inv_def)
qed

lemma own_inv_step_call:
  assumes inv: "own_inv n s" and k: "k < length (calls s)" and "step_call k s = Inr s'"
  shows "own_inv n s'"
proof -
  let ?q = "ev_queue s" and ?c = "calls s ! k"
  obtain c q where step: "Queue_step ?c ?q = Inr (c, q)" and s': "s' = s\<lparr>calls := (calls s)[k := c], ev_queue := q\<rparr>"
    using assms(3) by (auto simp: step_call_def)
  have ok: "call_ok ?q ?c" "length (entries ?q) = n" "sole_owners (calls s)"
    using inv k by (auto simp: own_inv_def)
  note sole = sole_ownersD [OF ok(3) k]
  show ?thesis
  proof (cases "call_pc ?c")
    case (QLoad i)
    with step have "q = ?q" "call_pc c \<in> {QClaim i, QLoad (i + 1), QDropped}" "call_ok ?q c"
      by (auto simp: call_ok_def split: if_splits)
    with own_inv_call_moves [OF inv _ _ _ k, of c] s' QLoad show ?thesis by (auto simp: owns_def)
  next
    case (QClaim i)
    have i: "i < n" using ok QClaim by (simp add: call_ok_def)
    let ?e = "entries ?q ! i"
    have e: "entry_ok (calls s) (poll_pc s) i ?e" using inv i by (simp add: own_inv_def)
    show ?thesis
    proof (cases "ev_state ?e = 0")
      case True
      have none: "\<not> owns (call_pc (calls s ! l)) i" if "l < length (calls s)" for l
        using inv that True by (auto simp: own_inv_def call_ok_def owns_def split: queue_pc.splits)
      from True step QClaim have eq: "c = ?c\<lparr>call_pc := QStore i\<rparr>" "q = set_entry ?q i (?e\<lparr>ev_state := 1\<rparr>)"
        by (auto simp: Let_def)
      show ?thesis unfolding s' eq
        by (rule own_inv_call_sets [OF inv k i none])
          (use True i ok(2) in \<open>auto simp: QClaim owns_def call_ok_def\<close>)
    next
      case False
      then have "?e\<lparr>ev_state := ev_state ?e OR 1\<rparr> = ?e" using e by (auto simp: entry_ok_def)
      with False step QClaim have eq: "q = ?q" "c = ?c\<lparr>call_pc := QLoad (i + 1)\<rparr>" by (auto simp: Let_def)
      with own_inv_call_moves [OF inv _ _ _ k, of c] s' QClaim i ok(2) show ?thesis by (auto simp: owns_def call_ok_def)
    qed
  next
    case (QStore i)
    have i: "i < n" "ev_state (entries ?q ! i) = 1" using ok QStore by (simp_all add: call_ok_def)
    have other: "\<not> owns (call_pc (calls s ! l)) i" if "l < length (calls s)" "l \<noteq> k" for l
      using sole [OF that(1)] that(2) QStore by (auto simp: owns_def)
    from step QStore have eq: "c = ?c\<lparr>call_pc := QPublish i\<rparr>"
        "q = set_entry ?q i ((entries ?q ! i)\<lparr>ev_function := Some (call_function ?c)\<rparr>)" by auto
    show ?thesis unfolding s' eq
      by (rule own_inv_call_sets [OF inv k i(1) other]) (use i ok(2) in \<open>auto simp: QStore owns_def call_ok_def\<close>)
  next
    case (QPublish i)
    have i: "i < n" "ev_state (entries ?q ! i) = 1" "ev_function (entries ?q ! i) = Some (call_function ?c)"
      using ok QPublish by (simp_all add: call_ok_def)
    have other: "\<not> owns (call_pc (calls s ! l)) i" if "l < length (calls s)" "l \<noteq> k" for l
      using sole [OF that(1)] that(2) QPublish by (auto simp: owns_def)
    from i step QPublish have eq: "c = ?c\<lparr>call_pc := QCount\<rparr>"
        "q = set_entry ?q i ((entries ?q ! i)\<lparr>ev_state := 3\<rparr>)" by auto
    show ?thesis unfolding s' eq
      by (rule own_inv_call_sets [OF inv k i(1) other]) (use i ok(2) in \<open>auto simp: QPublish owns_def call_ok_def\<close>)
  next
    case QCount
    with step have eq: "c = ?c\<lparr>call_pc := QQueued\<rparr>" "q = ?q\<lparr>ev_count := ev_count ?q + 1\<rparr>" by auto
    have "own_inv n (s\<lparr>calls := (calls s)[k := c]\<rparr>)"
      by (rule own_inv_call_moves [OF inv _ _ _ k]) (simp_all add: eq QCount owns_def call_ok_def)
    from own_inv_count [OF this, of "ev_count ?q + 1"] show ?thesis unfolding s' eq by (cases s) simp
  next
    case QQueued
    with step have "c = ?c" "q = ?q" by auto
    with s' inv show ?thesis by simp
  next
    case QDropped
    with step have "c = ?c" "q = ?q" by auto
    with s' inv show ?thesis by simp
  qed
qed

lemma event_reach_own: "event_reach n s \<Longrightarrow> own_inv n s"
  by (induction rule: event_reach.induct)
    (auto intro: own_inv_init own_inv_queue own_inv_poll own_inv_step_call own_inv_step_poll)

section \<open>Bookkeeping\<close>

lemma pending_set_entry:
  assumes "i < length (entries q)"
  shows "mset (pending (set_entry q i e)) + mset (slot (entries q ! i)) = mset (pending q) + mset (slot e)"
    and "length (pending (set_entry q i e)) + length (slot (entries q ! i)) = length (pending q) + length (slot e)"
  using mset_concat_update [OF assms, of slot e] length_concat_update [OF assms, of slot e]
  by (simp_all add: pending_def)

lemma pending_count [simp]: "pending (q\<lparr>ev_count := c\<rparr>) = pending q"
  by (simp add: pending_def)

lemma book_inv_step_poll:
  assumes own: "own_inv n s" and inv: "book_inv s" and "step_poll s = Inr s'"
  shows "book_inv s'"
proof -
  let ?q = "ev_queue s"
  obtain p q r where step: "Poll_step (poll_pc s) ?q (called s) = Inr (p, q, r)"
      and s': "s' = s\<lparr>poll_pc := p, ev_queue := q, called := r\<rparr>"
    using assms(3) by (auto simp: step_poll_def)
  have ok: "poll_ok ?q (poll_pc s)" "length (entries ?q) = n" using own by (auto simp: own_inv_def)
  show ?thesis
  proof (cases "poll_pc s")
    case (PTake i)
    have e: "i < length (entries ?q)" "ev_state (entries ?q ! i) = 3" using ok(1) PTake by (simp_all add: poll_ok_def)
    obtain f where f: "ev_function (entries ?q ! i) = Some f"
      using own e ok(2) by (auto simp: own_inv_def entry_ok_def)
    from e step PTake have "p = PCopy i" "q = set_entry ?q i ((entries ?q ! i)\<lparr>ev_state := 7\<rparr>)" "r = called s" by auto
    with pending_set_entry [OF e(1), of "(entries ?q ! i)\<lparr>ev_state := 7\<rparr>"] e f inv PTake show ?thesis
      by (auto simp: s' book_inv_def slot_def taken_def)
  next
    case (PClear i f)
    have e: "i < length (entries ?q)" "ev_state (entries ?q ! i) = 7" using ok(1) PClear by (simp_all add: poll_ok_def)
    from e step PClear have "p = PFree i f" "q = set_entry ?q i ((entries ?q ! i)\<lparr>ev_function := None\<rparr>)" "r = called s" by auto
    with pending_set_entry [OF e(1), of "(entries ?q ! i)\<lparr>ev_function := None\<rparr>"] e inv PClear show ?thesis
      by (auto simp: s' book_inv_def slot_def taken_def)
  next
    case (PFree i f)
    have e: "i < length (entries ?q)" "ev_state (entries ?q ! i) = 7" using ok(1) PFree by (simp_all add: poll_ok_def)
    from e step PFree have "p = PRun i f" "q = set_entry ?q i ((entries ?q ! i)\<lparr>ev_state := 0\<rparr>)" "r = called s" by auto
    with pending_set_entry [OF e(1), of "(entries ?q ! i)\<lparr>ev_state := 0\<rparr>"] e inv PFree show ?thesis
      by (auto simp: s' book_inv_def slot_def taken_def)
  qed (use step s' inv in \<open>auto simp: book_inv_def taken_def split: if_splits option.splits\<close>)
qed

lemma book_inv_step_call:
  assumes own: "own_inv n s" and inv: "book_inv s" and k: "k < length (calls s)" and "step_call k s = Inr s'"
  shows "book_inv s'"
proof -
  let ?q = "ev_queue s" and ?c = "calls s ! k"
  obtain c q where step: "Queue_step ?c ?q = Inr (c, q)" and s': "s' = s\<lparr>calls := (calls s)[k := c], ev_queue := q\<rparr>"
    using assms(4) by (auto simp: step_call_def)
  have ok: "call_ok ?q ?c" "length (entries ?q) = n" "poll_ok ?q (poll_pc s)" using own k by (auto simp: own_inv_def)
  note pub = mset_concat_update [OF k, of published c]
    and unc = length_concat_update [OF k, of uncounted c]
  have fly: "in_flight (set_entry ?q i e) (poll_pc s) = in_flight ?q (poll_pc s)"
    if "i < length (entries ?q)" "ev_state (entries ?q ! i) \<noteq> 7" for i e
    using ok(3) that by (auto simp: poll_ok_def nth_list_update split: poll_pc.splits)
  have same: "in_flight (?q\<lparr>ev_count := x\<rparr>) (poll_pc s) = in_flight ?q (poll_pc s)" for x
    by (cases "poll_pc s") auto
  show ?thesis
  proof (cases "call_pc ?c")
    case (QLoad i)
    with step have "q = ?q" "call_pc c \<in> {QClaim i, QLoad (i + 1), QDropped}" by (auto split: if_splits)
    with QLoad pub unc inv show ?thesis by (auto simp: s' book_inv_def published_def uncounted_def)
  next
    case (QClaim i)
    have i: "i < length (entries ?q)" using ok QClaim by (simp add: call_ok_def)
    have "ev_state (entries ?q ! i) \<in> {0, 1, 3, 7}" using own i ok(2) by (auto simp: own_inv_def entry_ok_def)
    then have "slot ((entries ?q ! i)\<lparr>ev_state := ev_state (entries ?q ! i) OR 1\<rparr>) = slot (entries ?q ! i)"
      by (auto simp: slot_def)
    moreover have "in_flight (set_entry ?q i ((entries ?q ! i)\<lparr>ev_state := ev_state (entries ?q ! i) OR 1\<rparr>)) (poll_pc s)
        = in_flight ?q (poll_pc s)"
      using i by (cases "poll_pc s") (auto simp: nth_list_update)
    ultimately show ?thesis
      using QClaim step pub unc inv pending_set_entry [OF i, of "(entries ?q ! i)\<lparr>ev_state := ev_state (entries ?q ! i) OR 1\<rparr>"]
      by (auto simp: s' book_inv_def published_def uncounted_def Let_def split: if_splits)
  next
    case (QStore i)
    have i: "i < length (entries ?q)" "ev_state (entries ?q ! i) = 1" using ok QStore by (simp_all add: call_ok_def)
    with QStore step pub unc inv pending_set_entry [OF i(1), of "(entries ?q ! i)\<lparr>ev_function := Some (call_function ?c)\<rparr>"]
      fly [OF i(1)] show ?thesis
      by (auto simp: s' book_inv_def published_def uncounted_def slot_def)
  next
    case (QPublish i)
    have i: "i < length (entries ?q)" "ev_state (entries ?q ! i) = 1" "ev_function (entries ?q ! i) = Some (call_function ?c)"
      using ok QPublish by (simp_all add: call_ok_def)
    with QPublish step pub unc inv pending_set_entry [OF i(1), of "(entries ?q ! i)\<lparr>ev_state := 3\<rparr>"] fly [OF i(1)]
    show ?thesis
      by (auto simp: s' book_inv_def published_def uncounted_def slot_def)
  next
    case QCount
    with step pub unc inv same show ?thesis by (auto simp: s' book_inv_def published_def uncounted_def)
  next
    case QQueued
    with step have "c = ?c" "q = ?q" by auto
    with s' inv show ?thesis by simp
  next
    case QDropped
    with step have "c = ?c" "q = ?q" by auto
    with s' inv show ?thesis by simp
  qed
qed

lemma event_reach_book: "event_reach n s \<Longrightarrow> book_inv s"
proof (induction rule: event_reach.induct)
  case (init n)
  show ?case
    by (simp add: book_inv_def event_system_init_def event_queue_init_def pending_def slot_def entry_init_def taken_def)
next
  case (queue n s f ign)
  then show ?case by (simp add: book_inv_def published_def uncounted_def Queue_start_def)
next
  case (call n s k s')
  then show ?case by (blast intro: book_inv_step_call event_reach_own)
next
  case (poll n s)
  then show ?case by (simp add: book_inv_def taken_def)
next
  case (step n s s')
  then show ?case by (blast intro: book_inv_step_poll event_reach_own)
qed

section \<open>Poll alone\<close>

lemma poll_alone_more:
  "poll_alone k s = Inr s' \<Longrightarrow> poll_pc s' = PIdle \<Longrightarrow> poll_alone (k + j) s = Inr s'"
proof (induction k arbitrary: s)
  case 0
  then show ?case by (cases j) simp_all
next
  case (Suc k)
  then show ?case by (cases "poll_pc s = PIdle") auto
qed

lemma poll_round_free:
  assumes "poll_pc s = PCount i" and "i < length (entries (ev_queue s))" and "ev_count (ev_queue s) \<noteq> 0"
    and "ev_state (entries (ev_queue s) ! i) = 0"
  shows "poll_alone (2 + k) s = poll_alone k (s\<lparr>poll_pc := PCount (i + 1)\<rparr>)"
proof -
  have k: "2 + k = Suc (Suc k)" by simp
  show ?thesis using assms unfolding k by (simp add: step_poll_def)
qed

lemma poll_round_used:
  assumes "poll_pc s = PCount i" and "i < length (entries (ev_queue s))" and "ev_count (ev_queue s) \<noteq> 0"
    and "ev_state (entries (ev_queue s) ! i) = 3" and "ev_function (entries (ev_queue s) ! i) = Some f"
  shows "poll_alone (8 + k) s = poll_alone k (s\<lparr>poll_pc := PCount (i + 1),
    ev_queue := (ev_queue s)\<lparr>entries := (entries (ev_queue s))[i := entry_init], ev_count := ev_count (ev_queue s) - 1\<rparr>,
    called := called s @ [f]\<rparr>)"
proof -
  have e: "(entries (ev_queue s) ! i)\<lparr>ev_function := None, ev_state := 0\<rparr> = entry_init"
    by (cases "entries (ev_queue s) ! i") (simp add: entry_init_def)
  have k: "8 + k = Suc (Suc (Suc (Suc (Suc (Suc (Suc (Suc k)))))))" by simp
  show ?thesis using assms unfolding k
    by (simp add: step_poll_def Let_def e)
qed

definition quiet :: "nat \<Rightarrow> 'f event_queue \<Rightarrow> bool" where
  "quiet i q \<longleftrightarrow> pending q = concat (map slot (drop i (entries q)))
     \<and> ev_count q = int (length (pending q))
     \<and> (\<forall>e \<in> set (entries q). ev_state e = 0 \<or> ev_state e = 3 \<and> ev_function e \<noteq> None)"

lemma poll_alone_drains:
  "poll_pc s = PCount i \<Longrightarrow> quiet i (ev_queue s) \<Longrightarrow> i + m = length (entries (ev_queue s)) \<Longrightarrow>
   \<exists>s'. poll_alone (8 * m + 1) s = Inr s' \<and> poll_pc s' = PIdle
    \<and> called s' = called s @ pending (ev_queue s) \<and> pending (ev_queue s') = [] \<and> ev_count (ev_queue s') = 0"
proof (induction m arbitrary: i s)
  case 0
  then show ?case by (simp add: step_poll_def quiet_def)
next
  case (Suc m)
  let ?q = "ev_queue s"
  have i: "i < length (entries ?q)" using Suc.prems(3) by simp
  then have drop: "drop i (entries ?q) = entries ?q ! i # drop (Suc i) (entries ?q)" by (rule Cons_nth_drop_Suc [symmetric])
  show ?case
  proof (cases "ev_count ?q = 0")
    case True
    let ?t = "s\<lparr>poll_pc := PIdle\<rparr>"
    from True Suc.prems(1) have "poll_alone 1 s = Inr ?t" by (simp add: step_poll_def)
    then have "poll_alone (1 + 8 * Suc m) s = Inr ?t" by (rule poll_alone_more) simp
    with True Suc.prems(2) show ?thesis unfolding add.commute [of 1] by (auto simp: quiet_def)
  next
    case c: False
    have st: "ev_state (entries ?q ! i) = 0 \<or> ev_state (entries ?q ! i) = 3 \<and> ev_function (entries ?q ! i) \<noteq> None"
      using Suc.prems(2) i by (simp add: quiet_def)
    show ?thesis
    proof (cases "ev_state (entries ?q ! i) = 0")
      case True
      let ?t = "s\<lparr>poll_pc := PCount (i + 1)\<rparr>"
      have "quiet (i + 1) (ev_queue ?t)" using Suc.prems(2) True drop by (simp add: quiet_def slot_def)
      with Suc.IH [of ?t "i + 1"] Suc.prems(3) obtain s' where
        s': "poll_alone (8 * m + 1) ?t = Inr s'" "poll_pc s' = PIdle"
          "called s' = called s @ pending ?q" "pending (ev_queue s') = []" "ev_count (ev_queue s') = 0" by auto
      have "poll_alone (8 * Suc m + 1) s = poll_alone (2 + (8 * m + 1 + 6)) s" by (simp add: algebra_simps)
      also have "\<dots> = poll_alone (8 * m + 1 + 6) ?t" by (rule poll_round_free [OF Suc.prems(1) i c True])
      also have "\<dots> = Inr s'" by (rule poll_alone_more [OF s'(1,2)])
      finally show ?thesis using s' by blast
    next
      case False
      then obtain f where f: "ev_state (entries ?q ! i) = 3" "ev_function (entries ?q ! i) = Some f" using st by auto
      let ?t = "s\<lparr>poll_pc := PCount (i + 1),
        ev_queue := ?q\<lparr>entries := (entries ?q)[i := entry_init], ev_count := ev_count ?q - 1\<rparr>, called := called s @ [f]\<rparr>"
      have pend: "pending ?q = f # concat (map slot (drop (Suc i) (entries ?q)))"
        using Suc.prems(2) drop f by (simp add: quiet_def slot_def)
      have rest: "pending (ev_queue ?t) = concat (map slot (drop (Suc i) (entries ?q)))"
      proof -
        have "concat (map slot (take i (entries ?q))) @ pending ?q = pending ?q"
          using Suc.prems(2) unfolding quiet_def pending_def
          by (metis append_take_drop_id concat_append map_append)
        then have "concat (map slot (take i (entries ?q))) = []" by simp
        then show ?thesis
          using i by (simp add: pending_def upd_conv_take_nth_drop slot_def entry_init_def)
      qed
      have "quiet (i + 1) (ev_queue ?t)"
        using Suc.prems(2) rest pend by (auto simp: quiet_def entry_init_def dest!: set_update_subset_insert [THEN subsetD])
      with Suc.IH [of ?t "i + 1"] Suc.prems(3) rest pend obtain s' where
        s': "poll_alone (8 * m + 1) ?t = Inr s'" "poll_pc s' = PIdle"
          "called s' = called s @ pending ?q" "pending (ev_queue s') = []" "ev_count (ev_queue s') = 0" by auto
      have "poll_alone (8 * Suc m + 1) s = poll_alone (8 + (8 * m + 1)) s" by (simp add: algebra_simps)
      also have "\<dots> = poll_alone (8 * m + 1) ?t" by (rule poll_round_used [OF Suc.prems(1) i c f])
      finally show ?thesis using s' by auto
    qed
  qed
qed

lemma event_quiet:
  assumes "event_reach n s" and "poll_pc s = PIdle"
    and calls: "\<forall>c \<in> set (calls s). call_pc c = QQueued \<or> call_pc c = QDropped"
  shows "quiet 0 (ev_queue s)"
proof -
  have "concat (map uncounted (calls s)) = []" using calls by (auto simp: uncounted_def)
  with event_reach_book [OF assms(1)] assms(2) have "ev_count (ev_queue s) = int (length (pending (ev_queue s)))"
    by (simp add: book_inv_def taken_def)
  moreover have "ev_state e = 0 \<or> ev_state e = 3 \<and> ev_function e \<noteq> None" if "e \<in> set (entries (ev_queue s))" for e
  proof -
    obtain i where i: "i < length (entries (ev_queue s))" "e = entries (ev_queue s) ! i" using \<open>e \<in> _\<close> by (auto simp: in_set_conv_nth)
    have "\<not> owns (call_pc (calls s ! k)) i" if "k < length (calls s)" for k
      using calls nth_mem [OF that] by (auto simp: owns_def)
    with i event_reach_own [OF assms(1)] assms(2) show ?thesis
      by (auto simp: own_inv_def entry_ok_def takes_entry_def)
  qed
  ultimately show ?thesis by (simp add: quiet_def pending_def)
qed

text \<open>A call that makes several steps, and a small execution: one of one entry is in use.\<close>

fun run_call :: "nat \<Rightarrow> nat \<Rightarrow> 'f event_system \<Rightarrow> 'f event_system res" where
  "run_call 0 k s = Inr s"
| "run_call (Suc j) k s = sbind (step_call k s) (run_call j k)"

lemma length_calls_step: "step_call k s = Inr s' \<Longrightarrow> length (calls s') = length (calls s)"
  by (auto simp: step_call_def)

lemma event_reach_run_call:
  "event_reach n s \<Longrightarrow> k < length (calls s) \<Longrightarrow> run_call j k s = Inr s' \<Longrightarrow> event_reach n s'"
proof (induction j arbitrary: s)
  case (Suc j)
  then obtain t where t: "step_call k s = Inr t" "run_call j k t = Inr s'" by auto
  with Suc.prems have "event_reach n t" "k < length (calls t)"
    by (auto intro: event_reach.call simp: length_calls_step)
  with t(2) show ?case by (intro Suc.IH)
qed simp

definition demo_system :: "nat event_system" where
  "demo_system = \<lparr>ev_queue = \<lparr>entries = [\<lparr>ev_state = 3, ev_function = Some 7\<rparr>], ev_count = 1\<rparr>,
     calls = [\<lparr>call_function = 7, ignore_full = False, call_pc = QQueued\<rparr>], poll_pc = PIdle, called = []\<rparr>"

lemma demo_system_reach: "event_reach 1 demo_system"
proof (rule event_reach_run_call)
  let ?s = "event_system_init 1 :: nat event_system"
  show "event_reach 1 (?s\<lparr>calls := calls ?s @ [Queue_start 7 False]\<rparr>)" by (intro event_reach.queue event_reach.init)
  show "0 < length (calls (?s\<lparr>calls := calls ?s @ [Queue_start 7 False]\<rparr>))" by simp
  have five: "5 = Suc (Suc (Suc (Suc (Suc 0))))" by simp
  show "run_call 5 0 (?s\<lparr>calls := calls ?s @ [Queue_start 7 False]\<rparr>) = Inr demo_system"
    unfolding five by (simp add: step_call_def event_system_init_def event_queue_init_def Queue_start_def entry_init_def
        demo_system_def Let_def)
qed

section \<open>Properties\<close>

text \<open>The entries whose callback a thread is about to read or write.\<close>

definition uses_function :: "'f event_system \<Rightarrow> nat \<Rightarrow> nat option \<Rightarrow> bool" where
  "uses_function s i t =
     (case t of
        None \<Rightarrow> poll_pc s = PCopy i \<or> (\<exists>f. poll_pc s = PClear i f)
      | Some k \<Rightarrow> k < length (calls s) \<and> call_pc (calls s ! k) = QStore i)"

text \<open>
  C33: in every interleaving of any number of calls of \<open>Queue\<close> and one poller,
  no two threads are ever about to access the callback of the same entry, so that the plain
  assignments do not race; no assertion of \<open>Poll\<close> fails and it never calls an empty callback;
  and a call of \<open>Queue\<close> fails only when it has looked at all entries and may not drop.
\<close>

theorem event_queue_safe:
  assumes "event_reach n s"
  shows "(\<forall>i t u. uses_function s i t \<longrightarrow> uses_function s i u \<longrightarrow> t = u)
    \<and> (\<exists>s'. step_poll s = Inr s')
    \<and> (\<forall>k < length (calls s). (\<exists>s'. step_call k s = Inr s')
         \<or> call_pc (calls s ! k) = QLoad n \<and> \<not> ignore_full (calls s ! k))"
proof (intro conjI)
  have own: "own_inv n s" by (rule event_reach_own) fact
  have sole: "sole_owners (calls s)" and poll: "poll_ok (ev_queue s) (poll_pc s)" using own by (simp_all add: own_inv_def)
  have call: "call_ok (ev_queue s) (calls s ! k)" if "k < length (calls s)" for k using own that by (simp add: own_inv_def)
  have states: "ev_state (entries (ev_queue s) ! i) = 7 \<longrightarrow> takes_entry (poll_pc s) i"
    if "i < length (entries (ev_queue s))" for i
    using own that by (simp add: own_inv_def entry_ok_def)
  show "\<forall>i t u. uses_function s i t \<longrightarrow> uses_function s i u \<longrightarrow> t = u"
  proof (intro allI impI)
    fix i t u
    assume tu: "uses_function s i t" "uses_function s i u"
    have "False" if "uses_function s i None" "uses_function s i (Some k)" for k
      using that poll call [of k] by (auto simp: uses_function_def poll_ok_def call_ok_def)
    moreover have "k = l" if "uses_function s i (Some k)" "uses_function s i (Some l)" for k l
      using that by (intro sole_ownersD [OF sole]) (auto simp: uses_function_def owns_def)
    ultimately show "t = u" using tu by (cases t; cases u) auto
  qed
  show "\<exists>s'. step_poll s = Inr s'"
  proof (cases "poll_pc s")
    case (PLoad i)
    then have "i < length (entries (ev_queue s))" using poll by (simp add: poll_ok_def)
    from states [OF this] PLoad have "ev_state (entries (ev_queue s) ! i) \<noteq> 7" by (auto simp: takes_entry_def)
    with PLoad show ?thesis by (simp add: step_poll_def)
  qed (use poll in \<open>auto simp: step_poll_def poll_ok_def Let_def\<close>)
  show "\<forall>k < length (calls s). (\<exists>s'. step_call k s = Inr s')
         \<or> call_pc (calls s ! k) = QLoad n \<and> \<not> ignore_full (calls s ! k)"
  proof (intro allI impI)
    fix k assume "k < length (calls s)"
    from call [OF this] own show "(\<exists>s'. step_call k s = Inr s') \<or> call_pc (calls s ! k) = QLoad n \<and> \<not> ignore_full (calls s ! k)"
      by (cases "call_pc (calls s ! k)") (auto simp: step_call_def call_ok_def own_inv_def [of n s] Let_def)
  qed
qed

theorem event_queue_safe_witness:
  "event_reach 1 demo_system \<and> (\<exists>s'. step_poll (demo_system\<lparr>poll_pc := PCount 0\<rparr>) = Inr s')"
  using event_queue_safe [OF event_reach.poll [OF demo_system_reach]] demo_system_reach by (simp add: demo_system_def)

text \<open>
  C34: in every interleaving, the callbacks whose calls have published
  them are, counted with multiplicity, those that were called, the one the poller has taken, and
  those in the entries; once all calls have returned and the poller is idle, the count is the
  number of entries in use, and all others are free.
\<close>

theorem event_queue_exactly_once:
  assumes "event_reach n s"
  shows "mset (concat (map published (calls s)))
      = mset (called s) + mset (in_flight (ev_queue s) (poll_pc s)) + mset (pending (ev_queue s))
    \<and> (poll_pc s = PIdle \<and> (\<forall>c \<in> set (calls s). call_pc c = QQueued \<or> call_pc c = QDropped) \<longrightarrow>
         ev_count (ev_queue s) = int (length (pending (ev_queue s)))
         \<and> (\<forall>e \<in> set (entries (ev_queue s)). ev_state e = 0 \<or> ev_state e = 3))"
  using event_reach_book [OF assms] event_quiet [OF assms] by (auto simp: book_inv_def quiet_def)

theorem event_queue_exactly_once_witness:
  "mset (concat (map published (calls demo_system))) = {#7#} \<and> ev_count (ev_queue demo_system) = 1"
  using event_queue_exactly_once [OF demo_system_reach] by (simp add: demo_system_def pending_def slot_def)

text \<open>
  When all calls have returned, \<open>Poll\<close> on its own returns within
  eight steps per entry and one, having called all queued callbacks in the order of the entries,
  and leaves the queue empty.
\<close>

lemma event_queue_poll_drains:
  assumes "event_reach n s" and "poll_pc s = PIdle"
    and "\<forall>c \<in> set (calls s). call_pc c = QQueued \<or> call_pc c = QDropped"
  shows "\<exists>s'. poll_alone (8 * n + 1) (s\<lparr>poll_pc := PCount 0\<rparr>) = Inr s' \<and> poll_pc s' = PIdle
    \<and> called s' = called s @ pending (ev_queue s) \<and> pending (ev_queue s') = [] \<and> ev_count (ev_queue s') = 0"
  using poll_alone_drains [of "s\<lparr>poll_pc := PCount 0\<rparr>" 0 n] event_quiet [OF assms] event_reach_own [OF assms(1)]
  by (simp add: own_inv_def)

lemma event_queue_poll_drains_example:
  "\<exists>s'. poll_alone 9 (demo_system\<lparr>poll_pc := PCount 0\<rparr>) = Inr s' \<and> called s' = [7]"
  using event_queue_poll_drains [OF demo_system_reach] by (fastforce simp: demo_system_def pending_def slot_def)

end
