(* ===== verification/Config_Fields.thy ===== *)
theory Config_Fields
  imports Config_Items
begin

text \<open>
  What the visitors of \<open>Config_Items\<close> have to do with each other: the fields an enumeration
  prints are those that can be set, and setting a field to the text that was printed for it
  leaves the structure as it is.
\<close>

section \<open>Numbers survive printing\<close>

lemma fmt_nat_small: "n < 10 \<Longrightarrow> fmt_nat n = [of_nat (48 + n)]"
  by (simp add: fmt_nat.simps [of n])

lemma fmt_nat_big: "10 \<le> n \<Longrightarrow> fmt_nat n = fmt_nat (n div 10) @ [of_nat (48 + n mod 10)]"
  by (simp add: fmt_nat.simps [of n])

lemma fmt_nat_not_Nil [simp]: "fmt_nat n \<noteq> []"
  by (cases "n < 10") (simp_all add: fmt_nat_small fmt_nat_big)

lemma digit_value_decimal: "d < 10 \<Longrightarrow> digit_value (of_nat (48 + d)) = Some d"
proof -
  assume "d < 10"
  then have "d \<in> {0, 1, 2, 3, 4, 5, 6, 7, 8, 9}" by auto
  then show ?thesis by (auto simp: digit_value_def)
qed

lemma parse_digits_append:
  "parse_digits 10 acc k (xs @ ys) =
     (case parse_digits 10 acc k xs of (m, j) \<Rightarrow> if j = k + length xs then parse_digits 10 m j ys else (m, j))"
  by (induction xs arbitrary: acc k) (auto split: option.split prod.split)

lemma parse_digits_fmt_nat: "parse_digits 10 0 0 (fmt_nat n) = (n, length (fmt_nat n))"
proof (induction n rule: fmt_nat.induct)
  case (1 n)
  show ?case
  proof (cases "n < 10")
    case True
    then show ?thesis by (simp add: fmt_nat_small digit_value_decimal del: of_nat_add)
  next
    case False
    with 1 show ?thesis
      by (simp add: fmt_nat_big parse_digits_append digit_value_decimal del: of_nat_add)
  qed
qed

lemma fmt_nat_digits: "c \<in> set (fmt_nat n) \<Longrightarrow> 48 \<le> c \<and> c \<le> 57"
proof (induction n rule: fmt_nat.induct)
  case (1 n)
  have d: "48 \<le> (of_nat (48 + d) :: byte) \<and> (of_nat (48 + d) :: byte) \<le> 57" if "d < 10" for d
  proof -
    from that have "d \<in> {0, 1, 2, 3, 4, 5, 6, 7, 8, 9}" by auto
    then show ?thesis by auto
  qed
  show ?case
  proof (cases "n < 10")
    case True
    with 1(2) d [OF True] show ?thesis by (simp add: fmt_nat_small del: of_nat_add)
  next
    case False
    with 1 d [of "n mod 10"] show ?thesis by (auto simp: fmt_nat_big simp del: of_nat_add)
  qed
qed

lemma hd_fmt_nat: "0 < n \<Longrightarrow> hd (fmt_nat n) \<noteq> 48"
proof (induction n rule: fmt_nat.induct)
  case (1 n)
  show ?case
  proof (cases "n < 10")
    case True
    with 1(2) have "n \<in> {1, 2, 3, 4, 5, 6, 7, 8, 9}" by auto
    then show ?thesis by (auto simp: fmt_nat_small)
  next
    case False
    then have "0 < n div 10" by auto
    with False 1(1) show ?thesis by (simp add: fmt_nat_big)
  qed
qed

lemma parse_magnitude_fmt_nat: "parse_magnitude (fmt_nat n) = (n, length (fmt_nat n))"
proof (cases "n = 0")
  case True
  then show ?thesis by (simp add: fmt_nat_small parse_magnitude_def digit_value_def)
next
  case False
  obtain c cs where c: "fmt_nat n = c # cs" by (cases "fmt_nat n") auto
  with hd_fmt_nat [of n] False have "c \<noteq> 48" by simp
  with c parse_digits_fmt_nat [of n] show ?thesis by (auto simp: parse_magnitude_def split: list.split)
qed

lemma not_space_digit: "48 \<le> c \<Longrightarrow> c \<le> 57 \<Longrightarrow> \<not> is_space c \<and> c \<noteq> 45 \<and> c \<noteq> 43 \<and> c \<noteq> 46 \<and> c \<noteq> 0"
  using order.trans [of 48 c 13] by (auto simp: is_space_def)

lemma parse_number_fmt_nat: "parse_number (fmt_nat n) = (False, n, length (fmt_nat n))"
proof -
  obtain c cs where c: "fmt_nat n = c # cs" by (cases "fmt_nat n") auto
  with fmt_nat_digits [of c n] have "48 \<le> c" "c \<le> 57" by simp_all
  from not_space_digit [OF this] c parse_magnitude_fmt_nat [of n] show ?thesis
    by (simp add: parse_number_def)
qed

lemma parse_number_fmt_int:
  "parse_number (fmt_int i) = (i < 0, nat \<bar>i\<bar>, length (fmt_int i))"
proof (cases "i < 0")
  case True
  have "\<not> is_space 45" by (simp add: is_space_def)
  with True parse_magnitude_fmt_nat [of "nat (- i)"] show ?thesis
    by (simp add: fmt_int_def parse_number_def)
next
  case False
  then show ?thesis by (simp add: fmt_int_def parse_number_fmt_nat)
qed

lemma strtoll_fmt_int: "- (2 ^ 63) \<le> i \<Longrightarrow> i < 2 ^ 63 \<Longrightarrow> strtoll (fmt_int i) = (i, length (fmt_int i))"
  by (auto simp: strtoll_def parse_number_fmt_int nat_le_iff nat_less_iff le_nat_iff)

lemma strtoll_fmt_nat: "n < 2 ^ 63 \<Longrightarrow> strtoll (fmt_nat n) = (int n, length (fmt_nat n))"
  using strtoll_fmt_int [of "int n"] by (simp add: fmt_int_def)

lemma strtoull_fmt_nat: "n < 2 ^ 64 \<Longrightarrow> strtoull (fmt_nat n) = of_nat n"
  by (simp add: strtoull_def parse_number_fmt_nat)

lemma strtoull_fmt_int: "- (2 ^ 63) \<le> i \<Longrightarrow> i < 2 ^ 63 \<Longrightarrow> strtoull (fmt_int i) = of_int i"
  by (auto simp: strtoull_def parse_number_fmt_int nat_less_iff le_nat_iff)

section \<open>The fields of a structure\<close>

text \<open>The path of every field below an item, and the text of its value, in the order of the visits.\<close>

fun item_paths :: "text_env \<Rightarrow> cpp_type \<Rightarrow> cpp_value \<Rightarrow> (byte list list \<times> byte list) list"
  and member_paths :: "text_env \<Rightarrow> (byte list \<times> cpp_type) list \<Rightarrow> cpp_value list \<Rightarrow> (byte list list \<times> byte list) list" where
  "item_paths env (TStruct fs ds) v = member_paths env fs (case v of VStruct xs \<Rightarrow> xs | _ \<Rightarrow> [])"
| "item_paths env (TArray n t) v =
     (let xs = (case v of VArray xs \<Rightarrow> xs | _ \<Rightarrow> [])
      in concat (map (\<lambda>i. map (\<lambda>(p, text). (fmt_nat i # p, text)) (item_paths env t (xs ! i))) [0..<length xs]))"
| "item_paths env ty v = (case fmt_value env v of None \<Rightarrow> [] | Some text \<Rightarrow> [([], text)])"
| "member_paths env ((name, t) # fs) (x # xs) =
     map (\<lambda>(p, text). (name # p, text)) (item_paths env t x) @ member_paths env fs xs"
| "member_paths env _ _ = []"

text \<open>The structures the visitors are made for: every leaf has a text.\<close>

inductive printable :: "cpp_type \<Rightarrow> cpp_value \<Rightarrow> bool" where
  Struct: "list_all2 (\<lambda>f x. printable (snd f) x) fs xs \<Longrightarrow> printable (TStruct fs ds) (VStruct xs)"
| Array: "\<forall>x \<in> set xs. printable t x \<Longrightarrow> printable (TArray n t) (VArray xs)"
| Bool: "printable TBool (VBool b)"
| Int: "printable (TInt n) (VInt n w)"
| UInt: "printable (TUInt n) (VUInt n w)"
| Float32: "printable TFloat32 (VFloat32 f)"
| Float64: "printable TFloat64 (VFloat64 d)"
| Enum: "printable (TEnum m) (VEnum w)"
| None: "printable (TOptional t) (VOptional None)"
| Some: "printable t x \<Longrightarrow> t \<in> {TBool, TInt n, TUInt n, TFloat32, TFloat64} \<Longrightarrow> printable (TOptional t) (VOptional (Some x))"

inductive_cases printable_StructE: "printable (TStruct fs ds) v"
inductive_cases printable_ArrayE: "printable (TArray n t) v"
inductive_cases printable_leafE:
  "printable TBool v" "printable (TInt n) v" "printable (TUInt n) v" "printable TFloat32 v" "printable TFloat64 v"
  "printable (TEnum m) v" "printable (TOptional t) v"
inductive_cases printable_badE [elim!]:
  "printable TBytes v" "printable TString v" "printable TPtime v" "printable TDuration v" "printable (TVector t) v"

lemma printable_text:
  "printable ty v \<Longrightarrow> (\<nexists>fs ds. ty = TStruct fs ds) \<Longrightarrow> (\<nexists>n t. ty = TArray n t) \<Longrightarrow> \<exists>text. fmt_value env v = Some text"
  by (erule printable.cases) (auto elim: printable_leafE)

section \<open>Enumeration\<close>

text \<open>A visit is a walk over the fields.\<close>

fun en_walk ::
  "nat \<Rightarrow> u16 \<Rightarrow> byte list list \<Rightarrow> (byte list list \<times> byte list) list \<Rightarrow> u16 \<times> byte list option \<Rightarrow>
   (u16 \<times> byte list option) res" where
  "en_walk n target pre [] st = Inr st"
| "en_walk n target pre ((p, text) # ps) st =
     sbind (if snd st \<noteq> None then Inr st
            else en_EmitValue n target (butlast (pre @ p)) (last (pre @ p)) text st) (en_walk n target pre ps)"

lemma en_walk_done: "en_walk n target pre ps (c, Some l) = Inr (c, Some l)"
  by (induction ps) auto

lemma en_walk_Nil [simp]: "en_walk n target pre [] = Inr"
  by (rule ext) simp

lemma en_walk_append:
  "en_walk n target pre (ps @ qs) = (\<lambda>st. sbind (en_walk n target pre ps st) (en_walk n target pre qs))"
proof (induction ps)
  case (Cons a ps)
  then show ?case by (cases a) (auto simp: sbind_assoc)
qed auto

lemma en_walk_prefix:
  "en_walk n target pre (map (\<lambda>(p, text). (q # p, text)) ps) = en_walk n target (pre @ [q]) ps"
proof (induction ps)
  case (Cons a ps)
  then show ?case by (cases a) (auto intro!: ext)
qed (auto intro!: ext)

lemma en_elements_walk:
  assumes "\<And>j st. j < length xs \<Longrightarrow> visit (fmt_nat (i + j)) (xs ! j) st = en_walk n target (pre @ [fmt_nat (i + j)]) (f (xs ! j)) st"
  shows "en_elements visit i xs st
    = en_walk n target pre (concat (map (\<lambda>j. map (\<lambda>(p, text). (fmt_nat (i + j) # p, text)) (f (xs ! j))) [0..<length xs])) st"
  using assms
proof (induction xs arbitrary: i st)
  case (Cons x xs)
  have "visit (fmt_nat i) x st = en_walk n target (pre @ [fmt_nat i]) (f x) st" using Cons.prems [of 0] by simp
  moreover have "en_elements visit (Suc i) xs
      = en_walk n target pre (concat (map (\<lambda>j. map (\<lambda>(p, text). (fmt_nat (Suc i + j) # p, text)) (f (xs ! j))) [0..<length xs]))"
    by (rule ext, rule Cons.IH) (use Cons.prems [of "Suc _"] in simp)
  moreover have "map (\<lambda>j. map (\<lambda>(p, text). (fmt_nat (i + j) # p, text)) (f ((x # xs) ! j))) [0..<length (x # xs)]
      = map (\<lambda>(p, text). (fmt_nat i # p, text)) (f x)
        # map (\<lambda>j. map (\<lambda>(p, text). (fmt_nat (Suc i + j) # p, text)) (f (xs ! j))) [0..<length xs]"
    by (simp add: upt_conv_Cons map_Suc_upt [symmetric] del: upt_Suc)
  ultimately show ?case by (simp add: en_walk_append en_walk_prefix del: upt_Suc)
qed simp

lemma en_Visit_walk:
  "printable ty v \<Longrightarrow> en_Visit env n target pre name ty v st = en_walk n target (pre @ [name]) (item_paths env ty v) st"
  "list_all2 (\<lambda>f x. printable (snd f) x) fs xs \<Longrightarrow>
   en_Accept env n target pre fs xs st = en_walk n target pre (member_paths env fs xs) st"
proof (induction env n target pre name ty v st and env n target pre fs xs st rule: en_Visit_en_Accept.induct)
  case (1 env n target pre name fs ds v st)
  then show ?case by (cases st; cases "snd st") (auto elim!: printable_StructE simp: en_walk_done)
next
  case (2 env n target pre name m t v st)
  then obtain xs where v: "v = VArray xs" "\<forall>x \<in> set xs. printable t x" by (auto elim: printable_ArrayE)
  show ?case
  proof (cases "snd st")
    case None
    have "en_Visit env n target (pre @ [name]) (fmt_nat j) t (xs ! j) st'
        = en_walk n target ((pre @ [name]) @ [fmt_nat j]) (item_paths env t (xs ! j)) st'" if "j < length xs" for j st'
      using 2 v that None by auto
    from en_elements_walk [of xs "\<lambda>number x st. en_Visit env n target (pre @ [name]) number t x st" 0 n target "pre @ [name]"
        "item_paths env t" st] this None v show ?thesis
      by (simp add: Let_def)
  next
    case (Some l)
    then show ?thesis by (cases st) (simp add: en_walk_done)
  qed
next
  case (4 env n target pre name t fs x xs st)
  then have "en_Visit env n target pre name t x st = en_walk n target (pre @ [name]) (item_paths env t x) st" by simp
  with "4" show ?case by (auto simp: en_walk_append en_walk_prefix intro!: sbind_cong)
qed (auto simp: en_walk_done elim!: printable_leafE)

lemma en_walk_nth:
  "unat c \<le> unat target \<Longrightarrow> unat c + length ps \<le> 65535 \<Longrightarrow>
   sbind (en_walk n target pre ps (c, None)) (\<lambda>(_, out). Inr out) =
     (if unat target - unat c < length ps
      then (case ps ! (unat target - unat c) of
              (p, text) \<Rightarrow> sbind (FormatField n (butlast (pre @ p)) (last (pre @ p)) text) (\<lambda>line. Inr (Some line)))
      else Inr None)"
proof (induction ps arbitrary: c)
  case (Cons a ps)
  obtain p tx where a: "a = (p, tx)" by fastforce
  show ?case
  proof (cases "c = target")
    case True
    have "sbind (sbind (sbind f (\<lambda>line. Inr (target + 1, Some line))) (en_walk n target pre ps)) (\<lambda>(_, out). Inr out)
        = sbind f (\<lambda>line. Inr (Some line))" for f :: "byte list res"
      by (cases f) (simp_all add: en_walk_done)
    with True show ?thesis by (simp add: a en_EmitValue_def)
  next
    case False
    have c: "unat (c + 1) = unat c + 1"
      using Cons.prems(2) by (subst unat_plus_simple [THEN iffD1]) (simp_all add: word_le_nat_alt unat_word_ariths)
    have lt: "unat c < unat target" using False Cons.prems(1) by (metis le_neq_implies_less word_unat_eq_iff)
    have IH: "sbind (en_walk n target pre ps (c + 1, None)) (\<lambda>(_, out). Inr out) =
     (if unat target - unat (c + 1) < length ps
      then (case ps ! (unat target - unat (c + 1)) of
              (p, text) \<Rightarrow> sbind (FormatField n (butlast (pre @ p)) (last (pre @ p)) text) (\<lambda>line. Inr (Some line)))
      else Inr None)"
      by (rule Cons.IH) (use c lt Cons.prems in simp_all)
    have "unat target - unat c = Suc (unat target - unat (c + 1))" using c lt by simp
    with False IH show ?thesis by (simp add: a en_EmitValue_def)
  qed
qed simp

lemma h_evaluate_nth:
  assumes "printable (TStruct fs ds) (VStruct xs)" and "length (member_paths env fs xs) \<le> 65535"
  shows "h_evaluate env n prefix \<lparr>h_type = TStruct fs ds, h_item = VStruct xs\<rparr> target =
     (if unat target < length (member_paths env fs xs)
      then (case member_paths env fs xs ! unat target of
              (p, text) \<Rightarrow> sbind (FormatField n (butlast (prefix # p)) (last (prefix # p)) text) (\<lambda>line. Inr (Some line)))
      else Inr None)"
proof -
  have "list_all2 (\<lambda>f x. printable (snd f) x) fs xs" using assms(1) by (auto elim: printable_StructE)
  from en_Visit_walk(2) [OF this, of env n target "[prefix]" "(0, None)"]
    en_walk_nth [of 0 target "member_paths env fs xs" n "[prefix]"] assms(2) show ?thesis
    by (simp add: h_evaluate_def)
qed

section \<open>Setting what was printed\<close>

text \<open>
  The structures whose fields have exact texts: no floating point numbers, no disengaged
  optionals, enumerations within 32 bits, and names that are different and have no dots.
\<close>

definition plain_name :: "byte list \<Rightarrow> bool" where
  "plain_name name \<longleftrightarrow> (\<forall>c \<in> set name. c \<noteq> 46 \<and> c \<noteq> 0)"

inductive exact :: "cpp_type \<Rightarrow> cpp_value \<Rightarrow> bool" where
  Struct: "list_all2 (\<lambda>f x. exact (snd f) x) fs xs \<Longrightarrow> distinct (map fst fs) \<Longrightarrow> \<forall>f \<in> set fs. plain_name (fst f) \<Longrightarrow>
    exact (TStruct fs ds) (VStruct xs)"
| Array: "\<forall>x \<in> set xs. exact t x \<Longrightarrow> length xs < 2 ^ 63 \<Longrightarrow> exact (TArray n t) (VArray xs)"
| Bool: "exact TBool (VBool b)"
| Int: "n \<in> int_sizes \<Longrightarrow> take_bit (8 * n) w = w \<Longrightarrow> exact (TInt n) (VInt n w)"
| UInt: "n \<in> int_sizes \<Longrightarrow> take_bit (8 * n) w = w \<Longrightarrow> exact (TUInt n) (VUInt n w)"
| Enum: "scast (ucast w :: u32) = w \<Longrightarrow> exact (TEnum m) (VEnum w)"
| Some: "exact t x \<Longrightarrow> t \<in> {TBool, TInt n, TUInt n} \<Longrightarrow> exact (TOptional t) (VOptional (Some x))"

inductive_cases exact_StructE: "exact (TStruct fs ds) v"
inductive_cases exact_ArrayE: "exact (TArray n t) v"
inductive_cases exact_leafE:
  "exact TBool v" "exact (TInt n) v" "exact (TUInt n) v" "exact (TEnum m) v" "exact (TOptional t) v"
inductive_cases exact_badE [elim!]:
  "exact TBytes v" "exact TString v" "exact TPtime v" "exact TDuration v" "exact (TVector t) v"
  "exact TFloat32 v" "exact TFloat64 v"

lemma exact_printable: "exact ty v \<Longrightarrow> printable ty v"
proof (induction rule: exact.induct)
  case (Struct fs xs ds)
  then show ?case by (intro printable.Struct) (auto elim!: list_all2_mono)
next
  case (Some t x n)
  then show ?case by (auto intro: printable.Some)
qed (auto intro: printable.intros)

lemma int_of_range:
  assumes "n \<in> int_sizes"
  shows "- (2 ^ 63) \<le> int_of n w" and "int_of n w < 2 ^ 63"
proof -
  have n: "8 * n - 1 \<le> 63" using assms by (auto simp: int_sizes_def)
  have "- (2 ^ (8 * n - 1)) \<le> int_of n w" "int_of n w < 2 ^ (8 * n - 1)"
    unfolding int_of_def by (rule signed_take_bit_int_greater_eq_minus_exp, rule signed_take_bit_int_less_exp)
  moreover have "(2 :: int) ^ (8 * n - 1) \<le> 2 ^ 63" using n by (rule power_increasing) simp
  ultimately show "- (2 ^ 63) \<le> int_of n w" "int_of n w < 2 ^ 63" by linarith+
qed

lemma of_int_int_of:
  assumes "n \<in> int_sizes" and "take_bit (8 * n) w = w"
  shows "take_bit (8 * n) (of_int (int_of n w)) = w"
proof -
  have "take_bit (8 * n) (signed_take_bit (8 * n - 1) (uint w)) = take_bit (8 * n) (uint w)"
    using assms(1) by (intro take_bit_signed_take_bit) (auto simp: int_sizes_def)
  also have "\<dots> = uint (take_bit (8 * n) w)" by (simp add: unsigned_take_bit_eq)
  finally have "take_bit (8 * n) (int_of n w) = uint w" by (simp add: int_of_def assms(2))
  moreover have "take_bit (8 * n) (of_int (int_of n w) :: u64) = of_int (take_bit (8 * n) (int_of n w))"
    by (rule bit_word_eqI) (simp add: bit_take_bit_iff bit_word_of_int_iff)
  ultimately show ?thesis by simp
qed

lemma ParseValue_fmt:
  assumes "exact ty v" and "fmt_value env v = Some tx" and "\<nexists>fs ds. ty = TStruct fs ds" and "\<nexists>n t. ty = TArray n t"
  shows "ParseValue env ty tx = Some v"
  using assms
proof cases
  case (Int n w)
  with assms(2) strtoll_fmt_int [OF int_of_range [OF Int(3)], of w] show ?thesis by (auto simp: of_int_int_of)
next
  case (Enum w m)
  have "- (2 ^ 63) \<le> sint (ucast w :: u32)" "sint (ucast w :: u32) < 2 ^ 63"
    using sint_greater_eq [of "ucast w :: u32"] sint_less [of "ucast w :: u32"] by simp_all
  with Enum assms(2) strtoll_fmt_int [of "sint (ucast w :: u32)"] show ?thesis by auto
next
  case (Some t x n)
  from Some(4) show ?thesis
  proof (elim insertE)
    assume t: "t = TBool"
    with Some(3) obtain b where "x = VBool b" by (auto elim: exact_leafE)
    with t Some assms(2) show ?thesis by (cases b) (auto simp: strtoull_fmt_nat)
  next
    assume t: "t = TInt n"
    with Some(3) obtain w where w: "x = VInt n w" "n \<in> int_sizes" "take_bit (8 * n) w = w" by (auto elim: exact_leafE)
    with t Some assms(2) strtoull_fmt_int [OF int_of_range [OF w(2)], of w] show ?thesis by (auto simp: of_int_int_of)
  next
    assume t: "t = TUInt n"
    with Some(3) obtain w where "x = VUInt n w" "take_bit (8 * n) w = w" by (auto elim: exact_leafE)
    with t Some assms(2) show ?thesis using unsigned_less [of w, where ?'a = nat] by (auto simp: strtoull_fmt_nat)
  qed simp
next
  case (UInt n w)
  with assms(2) show ?thesis using unsigned_less [of w, where ?'a = nat] by (auto simp: strtoull_fmt_nat)
next
  case (Bool b)
  with assms(2) show ?thesis by (cases b) (auto simp: strtoull_fmt_nat)
qed auto

text \<open>Names joined by dots.\<close>

fun dotted :: "byte list list \<Rightarrow> byte list" where
  "dotted [] = []"
| "dotted [a] = a"
| "dotted (a # b # bs) = a @ dot @ dotted (b # bs)"

lemma tk_next_dotted: "plain_name a \<Longrightarrow> tk_next dot (dotted (a # p)) = (a, dotted p)"
proof (cases p)
  case Nil
  assume "plain_name a"
  then have "\<forall>c \<in> set a. \<not> is_delim dot c" by (auto simp: plain_name_def is_delim_def)
  with Nil show ?thesis by (simp add: tk_next_def Let_def takeWhile_eq_all_conv [THEN iffD2])
next
  case (Cons b bs)
  assume "plain_name a"
  then have "takeWhile (\<lambda>c. \<not> is_delim dot c) (a @ dot @ dotted (b # bs)) = a"
    by (subst takeWhile_append2) (auto simp: plain_name_def is_delim_def)
  with Cons show ?thesis by (simp add: tk_next_def)
qed

lemma plain_fmt_nat: "plain_name (fmt_nat n)"
  using fmt_nat_digits not_space_digit unfolding plain_name_def by blast

lemma array_index_dotted:
  assumes "i < n" and "n < 2 ^ 63"
  shows "array_index n (dotted (fmt_nat i # p)) = Inr (Some (i, dotted p))"
proof -
  have "dotted (fmt_nat i # p) \<noteq> []" by (cases p) simp_all
  with assms tk_next_dotted [OF plain_fmt_nat, of i p] strtoll_fmt_nat [of i] show ?thesis
    by (simp add: array_index_def)
qed

lemma member_paths_name: "(p, tx) \<in> set (member_paths env fs xs) \<Longrightarrow> \<exists>q f. p = fst f # q \<and> f \<in> set fs"
proof (induction fs arbitrary: xs)
  case (Cons f fs)
  then show ?case by (cases f; cases xs) fastforce+
qed simp

text \<open>Setting fields one after the other, until one is not found.\<close>

fun replay :: "('v \<Rightarrow> byte list list \<Rightarrow> byte list \<Rightarrow> ('v \<times> bool) res) \<Rightarrow> (byte list list \<times> byte list) list \<Rightarrow> 'v \<Rightarrow> ('v \<times> bool) res" where
  "replay f [] v = Inr (v, True)"
| "replay f ((p, tx) # ps) v = sbind (f v p tx) (\<lambda>(v, found). if found then replay f ps v else Inr (v, False))"

definition visit_path :: "text_env \<Rightarrow> cpp_type \<Rightarrow> cpp_value \<Rightarrow> byte list list \<Rightarrow> byte list \<Rightarrow> (cpp_value \<times> bool) res" where
  "visit_path env ty v p tx = sa_Visit env ty v (dotted p) tx"

definition accept_path :: "text_env \<Rightarrow> (byte list \<times> cpp_type) list \<Rightarrow> cpp_value list \<Rightarrow> byte list list \<Rightarrow> byte list \<Rightarrow> (cpp_value list \<times> bool) res" where
  "accept_path env fs vs p tx = sa_Accept env fs vs (hd p) (dotted (tl p)) tx"

lemma replay_append:
  "replay f (ps @ qs) v = sbind (replay f ps v) (\<lambda>(v, found). if found then replay f qs v else Inr (v, False))"
proof (induction f ps v rule: replay.induct)
  case (2 f p tx ps v)
  then show ?case by (cases "f v p tx") auto
qed simp

text \<open>A visitor that passes a path on to a part of its value.\<close>

lemma replay_part:
  assumes "\<And>v p tx. (p, tx) \<in> set ps \<Longrightarrow> f (wrap v) (g p) tx = sbind (h v p tx) (\<lambda>(y, found). Inr (wrap y, found))"
  shows "replay f (map (\<lambda>(p, tx). (g p, tx)) ps) (wrap v) = sbind (replay h ps v) (\<lambda>(y, found). Inr (wrap y, found))"
  using assms
proof (induction ps arbitrary: v)
  case (Cons x ps)
  obtain p tx where x: "x = (p, tx)" by fastforce
  with Cons show ?case
    by (cases "h v p tx") (auto simp: res_simps split: prod.splits)
qed simp

lemma replay_struct:
  assumes "\<forall>(p, tx) \<in> set ps. p \<noteq> [] \<and> plain_name (hd p)"
  shows "replay (visit_path env (TStruct fs ds)) ps (VStruct ws)
    = sbind (replay (accept_path env fs) ps ws) (\<lambda>(ys, found). Inr (VStruct ys, found))"
proof -
  have "visit_path env (TStruct fs ds) (VStruct ws) p tx = sbind (accept_path env fs ws p tx) (\<lambda>(ys, found). Inr (VStruct ys, found))"
    if "(p, tx) \<in> set ps" for ws p tx
  proof -
    from that assms obtain name q where "p = name # q" "plain_name name" by (cases p) auto
    then show ?thesis by (simp add: visit_path_def accept_path_def tk_next_dotted [simplified])
  qed
  then show ?thesis
    using replay_part [of ps "visit_path env (TStruct fs ds)" VStruct "\<lambda>p. p" "accept_path env fs" ws] by (simp add: case_prod_beta')
qed

lemma replay_first:
  "replay (accept_path env ((name, t) # fs)) (map (\<lambda>(p, tx). (name # p, tx)) ps) (w # ws)
    = sbind (replay (visit_path env t) ps w) (\<lambda>(y, found). Inr (y # ws, found))"
  by (rule replay_part [where wrap = "\<lambda>y. y # ws"]) (simp add: accept_path_def visit_path_def)

lemma replay_rest:
  assumes "\<forall>(p, tx) \<in> set ps. hd p \<noteq> name"
  shows "replay (accept_path env ((name, t) # fs)) ps (w # ws)
    = sbind (replay (accept_path env fs) ps ws) (\<lambda>(ys, found). Inr (w # ys, found))"
  using replay_part [of ps "accept_path env ((name, t) # fs)" "\<lambda>ys. w # ys" "\<lambda>p. p" "accept_path env fs" ws] assms
  by (force simp: accept_path_def case_prod_beta')

lemma replay_element:
  assumes "i < length ws" and "length ws < 2 ^ 63"
  shows "replay (visit_path env (TArray n t)) (map (\<lambda>(p, tx). (fmt_nat i # p, tx)) ps) (VArray ws)
    = sbind (replay (visit_path env t) ps (ws ! i)) (\<lambda>(y, found). Inr (VArray (ws[i := y]), found))"
proof -
  have "replay (visit_path env (TArray n t)) (map (\<lambda>(p, tx). (fmt_nat i # p, tx)) ps) (VArray (ws[i := w]))
    = sbind (replay (visit_path env t) ps w) (\<lambda>(y, found). Inr (VArray (ws[i := y]), found))" for w
    by (rule replay_part [where wrap = "\<lambda>y. VArray (ws[i := y])"])
      (use assms in \<open>simp add: visit_path_def Let_def array_index_dotted\<close>)
  from this [of "ws ! i"] show ?thesis by simp
qed

lemma replay_elements:
  assumes "length ws = length xs" and "length xs < 2 ^ 63"
    and "\<And>i. i < length xs \<Longrightarrow> replay (visit_path env t) (item_paths env t (xs ! i)) (ws ! i) = Inr (xs ! i, True)"
  shows "k \<le> length xs \<Longrightarrow> replay (visit_path env (TArray n t))
      (concat (map (\<lambda>i. map (\<lambda>(p, tx). (fmt_nat i # p, tx)) (item_paths env t (xs ! i))) [0..<k])) (VArray ws)
    = Inr (VArray (take k xs @ drop k ws), True)"
proof (induction k)
  case (Suc k)
  let ?ws = "take k xs @ drop k ws"
  have "(take k xs @ drop k ws) ! k = ws ! k" "(take k xs @ drop k ws)[k := xs ! k] = take (Suc k) xs @ drop (Suc k) ws"
    using Suc.prems assms(1) by (simp_all add: nth_append list_update_append upd_conv_take_nth_drop take_Suc_conv_app_nth)
  with Suc assms show ?case
    by (simp add: replay_append replay_element)
qed simp

lemma replay_leaf:
  assumes "exact ty v" and "\<nexists>fs ds. ty = TStruct fs ds" and "\<nexists>n t. ty = TArray n t"
  shows "replay (visit_path env ty) (item_paths env ty v) w = Inr (v, True)"
proof -
  obtain tx where tx: "fmt_value env v = Some tx"
    using printable_text [OF exact_printable [OF assms(1)] assms(2,3)] by auto
  then have "item_paths env ty v = [([], tx)]" and "sa_Visit env ty w [] tx = (case ParseValue env ty tx of None \<Rightarrow> Inl BadOptional | Some w \<Rightarrow> Inr (w, True))"
    using assms(2,3) by (cases ty; simp del: ParseValue.simps)+
  with ParseValue_fmt [OF assms(1) tx assms(2,3)] show ?thesis by (simp add: visit_path_def del: ParseValue.simps)
qed

lemma replay_restores:
  "exact ty v \<Longrightarrow> has_type v ty \<Longrightarrow> has_type w ty \<Longrightarrow> replay (visit_path env ty) (item_paths env ty v) w = Inr (v, True)"
  "list_all2 (\<lambda>f x. exact (snd f) x) fs xs \<Longrightarrow> distinct (map fst fs) \<Longrightarrow> list_all2 (\<lambda>x f. has_type x (snd f)) xs fs \<Longrightarrow>
   list_all2 (\<lambda>x f. has_type x (snd f)) ws fs \<Longrightarrow> replay (accept_path env fs) (member_paths env fs xs) ws = Inr (xs, True)"
proof (induction env ty v and env fs xs arbitrary: w and ws rule: item_paths_member_paths.induct)
  case (1 env fs ds v)
  from 1(2) obtain xs where v: "v = VStruct xs" "list_all2 (\<lambda>f x. exact (snd f) x) fs xs" "distinct (map fst fs)"
      "\<forall>f \<in> set fs. plain_name (fst f)" by (auto elim: exact_StructE)
  obtain ws where w: "w = VStruct ws" "list_all2 (\<lambda>x f. has_type x (snd f)) ws fs" using 1(4) by auto
  have "\<forall>(p, tx) \<in> set (member_paths env fs xs). p \<noteq> [] \<and> plain_name (hd p)"
    using v(4) by (auto dest!: member_paths_name)
  with 1 v w show ?case by (auto simp: replay_struct)
next
  case (2 env n t v)
  from 2(2,3) obtain xs where v: "v = VArray xs" "\<forall>x \<in> set xs. exact t x" "length xs < 2 ^ 63" "length xs = n" "\<forall>x \<in> set xs. has_type x t"
    by (auto elim!: exact_ArrayE)
  obtain ws where w: "w = VArray ws" "length ws = n" "\<forall>x \<in> set ws. has_type x t" using 2(4) by auto
  have "replay (visit_path env t) (item_paths env t (xs ! i)) (ws ! i) = Inr (xs ! i, True)" if "i < length xs" for i
    using 2(1) [of xs i "ws ! i"] v w that by auto
  from replay_elements [OF _ v(3) this, where k = "length xs" and n = n] v w show ?case by (simp add: Let_def)
next
  case (4 env name t fs x xs)
  from "4.prems" obtain u us where ws: "ws = u # us" by (cases ws) auto
  have "\<forall>(p, tx) \<in> set (member_paths env fs xs). hd p \<noteq> name"
    using "4.prems"(2) by (force dest!: member_paths_name)
  with 4 ws show ?case by (auto simp: replay_append replay_first replay_rest)
qed ((rule replay_leaf; simp) | simp)+

definition set_path :: "text_env \<Rightarrow> handler \<Rightarrow> byte list list \<Rightarrow> byte list \<Rightarrow> (handler \<times> bool) res" where
  "set_path env h p tx = sbind (h_Set env h (dotted p) tx) (\<lambda>(found, h). Inr (h, found))"

lemma replay_set_path:
  "replay (set_path env) ps \<lparr>h_type = ty, h_item = v\<rparr>
    = sbind (replay (visit_path env ty) ps v) (\<lambda>(v, found). Inr (\<lparr>h_type = ty, h_item = v\<rparr>, found))"
  using replay_part [of ps "set_path env" "\<lambda>v. \<lparr>h_type = ty, h_item = v\<rparr>" "\<lambda>p. p" "visit_path env ty" v]
  by (simp add: set_path_def visit_path_def h_Set_def res_simps case_prod_beta')

section \<open>Properties\<close>

text \<open>
  C37: the enumeration of a structure visits its fields one after the other,
  each once, and then ends. This holds for every structure whose fields are numbers, booleans,
  enumerations, optional numbers and booleans, and structures and arrays of these, with at most
  65535 fields. When moreover the fields have exact texts (no floating point number and no
  disengaged optional, enumerations within 32 bits) and the names in a structure are different and
  contain no dot and no zero byte, the fields that it prints, each with a path of dotted
  names and the text of its value, give the structure back: \<open>Set\<close> finds every one of them in
  any structure of the type, and after all of them that structure has the enumerated values. (This
  is how a configuration is saved and restored through the text interface.)
\<close>

theorem enumerate_replays:
  assumes "printable (TStruct fs ds) (VStruct xs)" and "length (member_paths env fs xs) \<le> 65535"
  shows "h_evaluate env n prefix \<lparr>h_type = TStruct fs ds, h_item = VStruct xs\<rparr> target =
      (if unat target < length (member_paths env fs xs)
       then (case member_paths env fs xs ! unat target of
               (p, tx) \<Rightarrow> sbind (FormatField n (butlast (prefix # p)) (last (prefix # p)) tx) (\<lambda>line. Inr (Some line)))
       else Inr None)
    \<and> (exact (TStruct fs ds) (VStruct xs) \<longrightarrow> has_type (VStruct xs) (TStruct fs ds) \<longrightarrow> has_type w (TStruct fs ds) \<longrightarrow>
       replay (set_path env) (member_paths env fs xs) \<lparr>h_type = TStruct fs ds, h_item = w\<rparr>
        = Inr (\<lparr>h_type = TStruct fs ds, h_item = VStruct xs\<rparr>, True))"
  using h_evaluate_nth [OF assms] replay_restores(1) [of "TStruct fs ds" "VStruct xs" w env]
  by (simp add: replay_set_path)

definition gains_type :: cpp_type where
  "gains_type = TStruct [(ascii ''kp'', TInt 2), (ascii ''on'', TBool), (ascii ''lim'', TArray 2 (TUInt 1))]
     [VInt 2 0, VBool False, VArray [VUInt 1 0, VUInt 1 0]]"

definition gains :: handler where
  "gains = \<lparr>h_type = gains_type, h_item = VStruct [VInt 2 0xfffb, VBool True, VArray [VUInt 1 3, VUInt 1 14]]\<rparr>"

definition plain_text :: text_env where
  "plain_text = \<lparr>strtof = (\<lambda>_. 0), strtod = (\<lambda>_. 0), fmt_f32 = (\<lambda>_. ascii ''0.0''), fmt_f64 = (\<lambda>_. ascii ''0.0''),
     f32_of_u64 = ucast, f64_of_u64 = (\<lambda>w. w)\<rparr>"

lemma gains_exact: "exact gains_type (h_item gains)"
  unfolding gains_type_def gains_def
  by (auto intro!: exact.intros simp: int_sizes_def plain_name_def)

lemma gains_paths:
  "item_paths plain_text gains_type (h_item gains)
    = [([ascii ''kp''], ascii ''-5''), ([ascii ''on''], ascii ''1''), ([ascii ''lim'', ascii ''0''], ascii ''3''),
       ([ascii ''lim'', ascii ''1''], ascii ''14'')]"
proof -
  have i: "int_of 2 0xfffb = -5" by (simp add: int_of_def)
  have "[0..<2] = [0, 1 :: nat]" by (simp add: numeral_2_eq_2)
  then show ?thesis unfolding gains_type_def gains_def
    by (simp add: i fmt_int_def fmt_nat_small fmt_nat_big Let_def)
qed

lemma gains_typed:
  "has_type (h_item gains) gains_type" "wf_type gains_type" "fresh_type gains_type" "fresh (default_value gains_type)"
  "length (data_bytes (h_item gains)) = 5"
  unfolding gains_def gains_type_def
  by (auto intro!: has_type.intros simp: int_sizes_def kMaxStringSize_def take_bit_eq_mod)

theorem enumerate_replays_witness:
  "h_evaluate plain_text 40 (ascii ''servo'') gains 0 = Inr (Some (ascii ''servo.kp -5'' @ [13, 10]))
   \<and> h_evaluate plain_text 40 (ascii ''servo'') gains 3 = Inr (Some (ascii ''servo.lim.1 14'' @ [13, 10]))
   \<and> h_evaluate plain_text 40 (ascii ''servo'') gains 4 = Inr None
   \<and> replay (set_path plain_text) (item_paths plain_text gains_type (h_item gains)) (h_SetDefault gains) = Inr (gains, True)"
proof -
  obtain fs ds xs where g: "gains_type = TStruct fs ds" "h_item gains = VStruct xs" "gains = \<lparr>h_type = TStruct fs ds, h_item = VStruct xs\<rparr>"
    by (simp add: gains_def gains_type_def)
  have p: "member_paths plain_text fs xs = [([ascii ''kp''], ascii ''-5''), ([ascii ''on''], ascii ''1''),
      ([ascii ''lim'', ascii ''0''], ascii ''3''), ([ascii ''lim'', ascii ''1''], ascii ''14'')]"
    using gains_paths unfolding g(1,2) by simp
  have ex: "exact (TStruct fs ds) (VStruct xs)" using gains_exact unfolding g(1,2) .
  have ty: "has_type (VStruct xs) (TStruct fs ds)" "has_type (default_value gains_type) (TStruct fs ds)"
    using gains_typed(1) default_has_type [OF gains_typed(2)] unfolding g(1,2) by simp_all
  have le: "length (member_paths plain_text fs xs) \<le> 65535" unfolding p by simp
  note r = enumerate_replays [OF exact_printable [OF ex] le, of 40 "ascii ''servo''"]
  have "h_evaluate plain_text 40 (ascii ''servo'') gains 0 = Inr (Some (ascii ''servo.kp -5'' @ [13, 10]))"
    using conjunct1 [OF r [of 0]] unfolding g(3) p by (simp add: FormatField_def FormatPrefix_def)
  moreover have "h_evaluate plain_text 40 (ascii ''servo'') gains 3 = Inr (Some (ascii ''servo.lim.1 14'' @ [13, 10]))"
    using conjunct1 [OF r [of 3]] unfolding g(3) p by (simp add: FormatField_def FormatPrefix_def)
  moreover have "h_evaluate plain_text 40 (ascii ''servo'') gains 4 = Inr None"
    using conjunct1 [OF r [of 4]] unfolding g(3) p by simp
  moreover have "h_SetDefault gains = \<lparr>h_type = TStruct fs ds, h_item = default_value gains_type\<rparr>"
    unfolding g(3) h_SetDefault_def g(1) [symmetric] by simp
  moreover have "item_paths plain_text gains_type (h_item gains) = member_paths plain_text fs xs"
    unfolding g(1,2) by simp
  ultimately show ?thesis
    using mp [OF mp [OF mp [OF conjunct2 [OF r [of 0]] ex] ty(1)] ty(2)] g(3) by simp
qed

end
