(* ===== verification/Persistent_Config.thy ===== *)
theory Persistent_Config
  imports Config_Fields
begin

text \<open>
  The persistent configuration of the firmware, \<open>micro/persistent_config.cc\<close>: named structures
  that a command line lists, prints, sets, stores in flash memory and loads from it. The flash is
  the interface of \<open>micro/flash.h\<close>; CRC-32 is a parameter.

  A write to the stream of a response is an output, with what is called when it completes; the
  completion is an event. A write of no bytes completes at once. The contents the output buffer
  had before an operation are never read, so only its size is kept.
\<close>

section \<open>A read never gives bytes back\<close>

text \<open>What holds of a stream and is kept by its reads is kept by all that reads from it.\<close>

definition reads_keep :: "('s \<Rightarrow> bool) \<Rightarrow> ('s \<Rightarrow> nat \<Rightarrow> byte list \<times> 's) \<Rightarrow> bool" where
  "reads_keep I rd \<longleftrightarrow> (\<forall>s n. I s \<longrightarrow> I (snd (rd s n)))"

definition keeps :: "('s \<Rightarrow> bool) \<Rightarrow> ('v \<times> 'e \<times> 's) res \<Rightarrow> bool" where
  "keeps I r \<longleftrightarrow> (\<forall>v e t. r = Inr (v, e, t) \<longrightarrow> I t)"

lemma keeps_simps [simp]: "keeps I (Inl f)" "keeps I (Inr (v, e, t)) \<longleftrightarrow> I t"
  by (simp_all add: keeps_def)

lemma keeps_bind:
  "keeps I r \<Longrightarrow> (\<And>v e t. r = Inr (v, e, t) \<Longrightarrow> I t \<Longrightarrow> keeps I (f (v, e, t))) \<Longrightarrow> keeps I (sbind r f)"
  by (cases r) (auto simp: keeps_def)

lemma rd_keep: "reads_keep I rd \<Longrightarrow> I s \<Longrightarrow> rd s n = (d, t) \<Longrightarrow> I t"
  unfolding reads_keep_def by (metis snd_conv)

lemma tl_ReadScalar_keep:
  assumes "reads_keep I rd" and "I s" and "tl_ReadScalar rd n s = (v, t)"
  shows "I t"
  using assms by (auto simp: tl_ReadScalar_def split: prod.splits dest: rd_keep)

lemma tl_ReadVaruint_loop_keep:
  "reads_keep I rd \<Longrightarrow> I s \<Longrightarrow> tl_ReadVaruint_loop rd p r s = Inr (v, t) \<Longrightarrow> I t"
proof (induction rd p r s rule: tl_ReadVaruint_loop.induct)
  case (1 rd p r s)
  obtain b u where b: "(tl_ReadScalar rd 1 s :: byte option \<times> _) = (b, u)" by fastforce
  with 1 have "I u" by (auto intro: tl_ReadScalar_keep)
  with 1 b show ?case
    by (auto simp: tl_ReadVaruint_loop.simps [of rd p] Let_def split: option.splits if_splits)
qed

lemma tl_ReadVaruint_keep:
  "reads_keep I rd \<Longrightarrow> I s \<Longrightarrow> tl_ReadVaruint rd s = Inr (v, t) \<Longrightarrow> I t"
  by (auto simp: tl_ReadVaruint_def intro: tl_ReadVaruint_loop_keep)

lemma sbind_varuint_keeps:
  assumes "reads_keep I rd" and "I s" and "\<And>v t. tl_ReadVaruint rd s = Inr (v, t) \<Longrightarrow> I t \<Longrightarrow> keeps I (f (v, t))"
  shows "keeps I (sbind (tl_ReadVaruint rd s) f)"
  using assms tl_ReadVaruint_keep [of I rd s] by (cases "tl_ReadVaruint rd s") auto

lemma tl_ReadString_keep:
  assumes "reads_keep I rd" and "I s" and "tl_ReadString rd s = Inr (v, t)"
  shows "I t"
proof -
  obtain m u where m: "tl_ReadVaruint rd s = Inr (m, u)" "I u"
    using assms tl_ReadVaruint_keep [OF assms(1,2)] by (auto simp: tl_ReadString_def)
  then show ?thesis
    using assms(3) rd_keep [OF assms(1) m(2)]
    by (auto simp: tl_ReadString_def split: option.splits if_splits prod.splits)
qed

lemma ra_scalar_keeps: "reads_keep I rd \<Longrightarrow> I s \<Longrightarrow> keeps I (ra_scalar rd n mk v e s)"
  by (auto simp: ra_scalar_def split: prod.splits option.splits dest: tl_ReadScalar_keep)

lemma ra_VisitArray_keeps:
  "(\<And>x e s. I s \<Longrightarrow> keeps I (f x e s)) \<Longrightarrow> I s \<Longrightarrow> keeps I (ra_VisitArray f xs e s)"
  by (induction f xs e s rule: ra_VisitArray.induct) (auto intro!: keeps_bind)

lemma ra_keeps:
  "reads_keep I rd \<Longrightarrow> I s \<Longrightarrow> keeps I (ra_Visit rd ty v e s)"
  "reads_keep I rd \<Longrightarrow> I s \<Longrightarrow> keeps I (ra_Accept rd fs xs e s)"
proof (induction rd ty v e s and rd fs xs e s rule: ra_Visit_ra_Accept.induct)
  case (6 rd v e s)
  then show ?case
    by (auto simp: ra_bytes_def Let_def intro!: sbind_varuint_keeps split: option.splits prod.splits dest: rd_keep)
next
  case (7 rd v e s)
  then show ?case
    using tl_ReadString_keep [of I rd s] by (cases "tl_ReadString rd s") (auto split: option.splits)
next
  case (10 rd n t v e s)
  then show ?case by (auto intro!: keeps_bind ra_VisitArray_keeps)
next
  case (11 rd t v e s)
  then show ?case
    by (auto intro!: sbind_varuint_keeps keeps_bind ra_VisitArray_keeps split: option.splits)
next
  case (12 rd t v e s)
  then show ?case
    by (auto intro!: keeps_bind split: option.splits prod.splits dest: tl_ReadScalar_keep)
next
  case (13 rd m v e s)
  then show ?case by (auto intro!: sbind_varuint_keeps split: option.splits)
next
  case (14 rd fs ds v e s)
  then show ?case by (auto intro!: keeps_bind)
next
  case (15 rd name t fs x xs e s)
  then show ?case by (auto intro!: keeps_bind)
qed (simp_all add: ra_scalar_keeps)

lemma h_ReadBinary_keep:
  assumes "reads_keep I rd" and "I s" and "h_ReadBinary rd h s = Inr (e, h', t)"
  shows "I t"
  using assms ra_keeps(1) [of I rd s "h_type h" "h_item h" False]
  by (auto simp: h_ReadBinary_def keeps_def)

lemma brs_reads_keep: "reads_keep (\<lambda>s. length (brs_avail s) \<le> n) brs_read"
  by (auto simp: reads_keep_def brs_read_def brs_avail_def brs_remaining_def Let_def min_def)

lemma brs_ignore_shrinks: "length (brs_avail (brs_ignore s n)) \<le> length (brs_avail s)"
  by (auto simp: brs_ignore_def brs_fast_ignore_def brs_avail_def brs_remaining_def min_def)

lemma brs_varuint_shrinks:
  assumes "tl_ReadVaruint brs_read s = Inr (Some v, t)"
  shows "length (brs_avail t) < length (brs_avail s)"
proof -
  obtain b u where b: "(tl_ReadScalar brs_read 1 s :: byte option \<times> _) = (Some b, u)"
    using assms by (auto simp: tl_ReadVaruint_def tl_ReadVaruint_loop.simps [of _ 0] split: prod.splits option.splits)
  then have u: "length (brs_avail u) < length (brs_avail s)"
    by (auto simp: tl_ReadScalar_def brs_read_def brs_avail_def brs_remaining_def Let_def min_def split: if_splits)
  have "length (brs_avail t) \<le> length (brs_avail u)"
    using assms b tl_ReadVaruint_loop_keep [OF brs_reads_keep [of "length (brs_avail u)"], of u]
    by (auto simp: tl_ReadVaruint_def tl_ReadVaruint_loop.simps [of _ 0] Let_def split: if_splits)
  with u show ?thesis by simp
qed

lemma brs_scalar_shrinks:
  "tl_ReadScalar brs_read n s = (v, t) \<Longrightarrow> length (brs_avail t) \<le> length (brs_avail s)"
  using tl_ReadScalar_keep [OF brs_reads_keep [of "length (brs_avail s)"], of s n v t] by simp

lemma load_head_shrinks:
  assumes "tl_ReadVaruint brs_read s = Inr (Some n, t)"
    and "(c, u) = tl_ReadScalar brs_read k (brs_ignore t m)" and "(d, v) = tl_ReadScalar brs_read k u"
  shows "length (brs_avail v) < length (brs_avail s)"
  using brs_varuint_shrinks [OF assms(1)] brs_ignore_shrinks [of t m] brs_scalar_shrinks [OF assms(2) [symmetric]]
    brs_scalar_shrinks [OF assms(3) [symmetric]] by linarith

lemma h_ReadBinary_shrinks:
  "h_ReadBinary brs_read h s = Inr (e, h', t) \<Longrightarrow> length (brs_avail t) \<le> length (brs_avail s)"
  using h_ReadBinary_keep [OF brs_reads_keep [of "length (brs_avail s)"], of s] by auto

section \<open>Definitions\<close>

subsection \<open>The flash\<close>

text \<open>
  \<open>FlashInterface\<close>: the memory between \<open>start\<close> and \<open>end\<close>, and the operations on it. An address
  is an offset from \<open>start\<close>.
\<close>

record 'f flash_ops =
  fl_memory :: "'f \<Rightarrow> byte list"
  fl_Erase :: "'f \<Rightarrow> 'f res"
  fl_Unlock :: "'f \<Rightarrow> 'f res"
  fl_Lock :: "'f \<Rightarrow> 'f res"
  fl_ProgramByte :: "'f \<Rightarrow> nat \<Rightarrow> byte \<Rightarrow> 'f res"

text \<open>\<open>FlashWriteStream\<close>: the flash and the position. There is nothing to program behind the end.\<close>

fun fws_write :: "'f flash_ops \<Rightarrow> 'f \<times> nat \<Rightarrow> byte list \<Rightarrow> ('f \<times> nat) res" where
  "fws_write F (fl, position) [] = Inr (fl, position)"
| "fws_write F (fl, position) (c # cs) =
     (if position < length (fl_memory F fl)
      then sbind (fl_ProgramByte F fl position c) (\<lambda>fl. fws_write F (fl, position + 1) cs)
      else Inl BufferOverrun)"

text \<open>\<open>StubFlash\<close>, the flash of the tests; a failed check of the lock is a fault.\<close>

record stub_flash =
  sf_buffer :: "byte list"
  sf_locked :: bool

definition StubFlash :: "stub_flash flash_ops" where
  "StubFlash =
     \<lparr>fl_memory = sf_buffer,
      fl_Erase = (\<lambda>s. Inr (s\<lparr>sf_buffer := replicate (length (sf_buffer s)) 0\<rparr>)),
      fl_Unlock = (\<lambda>s. sbind (mj_assert (sf_locked s)) (\<lambda>_. Inr (s\<lparr>sf_locked := False\<rparr>))),
      fl_Lock = (\<lambda>s. sbind (mj_assert (\<not> sf_locked s)) (\<lambda>_. Inr (s\<lparr>sf_locked := True\<rparr>))),
      fl_ProgramByte = (\<lambda>s ptr val.
        sbind (mj_assert (\<not> sf_locked s)) (\<lambda>_. Inr (s\<lparr>sf_buffer := (sf_buffer s)[ptr := val]\<rparr>)))\<rparr>"

subsection \<open>The configuration\<close>

record config_element =
  serializable :: handler
  ce_enumerate :: bool

text \<open>What is called when a write to the response completes.\<close>

datatype pc_then = ThenRespond | ThenListCallback | ThenNextField | ThenEndOfLine

text \<open>
  The outputs: \<open>updated\<close> of an element, a write, and the callback of the response with or without
  an error.
\<close>

datatype pc_out = Updated "byte list" | WriteOut "byte list" pc_then | Respond bool

record 'f persistent_config =
  pc_flash :: 'f
  elements :: "(byte list, config_element) pool_map"
  output_size :: nat
  current_list_index :: nat
  current_enumerate_index :: nat
  end_enumerate_index :: nat
  enumerate_element :: nat
  current_field :: u16

definition pc_init :: "'f \<Rightarrow> nat \<Rightarrow> 'f persistent_config" where
  "pc_init fl n =
     \<lparr>pc_flash = fl, elements = pm_init 16, output_size = n, current_list_index = 0,
      current_enumerate_index = 0, end_enumerate_index = 0, enumerate_element = 0, current_field = 0\<rparr>"

definition pc_RegisterDetail :: "byte list \<Rightarrow> handler \<Rightarrow> bool \<Rightarrow> 'f persistent_config \<Rightarrow> 'f persistent_config res" where
  "pc_RegisterDetail name h enum s =
     sbind (pm_insert (elements s) name \<lparr>serializable = h, ce_enumerate = enum\<rparr>) (\<lambda>((i, added), m).
     sbind (mj_assert added) (\<lambda>_. Inr (s\<lparr>elements := m\<rparr>)))"

abbreviation pc_step :: "'f persistent_config \<Rightarrow> pc_out list \<Rightarrow> (pc_out list \<times> 'f persistent_config) res" where
  "pc_step s out \<equiv> Inr (out, s)"

definition pc_WriteMessage :: "byte list \<Rightarrow> pc_out" where
  "pc_WriteMessage message = WriteOut message ThenRespond"

definition pc_WriteOK :: pc_out where
  "pc_WriteOK = pc_WriteMessage (ascii ''OK'' @ [13, 10])"

definition err_line :: "string \<Rightarrow> pc_out" where
  "err_line msg = pc_WriteMessage (ascii ''ERR '' @ ascii msg @ [13, 10])"

text \<open>The element \<open>i\<close>, and its update.\<close>

abbreviation node :: "'f persistent_config \<Rightarrow> nat \<Rightarrow> byte list \<times> config_element" where
  "node s i \<equiv> pm_nodes (elements s) ! i"

definition set_handler :: "nat \<Rightarrow> handler \<Rightarrow> (byte list, config_element) pool_map \<Rightarrow> (byte list, config_element) pool_map" where
  "set_handler i h els =
     els\<lparr>pm_nodes := (pm_nodes els)[i := (fst (pm_nodes els ! i), (snd (pm_nodes els ! i))\<lparr>serializable := h\<rparr>)]\<rparr>"

subsection \<open>enumerate and list\<close>

text \<open>
  \<open>evaluate_enumerate_archive\<close> for the field \<open>current_field\<close> of an element: the write of its line,
  if there is such a field.
\<close>

definition pc_evaluate :: "text_env \<Rightarrow> 'f persistent_config \<Rightarrow> pc_out option res" where
  "pc_evaluate env s =
     (case node s (enumerate_element s) of
        (name, el) \<Rightarrow>
          sbind (h_evaluate env (output_size s) name (serializable el) (current_field s)) (\<lambda>line.
          Inr (map_option (\<lambda>line. WriteOut line ThenNextField) line)))"

text \<open>
  \<open>EnumerateCallback\<close> without an error: the next element that is to be enumerated. When it has no
  field, nothing is written, and nothing calls back.
\<close>

function pc_next_element :: "text_env \<Rightarrow> 'f persistent_config \<Rightarrow> (pc_out list \<times> 'f persistent_config) res" where
  "pc_next_element env s =
     (let i = current_enumerate_index s in
      if i \<ge> end_enumerate_index s \<or> i = length (pm_nodes (elements s)) then pc_step s [pc_WriteOK]
      else let s = s\<lparr>current_enumerate_index := i + 1\<rparr> in
           if \<not> ce_enumerate (snd (node s i)) then pc_next_element env s
           else let s = s\<lparr>enumerate_element := i, current_field := 0\<rparr> in
                sbind (pc_evaluate env s) (\<lambda>out.
                pc_step s (case out of None \<Rightarrow> [] | Some w \<Rightarrow> [w])))"
  by pat_completeness auto
termination by (relation "measure (\<lambda>(env, s). end_enumerate_index s - current_enumerate_index s)") auto

declare pc_next_element.simps [simp del]

definition pc_EnumerateCallback :: "text_env \<Rightarrow> bool \<Rightarrow> 'f persistent_config \<Rightarrow> (pc_out list \<times> 'f persistent_config) res" where
  "pc_EnumerateCallback env error s = (if error then pc_step s [Respond True] else pc_next_element env s)"

definition pc_Enumerate :: "text_env \<Rightarrow> byte list \<Rightarrow> 'f persistent_config \<Rightarrow> (pc_out list \<times> 'f persistent_config) res" where
  "pc_Enumerate env maybe_field s =
     (if maybe_field \<noteq> []
      then case pm_find (elements s) maybe_field of
             None \<Rightarrow> pc_step s [err_line ''unknown group'']
           | Some i \<Rightarrow> pc_EnumerateCallback env False (s\<lparr>current_enumerate_index := i, end_enumerate_index := i + 1\<rparr>)
      else pc_EnumerateCallback env False
             (s\<lparr>current_enumerate_index := 0, end_enumerate_index := length (pm_nodes (elements s))\<rparr>))"

text \<open>The completion of the write of a field (the callback in \<open>EnumerateArchive::EmitValue\<close>).\<close>

definition pc_field_done :: "text_env \<Rightarrow> bool \<Rightarrow> 'f persistent_config \<Rightarrow> (pc_out list \<times> 'f persistent_config) res" where
  "pc_field_done env error s =
     (if error then pc_EnumerateCallback env error s
      else let s = s\<lparr>current_field := current_field s + 1\<rparr> in
           sbind (pc_evaluate env s) (\<lambda>out.
           case out of Some w \<Rightarrow> pc_step s [w] | None \<Rightarrow> pc_EnumerateCallback env False s))"

definition pc_ListCallback :: "bool \<Rightarrow> 'f persistent_config \<Rightarrow> (pc_out list \<times> 'f persistent_config) res" where
  "pc_ListCallback error s =
     (if error then pc_step s [Respond True]
      else if current_list_index s \<ge> length (pm_nodes (elements s)) then pc_step s [pc_WriteOK]
      else let name = fst (node s (current_list_index s)) in
           if length name + 2 > output_size s then Inl BufferOverrun
           else pc_step (s\<lparr>current_list_index := current_list_index s + 1\<rparr>) [WriteOut (name @ [13, 10]) ThenListCallback])"

definition pc_List :: "'f persistent_config \<Rightarrow> (pc_out list \<times> 'f persistent_config) res" where
  "pc_List s = pc_ListCallback False (s\<lparr>current_list_index := 0\<rparr>)"

subsection \<open>schema, data, get and set\<close>

definition pc_Emit :: "byte list \<Rightarrow> byte list \<Rightarrow> (bws \<Rightarrow> bws res) \<Rightarrow> nat \<Rightarrow> byte list res" where
  "pc_Emit prefix name work n =
     sbind (bws_write (bws_init (replicate n 0)) prefix) (\<lambda>ostream.
     sbind (bws_write ostream name) (\<lambda>ostream.
     sbind (bws_write ostream [13, 10]) (\<lambda>ostream.
     let size_position = bw_off ostream in
     sbind (work (bws_skip ostream 4)) (\<lambda>ostream.
     sbind (tl_WriteScalar bws_write 4 (bws_init (replicate 4 0)) (of_nat (bw_off ostream - (size_position + 4)) :: u32)) (\<lambda>size_stream.
     if size_position + 4 > n then Inl BufferOverrun
     else Inr (take (bw_off ostream) (overwrite (bw_mem ostream) size_position (bw_mem size_stream))))))))"

definition pc_Schema :: "byte list \<Rightarrow> 'f persistent_config \<Rightarrow> (pc_out list \<times> 'f persistent_config) res" where
  "pc_Schema name s =
     (case pm_find (elements s) name of
        None \<Rightarrow> pc_step s [err_line ''unknown name'']
      | Some i \<Rightarrow>
          sbind (pc_Emit (ascii ''cschema '') name (h_WriteSchema bws_write (serializable (snd (node s i)))) (output_size s)) (\<lambda>d.
          pc_step s [WriteOut d ThenRespond]))"

definition pc_Data :: "byte list \<Rightarrow> 'f persistent_config \<Rightarrow> (pc_out list \<times> 'f persistent_config) res" where
  "pc_Data name s =
     (case pm_find (elements s) name of
        None \<Rightarrow> pc_step s [err_line ''unknown name'']
      | Some i \<Rightarrow>
          sbind (pc_Emit (ascii ''cdata '') name (h_WriteBinary bws_write (serializable (snd (node s i)))) (output_size s)) (\<lambda>d.
          pc_step s [WriteOut d ThenRespond]))"

definition pc_Get :: "text_env \<Rightarrow> byte list \<Rightarrow> 'f persistent_config \<Rightarrow> (pc_out list \<times> 'f persistent_config) res" where
  "pc_Get env field s =
     (case tk_next dot field of
        (group_name, rest) \<Rightarrow>
          (case pm_find (elements s) group_name of
             None \<Rightarrow> pc_step s [err_line ''unknown group'']
           | Some i \<Rightarrow>
               sbind (h_Read env (output_size s) (serializable (snd (node s i))) rest) (\<lambda>found.
               case found of
                 None \<Rightarrow> pc_step s [err_line ''error reading'']
               | Some d \<Rightarrow> pc_step s [WriteOut d ThenEndOfLine])))"

definition pc_end_of_line :: "bool \<Rightarrow> 'f persistent_config \<Rightarrow> (pc_out list \<times> 'f persistent_config) res" where
  "pc_end_of_line error s = pc_step s [if error then Respond True else pc_WriteMessage [13, 10]]"

definition pc_Set :: "text_env \<Rightarrow> byte list \<Rightarrow> 'f persistent_config \<Rightarrow> (pc_out list \<times> 'f persistent_config) res" where
  "pc_Set env command s =
     (case tk_next dot command of
        (group_name, rest) \<Rightarrow>
          (case pm_find (elements s) group_name of
             None \<Rightarrow> pc_step s [err_line ''unknown group'']
           | Some i \<Rightarrow>
               (case tk_next (ascii '' '') rest of
                  (key, val) \<Rightarrow>
                    sbind (h_Set env (serializable (snd (node s i))) key val) (\<lambda>(found, h).
                    let s = s\<lparr>elements := set_handler i h (elements s)\<rparr> in
                    if found then pc_step s [Updated (fst (node s i)), pc_WriteOK]
                    else pc_step s [err_line ''error setting'']))))"

subsection \<open>load, write, size and default\<close>

definition CalculateSchemaCrc :: "(byte list \<Rightarrow> u32) \<Rightarrow> handler \<Rightarrow> u32 res" where
  "CalculateSchemaCrc crc32 h = sbind (h_WriteSchema (crc_ws_write null_write) h ((), [])) (\<lambda>(_, seen). Inr (crc32 seen))"

text \<open>
  The loop of \<open>DoLoad\<close>. The name is a view into the flash; it is looked at only when all of it
  lies in the flash, because at least eight bytes follow.
\<close>

function pc_load_loop ::
  "(byte list \<Rightarrow> u32) \<Rightarrow> brs \<Rightarrow> (byte list, config_element) pool_map \<Rightarrow> (byte list, config_element) pool_map res" where
  "pc_load_loop crc32 stream els =
     sbind (tl_ReadVaruint brs_read stream) (\<lambda>(maybe_name_size, stream).
     case maybe_name_size of
       None \<Rightarrow> Inr els
     | Some name_size \<Rightarrow>
         if name_size = 0 \<or> unat name_size \<ge> kMaxStringSize then Inr els
         else let name = take (unat name_size) (brs_avail stream);
                  stream = brs_ignore stream (unat name_size)
              in if brs_remaining stream < 8 then Inr els
                 else (case tl_ReadScalar brs_read 4 stream of
                         (maybe_expected_crc, stream) \<Rightarrow>
                       case tl_ReadScalar brs_read 4 stream of
                         (maybe_data_size, stream) \<Rightarrow>
                       (case (maybe_expected_crc :: u32 option, maybe_data_size :: u32 option) of
                          (Some expected_crc, Some data_size) \<Rightarrow>
                            (case pm_find els name of
                               None \<Rightarrow> pc_load_loop crc32 (brs_ignore stream (unat data_size)) els
                             | Some i \<Rightarrow>
                                 let base = serializable (snd (pm_nodes els ! i)) in
                                 sbind (CalculateSchemaCrc crc32 base) (\<lambda>actual_crc.
                                 if actual_crc \<noteq> expected_crc
                                 then pc_load_loop crc32 (brs_ignore stream (unat data_size)) els
                                 else sbind (h_ReadBinary brs_read base stream) (\<lambda>(_, h, stream).
                                      pc_load_loop crc32 stream (set_handler i h els))))
                        | _ \<Rightarrow> Inr els)))"
  by pat_completeness auto


termination pc_load_loop
  by (relation "measure (\<lambda>(crc32, stream, els). length (brs_avail stream))")
    (auto intro: le_less_trans [OF brs_ignore_shrinks] le_less_trans [OF h_ReadBinary_shrinks] load_head_shrinks)

declare pc_load_loop.simps [simp del]

definition pc_updated_all :: "(byte list, config_element) pool_map \<Rightarrow> pc_out list" where
  "pc_updated_all els = map (\<lambda>(name, _). Updated name) (pm_nodes els)"

definition pc_DoLoad :: "(byte list \<Rightarrow> u32) \<Rightarrow> 'f flash_ops \<Rightarrow> 'f persistent_config \<Rightarrow> (pc_out list \<times> 'f persistent_config) res" where
  "pc_DoLoad crc32 F s =
     sbind (pc_load_loop crc32 (brs_init (fl_memory F (pc_flash s))) (elements s)) (\<lambda>els.
     pc_step (s\<lparr>elements := els\<rparr>) (pc_updated_all els))"

definition pc_Load :: "(byte list \<Rightarrow> u32) \<Rightarrow> 'f flash_ops \<Rightarrow> 'f persistent_config \<Rightarrow> (pc_out list \<times> 'f persistent_config) res" where
  "pc_Load crc32 F s = sbind (pc_DoLoad crc32 F s) (\<lambda>(out, s). pc_step s (out @ [pc_WriteOK]))"

fun pc_write_elements ::
  "(byte list \<Rightarrow> u32) \<Rightarrow> ('s \<Rightarrow> byte list \<Rightarrow> 's res) \<Rightarrow> (byte list \<times> config_element) list \<Rightarrow> 's \<Rightarrow> 's res" where
  "pc_write_elements crc32 wr [] stream = Inr stream"
| "pc_write_elements crc32 wr ((name, el) # els) stream =
     sbind (tl_WriteString wr stream name) (\<lambda>stream.
     sbind (CalculateSchemaCrc crc32 (serializable el)) (\<lambda>crc.
     sbind (tl_WriteScalar wr 4 stream crc) (\<lambda>stream.
     sbind (h_WriteBinary size_write (serializable el) 0) (\<lambda>data_size.
     sbind (tl_WriteScalar wr 4 stream (of_nat data_size :: u32)) (\<lambda>stream.
     sbind (h_WriteBinary wr (serializable el) stream) (\<lambda>stream.
     pc_write_elements crc32 wr els stream))))))"

definition pc_Write :: "(byte list \<Rightarrow> u32) \<Rightarrow> 'f flash_ops \<Rightarrow> 'f persistent_config \<Rightarrow> (pc_out list \<times> 'f persistent_config) res" where
  "pc_Write crc32 F s =
     sbind (fl_Unlock F (pc_flash s)) (\<lambda>fl.
     sbind (fl_Erase F fl) (\<lambda>fl.
     sbind (pc_write_elements crc32 (fws_write F) (pm_nodes (elements s)) (fl, 0)) (\<lambda>stream.
     sbind (tl_WriteScalar (fws_write F) 4 stream (0 :: u32)) (\<lambda>(fl, _).
     sbind (fl_Lock F fl) (\<lambda>fl.
     pc_step (s\<lparr>pc_flash := fl\<rparr>) [pc_WriteOK])))))"

fun pc_size_elements :: "(byte list \<times> config_element) list \<Rightarrow> nat \<Rightarrow> nat res" where
  "pc_size_elements [] n = Inr n"
| "pc_size_elements ((name, el) # els) n =
     sbind (tl_WriteString size_write n name) (\<lambda>n.
     sbind (tl_WriteScalar size_write 4 n (0 :: u32)) (\<lambda>n.
     sbind (tl_WriteScalar size_write 4 n (0 :: u32)) (\<lambda>n.
     sbind (h_WriteBinary size_write (serializable el) n) (\<lambda>n.
     pc_size_elements els n))))"

text \<open>
  \<open>snprintf\<close> puts a terminator into the buffer, and the message ends there; a buffer of no bytes
  has none.
\<close>

definition pc_Size :: "'f persistent_config \<Rightarrow> (pc_out list \<times> 'f persistent_config) res" where
  "pc_Size s =
     sbind (pc_size_elements (pm_nodes (elements s)) 0) (\<lambda>n.
     sbind (tl_WriteScalar size_write 4 n (0 :: u32)) (\<lambda>n.
     let line = fmt_int (sint (of_nat n :: u32)) @ [13, 10] @ ascii ''OK'' @ [13, 10]
     in if output_size s = 0 then Inl BufferOverrun
        else pc_step s [pc_WriteMessage (take (output_size s - 1) line)]))"

definition pc_Default :: "'f persistent_config \<Rightarrow> (pc_out list \<times> 'f persistent_config) res" where
  "pc_Default s =
     (let els = (elements s)\<lparr>pm_nodes := map (\<lambda>(name, el). (name, el\<lparr>serializable := h_SetDefault (serializable el)\<rparr>)) (pm_nodes (elements s))\<rparr>
      in pc_step (s\<lparr>elements := els\<rparr>) (pc_updated_all els @ [pc_WriteOK]))"

subsection \<open>The command and the completions\<close>

definition pc_Command ::
  "text_env \<Rightarrow> (byte list \<Rightarrow> u32) \<Rightarrow> 'f flash_ops \<Rightarrow> byte list \<Rightarrow> 'f persistent_config \<Rightarrow> (pc_out list \<times> 'f persistent_config) res" where
  "pc_Command env crc32 F command s =
     (case tk_next (ascii '' '') command of
        (cmd, rest) \<Rightarrow>
          if cmd = ascii ''enumerate'' then pc_Enumerate env rest s
          else if cmd = ascii ''list'' then pc_List s
          else if cmd = ascii ''schema'' then pc_Schema rest s
          else if cmd = ascii ''data'' then pc_Data rest s
          else if cmd = ascii ''get'' then pc_Get env rest s
          else if cmd = ascii ''set'' then pc_Set env rest s
          else if cmd = ascii ''load'' then pc_Load crc32 F s
          else if cmd = ascii ''write'' then pc_Write crc32 F s
          else if cmd = ascii ''size'' then pc_Size s
          else if cmd = ascii ''default'' then pc_Default s
          else pc_step s [err_line ''unknown subcommand''])"

definition pc_write_done ::
  "text_env \<Rightarrow> pc_then \<Rightarrow> bool \<Rightarrow> 'f persistent_config \<Rightarrow> (pc_out list \<times> 'f persistent_config) res" where
  "pc_write_done env k error s =
     (case k of
        ThenRespond \<Rightarrow> pc_step s [Respond error]
      | ThenListCallback \<Rightarrow> pc_ListCallback error s
      | ThenNextField \<Rightarrow> pc_field_done env error s
      | ThenEndOfLine \<Rightarrow> pc_end_of_line error s)"

section \<open>The interface of the flash\<close>

text \<open>
  What \<open>micro/flash.h\<close> asks of a flash: between \<open>Unlock\<close> and \<open>Lock\<close> it can be erased, and every
  byte can then be programmed once, here from the front to the back: \<open>erased s i\<close> says that the
  bytes from \<open>i\<close> on have not been programmed since the flash was erased.
\<close>

locale flash_interface =
  fixes F :: "'f flash_ops" and idle :: "'f \<Rightarrow> bool" and unlocked :: "'f \<Rightarrow> bool" and erased :: "'f \<Rightarrow> nat \<Rightarrow> bool"
  assumes Unlock: "idle s \<Longrightarrow> \<exists>t. fl_Unlock F s = Inr t \<and> unlocked t \<and> length (fl_memory F t) = length (fl_memory F s)"
    and Erase: "unlocked s \<Longrightarrow>
      \<exists>t. fl_Erase F s = Inr t \<and> unlocked t \<and> erased t 0 \<and> length (fl_memory F t) = length (fl_memory F s)"
    and ProgramByte: "unlocked s \<Longrightarrow> erased s i \<Longrightarrow> i < length (fl_memory F s) \<Longrightarrow>
      \<exists>t. fl_ProgramByte F s i b = Inr t \<and> unlocked t \<and> erased t (Suc i) \<and> fl_memory F t = (fl_memory F s)[i := b]"
    and Lock: "unlocked s \<Longrightarrow> \<exists>t. fl_Lock F s = Inr t \<and> idle t \<and> fl_memory F t = fl_memory F s"

lemma fws_write_append: "fws_write F s (a @ b) = sbind (fws_write F s a) (\<lambda>t. fws_write F t b)"
  by (induction F s a rule: fws_write.induct) (auto simp: res_simps cong: sbind_cong)

definition fws_out :: "'f flash_ops \<Rightarrow> 'f \<times> nat \<Rightarrow> byte list" where
  "fws_out F s = take (snd s) (fl_memory F (fst s))"

definition fws_ok :: "'f flash_ops \<Rightarrow> ('f \<Rightarrow> bool) \<Rightarrow> ('f \<Rightarrow> nat \<Rightarrow> bool) \<Rightarrow> 'f \<times> nat \<Rightarrow> bool" where
  "fws_ok F unlocked erased s \<longleftrightarrow>
     unlocked (fst s) \<and> erased (fst s) (snd s) \<and> snd s \<le> length (fl_memory F (fst s))"

context flash_interface
begin

lemma fws_write_step:
  assumes "fws_ok F unlocked erased (fl, p)" and "p < length (fl_memory F fl)"
  shows "\<exists>fl'. fl_ProgramByte F fl p c = Inr fl' \<and> fws_ok F unlocked erased (fl', Suc p)
    \<and> length (fl_memory F fl') = length (fl_memory F fl) \<and> take (Suc p) (fl_memory F fl') = take p (fl_memory F fl) @ [c]"
  using assms ProgramByte [of fl p c] by (auto simp: fws_ok_def take_Suc_conv_app_nth)

lemma fws_write_Inr:
  "fws_ok F unlocked erased s \<Longrightarrow> fws_write F s d = Inr t \<Longrightarrow>
   fws_ok F unlocked erased t \<and> fws_out F t = fws_out F s @ d \<and> length (fl_memory F (fst t)) = length (fl_memory F (fst s))"
proof (induction d arbitrary: s)
  case Nil
  then show ?case by (cases s) simp
next
  case (Cons c cs)
  obtain fl p where s: "s = (fl, p)" by fastforce
  with Cons.prems have "p < length (fl_memory F fl)" by (auto split: if_splits)
  with Cons.prems s fws_write_step [of fl p c] obtain fl' where
    "fl_ProgramByte F fl p c = Inr fl'" "fws_ok F unlocked erased (fl', Suc p)"
    "length (fl_memory F fl') = length (fl_memory F fl)" "take (Suc p) (fl_memory F fl') = take p (fl_memory F fl) @ [c]"
    by auto
  then show ?case
    using Cons.IH [of "(fl', Suc p)"] Cons.prems s by (auto simp: fws_out_def split: if_splits)
qed

lemma fws_write_total:
  "fws_ok F unlocked erased s \<Longrightarrow> snd s + length d \<le> length (fl_memory F (fst s)) \<Longrightarrow> \<exists>t. fws_write F s d = Inr t"
proof (induction d arbitrary: s)
  case Nil
  then show ?case by (cases s) simp
next
  case (Cons c cs)
  obtain fl p where s: "s = (fl, p)" by fastforce
  with Cons.prems fws_write_step [of fl p c] obtain fl' where
    "fl_ProgramByte F fl p c = Inr fl'" "fws_ok F unlocked erased (fl', Suc p)"
    "length (fl_memory F fl') = length (fl_memory F fl)"
    by auto
  then show ?case using Cons.IH [of "(fl', Suc p)"] Cons.prems s by simp
qed

end

sublocale flash_interface \<subseteq> fws: object_stream "fws_write F" "fws_out F" "fws_ok F unlocked erased"
proof unfold_locales
  show "fws_write F s (a @ b) = sbind (fws_write F s a) (\<lambda>t. fws_write F t b)" for s a b
    by (rule fws_write_append)
  show "fws_out F t = fws_out F s @ d" and "fws_ok F unlocked erased t"
    if "fws_ok F unlocked erased s" "fws_write F s d = Inr t" for s d t
    using fws_write_Inr [OF that] by simp_all
  show "fws_write F s [] = Inr s" for s by (cases s) simp
qed

section \<open>The bytes in the flash\<close>

definition schema_crc :: "(byte list \<Rightarrow> u32) \<Rightarrow> cpp_type \<Rightarrow> u32" where
  "schema_crc crc32 ty = crc32 (schema_bytes True ty (default_value ty))"

fun element_bytes :: "(byte list \<Rightarrow> u32) \<Rightarrow> byte list \<times> config_element \<Rightarrow> byte list" where
  "element_bytes crc32 (name, el) =
     string_bytes name @ le_bytes 4 (schema_crc crc32 (h_type (serializable el))) @
     le_bytes 4 (of_nat (length (data_bytes (h_item (serializable el)))) :: u32) @ data_bytes (h_item (serializable el))"

fun element_ok :: "byte list \<times> config_element \<Rightarrow> bool" where
  "element_ok (name, el) \<longleftrightarrow>
     name \<noteq> [] \<and> length name < kMaxStringSize \<and> has_type (h_item (serializable el)) (h_type (serializable el)) \<and>
     wf_type (h_type (serializable el)) \<and> fresh_type (h_type (serializable el)) \<and>
     length (data_bytes (h_item (serializable el))) < 2 ^ 32"

definition config_bytes :: "(byte list \<Rightarrow> u32) \<Rightarrow> (byte list \<times> config_element) list \<Rightarrow> byte list" where
  "config_bytes crc32 els = concat (map (element_bytes crc32) els) @ [0, 0, 0, 0]"

lemma CalculateSchemaCrc_eq: "wf_type (h_type h) \<Longrightarrow> CalculateSchemaCrc crc32 h = Inr (schema_crc crc32 (h_type h))"
  by (simp add: CalculateSchemaCrc_def h_WriteSchema_def schema_crc_def null_crc_obj.schema_writers_bytes default_has_type
      crc_ws_write_def null_write_def)

lemma size_WriteBinary: "has_type (h_item h) (h_type h) \<Longrightarrow> h_WriteBinary size_write h n = Inr (n + length (data_bytes (h_item h)))"
  by (simp add: h_WriteBinary_def size_ws.bw_Visit_bytes size_write_def)

context steady_stream
begin

lemma pc_write_elements_bytes:
  "ok s \<Longrightarrow> \<forall>el \<in> set els. element_ok el \<Longrightarrow>
   pc_write_elements crc32 wr els s = wr s (concat (map (element_bytes crc32) els))"
proof (induction els arbitrary: s)
  case Nil
  then show ?case by (simp add: wr_Nil)
next
  case (Cons x els)
  obtain name el where x: "x = (name, el)" by fastforce
  let ?h = "serializable el"
  have el: "length name < 2 ^ 64" "has_type (h_item ?h) (h_type ?h)" "wf_type (h_type ?h)"
    using Cons.prems x by (auto simp: kMaxStringSize_def)
  have "sbind (h_WriteBinary wr ?h t) (pc_write_elements crc32 wr els)
      = wr t (data_bytes (h_item ?h) @ concat (map (element_bytes crc32) els))" if "ok t" for t
    using Cons that el by (simp add: h_WriteBinary_def bw_Visit_bytes wr_then)
  then show ?case
    using Cons.prems x el
    by (simp add: tl_WriteString_bytes CalculateSchemaCrc_eq size_WriteBinary tl_WriteScalar_def wr_then)
qed

end

context flash_interface
begin

lemma pc_Write_bytes:
  assumes "idle (pc_flash s)" and "\<forall>el \<in> set (pm_nodes (elements s)). element_ok el"
    and "length (config_bytes crc32 (pm_nodes (elements s))) \<le> length (fl_memory F (pc_flash s))"
  shows "\<exists>fl. pc_Write crc32 F s = Inr ([pc_WriteOK], s\<lparr>pc_flash := fl\<rparr>) \<and> idle fl
    \<and> length (fl_memory F fl) = length (fl_memory F (pc_flash s))
    \<and> take (length (config_bytes crc32 (pm_nodes (elements s)))) (fl_memory F fl) = config_bytes crc32 (pm_nodes (elements s))"
proof -
  let ?els = "pm_nodes (elements s)" and ?bs = "config_bytes crc32 (pm_nodes (elements s))"
  let ?len = "length (fl_memory F (pc_flash s))"
  obtain f1 where f1: "fl_Unlock F (pc_flash s) = Inr f1" "unlocked f1" "length (fl_memory F f1) = ?len"
    using Unlock [OF assms(1)] by blast
  obtain f2 where f2: "fl_Erase F f1 = Inr f2" "unlocked f2" "erased f2 0" "length (fl_memory F f2) = ?len"
    using Erase [OF f1(2)] f1(3) by auto
  then have ok: "fws_ok F unlocked erased (f2, 0)" by (simp add: fws_ok_def)
  obtain f3 p where f3: "fws_write F (f2, 0) ?bs = Inr (f3, p)"
    using fws_write_total [OF ok, of ?bs] assms(3) f2(4) by auto
  have out: "fws_ok F unlocked erased (f3, p)" "take p (fl_memory F f3) = ?bs" "length (fl_memory F f3) = ?len"
    using fws_write_Inr [OF ok f3] f2(4) by (auto simp: fws_out_def)
  then have p: "p = length ?bs"
    by (metis fws_ok_def fst_conv length_take min.absorb2 snd_conv)
  obtain f4 where f4: "fl_Lock F f3 = Inr f4" "idle f4" "fl_memory F f4 = fl_memory F f3"
    using Lock [of f3] out(1) by (auto simp: fws_ok_def)
  have w: "sbind (pc_write_elements crc32 (fws_write F) ?els (f2, 0)) (\<lambda>t. tl_WriteScalar (fws_write F) 4 t (0 :: u32)) = Inr (f3, p)"
    using ok f3 by (simp add: fws.pc_write_elements_bytes assms(2) tl_WriteScalar_def fws.wr_then config_bytes_def
        numeral_eq_Suc)
  then obtain t where "pc_write_elements crc32 (fws_write F) ?els (f2, 0) = Inr t" "tl_WriteScalar (fws_write F) 4 t (0 :: u32) = Inr (f3, p)"
    by auto
  then show ?thesis
    using f1 f2 f4 out p by (auto simp: pc_Write_def)
qed

end

section \<open>Loading\<close>

lemma pm_find_lookup: "pm_find m k = Some i \<Longrightarrow> pm_lookup m k = Some (snd (pm_nodes m ! i))"
  by (simp add: pm_lookup_def)

lemma find_node_update:
  "i = find_node ns k \<Longrightarrow> i < length ns \<Longrightarrow>
   map_of (ns[i := (fst (ns ! i), v)]) x = (if x = k then Some v else map_of ns x)"
  by (induction ns arbitrary: i) (auto split: if_splits)

lemma set_handler_lookup:
  assumes "pm_find els name = Some i"
  shows "pm_lookup (set_handler i h els) x
    = (if x = name then map_option (\<lambda>el. el\<lparr>serializable := h\<rparr>) (pm_lookup els name) else pm_lookup els x)"
proof -
  have i: "i = find_node (pm_nodes els) name" "i < length (pm_nodes els)"
    using assms by (auto simp: pm_find_def Let_def split: if_splits)
  moreover have "map_of (pm_nodes els) name = Some (snd (pm_nodes els ! i))"
    using i by (simp add: find_node_map_of)
  ultimately show ?thesis by (simp add: pm_lookup_map_of set_handler_def find_node_update)
qed

lemma set_handler_names: "map fst (pm_nodes (set_handler i h els)) = map fst (pm_nodes els)"
  by (cases "i < length (pm_nodes els)") (simp_all add: set_handler_def map_update list_update_same_conv list_update_beyond)

text \<open>
  What a stored element does to the element of the same name: it is restored when the types agree,
  and passed over otherwise. Different types are told apart by their checksums.
\<close>

definition compatible :: "(byte list \<Rightarrow> u32) \<Rightarrow> config_element \<Rightarrow> config_element \<Rightarrow> bool" where
  "compatible crc32 el el' \<longleftrightarrow>
     (if h_type (serializable el) = h_type (serializable el')
      then has_type (h_item (serializable el')) (h_type (serializable el')) \<and> fresh (h_item (serializable el'))
      else wf_type (h_type (serializable el')) \<and>
           schema_crc crc32 (h_type (serializable el)) \<noteq> schema_crc crc32 (h_type (serializable el')))"

definition restored :: "config_element option \<Rightarrow> config_element \<Rightarrow> config_element" where
  "restored stored el' =
     (case stored of
        Some el \<Rightarrow> if h_type (serializable el) = h_type (serializable el') then el'\<lparr>serializable := serializable el\<rparr> else el'
      | None \<Rightarrow> el')"

lemma restored_None [simp]: "map_option (restored None) x = x"
  by (cases x) (simp_all add: restored_def)

lemma brs_u32:
  fixes w :: u32
  assumes "brs_ok s" and "brs_avail s = le_bytes 4 w @ rest"
  shows "\<exists>t. tl_ReadScalar brs_read 4 s = (Some w, t) \<and> brs_avail t = rest \<and> brs_ok t"
  using brs.rd_exact [OF assms] by (auto simp: tl_ReadScalar_def)

text \<open>One element in the flash.\<close>

lemma load_head:
  assumes "brs_ok s" and "brs_avail s = element_bytes crc32 (name, el) @ rest" and "element_ok (name, el)"
  obtains t u v where "tl_ReadVaruint brs_read s = Inr (Some (of_nat (length name)), t)" "take (length name) (brs_avail t) = name"
    "\<not> brs_remaining (brs_ignore t (length name)) < 8"
    "tl_ReadScalar brs_read 4 (brs_ignore t (length name)) = (Some (schema_crc crc32 (h_type (serializable el))), u)"
    "tl_ReadScalar brs_read 4 u = (Some (of_nat (length (data_bytes (h_item (serializable el)))) :: u32), v)"
    "brs_avail v = data_bytes (h_item (serializable el)) @ rest" "brs_ok v"
proof -
  let ?crc = "schema_crc crc32 (h_type (serializable el))" and ?data = "data_bytes (h_item (serializable el))"
  let ?n = "of_nat (length ?data) :: u32"
  obtain t where t: "tl_ReadVaruint brs_read s = Inr (Some (of_nat (length name)), t)"
      "brs_avail t = name @ le_bytes 4 ?crc @ le_bytes 4 ?n @ ?data @ rest" "brs_ok t"
    using brs.rd_varuint_nat [of s "length name"] assms by (auto simp: string_bytes_def kMaxStringSize_def)
  let ?t = "brs_ignore t (length name)"
  have i: "brs_avail ?t = le_bytes 4 ?crc @ le_bytes 4 ?n @ ?data @ rest" "brs_ok ?t"
    using t brs.ign_avail [of t "length name"] brs.ign_ok by simp_all
  obtain u where u: "tl_ReadScalar brs_read 4 ?t = (Some ?crc, u)" "brs_avail u = le_bytes 4 ?n @ ?data @ rest" "brs_ok u"
    using brs_u32 [OF i(2,1)] by auto
  obtain v where v: "tl_ReadScalar brs_read 4 u = (Some ?n, v)" "brs_avail v = ?data @ rest" "brs_ok v"
    using brs_u32 [OF u(3,2)] by auto
  have "\<not> brs_remaining ?t < 8"
    using i by (simp add: brs_remaining_avail)
  with t u v that show thesis by simp
qed

lemma load_element:
  assumes "brs_ok s" and "brs_avail s = element_bytes crc32 (name, el) @ rest" and "element_ok (name, el)"
    and "\<And>el'. pm_lookup els name = Some el' \<Longrightarrow> compatible crc32 el el'"
  shows "\<exists>t els'. pc_load_loop crc32 s els = pc_load_loop crc32 t els' \<and> brs_ok t \<and> brs_avail t = rest
    \<and> map fst (pm_nodes els') = map fst (pm_nodes els)
    \<and> (\<forall>x. pm_lookup els' x = (if x = name then map_option (restored (Some el)) (pm_lookup els name) else pm_lookup els x))"
proof -
  let ?data = "data_bytes (h_item (serializable el))"
  obtain t u v where h: "tl_ReadVaruint brs_read s = Inr (Some (of_nat (length name)), t)" "take (length name) (brs_avail t) = name"
    "\<not> brs_remaining (brs_ignore t (length name)) < 8"
    "tl_ReadScalar brs_read 4 (brs_ignore t (length name)) = (Some (schema_crc crc32 (h_type (serializable el))), u)"
    "tl_ReadScalar brs_read 4 u = (Some (of_nat (length ?data) :: u32), v)"
    "brs_avail v = ?data @ rest" "brs_ok v"
    using load_head [OF assms(1-3)] by metis
  have u: "unat (of_nat (length name) :: u64) = length name" and d: "unat (of_nat (length ?data) :: u32) = length ?data"
    using assms(3) by (auto simp: unat_of_nat take_bit_eq_mod kMaxStringSize_def)
  then have n: "unat (of_nat (length name) :: u64) = length name" "(of_nat (length name) :: u64) \<noteq> 0" "length name < kMaxStringSize"
    using assms(3) by (auto dest: arg_cong [where f = unat])
  have skip: "brs_avail (brs_ignore v (length ?data)) = rest" "brs_ok (brs_ignore v (length ?data))"
    using brs.ign_avail [OF h(7), of "length ?data"] brs.ign_ok [OF h(7)] h(6) by simp_all
  note step = pc_load_loop.simps [of crc32 s els]
  show ?thesis
  proof (cases "pm_find els name")
    case None
    then have "pc_load_loop crc32 s els = pc_load_loop crc32 (brs_ignore v (length ?data)) els"
      using h n d by (simp add: step)
    with None skip show ?thesis by (auto simp: pm_lookup_def)
  next
    case (Some i)
    let ?el = "snd (pm_nodes els ! i)"
    have lk: "pm_lookup els name = Some ?el" and c: "compatible crc32 el ?el"
      using Some assms(4) by (simp_all add: pm_find_lookup)
    then have wf: "wf_type (h_type (serializable ?el))"
      using assms(3) by (auto simp: compatible_def split: if_splits)
    show ?thesis
    proof (cases "h_type (serializable el) = h_type (serializable ?el)")
      case True
      have "brs.takes ?data v (ra_Visit brs_read (h_type (serializable el)) (h_item (serializable ?el)) False) (h_item (serializable el))"
        by (rule brs.ra_Visit_takes) (use assms(3) c True in \<open>auto simp: compatible_def\<close>)
      then obtain w where w: "h_ReadBinary brs_read (serializable ?el) v = Inr (False, serializable el, w)"
          "brs_avail w = rest" "brs_ok w"
        using brs.takesD [OF _ h(7,6)] True by (fastforce simp: h_ReadBinary_def)
      then have "pc_load_loop crc32 s els = pc_load_loop crc32 w (set_handler i (serializable el) els)"
        using h n Some wf True by (simp add: step CalculateSchemaCrc_eq)
      with w show ?thesis
        using set_handler_lookup [OF Some] set_handler_names True lk by (fastforce simp: restored_def)
    next
      case False
      then have "pc_load_loop crc32 s els = pc_load_loop crc32 (brs_ignore v (length ?data)) els"
        using h n d Some wf c by (simp add: step CalculateSchemaCrc_eq compatible_def)
      with skip False lk show ?thesis by (auto simp: restored_def)
    qed
  qed
qed

lemma load_all:
  "brs_ok s \<Longrightarrow> brs_avail s = config_bytes crc32 stored @ rest \<Longrightarrow> \<forall>el \<in> set stored. element_ok el \<Longrightarrow>
   distinct (map fst stored) \<Longrightarrow>
   \<forall>(name, el) \<in> set stored. \<forall>el'. pm_lookup els name = Some el' \<longrightarrow> compatible crc32 el el' \<Longrightarrow>
   \<exists>els'. pc_load_loop crc32 s els = Inr els' \<and> map fst (pm_nodes els') = map fst (pm_nodes els)
     \<and> (\<forall>x. pm_lookup els' x = map_option (restored (map_of stored x)) (pm_lookup els x))"
proof (induction stored arbitrary: s els)
  case Nil
  then obtain t where "tl_ReadVaruint brs_read s = Inr (Some 0, t)"
    using brs.rd_varuint [of s 0 "0 # 0 # 0 # rest"] by (auto simp: config_bytes_def leb128_small)
  then show ?case
    by (auto simp: pc_load_loop.simps [of crc32 s])
next
  case (Cons p stored)
  obtain name el where p: "p = (name, el)" by fastforce
  then obtain t els1 where one: "pc_load_loop crc32 s els = pc_load_loop crc32 t els1" "brs_ok t"
      "brs_avail t = config_bytes crc32 stored @ rest" "map fst (pm_nodes els1) = map fst (pm_nodes els)"
      "\<And>x. pm_lookup els1 x = (if x = name then map_option (restored (Some el)) (pm_lookup els name) else pm_lookup els x)"
    using load_element [of s crc32 name el "config_bytes crc32 stored @ rest" els] Cons.prems
    by (auto simp: config_bytes_def)
  have other: "x \<noteq> name" if "(x, el') \<in> set stored" for x el'
    using Cons.prems(4) p that by force
  have "\<exists>els'. pc_load_loop crc32 t els1 = Inr els' \<and> map fst (pm_nodes els') = map fst (pm_nodes els1)
      \<and> (\<forall>x. pm_lookup els' x = map_option (restored (map_of stored x)) (pm_lookup els1 x))"
    by (rule Cons.IH) (use Cons.prems one other in \<open>auto\<close>)
  moreover have "map_of stored name = None"
    using other by (force simp: map_of_eq_None_iff)
  ultimately show ?case
    using one p by auto
qed

section \<open>Answers\<close>

lemma overwrite_gap:
  "length b = k \<Longrightarrow> k + length d \<le> length z \<Longrightarrow>
   take (length h + k + length d) (overwrite (overwrite (h @ z) (length h + k) d) (length h) b) = h @ b @ d"
  by (simp add: overwrite_def)

lemma pc_Emit_bytes:
  assumes "\<And>s. bws_ok s \<Longrightarrow> work s = bws_write s d" and "length prefix + length name + 6 + length d \<le> n"
  shows "pc_Emit prefix name work n = Inr (prefix @ name @ [13, 10] @ le_bytes 4 (of_nat (length d) :: u32) @ d)"
proof -
  define head where "head = prefix @ name @ [13, 10]"
  define mem where "mem = head @ replicate (n - length head) (0 :: byte)"
  have n: "length head + 4 + length d \<le> n" "length mem = n"
    using assms(2) by (simp_all add: head_def mem_def)
  have e: "pc_Emit prefix name work n = sbind (bws_write (bws_init (replicate n 0)) head) (\<lambda>s.
     let size_position = bw_off s in
     sbind (work (bws_skip s 4)) (\<lambda>s.
     sbind (tl_WriteScalar bws_write 4 (bws_init (replicate 4 0)) (of_nat (bw_off s - (size_position + 4)) :: u32)) (\<lambda>t.
     if size_position + 4 > n then Inl BufferOverrun
     else Inr (take (bw_off s) (overwrite (bw_mem s) size_position (bw_mem t))))))"
    by (simp add: pc_Emit_def bws.wr_seq_more head_def)
  have w: "bws_write (bws_init (replicate n 0)) head = Inr \<lparr>bw_mem = mem, bw_off = length head\<rparr>"
    using n by (simp add: bws_write_def bws_init_def overwrite_def mem_def)
  have d: "work (bws_skip \<lparr>bw_mem = mem, bw_off = length head\<rparr> 4)
      = Inr \<lparr>bw_mem = overwrite mem (length head + 4) d, bw_off = length head + 4 + length d\<rparr>"
    using assms(1) n by (simp add: bws_ok_def bws_write_def bws_skip_def)
  have b: "bws_write (bws_init (replicate 4 0)) b = Inr \<lparr>bw_mem = b, bw_off = 4\<rparr>" if "length b = 4" for b
    using that by (simp add: bws_write_def bws_init_def overwrite_def)
  have "take (length head + 4 + length d) (overwrite (overwrite mem (length head + 4) d) (length head) b) = head @ b @ d"
    if "length b = 4" for b
    unfolding mem_def by (rule overwrite_gap) (use that n in \<open>simp_all add: mem_def\<close>)
  with n show ?thesis
    unfolding e w by (simp add: d b tl_WriteScalar_def Let_def) (simp add: head_def)
qed

text \<open>\<open>conf data\<close> and \<open>conf schema\<close> answer with the bytes of the archives behind their length.\<close>

lemma pc_Data_answer:
  assumes "pm_find (elements s) name = Some i" and "element_ok (node s i)"
    and "length name + 12 + length (data_bytes (h_item (serializable (snd (node s i))))) \<le> output_size s"
  shows "pc_Data name s = Inr ([WriteOut (ascii ''cdata '' @ name @ [13, 10] @
      le_bytes 4 (of_nat (length (data_bytes (h_item (serializable (snd (node s i)))))) :: u32) @
      data_bytes (h_item (serializable (snd (node s i))))) ThenRespond], s)"
proof -
  let ?h = "serializable (snd (node s i))"
  have "has_type (h_item ?h) (h_type ?h)"
    using assms(2) by (cases "node s i") simp
  then have "pc_Emit (ascii ''cdata '') name (h_WriteBinary bws_write ?h) (output_size s)
      = Inr (ascii ''cdata '' @ name @ [13, 10] @ le_bytes 4 (of_nat (length (data_bytes (h_item ?h))) :: u32) @ data_bytes (h_item ?h))"
    using assms(3) by (intro pc_Emit_bytes) (simp_all add: h_WriteBinary_def bws_obj.bw_Visit_bytes)
  with assms(1) show ?thesis by (simp add: pc_Data_def)
qed

lemma pc_Schema_answer:
  fixes s :: "'f persistent_config" and i :: nat
  defines "h \<equiv> serializable (snd (node s i))"
  assumes "pm_find (elements s) name = Some i" and "wf_type (h_type h)"
    and "length name + 14 + length (schema_bytes True (h_type h) (default_value (h_type h))) \<le> output_size s"
  shows "pc_Schema name s = Inr ([WriteOut (ascii ''cschema '' @ name @ [13, 10] @
      le_bytes 4 (of_nat (length (schema_bytes True (h_type h) (default_value (h_type h)))) :: u32) @
      schema_bytes True (h_type h) (default_value (h_type h))) ThenRespond], s)"
  using assms(2-) pc_Emit_bytes [of "h_WriteSchema bws_write h" "schema_bytes True (h_type h) (default_value (h_type h))"
      "ascii ''cschema ''" name "output_size s"]
  by (simp add: pc_Schema_def h_WriteSchema_def bws_obj.schema_writers_bytes default_has_type flip: h_def)

lemma length_fmt_nat: "n < 10 ^ Suc k \<Longrightarrow> length (fmt_nat n) \<le> Suc k"
proof (induction k arbitrary: n)
  case (Suc k)
  then have "n div 10 < 10 ^ Suc k" by (simp add: less_mult_imp_div_less mult.commute)
  with Suc.IH show ?case by (cases "n < 10") (simp_all add: fmt_nat_small fmt_nat_big)
qed (simp add: fmt_nat_small)

lemma pc_size_elements_length:
  "\<forall>el \<in> set els. element_ok el \<Longrightarrow>
   pc_size_elements els n = Inr (n + length (concat (map (element_bytes crc32) els)))"
proof (induction els arbitrary: n)
  case (Cons x els)
  obtain name el where x: "x = (name, el)" by fastforce
  with Cons show ?case
    by (simp add: size_ws.tl_WriteString_bytes size_write_def tl_WriteScalar_def size_WriteBinary kMaxStringSize_def add.assoc)
qed simp

text \<open>\<open>conf size\<close> prints the number of bytes that \<open>conf write\<close> programs.\<close>

lemma pc_Size_bytes:
  assumes "\<forall>el \<in> set (pm_nodes (elements s)). element_ok el"
    and "length (config_bytes crc32 (pm_nodes (elements s))) < 2 ^ 31" and "output_size s \<ge> 18"
  shows "pc_Size s = Inr ([pc_WriteMessage (fmt_nat (length (config_bytes crc32 (pm_nodes (elements s)))) @ [13, 10] @ ascii ''OK'' @ [13, 10])], s)"
proof -
  let ?n = "length (config_bytes crc32 (pm_nodes (elements s)))"
  have n: "pc_size_elements (pm_nodes (elements s)) 0 = Inr (?n - 4)" "4 \<le> ?n"
    using pc_size_elements_length [OF assms(1), of 0 crc32] by (simp_all add: config_bytes_def)
  have i: "sint (of_nat ?n :: u32) = int ?n"
    using assms(2) by (simp add: sint_uint uint_nat unat_of_nat take_bit_eq_mod signed_take_bit_int_eq_self of_nat_mod)
  have "length (fmt_nat ?n) \<le> 10"
    using length_fmt_nat [of ?n 9] assms(2) by simp
  with n i assms(3) show ?thesis
    by (simp add: pc_Size_def tl_WriteScalar_def size_write_def fmt_int_def Let_def)
qed

section \<open>Registration\<close>

interpretation config: unique_map "\<lambda>s. pm_lookup (elements s)"
  "\<lambda>s name (el :: config_element). pc_RegisterDetail name (serializable el) (ce_enumerate el) s"
proof unfold_locales
  fix s s' :: "'f persistent_config" and name x and el :: config_element
  assume "pc_RegisterDetail name (serializable el) (ce_enumerate el) s = Inr s'"
  then obtain i m where m: "pm_insert (elements s) name el = Inr ((i, True), m)" "s' = s\<lparr>elements := m\<rparr>"
    by (cases el) (auto simp: pc_RegisterDetail_def sbind_eq_Inr_iff)
  show "pm_lookup (elements s') x = (if x = name then Some el else pm_lookup (elements s) x)"
    and "pm_lookup (elements s) name = None"
    using m by (auto simp: pm_insert_new pm_lookup_map_of map_add_def split: option.splits)
qed

lemma pc_RegisterDetail_distinct:
  assumes "pc_RegisterDetail name h enum s = Inr s'" and "distinct (map fst (pm_nodes (elements s)))"
  shows "distinct (map fst (pm_nodes (elements s')))"
  using assms by (auto simp: pc_RegisterDetail_def pm_insert_new map_of_eq_None_iff)

interpretation stub: flash_interface StubFlash sf_locked "\<lambda>s. \<not> sf_locked s" "\<lambda>_ _. True"
  by unfold_locales (auto simp: StubFlash_def)

text \<open>
  C38: what \<open>conf write\<close> programs into any flash of the interface, \<open>conf load\<close>
  restores, also in a later run whose registered elements are others: an element with a stored
  element of its name and type gets the stored value, every other element keeps its value, and
  stored elements that nobody registered are passed over. All elements are told of the change. The
  flash must be large enough, the items of the later run must have no optional that is set, and
  two types that share a name must have different checksums.
\<close>

theorem config_write_load:
  assumes "flash_interface F idle unlocked erased" and "idle (pc_flash s)"
    and "distinct (map fst (pm_nodes (elements s)))" and "\<forall>el \<in> set (pm_nodes (elements s)). element_ok el"
    and "length (config_bytes crc32 (pm_nodes (elements s))) \<le> length (fl_memory F (pc_flash s))"
    and "\<forall>name el el'. pm_lookup (elements s) name = Some el \<longrightarrow> pm_lookup (elements s') name = Some el' \<longrightarrow> compatible crc32 el el'"
  shows "\<exists>fl els. pc_Write crc32 F s = Inr ([pc_WriteOK], s\<lparr>pc_flash := fl\<rparr>)
    \<and> pc_DoLoad crc32 F (s'\<lparr>pc_flash := fl\<rparr>) = Inr (map (\<lambda>(name, _). Updated name) (pm_nodes els), s'\<lparr>pc_flash := fl, elements := els\<rparr>)
    \<and> map fst (pm_nodes els) = map fst (pm_nodes (elements s'))
    \<and> (\<forall>name. pm_lookup els name = map_option (restored (pm_lookup (elements s) name)) (pm_lookup (elements s') name))"
proof -
  let ?st = "pm_nodes (elements s)"
  obtain fl where w: "pc_Write crc32 F s = Inr ([pc_WriteOK], s\<lparr>pc_flash := fl\<rparr>)"
      "take (length (config_bytes crc32 ?st)) (fl_memory F fl) = config_bytes crc32 ?st"
    using flash_interface.pc_Write_bytes [OF assms(1,2,4,5)] by blast
  have "brs_avail (brs_init (fl_memory F fl)) = config_bytes crc32 ?st @ drop (length (config_bytes crc32 ?st)) (fl_memory F fl)"
    by (metis append_take_drop_id brs_avail_init w(2))
  moreover have "\<forall>(name, el) \<in> set ?st. \<forall>el'. pm_lookup (elements s') name = Some el' \<longrightarrow> compatible crc32 el el'"
    using assms(3,6) by (auto simp: pm_lookup_map_of)
  ultimately obtain els where "pc_load_loop crc32 (brs_init (fl_memory F fl)) (elements s') = Inr els"
      "map fst (pm_nodes els) = map fst (pm_nodes (elements s'))"
      "\<forall>x. pm_lookup els x = map_option (restored (map_of ?st x)) (pm_lookup (elements s') x)"
    using load_all [OF brs_ok_init _ assms(4,3)] by blast
  then show ?thesis
    using w(1) by (intro exI [of _ fl] exI [of _ els]) (simp add: pc_DoLoad_def pc_updated_all_def pm_lookup_map_of)
qed

definition stored_gains :: "stub_flash persistent_config" where
  "stored_gains = (pc_init \<lparr>sf_buffer = replicate 64 0, sf_locked = True\<rparr> 40)
     \<lparr>elements := \<lparr>pm_nodes = [(ascii ''servo'', \<lparr>serializable = gains, ce_enumerate = True\<rparr>)], pm_max = 16\<rparr>\<rparr>"

definition fresh_gains :: "stub_flash persistent_config" where
  "fresh_gains = (pc_init \<lparr>sf_buffer = [], sf_locked = True\<rparr> 40)
     \<lparr>elements := \<lparr>pm_nodes = [(ascii ''servo'', \<lparr>serializable = h_SetDefault gains, ce_enumerate = True\<rparr>)], pm_max = 16\<rparr>\<rparr>"

theorem config_write_load_witness:
  "\<exists>fl els. pc_Write (\<lambda>_. 7) StubFlash stored_gains = Inr ([pc_WriteOK], stored_gains\<lparr>pc_flash := fl\<rparr>)
    \<and> pc_DoLoad (\<lambda>_. 7) StubFlash (fresh_gains\<lparr>pc_flash := fl\<rparr>) = Inr ([Updated (ascii ''servo'')], fresh_gains\<lparr>pc_flash := fl, elements := els\<rparr>)
    \<and> map_option serializable (pm_lookup els (ascii ''servo'')) = Some gains"
proof -
  let ?el = "\<lparr>serializable = gains, ce_enumerate = True\<rparr>"
  have ty: "h_type gains = gains_type" by (simp add: gains_def)
  have lk: "pm_lookup (elements stored_gains) x = (if x = ascii ''servo'' then Some ?el else None)"
    and lk': "pm_lookup (elements fresh_gains) x = (if x = ascii ''servo'' then Some (?el\<lparr>serializable := h_SetDefault gains\<rparr>) else None)" for x
    by (auto simp: stored_gains_def fresh_gains_def pm_lookup_map_of)
  have "\<exists>fl els. pc_Write (\<lambda>_. 7) StubFlash stored_gains = Inr ([pc_WriteOK], stored_gains\<lparr>pc_flash := fl\<rparr>)
    \<and> pc_DoLoad (\<lambda>_. 7) StubFlash (fresh_gains\<lparr>pc_flash := fl\<rparr>) = Inr (map (\<lambda>(name, _). Updated name) (pm_nodes els), fresh_gains\<lparr>pc_flash := fl, elements := els\<rparr>)
    \<and> map fst (pm_nodes els) = map fst (pm_nodes (elements fresh_gains))
    \<and> (\<forall>name. pm_lookup els name = map_option (restored (pm_lookup (elements stored_gains) name)) (pm_lookup (elements fresh_gains) name))"
  proof (rule config_write_load [OF stub.flash_interface_axioms])
    show "sf_locked (pc_flash stored_gains)" by (simp add: stored_gains_def pc_init_def)
    show "distinct (map fst (pm_nodes (elements stored_gains)))" by (simp add: stored_gains_def)
    show "\<forall>el \<in> set (pm_nodes (elements stored_gains)). element_ok el"
      using gains_typed ty by (simp add: stored_gains_def kMaxStringSize_def)
    show "length (config_bytes (\<lambda>_. 7) (pm_nodes (elements stored_gains))) \<le> length (fl_memory StubFlash (pc_flash stored_gains))"
      using gains_typed by (simp add: stored_gains_def pc_init_def StubFlash_def config_bytes_def string_bytes_def leb128_small)
    show "\<forall>name el el'. pm_lookup (elements stored_gains) name = Some el \<longrightarrow> pm_lookup (elements fresh_gains) name = Some el' \<longrightarrow>
        compatible (\<lambda>_. 7) el el'"
      using gains_typed ty by (auto simp: lk lk' compatible_def h_SetDefault_def default_has_type)
  qed
  then obtain fl els where r: "pc_Write (\<lambda>_. 7) StubFlash stored_gains = Inr ([pc_WriteOK], stored_gains\<lparr>pc_flash := fl\<rparr>)"
    "pc_DoLoad (\<lambda>_. 7) StubFlash (fresh_gains\<lparr>pc_flash := fl\<rparr>) = Inr (map (\<lambda>(name, _). Updated name) (pm_nodes els), fresh_gains\<lparr>pc_flash := fl, elements := els\<rparr>)"
    "map fst (pm_nodes els) = map fst (pm_nodes (elements fresh_gains))"
    "\<forall>name. pm_lookup els name = map_option (restored (pm_lookup (elements stored_gains) name)) (pm_lookup (elements fresh_gains) name)"
    by blast
  then have nm: "map (\<lambda>(name, _). Updated name) (pm_nodes els) = [Updated (ascii ''servo'')]"
    by (auto simp: fresh_gains_def map_eq_Cons_conv)
  have "map_option serializable (pm_lookup els (ascii ''servo'')) = Some gains"
    unfolding r(4) [rule_format] lk lk' by (simp add: restored_def h_SetDefault_def)
  with r(1,2) show ?thesis unfolding nm by blast
qed

end
