(* ===== verification/Telemetry_Manager.thy ===== *)
theory Telemetry_Manager
  imports Persistent_Config
begin

text \<open>
  The telemetry channels of the firmware, \<open>micro/telemetry_manager.cc\<close>: named structures that are
  sent when a command asks for them, when they change, or every so many milliseconds. The output
  is shared with the command line through an \<open>AsyncExclusive\<close>.

  A write is an output, with what is called when it completes; the completion is an event. There
  are two kinds of response: that of a command, and the one that gives the shared output back.
\<close>

section \<open>Definitions\<close>

definition kMinRateMs :: int where
  "kMinRateMs = 10"

definition kMaxElements :: nat where
  "kMaxElements = 16"

record tm_element =
  te_name :: "byte list"
  te_rate :: int
  te_next :: int
  te_to_send :: bool
  te_text :: bool
  te_base :: handler

datatype tm_response = ToCommand | ToRelease

datatype tm_then = TellResponse tm_response | TellListCallback | TellNextField

text \<open>The operations that wait for the output: sending an element, and those of other users.\<close>

datatype tm_op = SendElement nat | OtherUser nat

datatype tm_out = TmWrite "byte list" tm_then | TmRespond bool | TmStartOther nat

record telemetry_manager =
  tm_write_stream :: "tm_op async_exclusive"
  tm_elements :: "(byte list, tm_element) pool_map"
  current_response :: tm_response
  tm_output_size :: nat
  tm_list_index :: nat
  tm_enumerate_element :: nat
  tm_current_field :: u16
  outstanding_write :: bool
  write_release :: bool
  last_sent :: nat

definition tm_init :: "tm_op async_exclusive \<Rightarrow> nat \<Rightarrow> telemetry_manager" where
  "tm_init x n =
     \<lparr>tm_write_stream = x, tm_elements = pm_init kMaxElements, current_response = ToCommand, tm_output_size = n,
      tm_list_index = 0, tm_enumerate_element = 0, tm_current_field = 0, outstanding_write = False,
      write_release = False, last_sent = 0\<rparr>"

abbreviation tm_nodes :: "telemetry_manager \<Rightarrow> (byte list \<times> tm_element) list" where
  "tm_nodes s \<equiv> pm_nodes (tm_elements s)"

abbreviation tm_element_at :: "telemetry_manager \<Rightarrow> nat \<Rightarrow> tm_element" where
  "tm_element_at s i \<equiv> snd (tm_nodes s ! i)"

definition tm_set :: "nat \<Rightarrow> (tm_element \<Rightarrow> tm_element) \<Rightarrow> telemetry_manager \<Rightarrow> telemetry_manager" where
  "tm_set i f s =
     s\<lparr>tm_elements := (tm_elements s)\<lparr>pm_nodes := (tm_nodes s)[i := (fst (tm_nodes s ! i), f (tm_element_at s i))]\<rparr>\<rparr>"

definition tm_set_all :: "(tm_element \<Rightarrow> tm_element) \<Rightarrow> telemetry_manager \<Rightarrow> telemetry_manager" where
  "tm_set_all f s =
     s\<lparr>tm_elements := (tm_elements s)\<lparr>pm_nodes := map (\<lambda>(name, el). (name, f el)) (tm_nodes s)\<rparr>\<rparr>"

definition tm_RegisterDetail :: "byte list \<Rightarrow> handler \<Rightarrow> telemetry_manager \<Rightarrow> (nat \<times> telemetry_manager) res" where
  "tm_RegisterDetail name h s =
     sbind (pm_insert (tm_elements s) name
       \<lparr>te_name = name, te_rate = 0, te_next = 1, te_to_send = False, te_text = False, te_base = h\<rparr>) (\<lambda>((i, added), m).
     sbind (mj_assert added) (\<lambda>_. Inr (i, s\<lparr>tm_elements := m\<rparr>)))"

subsection \<open>Answers\<close>

abbreviation tm_step :: "telemetry_manager \<Rightarrow> tm_out list \<Rightarrow> (tm_out list \<times> telemetry_manager) res" where
  "tm_step s out \<equiv> Inr (out, s)"

definition tm_WriteMessage :: "byte list \<Rightarrow> tm_response \<Rightarrow> tm_out" where
  "tm_WriteMessage message response = TmWrite message (TellResponse response)"

definition tm_WriteOK :: "tm_response \<Rightarrow> tm_out" where
  "tm_WriteOK response = tm_WriteMessage (ascii ''OK'' @ [13, 10]) response"

definition tm_error :: "string \<Rightarrow> tm_out" where
  "tm_error msg = tm_WriteMessage (ascii ''ERR '' @ ascii msg @ [13, 10]) ToCommand"

definition tm_evaluate :: "text_env \<Rightarrow> telemetry_manager \<Rightarrow> tm_out option res" where
  "tm_evaluate env s =
     (let el = tm_element_at s (tm_enumerate_element s) in
      sbind (h_evaluate env (tm_output_size s) (te_name el) (te_base el) (tm_current_field s)) (\<lambda>line.
      Inr (map_option (\<lambda>line. TmWrite line TellNextField) line)))"

definition tm_Enumerate :: "text_env \<Rightarrow> nat \<Rightarrow> tm_response \<Rightarrow> telemetry_manager \<Rightarrow> (tm_out list \<times> telemetry_manager) res" where
  "tm_Enumerate env i response s =
     (let s = s\<lparr>current_response := response, tm_enumerate_element := i, tm_current_field := 0\<rparr> in
      sbind (tm_evaluate env s) (\<lambda>out. tm_step s (case out of None \<Rightarrow> [] | Some w \<Rightarrow> [w])))"

text \<open>The completion of the write of a field; the callback of the enumeration ignores the error.\<close>

definition tm_field_done :: "text_env \<Rightarrow> bool \<Rightarrow> telemetry_manager \<Rightarrow> (tm_out list \<times> telemetry_manager) res" where
  "tm_field_done env error s =
     (if error then tm_step s [tm_WriteOK (current_response s)]
      else let s = s\<lparr>tm_current_field := tm_current_field s + 1\<rparr> in
           sbind (tm_evaluate env s) (\<lambda>out.
           tm_step s [case out of Some w \<Rightarrow> w | None \<Rightarrow> tm_WriteOK (current_response s)]))"

text \<open>\<open>Emit\<close> is, line for line, that of the persistent configuration.\<close>

definition tm_Emit :: "byte list \<Rightarrow> tm_element \<Rightarrow> (bws \<Rightarrow> bws res) \<Rightarrow> tm_response \<Rightarrow> telemetry_manager \<Rightarrow>
  (tm_out list \<times> telemetry_manager) res" where
  "tm_Emit prefix el work response s =
     sbind (pc_Emit prefix (te_name el) work (tm_output_size s)) (\<lambda>d. tm_step s [TmWrite d (TellResponse response)])"

definition tm_EmitData :: "text_env \<Rightarrow> nat \<Rightarrow> tm_response \<Rightarrow> telemetry_manager \<Rightarrow> (tm_out list \<times> telemetry_manager) res" where
  "tm_EmitData env i response s =
     (let el = tm_element_at s i in
      if te_text el then tm_Enumerate env i response s
      else tm_Emit (ascii ''emit '') el (h_WriteBinary bws_write (te_base el)) response s)"

subsection \<open>Sending\<close>

text \<open>The operation that is given to the output.\<close>

definition tm_operation :: "text_env \<Rightarrow> tm_op option \<Rightarrow> telemetry_manager \<Rightarrow> (tm_out list \<times> telemetry_manager) res" where
  "tm_operation env started s =
     (case started of
        None \<Rightarrow> tm_step s []
      | Some (OtherUser k) \<Rightarrow> tm_step s [TmStartOther k]
      | Some (SendElement i) \<Rightarrow> tm_EmitData env i ToRelease (s\<lparr>write_release := True\<rparr>))"

text \<open>The first element behind the last one that was sent that is to be sent.\<close>

fun tm_find_send :: "telemetry_manager \<Rightarrow> nat \<Rightarrow> nat \<Rightarrow> nat option" where
  "tm_find_send s i 0 = None"
| "tm_find_send s i (Suc k) =
     (let to_check = (i + last_sent s + 1) mod length (tm_nodes s) in
      if te_to_send (tm_element_at s to_check) then Some to_check else tm_find_send s (i + 1) k)"

definition tm_MaybeStartSend :: "text_env \<Rightarrow> telemetry_manager \<Rightarrow> (tm_out list \<times> telemetry_manager) res" where
  "tm_MaybeStartSend env s =
     (if outstanding_write s then tm_step s []
      else case tm_find_send s 0 (length (tm_nodes s)) of
             None \<Rightarrow> tm_step s []
           | Some to_check \<Rightarrow>
               let s = (tm_set to_check (\<lambda>el. el\<lparr>te_to_send := False\<rparr>) s)\<lparr>outstanding_write := True\<rparr> in
               sbind (ex_AsyncStart (SendElement to_check) (tm_write_stream s)) (\<lambda>(started, x).
               sbind (tm_operation env started (s\<lparr>tm_write_stream := x\<rparr>)) (\<lambda>(out, s).
               tm_step (s\<lparr>last_sent := to_check\<rparr>) out)))"

definition tm_UpdateItem :: "text_env \<Rightarrow> nat \<Rightarrow> telemetry_manager \<Rightarrow> (tm_out list \<times> telemetry_manager) res" where
  "tm_UpdateItem env i s =
     (if te_rate (tm_element_at s i) = 1
      then tm_MaybeStartSend env (tm_set i (\<lambda>el. el\<lparr>te_to_send := True\<rparr>) s)
      else tm_step s [])"

definition tm_tick :: "tm_element \<Rightarrow> tm_element" where
  "tm_tick el =
     (if te_rate el > 1 \<and> te_next el > 0
      then let el = el\<lparr>te_next := te_next el - 1\<rparr> in
           if te_next el = 0 then el\<lparr>te_to_send := True, te_next := te_rate el\<rparr> else el
      else el)"

definition tm_PollMillisecond :: "text_env \<Rightarrow> telemetry_manager \<Rightarrow> (tm_out list \<times> telemetry_manager) res" where
  "tm_PollMillisecond env s = tm_MaybeStartSend env (tm_set_all tm_tick s)"

text \<open>
  The callbacks of the responses. The one of a send clears the flag and gives the output back,
  which starts an operation that waits for it.
\<close>

definition tm_respond :: "text_env \<Rightarrow> tm_response \<Rightarrow> bool \<Rightarrow> telemetry_manager \<Rightarrow> (tm_out list \<times> telemetry_manager) res" where
  "tm_respond env response error s =
     (case response of
        ToCommand \<Rightarrow> tm_step s [TmRespond error]
      | ToRelease \<Rightarrow>
          if \<not> write_release s then Inl NullDeref
          else sbind (ex_release (tm_write_stream s)) (\<lambda>(started, x).
               tm_operation env started (s\<lparr>outstanding_write := False, write_release := False, tm_write_stream := x\<rparr>)))"

subsection \<open>Commands\<close>

definition tm_Get :: "text_env \<Rightarrow> byte list \<Rightarrow> telemetry_manager \<Rightarrow> (tm_out list \<times> telemetry_manager) res" where
  "tm_Get env name s =
     (case pm_find (tm_elements s) name of
        None \<Rightarrow> tm_step s [tm_error ''unknown name'']
      | Some i \<Rightarrow> tm_EmitData env i ToCommand s)"

definition tm_ListCallback :: "text_env \<Rightarrow> bool \<Rightarrow> telemetry_manager \<Rightarrow> (tm_out list \<times> telemetry_manager) res" where
  "tm_ListCallback env error s =
     (if error then tm_respond env (current_response s) True s
      else if tm_list_index s \<ge> length (tm_nodes s) then tm_step s [tm_WriteOK (current_response s)]
      else let name = te_name (tm_element_at s (tm_list_index s)) in
           if length name + 2 > tm_output_size s then Inl BufferOverrun
           else tm_step (s\<lparr>tm_list_index := tm_list_index s + 1\<rparr>) [TmWrite (name @ [13, 10]) TellListCallback])"

definition tm_List :: "text_env \<Rightarrow> telemetry_manager \<Rightarrow> (tm_out list \<times> telemetry_manager) res" where
  "tm_List env s = tm_ListCallback env False (s\<lparr>current_response := ToCommand, tm_list_index := 0\<rparr>)"

definition tm_Schema :: "byte list \<Rightarrow> telemetry_manager \<Rightarrow> (tm_out list \<times> telemetry_manager) res" where
  "tm_Schema name s =
     (case pm_find (tm_elements s) name of
        None \<Rightarrow> tm_step s [tm_error ''unknown name'']
      | Some i \<Rightarrow> let el = tm_element_at s i in tm_Emit (ascii ''schema '') el (h_WriteSchema bws_write (te_base el)) ToCommand s)"

text \<open>A \<open>long\<close> of 64 bits, and its conversion to \<open>int\<close>.\<close>

definition to_int :: "int \<Rightarrow> int" where
  "to_int i = sint (of_int i :: u32)"

definition tm_Rate :: "byte list \<Rightarrow> telemetry_manager \<Rightarrow> (tm_out list \<times> telemetry_manager) res" where
  "tm_Rate command s =
     (case tk_next (ascii '' '') command of
        (name, rest) \<Rightarrow>
      case tk_next (ascii '' '') rest of
        (rate_str, _) \<Rightarrow>
          (case pm_find (tm_elements s) name of
             None \<Rightarrow> tm_step s [tm_error ''unknown name'']
           | Some i \<Rightarrow>
               sbind (mj_assert (length rate_str < 23)) (\<lambda>_.
               let rate = fst (strtoll rate_str) in
               tm_step (tm_set i (\<lambda>el.
                   if rate = 0 then el\<lparr>te_rate := to_int rate, te_next := 1\<rparr>
                   else if rate < kMinRateMs then el\<lparr>te_rate := 1, te_next := 1\<rparr>
                   else el\<lparr>te_rate := to_int rate, te_next := to_int rate\<rparr>) s) [tm_WriteOK ToCommand])))"

definition tm_Format :: "byte list \<Rightarrow> telemetry_manager \<Rightarrow> (tm_out list \<times> telemetry_manager) res" where
  "tm_Format command s =
     (case tk_next (ascii '' '') command of
        (name, rest) \<Rightarrow>
      case tk_next (ascii '' '') rest of
        (format_str, _) \<Rightarrow>
          (case pm_find (tm_elements s) name of
             None \<Rightarrow> tm_step s [tm_error ''unknown name'']
           | Some i \<Rightarrow>
               sbind (mj_assert (length format_str < 4)) (\<lambda>_.
               tm_step (tm_set i (\<lambda>el. el\<lparr>te_text := fst (strtoll format_str) \<noteq> 0\<rparr>) s) [tm_WriteOK ToCommand])))"

definition tm_Stop :: "telemetry_manager \<Rightarrow> (tm_out list \<times> telemetry_manager) res" where
  "tm_Stop s = tm_step (tm_set_all (\<lambda>el. el\<lparr>te_to_send := False, te_rate := 0\<rparr>) s) [tm_WriteOK ToCommand]"

definition tm_Text :: "telemetry_manager \<Rightarrow> (tm_out list \<times> telemetry_manager) res" where
  "tm_Text s = tm_step (tm_set_all (\<lambda>el. el\<lparr>te_text := True\<rparr>) s) [tm_WriteOK ToCommand]"

definition tm_Command :: "text_env \<Rightarrow> byte list \<Rightarrow> telemetry_manager \<Rightarrow> (tm_out list \<times> telemetry_manager) res" where
  "tm_Command env command s =
     (case tk_next (ascii '' '') command of
        (cmd, rest) \<Rightarrow>
          if cmd = ascii ''get'' then tm_Get env rest s
          else if cmd = ascii ''list'' then tm_List env s
          else if cmd = ascii ''schema'' then tm_Schema rest s
          else if cmd = ascii ''rate'' then tm_Rate rest s
          else if cmd = ascii ''fmt'' then tm_Format rest s
          else if cmd = ascii ''stop'' then tm_Stop s
          else if cmd = ascii ''text'' then tm_Text s
          else tm_step s [tm_error ''unknown subcommand''])"

definition tm_write_done :: "text_env \<Rightarrow> tm_then \<Rightarrow> bool \<Rightarrow> telemetry_manager \<Rightarrow> (tm_out list \<times> telemetry_manager) res" where
  "tm_write_done env k error s =
     (case k of
        TellResponse r \<Rightarrow> tm_respond env r error s
      | TellListCallback \<Rightarrow> tm_ListCallback env error s
      | TellNextField \<Rightarrow> tm_field_done env error s)"

subsection \<open>Events\<close>

text \<open>
  All that can happen: the calls of the application, commands, completed writes, and other users
  of the shared output that ask for it and give it back.
\<close>

datatype tm_event = Millisecond | ItemUpdated nat | Received "byte list" | WriteDone tm_then bool | OtherStart nat | OtherRelease

definition tm_handle :: "text_env \<Rightarrow> tm_event \<Rightarrow> telemetry_manager \<Rightarrow> (tm_out list \<times> telemetry_manager) res" where
  "tm_handle env e s =
     (case e of
        Millisecond \<Rightarrow> tm_PollMillisecond env s
      | ItemUpdated i \<Rightarrow> tm_UpdateItem env i s
      | Received command \<Rightarrow> tm_Command env command s
      | WriteDone k error \<Rightarrow> tm_write_done env k error s
      | OtherStart k \<Rightarrow>
          sbind (ex_AsyncStart (OtherUser k) (tm_write_stream s)) (\<lambda>(started, x). tm_operation env started (s\<lparr>tm_write_stream := x\<rparr>))
      | OtherRelease \<Rightarrow>
          sbind (ex_release (tm_write_stream s)) (\<lambda>(started, x). tm_operation env started (s\<lparr>tm_write_stream := x\<rparr>)))"

text \<open>
  The manager with the writes that the stream has not completed. A write completes once; the
  shared output is given back by the user that holds it, when nothing is being written; and a
  command comes from the command manager, which is another user and holds the output meanwhile.
\<close>

type_synonym tm_system = "telemetry_manager \<times> tm_then list"

definition tm_writes :: "tm_out list \<Rightarrow> tm_then list" where
  "tm_writes out = concat (map (\<lambda>x. case x of TmWrite d k \<Rightarrow> [k] | _ \<Rightarrow> []) out)"

definition others_turn :: "tm_system \<Rightarrow> bool" where
  "others_turn x \<longleftrightarrow> ex_outstanding (tm_write_stream (fst x)) \<and> \<not> write_release (fst x) \<and> snd x = []"

fun tm_enabled :: "tm_event \<Rightarrow> tm_system \<Rightarrow> bool" where
  "tm_enabled Millisecond x = True"
| "tm_enabled (ItemUpdated i) x = (i < length (tm_nodes (fst x)))"
| "tm_enabled (Received command) x = others_turn x"
| "tm_enabled (WriteDone k error) x = (k \<in> set (snd x))"
| "tm_enabled (OtherStart k) x = True"
| "tm_enabled OtherRelease x = others_turn x"

definition tm_event_step :: "text_env \<Rightarrow> tm_event \<Rightarrow> tm_system \<Rightarrow> (tm_out list \<times> tm_system) res" where
  "tm_event_step env e x =
     sbind (tm_handle env e (fst x)) (\<lambda>(out, t).
     Inr (out, t, (case e of WriteDone k error \<Rightarrow> remove1 k (snd x) | _ \<Rightarrow> snd x) @ tm_writes out))"

inductive tm_reach :: "text_env \<Rightarrow> tm_system \<Rightarrow> bool" for env where
  boot: "tm_reach env ((tm_init (ex_init k) n)\<lparr>tm_elements := m\<rparr>, [])"
| event: "tm_reach env x \<Longrightarrow> tm_enabled e x \<Longrightarrow> tm_event_step env e x = Inr (out, y) \<Longrightarrow> tm_reach env y"

text \<open>A run without \<open>tel stop\<close>, and the elements whose sending began in it.\<close>

definition is_stop :: "tm_event \<Rightarrow> bool" where
  "is_stop e \<longleftrightarrow> (\<exists>command. e = Received command \<and> fst (tk_next (ascii '' '') command) = ascii ''stop'')"

inductive tm_run :: "text_env \<Rightarrow> tm_system \<Rightarrow> nat list \<Rightarrow> tm_system \<Rightarrow> bool" for env x where
  start: "tm_run env x [] x"
| event: "tm_run env x sent y \<Longrightarrow> tm_enabled e y \<Longrightarrow> tm_event_step env e y = Inr (out, z) \<Longrightarrow> \<not> is_stop e \<Longrightarrow>
    tm_run env x (sent @ (if \<not> outstanding_write (fst y) \<and> outstanding_write (fst z) then [last_sent (fst z)] else [])) z"

text \<open>
  What is outstanding comes to its end: a write completes; with no write, the user that holds the
  output gives it back; and when no one holds it, the next millisecond comes.
\<close>

definition tm_next_event :: "tm_system \<Rightarrow> tm_event" where
  "tm_next_event x =
     (case snd x of
        k # _ \<Rightarrow> WriteDone k False
      | [] \<Rightarrow> if ex_outstanding (tm_write_stream (fst x)) then OtherRelease else Millisecond)"

fun tm_advance :: "text_env \<Rightarrow> nat \<Rightarrow> tm_system \<Rightarrow> (tm_out list \<times> tm_system) res" where
  "tm_advance env 0 x = Inr ([], x)"
| "tm_advance env (Suc m) x =
     sbind (tm_event_step env (tm_next_event x) x) (\<lambda>(out, y).
     sbind (tm_advance env m y) (\<lambda>(outs, z). Inr (out @ outs, z)))"

section \<open>Steps that send nothing\<close>

definition kept :: "telemetry_manager \<Rightarrow> telemetry_manager \<Rightarrow> bool" where
  "kept s t \<longleftrightarrow>
     last_sent t = last_sent s \<and> length (tm_nodes t) = length (tm_nodes s) \<and> (outstanding_write t \<longrightarrow> outstanding_write s) \<and>
     (\<forall>i < length (tm_nodes s). te_to_send (tm_element_at s i) \<longrightarrow> te_to_send (tm_element_at t i))"

lemma kept_refl [simp]: "kept s s"
  by (simp add: kept_def)

lemma kept_trans: "kept s t \<Longrightarrow> kept t u \<Longrightarrow> kept s u"
  by (simp add: kept_def)

lemma kept_plain:
  "tm_elements t = tm_elements s \<Longrightarrow> last_sent t = last_sent s \<Longrightarrow> outstanding_write t = outstanding_write s \<Longrightarrow> kept s t"
  by (simp add: kept_def)

lemma tm_set_at:
  "j < length (tm_nodes s) \<Longrightarrow> tm_element_at (tm_set i f s) j = (if j = i then f (tm_element_at s j) else tm_element_at s j)"
  by (simp add: tm_set_def nth_list_update)

lemma length_tm_set [simp]: "length (tm_nodes (tm_set i f s)) = length (tm_nodes s)"
  by (simp add: tm_set_def)

lemma tm_set_flags [simp]:
  "last_sent (tm_set i f s) = last_sent s" "outstanding_write (tm_set i f s) = outstanding_write s"
  by (simp_all add: tm_set_def)

lemma kept_set: "(\<And>el. te_to_send el \<Longrightarrow> te_to_send (f el)) \<Longrightarrow> kept s (tm_set i f s)"
  by (simp add: kept_def tm_set_at)

lemma kept_set_all: "(\<And>el. te_to_send el \<Longrightarrow> te_to_send (f el)) \<Longrightarrow> kept s (tm_set_all f s)"
  by (auto simp: kept_def tm_set_all_def case_prod_beta')

definition steps_to :: "(telemetry_manager \<Rightarrow> bool) \<Rightarrow> (tm_out list \<times> telemetry_manager) res \<Rightarrow> bool" where
  "steps_to P r \<longleftrightarrow> (\<forall>out t. r = Inr (out, t) \<longrightarrow> P t)"

lemma steps_to_simps [simp]: "steps_to P (Inl e)" "steps_to P (Inr (out, t)) \<longleftrightarrow> P t"
  by (simp_all add: steps_to_def)

lemma steps_to_sbind: "(\<And>x. r = Inr x \<Longrightarrow> steps_to P (f x)) \<Longrightarrow> steps_to P (sbind r f)"
  by (cases r) simp_all

lemma steps_to_mono: "steps_to P r \<Longrightarrow> (\<And>t. P t \<Longrightarrow> Q t) \<Longrightarrow> steps_to Q r"
  by (auto simp: steps_to_def)

text \<open>What an operation that touches neither the elements nor the flags does.\<close>

definition untouched :: "telemetry_manager \<Rightarrow> telemetry_manager \<Rightarrow> bool" where
  "untouched s t \<longleftrightarrow>
     tm_elements t = tm_elements s \<and> last_sent t = last_sent s \<and> outstanding_write t = outstanding_write s"

lemma tm_EmitData_untouched: "steps_to (untouched s) (tm_EmitData env i r s)"
  by (auto simp: tm_EmitData_def tm_Enumerate_def tm_Emit_def untouched_def Let_def intro!: steps_to_sbind split: option.splits)

lemma tm_operation_untouched: "steps_to (untouched s) (tm_operation env started s)"
  by (auto simp: tm_operation_def untouched_def split: option.splits tm_op.splits
      intro!: steps_to_mono [OF tm_EmitData_untouched])

lemma untouched_kept: "untouched s t \<Longrightarrow> kept s t"
  by (simp add: untouched_def kept_plain)

lemma tm_respond_kept: "steps_to (kept s) (tm_respond env r error s)"
  by (auto simp: tm_respond_def untouched_def kept_def split: tm_response.splits
      intro!: steps_to_sbind steps_to_mono [OF tm_operation_untouched])

lemma tm_ListCallback_kept: "steps_to (kept s) (tm_ListCallback env error s)"
  by (auto simp: tm_ListCallback_def Let_def tm_respond_kept intro: kept_plain)

lemma tm_write_done_kept: "steps_to (kept s) (tm_write_done env k error s)"
  by (auto simp: tm_write_done_def tm_respond_kept tm_ListCallback_kept tm_field_done_def Let_def
      split: tm_then.splits intro!: steps_to_sbind kept_plain)

lemma tm_Command_kept:
  assumes "fst (tk_next (ascii '' '') command) \<noteq> ascii ''stop''"
  shows "steps_to (kept s) (tm_Command env command s)"
proof -
  have "steps_to (kept s) (tm_Get env name s)" for name
    by (auto simp: tm_Get_def split: option.splits intro!: steps_to_mono [OF tm_EmitData_untouched] untouched_kept)
  moreover have "steps_to (kept s) (tm_List env s)"
    by (auto simp: tm_List_def intro!: steps_to_mono [OF tm_ListCallback_kept] simp: kept_def)
  moreover have "steps_to (kept s) (tm_Schema name s)" for name
    by (auto simp: tm_Schema_def tm_Emit_def Let_def split: option.splits intro!: steps_to_sbind)
  moreover have "steps_to (kept s) (tm_Rate c s)" "steps_to (kept s) (tm_Format c s)" for c
    by (auto simp: tm_Rate_def tm_Format_def Let_def split: option.splits prod.splits intro!: steps_to_sbind kept_set)
  moreover have "steps_to (kept s) (tm_Text s)"
    by (auto simp: tm_Text_def intro!: kept_set_all)
  ultimately show ?thesis
    using assms by (cases "tk_next (ascii '' '') command") (simp add: tm_Command_def)
qed

section \<open>The round\<close>

text \<open>How many elements are looked at before \<open>i\<close>.\<close>

definition gap :: "telemetry_manager \<Rightarrow> nat \<Rightarrow> nat" where
  "gap s i = (i + (length (tm_nodes s) - Suc (last_sent s) mod length (tm_nodes s))) mod length (tm_nodes s)"

lemma gap_less: "i < length (tm_nodes s) \<Longrightarrow> gap s i < length (tm_nodes s)"
  unfolding gap_def by (rule mod_less_divisor) linarith

lemma gap_unique:
  assumes "j < length (tm_nodes s)" and "(j + last_sent s + 1) mod length (tm_nodes s) = i"
  shows "gap s i = j"
proof -
  let ?n = "length (tm_nodes s)" and ?l = "Suc (last_sent s) mod length (tm_nodes s)"
  have "0 < ?n" using assms(1) by linarith
  then have n: "?l < ?n" by (rule mod_less_divisor)
  have "gap s i = ((j + Suc (last_sent s)) mod ?n + (?n - ?l)) mod ?n"
    using assms(2) by (simp add: gap_def)
  also have "\<dots> = ((j + ?l) mod ?n + (?n - ?l)) mod ?n"
    by (simp only: mod_add_right_eq)
  also have "\<dots> = (j + ?l + (?n - ?l)) mod ?n"
    by (rule mod_add_left_eq)
  also have "\<dots> = j" using n assms(1) by simp
  finally show ?thesis .
qed

lemma gap_place:
  assumes "i < length (tm_nodes s)"
  shows "(gap s i + last_sent s + 1) mod length (tm_nodes s) = i"
proof -
  let ?n = "length (tm_nodes s)" and ?l = "Suc (last_sent s) mod length (tm_nodes s)"
  have "0 < ?n" using assms by linarith
  then have n: "?l < ?n" by (rule mod_less_divisor)
  have "(gap s i + Suc (last_sent s)) mod ?n = (i + (?n - ?l) + Suc (last_sent s)) mod ?n"
    unfolding gap_def by (rule mod_add_left_eq)
  also have "\<dots> = (i + (?n - ?l) + ?l) mod ?n"
    by (rule mod_add_right_eq [symmetric])
  also have "\<dots> = i" using assms n by simp
  finally show ?thesis by simp
qed

lemma tm_find_send_Some:
  "tm_find_send s j k = Some c \<Longrightarrow>
   \<exists>m. j \<le> m \<and> m < j + k \<and> c = (m + last_sent s + 1) mod length (tm_nodes s) \<and> te_to_send (tm_element_at s c)
     \<and> (\<forall>i. j \<le> i \<longrightarrow> i < m \<longrightarrow> \<not> te_to_send (tm_element_at s ((i + last_sent s + 1) mod length (tm_nodes s))))"
proof (induction k arbitrary: j)
  case (Suc k)
  show ?case
  proof (cases "te_to_send (tm_element_at s ((j + last_sent s + 1) mod length (tm_nodes s)))")
    case True
    with Suc.prems show ?thesis by (intro exI [of _ j]) auto
  next
    case False
    with Suc.prems have "tm_find_send s (j + 1) k = Some c" by simp
    from Suc.IH [OF this] obtain m where "Suc j \<le> m" "m < Suc j + k" "c = (m + last_sent s + 1) mod length (tm_nodes s)"
        "te_to_send (tm_element_at s c)"
        "\<forall>i. Suc j \<le> i \<longrightarrow> i < m \<longrightarrow> \<not> te_to_send (tm_element_at s ((i + last_sent s + 1) mod length (tm_nodes s)))"
      by auto
    moreover from this(5) False have "\<not> te_to_send (tm_element_at s ((i + last_sent s + 1) mod length (tm_nodes s)))"
      if "j \<le> i" "i < m" for i
      using that by (cases "i = j") auto
    ultimately show ?thesis by (intro exI [of _ m]) auto
  qed
qed simp

lemma tm_find_send_None:
  "tm_find_send s j k = None \<Longrightarrow> j \<le> i \<Longrightarrow> i < j + k \<Longrightarrow>
   \<not> te_to_send (tm_element_at s ((i + last_sent s + 1) mod length (tm_nodes s)))"
proof (induction k arbitrary: j)
  case (Suc k)
  then show ?case by (cases "i = j") (auto simp: Let_def split: if_splits)
qed simp

text \<open>What \<open>MaybeStartSend\<close> does: nothing, or it begins to send the next element that waits.\<close>

definition sends_next :: "telemetry_manager \<Rightarrow> telemetry_manager \<Rightarrow> bool" where
  "sends_next s t \<longleftrightarrow>
     \<not> outstanding_write s \<and> outstanding_write t \<and> length (tm_nodes t) = length (tm_nodes s) \<and>
     (\<forall>i < length (tm_nodes s). te_to_send (tm_element_at s i) \<longrightarrow>
        i = last_sent t \<or> te_to_send (tm_element_at t i) \<and> gap t i < gap s i)"

lemma sends_nextI:
  assumes "m < length (tm_nodes s)" and "last_sent t = (m + last_sent s + 1) mod length (tm_nodes s)"
    and "\<And>i. i < m \<Longrightarrow> \<not> te_to_send (tm_element_at s ((i + last_sent s + 1) mod length (tm_nodes s)))"
    and "length (tm_nodes t) = length (tm_nodes s)" and "i < length (tm_nodes s)" and "te_to_send (tm_element_at s i)"
    and "i \<noteq> last_sent t"
  shows "gap t i < gap s i"
proof -
  let ?n = "length (tm_nodes s)"
  have place: "(gap s i + last_sent s + 1) mod ?n = i" and less: "gap s i < ?n"
    using assms(5) by (rule gap_place, rule gap_less)
  have "\<not> gap s i < m" using assms(3) [of "gap s i"] place assms(6) by auto
  moreover have "gap s i \<noteq> m" using place assms(2,7) by auto
  ultimately have m: "m < gap s i" by simp
  have "(gap s i - Suc m + last_sent t + 1) mod ?n = (gap s i - Suc m + 1 + (m + last_sent s + 1) mod ?n) mod ?n"
    using assms(2) by (simp add: add.commute add.left_commute)
  also have "\<dots> = (gap s i - Suc m + 1 + (m + last_sent s + 1)) mod ?n"
    by (rule mod_add_right_eq)
  also have "gap s i - Suc m + 1 + (m + last_sent s + 1) = gap s i + last_sent s + 1"
    using m by simp
  finally have "gap t i = gap s i - Suc m"
    using gap_unique [of "gap s i - Suc m" t i] less assms(4) place by simp
  with m show ?thesis by simp
qed

lemma tm_MaybeStartSend_sends:
  assumes "tm_MaybeStartSend env s = Inr (out, t)" and "\<not> outstanding_write s"
  shows "sends_next s t \<or> t = s \<and> (\<forall>i < length (tm_nodes s). \<not> te_to_send (tm_element_at s i))"
proof (cases "tm_find_send s 0 (length (tm_nodes s))")
  case None
  have "\<not> te_to_send (tm_element_at s i)" if "i < length (tm_nodes s)" for i
    using tm_find_send_None [OF None, of "gap s i"] gap_less [OF that] gap_place [OF that] by simp
  with assms None show ?thesis by (simp add: tm_MaybeStartSend_def)
next
  case (Some c)
  let ?s = "(tm_set c (\<lambda>el. el\<lparr>te_to_send := False\<rparr>) s)\<lparr>outstanding_write := True\<rparr>"
  obtain started x u where u: "tm_operation env started (?s\<lparr>tm_write_stream := x\<rparr>) = Inr (out, u)" "t = u\<lparr>last_sent := c\<rparr>"
    using assms Some by (auto simp: tm_MaybeStartSend_def Let_def split: prod.splits)
  then have "untouched (?s\<lparr>tm_write_stream := x\<rparr>) u"
    using tm_operation_untouched [of "?s\<lparr>tm_write_stream := x\<rparr>" env started] by simp
  with u(2) have t: "tm_elements t = tm_elements ?s" "last_sent t = c" "outstanding_write t"
    by (simp_all add: untouched_def)
  obtain m where m: "m < length (tm_nodes s)" "c = (m + last_sent s + 1) mod length (tm_nodes s)"
      "\<And>i. i < m \<Longrightarrow> \<not> te_to_send (tm_element_at s ((i + last_sent s + 1) mod length (tm_nodes s)))"
    using tm_find_send_Some [OF Some] by auto
  have "sends_next s t"
    unfolding sends_next_def
  proof (intro conjI allI impI)
    fix i
    assume i: "i < length (tm_nodes s)" "te_to_send (tm_element_at s i)"
    show "i = last_sent t \<or> te_to_send (tm_element_at t i) \<and> gap t i < gap s i"
      using sends_nextI [OF m(1) _ m(3) _ i, of t] m(2) t i by (auto simp: tm_set_at)
  qed (use assms(2) t in simp_all)
  then show ?thesis ..
qed

lemma tm_start_after:
  assumes "kept s u" and "outstanding_write u = outstanding_write s" and "tm_MaybeStartSend env u = Inr (out, t)"
  shows "kept s t \<or> sends_next s t"
proof (cases "outstanding_write u")
  case True
  with assms show ?thesis by (simp add: tm_MaybeStartSend_def)
next
  case False
  from tm_MaybeStartSend_sends [OF assms(3) False] assms(1,2) show ?thesis
    by (auto simp: sends_next_def kept_def gap_def)
qed

lemma kept_tick: "kept s (tm_set_all tm_tick s)"
  by (rule kept_set_all) (auto simp: tm_tick_def Let_def)

lemma tm_set_all_flags [simp]:
  "outstanding_write (tm_set_all f s) = outstanding_write s" "last_sent (tm_set_all f s) = last_sent s"
  by (simp_all add: tm_set_all_def)

lemma tm_other_kept:
  "steps_to (kept s) (tm_operation env started (s\<lparr>tm_write_stream := x\<rparr>))"
  by (rule steps_to_mono [OF tm_operation_untouched]) (simp add: untouched_def kept_plain)

lemma tm_handle_cases:
  assumes "tm_handle env e s = Inr (out, t)"
    and "\<not> is_stop e"
  shows "kept s t \<or> sends_next s t"
proof (cases e)
  case Millisecond
  with assms(1) tm_start_after [OF kept_tick] show ?thesis by (simp add: tm_handle_def tm_PollMillisecond_def)
next
  case (ItemUpdated i)
  with assms(1) tm_start_after [OF kept_set [of "\<lambda>el. el\<lparr>te_to_send := True\<rparr>" s i]] show ?thesis
    by (auto simp: tm_handle_def tm_UpdateItem_def split: if_splits)
next
  case (Received command)
  with assms tm_Command_kept [of command s env] show ?thesis by (simp add: tm_handle_def is_stop_def)
next
  case (WriteDone k error)
  with assms(1) tm_write_done_kept [of s env k error] show ?thesis by (simp add: tm_handle_def)
next
  case (OtherStart k)
  with assms(1) tm_other_kept [of s env] show ?thesis by (fastforce simp: tm_handle_def steps_to_def)
next
  case OtherRelease
  with assms(1) tm_other_kept [of s env] show ?thesis by (fastforce simp: tm_handle_def steps_to_def)
qed

lemma tm_event_step_handle: "tm_event_step env e x = Inr (out, y) \<Longrightarrow> tm_handle env e (fst x) = Inr (out, fst y)"
  by (auto simp: tm_event_step_def)

lemma tm_run_waits:
  "tm_run env x sent y \<Longrightarrow> i < length (tm_nodes (fst x)) \<Longrightarrow> te_to_send (tm_element_at (fst x) i) \<Longrightarrow> i \<notin> set sent \<Longrightarrow>
   length (tm_nodes (fst y)) = length (tm_nodes (fst x)) \<and> te_to_send (tm_element_at (fst y) i)
     \<and> length sent + gap (fst y) i \<le> gap (fst x) i"
proof (induction rule: tm_run.induct)
  case (event sent y e out z)
  then have IH: "length (tm_nodes (fst y)) = length (tm_nodes (fst x))" "te_to_send (tm_element_at (fst y) i)"
      "length sent + gap (fst y) i \<le> gap (fst x) i"
    by auto
  from tm_handle_cases [OF tm_event_step_handle [OF event.hyps(3)] event.hyps(4)] show ?case
  proof
    assume "kept (fst y) (fst z)"
    with IH event.prems show ?thesis by (auto simp: kept_def gap_def)
  next
    assume *: "sends_next (fst y) (fst z)"
    with event.prems have "i \<noteq> last_sent (fst z)" by (auto simp: sends_next_def)
    with * IH event.prems(1) show ?thesis by (auto simp: sends_next_def)
  qed
qed simp

lemma tm_run_reach: "tm_run env x sent y \<Longrightarrow> tm_reach env x \<Longrightarrow> tm_reach env y"
  by (induction rule: tm_run.induct) (auto intro: tm_reach.event)

section \<open>Binary channels\<close>

text \<open>A channel in the binary format whose data fit into the output buffer, and an output with room to wait for it.\<close>

definition fits :: "nat \<Rightarrow> tm_element \<Rightarrow> bool" where
  "fits n el \<longleftrightarrow>
     \<not> te_text el \<and> has_type (h_item (te_base el)) (h_type (te_base el)) \<and>
     length (te_name el) + 11 + length (data_bytes (h_item (te_base el))) \<le> n"

definition binary :: "telemetry_manager \<Rightarrow> bool" where
  "binary s \<longleftrightarrow> (\<forall>i < length (tm_nodes s). fits (tm_output_size s) (tm_element_at s i))"

definition ready :: "telemetry_manager \<Rightarrow> bool" where
  "ready s \<longleftrightarrow>
     binary s \<and> (ex_outstanding (tm_write_stream s) \<longrightarrow> None \<in> set (ex_callbacks (tm_write_stream s)))"

lemma put_first_free: "None \<in> set cs \<Longrightarrow> \<exists>cs'. put_first op cs = Some cs'"
  by (induction op cs rule: put_first.induct) auto

lemma tm_EmitData_binary:
  assumes "fits (tm_output_size s) (tm_element_at s i)"
  shows "tm_EmitData env i r s = Inr ([TmWrite (ascii ''emit '' @ te_name (tm_element_at s i) @ [13, 10] @
      le_bytes 4 (of_nat (length (data_bytes (h_item (te_base (tm_element_at s i))))) :: u32) @
      data_bytes (h_item (te_base (tm_element_at s i)))) (TellResponse r)], s)"
proof -
  let ?el = "tm_element_at s i"
  have "pc_Emit (ascii ''emit '') (te_name ?el) (h_WriteBinary bws_write (te_base ?el)) (tm_output_size s)
      = Inr (ascii ''emit '' @ te_name ?el @ [13, 10] @ le_bytes 4 (of_nat (length (data_bytes (h_item (te_base ?el)))) :: u32) @
          data_bytes (h_item (te_base ?el)))"
    using assms by (intro pc_Emit_bytes) (auto simp: fits_def h_WriteBinary_def bws_obj.bw_Visit_bytes)
  with assms show ?thesis by (simp add: tm_EmitData_def tm_Emit_def fits_def Let_def)
qed

lemma tm_MaybeStartSend_total:
  assumes "ready s"
  shows "\<exists>out t. tm_MaybeStartSend env s = Inr (out, t)"
proof (cases "outstanding_write s \<or> tm_find_send s 0 (length (tm_nodes s)) = None")
  case True
  then show ?thesis by (auto simp: tm_MaybeStartSend_def)
next
  case False
  then obtain c where c: "tm_find_send s 0 (length (tm_nodes s)) = Some c" by auto
  then have less: "c < length (tm_nodes s)"
    using tm_find_send_Some [OF c] by (metis add_0 gr_implies_not_zero mod_less_divisor not_gr_zero)
  let ?s = "(tm_set c (\<lambda>el. el\<lparr>te_to_send := False\<rparr>) s)\<lparr>outstanding_write := True\<rparr>"
  obtain started x where x: "ex_AsyncStart (SendElement c) (tm_write_stream s) = Inr (started, x)" "started \<in> {None, Some (SendElement c)}"
    using assms put_first_free [of "ex_callbacks (tm_write_stream s)" "SendElement c"]
    by (cases "ex_outstanding (tm_write_stream s)") (auto simp: ready_def ex_AsyncStart_def)
  let ?u = "?s\<lparr>tm_write_stream := x, write_release := True\<rparr>"
  have "fits (tm_output_size ?u) (tm_element_at ?u c)"
    using assms less tm_set_at [OF less, of c] by (simp add: ready_def binary_def fits_def) (simp add: tm_set_def)
  from tm_EmitData_binary [OF this] have "\<exists>out u. tm_operation env started (?s\<lparr>tm_write_stream := x\<rparr>) = Inr (out, u)"
    using x(2) by (auto simp: tm_operation_def)
  with False c x show ?thesis by (auto simp: tm_MaybeStartSend_def Let_def tm_set_def)
qed

lemma ready_tick: "ready s \<Longrightarrow> ready (tm_set_all tm_tick s)"
  by (auto simp: ready_def binary_def tm_set_all_def fits_def tm_tick_def Let_def case_prod_beta')

text \<open>A channel with rate \<open>r\<close> is marked by every \<open>r\<close>-th millisecond.\<close>

lemma tm_tick_period:
  assumes "1 < r" and "te_rate el = int r" and "te_next el = int r"
  shows "k < r \<Longrightarrow> (tm_tick ^^ k) el = el\<lparr>te_next := int (r - k)\<rparr>"
    and "(tm_tick ^^ r) el = el\<lparr>te_to_send := True\<rparr>"
proof -
  show before: "(tm_tick ^^ k) el = el\<lparr>te_next := int (r - k)\<rparr>" if "k < r" for k
    using that
  proof (induction k)
    case 0
    then show ?case using assms(3) by simp
  next
    case (Suc k)
    then have "(tm_tick ^^ Suc k) el = tm_tick (el\<lparr>te_next := int (r - k)\<rparr>)" by simp
    also have "\<dots> = el\<lparr>te_next := int (r - Suc k)\<rparr>"
      using Suc.prems assms by (simp add: tm_tick_def Let_def of_nat_diff)
    finally show ?case .
  qed
  obtain m where r: "r = Suc m" using assms(1) by (cases r) auto
  then have "(tm_tick ^^ r) el = tm_tick (el\<lparr>te_next := 1\<rparr>)"
    using before [of m] by simp
  also have "\<dots> = el\<lparr>te_to_send := True\<rparr>"
    using assms by (simp add: tm_tick_def Let_def)
  finally show "(tm_tick ^^ r) el = el\<lparr>te_to_send := True\<rparr>" .
qed

end
