(* ===== verification/Telemetry_Progress.thy ===== *)
theory Telemetry_Progress
  imports Telemetry_Manager
begin

text \<open>
  That the telemetry channels make progress: the invariant of the manager together with the writes
  the stream has not completed, and that what is marked is sent when everything outstanding comes to
  its end.
\<close>

section \<open>Who holds the output\<close>

text \<open>
  The invariant of the reachable states: the manager has a send outstanding exactly when it holds
  the output or waits for it, once; and what is being written is answered to the one that holds it.
\<close>

definition is_send :: "tm_op option \<Rightarrow> bool" where
  "is_send c \<longleftrightarrow> (\<exists>i. c = Some (SendElement i))"

definition queued :: "telemetry_manager \<Rightarrow> nat" where
  "queued s = length (filter is_send (ex_callbacks (tm_write_stream s)))"

fun answer_of :: "tm_response \<Rightarrow> tm_then \<Rightarrow> tm_response" where
  "answer_of current (TellResponse r) = r"
| "answer_of current k = current"

definition answers_to :: "tm_response \<Rightarrow> telemetry_manager \<Rightarrow> tm_then list \<Rightarrow> bool" where
  "answers_to r s w \<longleftrightarrow> length w \<le> 1 \<and> (\<forall>k \<in> set w. answer_of (current_response s) k = r)"

definition holder :: "telemetry_manager \<Rightarrow> tm_response" where
  "holder s = (if write_release s then ToRelease else ToCommand)"

definition tm_inv :: "tm_system \<Rightarrow> bool" where
  "tm_inv x \<longleftrightarrow> (case x of (s, w) \<Rightarrow>
     (write_release s \<longrightarrow> ex_outstanding (tm_write_stream s) \<and> queued s = 0) \<and>
     (outstanding_write s \<longleftrightarrow> write_release s \<or> queued s \<noteq> 0) \<and> queued s \<le> 1 \<and>
     (\<not> ex_outstanding (tm_write_stream s) \<longrightarrow> take_first (ex_callbacks (tm_write_stream s)) = None \<and> w = []) \<and>
     (\<forall>i. Some (SendElement i) \<in> set (ex_callbacks (tm_write_stream s)) \<longrightarrow> i < length (tm_nodes s)) \<and>
     answers_to (holder s) s w)"

lemma answers_to_simps [simp]:
  "answers_to r s []" "answers_to r s [TellResponse r'] \<longleftrightarrow> r' = r" "answers_to r s [TellNextField] \<longleftrightarrow> current_response s = r"
  "answers_to r s [TellListCallback] \<longleftrightarrow> current_response s = r"
  by (auto simp: answers_to_def)

lemma tm_writes_simps [simp]:
  "tm_writes [] = []" "tm_writes [TmWrite d k] = [k]" "tm_writes [TmRespond e] = []" "tm_writes [TmStartOther n] = []"
  by (simp_all add: tm_writes_def)

text \<open>A step that keeps what the invariant speaks of, and answers to \<open>r\<close>.\<close>

definition same_hold :: "telemetry_manager \<Rightarrow> telemetry_manager \<Rightarrow> bool" where
  "same_hold s t \<longleftrightarrow> tm_write_stream t = tm_write_stream s \<and> write_release t = write_release s
     \<and> outstanding_write t = outstanding_write s \<and> length (tm_nodes t) = length (tm_nodes s)"

definition answering :: "tm_response \<Rightarrow> telemetry_manager \<Rightarrow> (tm_out list \<times> telemetry_manager) res \<Rightarrow> bool" where
  "answering r s res \<longleftrightarrow> (\<forall>out t. res = Inr (out, t) \<longrightarrow> same_hold s t \<and> answers_to r t (tm_writes out))"

lemma answering_simps [simp]:
  "answering r s (Inl e)" "answering r s (Inr (out, t)) \<longleftrightarrow> same_hold s t \<and> answers_to r t (tm_writes out)"
  by (simp_all add: answering_def)

lemma answering_sbind: "(\<And>x. a = Inr x \<Longrightarrow> answering r s (f x)) \<Longrightarrow> answering r s (sbind a f)"
  by (cases a) simp_all

lemma same_hold_trans: "same_hold s t \<Longrightarrow> same_hold t u \<Longrightarrow> same_hold s u"
  by (simp add: same_hold_def)

lemma answering_from: "answering r t res \<Longrightarrow> same_hold s t \<Longrightarrow> answering r s res"
  unfolding answering_def by (blast intro: same_hold_trans)

lemma same_hold_simps [simp]:
  "same_hold s s" "same_hold s (s\<lparr>current_response := r\<rparr>)" "same_hold s (s\<lparr>tm_current_field := f'\<rparr>)"
  "same_hold s (s\<lparr>current_response := r, tm_enumerate_element := i, tm_current_field := f'\<rparr>)"
  "same_hold s (s\<lparr>current_response := r, tm_list_index := i\<rparr>)" "same_hold s (s\<lparr>tm_list_index := i\<rparr>)"
 
  by (simp_all add: same_hold_def)

lemma same_hold_set [simp]: "same_hold s (tm_set i f s)" "same_hold s (tm_set_all f s)"
  by (simp_all add: same_hold_def tm_set_def tm_set_all_def)

lemma tm_writes_evaluate: "tm_evaluate env s = Inr (Some w) \<Longrightarrow> \<exists>d. w = TmWrite d TellNextField"
  by (auto simp: tm_evaluate_def Let_def sbind_eq_Inr_iff)

lemma tm_evaluate_answering:
  "current_response s = r \<Longrightarrow> answering r s (sbind (tm_evaluate env s) (\<lambda>out. tm_step s (case out of None \<Rightarrow> x | Some w \<Rightarrow> [w])))
   \<longleftrightarrow> (tm_evaluate env s = Inr None \<longrightarrow> answers_to r s (tm_writes x))"
  by (cases "tm_evaluate env s") (auto split: option.split dest: tm_writes_evaluate)

lemma tm_WriteOK_writes [simp]: "tm_writes [tm_WriteOK r] = [TellResponse r]" "tm_writes [tm_error m] = [TellResponse ToCommand]"
  by (simp_all add: tm_WriteOK_def tm_error_def tm_WriteMessage_def)

lemma tm_EmitData_answering: "answering r s (tm_EmitData env i r s)"
proof (cases "te_text (tm_element_at s i)")
  case True
  let ?s = "s\<lparr>current_response := r, tm_enumerate_element := i, tm_current_field := 0\<rparr>"
  have "answering r ?s (sbind (tm_evaluate env ?s) (\<lambda>out. tm_step ?s (case out of None \<Rightarrow> [] | Some w \<Rightarrow> [w])))"
    by (subst tm_evaluate_answering) simp_all
  from answering_from [OF this] True show ?thesis by (simp add: tm_EmitData_def tm_Enumerate_def Let_def)
next
  case False
  then show ?thesis by (auto simp: tm_EmitData_def tm_Emit_def Let_def intro!: answering_sbind)
qed

lemma tm_field_done_answering: "current_response s = r \<Longrightarrow> answering r s (tm_field_done env error s)"
proof -
  assume r: "current_response s = r"
  let ?s = "s\<lparr>tm_current_field := tm_current_field s + 1\<rparr>"
  have "answering r ?s (sbind (tm_evaluate env ?s) (\<lambda>out. tm_step ?s [case out of Some w \<Rightarrow> w | None \<Rightarrow> tm_WriteOK (current_response ?s)]))"
    using r by (cases "tm_evaluate env ?s") (auto split: option.split dest: tm_writes_evaluate)
  from answering_from [OF this] r show ?thesis by (simp add: tm_field_done_def Let_def)
qed

lemma tm_ListCallback_answering:
  "current_response s = ToCommand \<Longrightarrow> answering ToCommand s (tm_ListCallback env error s)"
  by (auto simp: tm_ListCallback_def tm_respond_def Let_def same_hold_def)

lemma tm_Command_answering: "answering ToCommand s (tm_Command env command s)"
proof -
  have "answering ToCommand s (tm_List env s)"
    using tm_ListCallback_answering [of "s\<lparr>current_response := ToCommand, tm_list_index := 0\<rparr>" env False]
    by (simp add: tm_List_def answering_from [OF _ same_hold_simps(5)])
  moreover have "answering ToCommand s (tm_Get env name s)" for name
    by (simp add: tm_Get_def tm_EmitData_answering split: option.split)
  moreover have "answering ToCommand s (tm_Schema name s)" for name
    by (auto simp: tm_Schema_def tm_Emit_def Let_def split: option.split intro!: answering_sbind)
  moreover have "answering ToCommand s (tm_Rate c s)" "answering ToCommand s (tm_Format c s)" for c
    by (auto simp: tm_Rate_def tm_Format_def Let_def split: option.split prod.split intro!: answering_sbind)
  moreover have "answering ToCommand s (tm_Stop s)" "answering ToCommand s (tm_Text s)"
    by (simp_all add: tm_Stop_def tm_Text_def)
  ultimately show ?thesis
    by (cases "tk_next (ascii '' '') command") (simp add: tm_Command_def)
qed

text \<open>When the output is given to the operation that is next.\<close>

lemma queued_take_first:
  "take_first cs = Some (op, ds) \<Longrightarrow>
   length (filter is_send cs) = length (filter is_send ds) + (if is_send (Some op) then 1 else 0) \<and> set ds \<subseteq> insert None (set cs) \<and> Some op \<in> set cs"
  by (induction cs arbitrary: ds rule: take_first.induct) (auto simp: is_send_def)

lemma queued_take_first_None: "take_first cs = None \<Longrightarrow> filter is_send cs = []"
  by (induction cs rule: take_first.induct) (auto simp: is_send_def)

lemma queued_put_first:
  "put_first op cs = Some ds \<Longrightarrow>
   length (filter is_send ds) = length (filter is_send cs) + (if is_send (Some op) then 1 else 0) \<and> set ds \<subseteq> insert (Some op) (set cs)"
  by (induction op cs arbitrary: ds rule: put_first.induct) (auto simp: is_send_def)

lemma tm_operation_inv:
  assumes "tm_operation env started s = Inr (out, t)" and "\<not> write_release s"
  shows "tm_write_stream t = tm_write_stream s \<and> outstanding_write t = outstanding_write s \<and> length (tm_nodes t) = length (tm_nodes s)
    \<and> write_release t = is_send started \<and> answers_to (holder t) t (tm_writes out)"
proof (cases started)
  case (Some op)
  then show ?thesis
  proof (cases op)
    case (SendElement i)
    with assms Some tm_EmitData_answering [of ToRelease "s\<lparr>write_release := True\<rparr>" env i] show ?thesis
      by (auto simp: tm_operation_def answering_def same_hold_def holder_def is_send_def)
  next
    case (OtherUser k)
    with assms Some show ?thesis by (auto simp: tm_operation_def is_send_def)
  qed
qed (use assms in \<open>auto simp: tm_operation_def is_send_def\<close>)

lemma tm_release_inv:
  assumes inv: "queued s \<le> 1" "\<forall>i. Some (SendElement i) \<in> set (ex_callbacks (tm_write_stream s)) \<longrightarrow> i < length (tm_nodes s)"
    and r: "ex_release (tm_write_stream s) = Inr (started, x)" and "\<not> write_release s" and "outstanding_write s \<longleftrightarrow> queued s \<noteq> 0"
    and t: "tm_operation env started (s\<lparr>tm_write_stream := x\<rparr>) = Inr (out, t)"
  shows "tm_inv (t, tm_writes out)"
proof (cases "take_first (ex_callbacks (tm_write_stream s))")
  case None
  with r have x: "started = None" "x = (tm_write_stream s)\<lparr>ex_outstanding := False\<rparr>" by (simp_all add: ex_release_total)
  with t None assms(4,5) inv(2) queued_take_first_None [OF None] show ?thesis
    by (auto simp: tm_operation_def tm_inv_def queued_def)
next
  case (Some a)
  obtain op cs where a: "a = (op, cs)" by fastforce
  with r Some have x: "started = Some op" "x = (tm_write_stream s)\<lparr>ex_outstanding := True, ex_callbacks := cs\<rparr>"
    by (simp_all add: ex_release_total)
  note q = queued_take_first [OF Some [unfolded a]]
  from tm_operation_inv [OF t] assms(4) x
  have o: "tm_write_stream t = x" "outstanding_write t = outstanding_write s" "length (tm_nodes t) = length (tm_nodes s)"
      "write_release t = is_send (Some op)" "answers_to (holder t) t (tm_writes out)"
    by auto
  have "Some (SendElement i) \<in> set cs \<Longrightarrow> i < length (tm_nodes s)" for i using inv(2) q by auto
  with q o x inv(1) assms(5) show ?thesis by (auto simp: tm_inv_def queued_def split: if_splits)
qed

lemma tm_MaybeStartSend_inv:
  assumes inv: "tm_inv (s, w)" and "tm_MaybeStartSend env s = Inr (out, t)"
  shows "tm_inv (t, w @ tm_writes out)"
proof (cases "outstanding_write s \<or> tm_find_send s 0 (length (tm_nodes s)) = None")
  case True
  with assms show ?thesis by (auto simp: tm_MaybeStartSend_def split: if_splits)
next
  case False
  then obtain c where c: "tm_find_send s 0 (length (tm_nodes s)) = Some c" by auto
  then have less: "c < length (tm_nodes s)"
    using tm_find_send_Some [OF c] by (metis add_0 gr_implies_not_zero mod_less_divisor not_gr_zero)
  let ?s = "(tm_set c (\<lambda>el. el\<lparr>te_to_send := False\<rparr>) s)\<lparr>outstanding_write := True\<rparr>"
  obtain started x u where u: "ex_AsyncStart (SendElement c) (tm_write_stream s) = Inr (started, x)"
      "tm_operation env started (?s\<lparr>tm_write_stream := x\<rparr>) = Inr (out, u)" "t = u\<lparr>last_sent := c\<rparr>"
    using assms(2) False c by (auto simp: tm_MaybeStartSend_def Let_def sbind_eq_Inr_iff tm_set_def)
  have i: "\<not> write_release s" "queued s = 0" using inv False by (auto simp: tm_inv_def)
  have nw: "\<not> write_release (?s\<lparr>tm_write_stream := x\<rparr>)" "length (tm_nodes ?s) = length (tm_nodes s)" using i(1) by (simp_all add: tm_set_def)
  from tm_operation_inv [OF u(2) nw(1)] nw(2) u(3)
  have o: "tm_write_stream t = x" "outstanding_write t" "length (tm_nodes t) = length (tm_nodes s)"
      "write_release t = is_send started" "answers_to (holder t) t (tm_writes out)" "holder u = holder t" "current_response u = current_response t"
    by (auto simp: holder_def answers_to_def)
  show ?thesis
  proof (cases "ex_outstanding (tm_write_stream s)")
    case True
    with u(1) obtain cs where cs: "started = None" "x = (tm_write_stream s)\<lparr>ex_callbacks := cs\<rparr>"
        "put_first (SendElement c) (ex_callbacks (tm_write_stream s)) = Some cs"
      by (auto simp: ex_AsyncStart_def split: option.splits)
    from queued_put_first [OF cs(3)] have q: "length (filter is_send cs) = 1"
        "set cs \<subseteq> insert (Some (SendElement c)) (set (ex_callbacks (tm_write_stream s)))"
      using i(2) by (auto simp: queued_def is_send_def split: if_splits)
    have out: "out = []" "current_response t = current_response s" using u(2,3) cs(1) by (auto simp: tm_operation_def tm_set_def)
    have "Some (SendElement i) \<in> set cs \<Longrightarrow> i < length (tm_nodes s)" for i using q(2) less inv by (auto simp: tm_inv_def)
    with o q cs True inv i out show ?thesis
      by (auto simp: tm_inv_def queued_def is_send_def holder_def answers_to_def)
  next
    case False
    with u(1) have x: "started = Some (SendElement c)" "x = (tm_write_stream s)\<lparr>ex_outstanding := True\<rparr>"
      by (auto simp: ex_AsyncStart_def)
    with o False inv i show ?thesis by (auto simp: tm_inv_def queued_def is_send_def)
  qed
qed

lemma tm_inv_same: "tm_inv (s, w) \<Longrightarrow> same_hold s t \<Longrightarrow> current_response t = current_response s \<Longrightarrow> tm_inv (t, w)"
  by (simp add: tm_inv_def same_hold_def queued_def holder_def answers_to_def)

lemma tm_inv_answering:
  assumes "tm_inv (s, w)" and "answering (holder s) s res" and "res = Inr (out, t)" and "ex_outstanding (tm_write_stream s)"
  shows "tm_inv (t, tm_writes out)"
  using assms by (auto simp: tm_inv_def answering_def same_hold_def queued_def holder_def)

lemma answers_to_remove: "answers_to r s w \<Longrightarrow> k \<in> set w \<Longrightarrow> w = [k]"
  by (cases w) (auto simp: answers_to_def)

lemma tm_write_done_inv:
  assumes inv: "tm_inv (s, [k])" and t: "tm_write_done env k error s = Inr (out, t)"
  shows "tm_inv (t, tm_writes out)"
proof -
  have ex: "ex_outstanding (tm_write_stream s)" using inv by (auto simp: tm_inv_def)
  have a: "answers_to (holder s) s [k]" using inv by (simp add: tm_inv_def)
  have resp: "tm_inv (t, tm_writes out)" if "tm_respond env (holder s) e s = Inr (out, t)" for e
  proof (cases "write_release s")
    case True
    with that obtain started x where r: "ex_release (tm_write_stream s) = Inr (started, x)"
        "tm_operation env started (s\<lparr>outstanding_write := False, write_release := False, tm_write_stream := x\<rparr>) = Inr (out, t)"
      by (auto simp: tm_respond_def holder_def sbind_eq_Inr_iff)
    from True inv have q: "queued s = 0" by (simp add: tm_inv_def)
    show ?thesis
      by (rule tm_release_inv [of "s\<lparr>outstanding_write := False, write_release := False\<rparr>"])
        (use r q inv in \<open>auto simp: queued_def tm_inv_def\<close>)
  next
    case False
    with that inv ex show ?thesis by (auto simp: tm_respond_def holder_def tm_inv_def)
  qed
  show ?thesis
  proof (cases k)
    case (TellResponse r)
    with a t resp show ?thesis by (auto simp: tm_write_done_def)
  next
    case TellNextField
    with a t tm_inv_answering [OF inv tm_field_done_answering _ ex] show ?thesis by (simp add: tm_write_done_def)
  next
    case TellListCallback
    show ?thesis
    proof (cases error)
      case True
      with TellListCallback a t resp show ?thesis by (auto simp: tm_write_done_def tm_ListCallback_def)
    next
      case False
      have "answering (holder s) s (tm_ListCallback env False s)"
        using a TellListCallback by (auto simp: tm_ListCallback_def Let_def same_hold_def)
      with False TellListCallback t tm_inv_answering [OF inv _ _ ex] show ?thesis by (simp add: tm_write_done_def)
    qed
  qed
qed

lemma tm_step_inv:
  assumes inv: "tm_inv x" and "tm_enabled e x" and step: "tm_event_step env e x = Inr (out, y)"
  shows "tm_inv y"
proof -
  obtain s w t w' where x: "x = (s, w)" "y = (t, w')" by (cases x, cases y)
  then have h: "tm_handle env e s = Inr (out, t)"
      "w' = (case e of WriteDone k error \<Rightarrow> remove1 k (snd x) | _ \<Rightarrow> snd x) @ tm_writes out"
    using step by (auto simp: tm_event_step_def sbind_eq_Inr_iff)
  have inv': "tm_inv (s, w)" using inv x by simp
  show ?thesis
  proof (cases e)
    case Millisecond
    with h x tm_MaybeStartSend_inv [OF tm_inv_same [OF inv' same_hold_set(2)]] show ?thesis
      by (simp add: tm_handle_def tm_PollMillisecond_def tm_set_all_def)
  next
    case (ItemUpdated i)
    with h x inv' tm_MaybeStartSend_inv [OF tm_inv_same [OF inv' same_hold_set(1)]] show ?thesis
      by (auto simp: tm_handle_def tm_UpdateItem_def tm_set_def split: if_splits)
  next
    case (Received command)
    with assms(2) x have o: "ex_outstanding (tm_write_stream s)" "holder s = ToCommand" "w = []"
      by (auto simp: others_turn_def holder_def)
    with h x Received tm_inv_answering [OF inv' _ _ o(1)] tm_Command_answering [of s env command] show ?thesis
      by (simp add: tm_handle_def)
  next
    case (WriteDone k error)
    with assms(2) x have "w = [k]" using answers_to_remove inv' by (fastforce simp: tm_inv_def)
    with h x WriteDone inv' tm_write_done_inv [of s k env error out t] show ?thesis by (simp add: tm_handle_def)
  next
    case (OtherStart j)
    then obtain started z where z: "ex_AsyncStart (OtherUser j) (tm_write_stream s) = Inr (started, z)"
        "tm_operation env started (s\<lparr>tm_write_stream := z\<rparr>) = Inr (out, t)"
      using h(1) by (auto simp: tm_handle_def sbind_eq_Inr_iff)
    show ?thesis
    proof (cases "ex_outstanding (tm_write_stream s)")
      case True
      with z(1) obtain cs where cs: "started = None" "z = (tm_write_stream s)\<lparr>ex_callbacks := cs\<rparr>"
          "put_first (OtherUser j) (ex_callbacks (tm_write_stream s)) = Some cs"
        by (auto simp: ex_AsyncStart_def split: option.splits)
      from queued_put_first [OF cs(3)] True cs z(2) h x OtherStart inv' show ?thesis
        by (auto simp: tm_operation_def tm_inv_def queued_def is_send_def holder_def answers_to_def)
    next
      case False
      with z h x OtherStart inv' show ?thesis
        by (auto simp: ex_AsyncStart_def tm_operation_def tm_inv_def queued_def holder_def)
    qed
  next
    case OtherRelease
    with assms(2) x have o: "\<not> write_release s" "w = []" by (auto simp: others_turn_def)
    from OtherRelease h(1) obtain started z where z: "ex_release (tm_write_stream s) = Inr (started, z)"
        "tm_operation env started (s\<lparr>tm_write_stream := z\<rparr>) = Inr (out, t)"
      by (auto simp: tm_handle_def sbind_eq_Inr_iff)
    have "tm_inv (t, tm_writes out)"
      by (rule tm_release_inv [OF _ _ z(1) o(1) _ z(2)]) (use inv' o in \<open>auto simp: tm_inv_def\<close>)
    with OtherRelease h x o show ?thesis by simp
  qed
qed

lemma tm_reach_inv: "tm_reach env x \<Longrightarrow> tm_inv x"
proof (induction rule: tm_reach.induct)
  case (boot k n m)
  then show ?case
    by (simp add: tm_inv_def tm_init_def ex_init_def queued_def is_send_def)
qed (rule tm_step_inv)

section \<open>Progress\<close>

text \<open>What is sent for a channel, and what of the channels does not change while they are sent.\<close>

definition emit_text :: "tm_element \<Rightarrow> byte list" where
  "emit_text el = ascii ''emit '' @ te_name el @ [13, 10]
     @ le_bytes 4 (of_nat (length (data_bytes (h_item (te_base el)))) :: u32) @ data_bytes (h_item (te_base el))"

definition same_channels :: "telemetry_manager \<Rightarrow> telemetry_manager \<Rightarrow> bool" where
  "same_channels s t \<longleftrightarrow> tm_output_size t = tm_output_size s \<and> length (tm_nodes t) = length (tm_nodes s)
     \<and> (\<forall>i < length (tm_nodes s). te_name (tm_element_at t i) = te_name (tm_element_at s i)
          \<and> te_base (tm_element_at t i) = te_base (tm_element_at s i) \<and> te_text (tm_element_at t i) = te_text (tm_element_at s i))"

lemma same_channels_refl [simp]: "same_channels s s"
  by (simp add: same_channels_def)

lemma same_channels_trans: "same_channels s t \<Longrightarrow> same_channels t u \<Longrightarrow> same_channels s u"
  by (simp add: same_channels_def)

lemma same_channels_elements:
  "tm_elements t = tm_elements s \<Longrightarrow> tm_output_size t = tm_output_size s \<Longrightarrow> same_channels s t"
  by (simp add: same_channels_def)

lemma same_channels_binary: "same_channels s t \<Longrightarrow> binary s \<Longrightarrow> binary t"
  by (simp add: same_channels_def binary_def fits_def)

lemma same_channels_emit:
  "same_channels s t \<Longrightarrow> i < length (tm_nodes s) \<Longrightarrow> emit_text (tm_element_at t i) = emit_text (tm_element_at s i)"
  by (simp add: same_channels_def emit_text_def)

lemma same_channels_tick: "same_channels s (tm_set_all tm_tick s)"
  by (simp add: same_channels_def tm_set_all_def case_prod_beta' tm_tick_def Let_def)

lemma same_channels_set: "same_channels s (tm_set i (\<lambda>el. el\<lparr>te_to_send := b\<rparr>) s)"
  by (simp add: same_channels_def tm_set_at) (simp add: tm_set_def)

lemma tm_operation_binary:
  assumes "binary s" and "\<And>i. started = Some (SendElement i) \<Longrightarrow> i < length (tm_nodes s)"
  shows "tm_operation env started s = Inr (case started of
      None \<Rightarrow> ([], s)
    | Some (OtherUser k) \<Rightarrow> ([TmStartOther k], s)
    | Some (SendElement i) \<Rightarrow> ([TmWrite (emit_text (tm_element_at s i)) (TellResponse ToRelease)], s\<lparr>write_release := True\<rparr>))"
proof -
  have "tm_EmitData env i ToRelease (s\<lparr>write_release := True\<rparr>)
      = Inr ([TmWrite (emit_text (tm_element_at s i)) (TellResponse ToRelease)], s\<lparr>write_release := True\<rparr>)"
    if "started = Some (SendElement i)" for i
    using tm_EmitData_binary [of "s\<lparr>write_release := True\<rparr>" i env ToRelease] assms(1) assms(2) [OF that]
    by (simp add: binary_def emit_text_def)
  then show ?thesis by (auto simp: tm_operation_def split: option.split tm_op.split)
qed

text \<open>
  How much is left until no one holds the output: every step takes some of it, as long as no
  listing and no text is being written.
\<close>

definition plain_write :: "tm_system \<Rightarrow> bool" where
  "plain_write x \<longleftrightarrow> snd x = [] \<and> \<not> write_release (fst x) \<or> (\<exists>r. snd x = [TellResponse r])"

definition tm_left :: "tm_system \<Rightarrow> nat" where
  "tm_left x = 2 * ex_waiting (tm_write_stream (fst x)) + (if ex_outstanding (tm_write_stream (fst x)) then 1 else 0) + length (snd x)"

definition tm_still :: "tm_system \<Rightarrow> tm_system \<Rightarrow> bool" where
  "tm_still x y \<longleftrightarrow> tm_elements (fst y) = tm_elements (fst x) \<and> tm_output_size (fst y) = tm_output_size (fst x)
     \<and> last_sent (fst y) = last_sent (fst x)"

lemma tm_next_enabled:
  assumes "plain_write x"
  shows "tm_enabled (tm_next_event x) x"
  using assms by (auto simp: plain_write_def tm_next_event_def others_turn_def)

lemma tm_give_back:
  assumes "binary s" and "\<forall>i. Some (SendElement i) \<in> set (ex_callbacks (tm_write_stream s)) \<longrightarrow> i < length (tm_nodes s)"
    and "\<not> write_release s" and "ex_outstanding (tm_write_stream s)"
  shows "\<exists>started x out t. ex_release (tm_write_stream s) = Inr (started, x)
    \<and> tm_operation env started (s\<lparr>tm_write_stream := x\<rparr>) = Inr (out, t)
    \<and> tm_left (t, tm_writes out) \<le> 2 * ex_waiting (tm_write_stream s)
    \<and> plain_write (t, tm_writes out) \<and> tm_still (s, []) (t, [])"
proof (cases "take_first (ex_callbacks (tm_write_stream s))")
  case None
  then have "ex_release (tm_write_stream s) = Inr (None, (tm_write_stream s)\<lparr>ex_outstanding := False\<rparr>)"
    by (simp add: ex_release_total)
  moreover have "tm_operation env None u = Inr ([], u)" for u by (simp add: tm_operation_def)
  ultimately show ?thesis using assms(3) by (simp add: tm_left_def plain_write_def tm_still_def ex_waiting_def)
next
  case (Some a)
  obtain op cs where a: "a = (op, cs)" by fastforce
  let ?x = "(tm_write_stream s)\<lparr>ex_outstanding := True, ex_callbacks := cs\<rparr>"
  have r: "ex_release (tm_write_stream s) = Inr (Some op, ?x)" using Some a by (simp add: ex_release_total)
  have less: "ex_waiting ?x < ex_waiting (tm_write_stream s)" by (rule ex_release_waiting [OF r])
  have "Some op \<in> set (ex_callbacks (tm_write_stream s))" using queued_take_first [OF Some [unfolded a]] by simp
  with assms(2) have idx: "i < length (tm_nodes (s\<lparr>tm_write_stream := ?x\<rparr>))" if "Some op = Some (SendElement i)" for i
    using that by auto
  have "binary (s\<lparr>tm_write_stream := ?x\<rparr>)" using assms(1) by (simp add: binary_def)
  note e = tm_operation_binary [OF this, where env = env and started = "Some op", OF idx]
  show ?thesis
  proof (cases op)
    case (SendElement i)
    with e r less show ?thesis by (simp add: tm_left_def plain_write_def tm_still_def split del: if_split)
  next
    case (OtherUser k)
    with e r less assms(3) show ?thesis by (simp add: tm_left_def plain_write_def tm_still_def split del: if_split)
  qed
qed

lemma tm_drain_step:
  assumes inv: "tm_inv x" and "binary (fst x)" and plain: "plain_write x" and held: "ex_outstanding (tm_write_stream (fst x))"
  shows "\<exists>out y. tm_event_step env (tm_next_event x) x = Inr (out, y) \<and> tm_left y < tm_left x \<and> plain_write y \<and> tm_still x y"
proof -
  obtain s w where x: "x = (s, w)" by (cases x)
  have idx: "\<forall>i. Some (SendElement i) \<in> set (ex_callbacks (tm_write_stream s)) \<longrightarrow> i < length (tm_nodes s)"
    using inv x by (simp add: tm_inv_def)
  show ?thesis
  proof (cases w)
    case Nil
    then have "\<not> write_release s" using plain x by (auto simp: plain_write_def)
    with tm_give_back [OF _ idx this, of env] assms(2) held x obtain started z out t where
      t: "ex_release (tm_write_stream s) = Inr (started, z)" "tm_operation env started (s\<lparr>tm_write_stream := z\<rparr>) = Inr (out, t)"
        "tm_left (t, tm_writes out) \<le> 2 * ex_waiting (tm_write_stream s)" "plain_write (t, tm_writes out)" "tm_still (s, []) (t, [])"
      by auto
    then have "tm_event_step env (tm_next_event x) x = Inr (out, t, tm_writes out)"
      using x Nil held by (simp add: tm_event_step_def tm_next_event_def tm_handle_def)
    moreover have "tm_left (t, tm_writes out) < tm_left x" using t(3) x Nil held by (simp add: tm_left_def [of "(s, [])"])
    ultimately show ?thesis using t(4,5) x by (auto simp: tm_still_def)
  next
    case (Cons k ks)
    with plain x obtain r where w: "w = [TellResponse r]" by (auto simp: plain_write_def)
    have r: "r = holder s" using inv x w by (simp add: tm_inv_def)
    show ?thesis
    proof (cases "write_release s")
      case True
      let ?s = "s\<lparr>outstanding_write := False, write_release := False\<rparr>"
      obtain started z out t where t: "ex_release (tm_write_stream s) = Inr (started, z)"
          "tm_operation env started (?s\<lparr>tm_write_stream := z\<rparr>) = Inr (out, t)"
          "tm_left (t, tm_writes out) \<le> 2 * ex_waiting (tm_write_stream s)" "plain_write (t, tm_writes out)" "tm_still (?s, []) (t, [])"
        using tm_give_back [of ?s env] idx assms(2) held x by (auto simp: binary_def)
      then have "tm_event_step env (tm_next_event x) x = Inr (out, t, tm_writes out)"
        using x w r True by (simp add: tm_event_step_def tm_next_event_def tm_handle_def tm_write_done_def tm_respond_def holder_def)
      moreover have "tm_left (t, tm_writes out) < tm_left x" using t(3) x w held by (simp add: tm_left_def [of "(s, [TellResponse r])"])
      ultimately show ?thesis using t(4,5) x by (auto simp: tm_still_def)
    next
      case False
      then show ?thesis using x w r
        by (auto simp: tm_event_step_def tm_next_event_def tm_handle_def tm_write_done_def tm_respond_def holder_def
            tm_left_def tm_still_def plain_write_def)
    qed
  qed
qed

lemma tm_advance_add:
  "tm_advance env (m + k) x = sbind (tm_advance env m x) (\<lambda>(o1, y). sbind (tm_advance env k y) (\<lambda>(o2, z). Inr (o1 @ o2, z)))"
proof (induction m arbitrary: x)
  case 0
  then show ?case by (cases "tm_advance env k x") auto
next
  case (Suc m)
  then show ?case
    by (cases "tm_event_step env (tm_next_event x) x")
      (auto simp: sbind_def split: sum.split prod.split)
qed

definition tm_idle :: "tm_system \<Rightarrow> bool" where
  "tm_idle x \<longleftrightarrow> tm_inv x \<and> snd x = [] \<and> \<not> ex_outstanding (tm_write_stream (fst x))"

lemma tm_drain:
  assumes "tm_inv x" and "binary (fst x)" and "plain_write x"
  shows "\<exists>m outs y. m \<le> tm_left x \<and> tm_advance env m x = Inr (outs, y) \<and> tm_idle y \<and> tm_still x y"
  using assms
proof (induction "tm_left x" arbitrary: x rule: less_induct)
  case less
  show ?case
  proof (cases "ex_outstanding (tm_write_stream (fst x))")
    case True
    obtain out y where y: "tm_event_step env (tm_next_event x) x = Inr (out, y)" "tm_left y < tm_left x" "plain_write y" "tm_still x y"
      using tm_drain_step [OF less.prems(1,2,3) True, of env] by blast
    have "tm_inv y" by (rule tm_step_inv [OF less.prems(1) tm_next_enabled [OF less.prems(3)] y(1)])
    moreover have "binary (fst y)"
      using same_channels_binary [OF same_channels_elements less.prems(2)] y(4) by (simp add: tm_still_def)
    ultimately obtain m outs z where z: "m \<le> tm_left y" "tm_advance env m y = Inr (outs, z)" "tm_idle z" "tm_still y z"
      using less.hyps [OF y(2) _ _ y(3)] by blast
    with y have "tm_advance env (Suc m) x = Inr (out @ outs, z)" "Suc m \<le> tm_left x" "tm_still x z"
      by (simp_all add: tm_still_def)
    with z(3) show ?thesis by blast
  next
    case False
    with less.prems have "tm_idle x" by (cases x) (simp add: tm_idle_def tm_inv_def)
    moreover have "tm_advance env 0 x = Inr ([], x)" "tm_still x x" by (simp_all add: tm_still_def)
    ultimately show ?thesis by (intro exI [of _ 0]) blast
  qed
qed

text \<open>When no one holds the output, a millisecond and the completion of its write send the next channel.\<close>

lemma tm_round:
  assumes "tm_idle x" and b: "binary (fst x)" and i: "i < length (tm_nodes (fst x))" "te_to_send (tm_element_at (fst x) i)"
  shows "\<exists>outs y. tm_advance env 2 x = Inr (outs, y) \<and> tm_idle y \<and> same_channels (fst x) (fst y) \<and>
    (TmWrite (emit_text (tm_element_at (fst x) i)) (TellResponse ToRelease) \<in> set outs \<or>
     te_to_send (tm_element_at (fst y) i) \<and> gap (fst y) i < gap (fst x) i)"
proof -
  obtain s where x: "x = (s, [])" using assms(1) by (cases x) (simp add: tm_idle_def)
  let ?s = "tm_set_all tm_tick s"
  have idle: "\<not> ex_outstanding (tm_write_stream s)" "\<not> outstanding_write s" "\<not> write_release s"
      "take_first (ex_callbacks (tm_write_stream s)) = None" "queued s = 0"
    using assms(1) x queued_take_first_None [of "ex_callbacks (tm_write_stream s)"]
    by (auto simp: tm_idle_def tm_inv_def queued_def)
  have tick: "te_to_send (tm_element_at ?s i)" "length (tm_nodes ?s) = length (tm_nodes s)" "gap ?s i = gap s i"
      "tm_write_stream ?s = tm_write_stream s"
    using kept_tick [of s] i x by (auto simp: kept_def gap_def tm_set_all_def)
  have "tm_find_send ?s 0 (length (tm_nodes ?s)) \<noteq> None"
    using tm_find_send_None [of ?s 0 "length (tm_nodes ?s)" "gap ?s i"] gap_less [of i ?s] gap_place [of i ?s] tick i x by auto
  then obtain c where c: "tm_find_send ?s 0 (length (tm_nodes ?s)) = Some c" by blast
  then have less: "c < length (tm_nodes s)"
    using tm_find_send_Some [OF c] tick(2) by (metis add_0 gr_implies_not_zero mod_less_divisor not_gr_zero)
  let ?u = "(tm_set c (\<lambda>el. el\<lparr>te_to_send := False\<rparr>) ?s)\<lparr>outstanding_write := True,
      tm_write_stream := (tm_write_stream s)\<lparr>ex_outstanding := True\<rparr>\<rparr>"
  have same: "same_channels s ?u"
    using same_channels_trans [OF same_channels_tick same_channels_set] by (simp add: same_channels_def)
  let ?t = "?u\<lparr>write_release := True, last_sent := c\<rparr>"
  let ?w = "[TmWrite (emit_text (tm_element_at s c)) (TellResponse ToRelease)]"
  have "tm_operation env (Some (SendElement c)) ?u = Inr (?w, ?u\<lparr>write_release := True\<rparr>)"
    using tm_operation_binary [OF same_channels_binary [OF same], where started = "Some (SendElement c)" and env = env] b x less
      same_channels_emit [OF same less] same by (simp add: same_channels_def)
  then have start: "tm_MaybeStartSend env ?s = Inr (?w, ?t)"
    using c idle tick(4) by (simp add: tm_MaybeStartSend_def Let_def ex_AsyncStart_def tm_set_def)
  let ?v = "?t\<lparr>outstanding_write := False, write_release := False, tm_write_stream := (tm_write_stream s)\<lparr>ex_outstanding := False\<rparr>\<rparr>"
  have one: "tm_event_step env (tm_next_event x) x = Inr (?w, ?t, [TellResponse ToRelease])"
    using x idle start by (simp add: tm_event_step_def tm_next_event_def tm_handle_def tm_PollMillisecond_def)
  have two: "tm_event_step env (tm_next_event (?t, [TellResponse ToRelease])) (?t, [TellResponse ToRelease]) = Inr ([], ?v, [])"
    using idle by (simp add: tm_event_step_def tm_next_event_def tm_handle_def tm_write_done_def tm_respond_def ex_release_total
        tm_operation_def)
  have "tm_inv (?v, [])"
    using assms(1) x idle by (auto simp: tm_idle_def tm_inv_def queued_def tm_set_def tm_set_all_def holder_def)
  then have "tm_idle (?v, [])" by (simp add: tm_idle_def)
  moreover have "tm_advance env 2 x = Inr (?w, ?v, [])"
    using one two by (simp add: numeral_2_eq_2)
  moreover have "same_channels s ?v" using same by (simp add: same_channels_def)
  moreover have "emit_text (tm_element_at s i) = emit_text (tm_element_at s c) \<or> te_to_send (tm_element_at ?v i) \<and> gap ?v i < gap s i"
  proof -
    from tm_MaybeStartSend_sends [OF start] idle(2) tick(1,2) i x
    have "sends_next ?s ?t" by auto
    with i x tick show ?thesis by (auto simp: sends_next_def gap_def)
  qed
  ultimately show ?thesis using x by (intro exI [of _ ?w] exI [of _ "(?v, [])"]) auto
qed

lemma tm_rounds:
  assumes "tm_idle x" and "binary (fst x)" and "i < length (tm_nodes (fst x))" and "te_to_send (tm_element_at (fst x) i)"
  shows "\<exists>m outs y. m \<le> 2 * Suc (gap (fst x) i) \<and> tm_advance env m x = Inr (outs, y)
    \<and> TmWrite (emit_text (tm_element_at (fst x) i)) (TellResponse ToRelease) \<in> set outs"
  using assms
proof (induction "gap (fst x) i" arbitrary: x rule: less_induct)
  case less
  obtain outs y where y: "tm_advance env 2 x = Inr (outs, y)" "tm_idle y" "same_channels (fst x) (fst y)"
      "TmWrite (emit_text (tm_element_at (fst x) i)) (TellResponse ToRelease) \<in> set outs \<or>
       te_to_send (tm_element_at (fst y) i) \<and> gap (fst y) i < gap (fst x) i"
    using tm_round [OF less.prems, of env] by blast
  show ?case
  proof (cases "TmWrite (emit_text (tm_element_at (fst x) i)) (TellResponse ToRelease) \<in> set outs")
    case True
    with y(1) show ?thesis by (intro exI [of _ 2]) auto
  next
    case False
    with y(4) have g: "te_to_send (tm_element_at (fst y) i)" "gap (fst y) i < gap (fst x) i" by auto
    have "i < length (tm_nodes (fst y))" using y(3) less.prems(3) by (simp add: same_channels_def)
    from less.hyps [OF g(2) y(2) same_channels_binary [OF y(3) less.prems(2)] this g(1)]
    obtain m outs' z where z: "m \<le> 2 * Suc (gap (fst y) i)" "tm_advance env m y = Inr (outs', z)"
        "TmWrite (emit_text (tm_element_at (fst y) i)) (TellResponse ToRelease) \<in> set outs'" by blast
    with y(1) have "tm_advance env (2 + m) x = Inr (outs @ outs', z)" by (simp add: tm_advance_add del: add_2_eq_Suc)
    moreover have "2 + m \<le> 2 * Suc (gap (fst x) i)" using z(1) g(2) by simp
    ultimately show ?thesis using z(3) same_channels_emit [OF y(3) less.prems(3)]
      by (intro exI [of _ "2 + m"]) auto
  qed
qed

lemma tm_progress:
  assumes "tm_inv x" and "binary (fst x)" and "plain_write x" and "i < length (tm_nodes (fst x))" and "te_to_send (tm_element_at (fst x) i)"
  shows "\<exists>m outs y. m \<le> tm_left x + 2 * length (tm_nodes (fst x)) \<and> tm_advance env m x = Inr (outs, y)
    \<and> TmWrite (emit_text (tm_element_at (fst x) i)) (TellResponse ToRelease) \<in> set outs"
proof -
  obtain m outs y where y: "m \<le> tm_left x" "tm_advance env m x = Inr (outs, y)" "tm_idle y" "tm_still x y"
    using tm_drain [OF assms(1-3)] by blast
  then have same: "same_channels (fst x) (fst y)" "tm_elements (fst y) = tm_elements (fst x)"
    by (simp_all add: tm_still_def same_channels_elements)
  obtain k outs' z where z: "k \<le> 2 * Suc (gap (fst y) i)" "tm_advance env k y = Inr (outs', z)"
      "TmWrite (emit_text (tm_element_at (fst y) i)) (TellResponse ToRelease) \<in> set outs'"
    using tm_rounds [OF y(3) same_channels_binary [OF same(1) assms(2)], of i env] assms(4,5) same(2) by auto
  have "tm_advance env (m + k) x = Inr (outs @ outs', z)" using y(2) z(2) by (simp add: tm_advance_add)
  moreover have "m + k \<le> tm_left x + 2 * length (tm_nodes (fst x))"
    using y(1) z(1) gap_less [of i "fst y"] assms(4) same(2) by simp
  ultimately show ?thesis using z(3) same(2) by (intro exI [of _ "m + k"]) auto
qed

section \<open>Properties\<close>

text \<open>
  C39: a channel that is marked is sent in its turn. In a run from any reachable
  state in which channel \<open>i\<close> is marked, with any events but \<open>tel stop\<close>, either the sending of \<open>i\<close> has begun, or fewer
  sends than there are channels have begun since, and the mark is still there. In that case:
  if no send is outstanding, the channels are binary and fit into the output buffer, and the output
  is free or has a free place in its queue, the next millisecond begins a send; and if the channels
  are binary and fit, and no listing or text is just being written, then completing what is
  outstanding (the writes complete, the other users give the output back, and milliseconds pass
  when no one holds it) sends the data of channel \<open>i\<close>, after at most two events for every
  channel and for every user that waits, and three more.
\<close>

theorem telemetry_fair:
  assumes "tm_reach env (s, v)" and "tm_run env (s, v) sent (t, w)" and "i < length (tm_nodes s)"
    and "te_to_send (tm_element_at s i)"
  shows "i \<in> set sent \<or>
    length sent < length (tm_nodes s) \<and> te_to_send (tm_element_at t i) \<and>
    (\<not> outstanding_write t \<and> ready t \<longrightarrow> (\<exists>out u. tm_PollMillisecond env t = Inr (out, u) \<and> outstanding_write u)) \<and>
    (binary t \<and> plain_write (t, w) \<longrightarrow>
      (\<exists>m outs y. m \<le> 2 * length (tm_nodes t) + 2 * ex_waiting (tm_write_stream t) + 3 \<and> tm_advance env m (t, w) = Inr (outs, y)
        \<and> TmWrite (emit_text (tm_element_at t i)) (TellResponse ToRelease) \<in> set outs))"
proof (cases "i \<in> set sent")
  case False
  with tm_run_waits [OF assms(2), of i] assms(3,4) gap_less [OF assms(3)]
  have t: "length (tm_nodes t) = length (tm_nodes s)" "te_to_send (tm_element_at t i)" "length sent < length (tm_nodes s)"
    by auto
  have "te_to_send (tm_element_at (tm_set_all tm_tick t) i)" "i < length (tm_nodes (tm_set_all tm_tick t))"
    using kept_tick [of t] t assms(3) by (auto simp: kept_def)
  then have next_send: "\<exists>out u. tm_PollMillisecond env t = Inr (out, u) \<and> outstanding_write u" if "\<not> outstanding_write t" "ready t"
    using tm_MaybeStartSend_sends [of env "tm_set_all tm_tick t"] tm_MaybeStartSend_total [OF ready_tick [OF that(2)], of env] that(1)
    by (fastforce simp: tm_PollMillisecond_def sends_next_def)
  have inv: "tm_inv (t, w)" by (rule tm_reach_inv [OF tm_run_reach [OF assms(2,1)]])
  then have "length w \<le> 1" by (simp add: tm_inv_def answers_to_def)
  then have "tm_left (t, w) \<le> 2 * ex_waiting (tm_write_stream t) + 3" by (simp add: tm_left_def)
  then have "\<exists>m outs y. m \<le> 2 * length (tm_nodes t) + 2 * ex_waiting (tm_write_stream t) + 3 \<and> tm_advance env m (t, w) = Inr (outs, y)
      \<and> TmWrite (emit_text (tm_element_at t i)) (TellResponse ToRelease) \<in> set outs" if bw: "binary t" "plain_write (t, w)"
  proof -
    obtain m outs y where "m \<le> tm_left (t, w) + 2 * length (tm_nodes t)" "tm_advance env m (t, w) = Inr (outs, y)"
        "TmWrite (emit_text (tm_element_at t i)) (TellResponse ToRelease) \<in> set outs"
      using tm_progress [OF inv _ bw(2), of i env] bw(1) assms(3) t(1,2) by auto
    with \<open>tm_left (t, w) \<le> _\<close> show ?thesis by (intro exI [of _ m] exI [of _ outs] exI [of _ y]) simp
  qed
  with t next_send show ?thesis by blast
qed simp

definition two_channels :: telemetry_manager where
  "two_channels = (tm_init (ex_init 3) 64)\<lparr>tm_elements := \<lparr>pm_nodes =
     [(ascii ''a'', \<lparr>te_name = ascii ''a'', te_rate = 1, te_next = 1, te_to_send = True, te_text = False, te_base = gains\<rparr>),
      (ascii ''b'', \<lparr>te_name = ascii ''b'', te_rate = 1, te_next = 1, te_to_send = True, te_text = False, te_base = gains\<rparr>)],
     pm_max = 16\<rparr>\<rparr>"

lemma two_channels_ready: "ready two_channels"
  using gains_typed by (auto simp: two_channels_def ready_def binary_def fits_def tm_init_def ex_init_def gains_def less_Suc_eq)

lemma two_channels_reach: "tm_reach plain_text (two_channels, [])"
  unfolding two_channels_def by (rule tm_reach.boot)

theorem telemetry_fair_witness:
  "(\<exists>y. tm_run plain_text (two_channels, []) [1] y \<and> te_to_send (tm_element_at (fst y) 0))
   \<and> (\<exists>m outs y. m \<le> 7 \<and> tm_advance plain_text m (two_channels, []) = Inr (outs, y)
      \<and> TmWrite (emit_text (tm_element_at two_channels 0)) (TellResponse ToRelease) \<in> set outs)"
proof
  have i: "0 < length (tm_nodes two_channels)" "te_to_send (tm_element_at two_channels 0)" by (simp_all add: two_channels_def)
  obtain out t where t: "tm_handle plain_text Millisecond two_channels = Inr (out, t)"
    using tm_MaybeStartSend_total [OF ready_tick [OF two_channels_ready], of plain_text]
    by (auto simp: tm_handle_def tm_PollMillisecond_def)
  have find: "tm_find_send (tm_set_all tm_tick two_channels) 0 2 = Some 1"
    by (simp add: two_channels_def tm_set_all_def tm_tick_def tm_init_def numeral_2_eq_2)
  have two: "length (tm_nodes (tm_set_all tm_tick two_channels)) = 2" "\<not> outstanding_write (tm_set_all tm_tick two_channels)"
    by (simp_all add: two_channels_def tm_set_all_def tm_init_def)
  have "last_sent t = 1"
    using t find two by (auto simp: tm_handle_def tm_PollMillisecond_def tm_MaybeStartSend_def Let_def split: prod.splits)
  moreover have "\<not> outstanding_write two_channels" "outstanding_write t"
    using t tm_MaybeStartSend_sends [OF _ two(2)] two(1) find tm_find_send_Some [OF find]
    by (force simp: tm_handle_def tm_PollMillisecond_def sends_next_def two_channels_def tm_init_def)+
  moreover have "tm_event_step plain_text Millisecond (two_channels, []) = Inr (out, t, tm_writes out)"
    using t by (simp add: tm_event_step_def)
  from tm_run.event [OF tm_run.start _ this] have "tm_run plain_text (two_channels, [])
      ([] @ (if \<not> outstanding_write two_channels \<and> outstanding_write t then [last_sent t] else [])) (t, tm_writes out)"
    by (simp add: is_stop_def cong: if_cong split del: if_split)
  ultimately have run: "tm_run plain_text (two_channels, []) [1] (t, tm_writes out)" by simp
  from telemetry_fair [OF two_channels_reach run i] run
  show "\<exists>y. tm_run plain_text (two_channels, []) [1] y \<and> te_to_send (tm_element_at (fst y) 0)" by auto
  have "binary two_channels" "plain_write (two_channels, [])" "2 * length (tm_nodes two_channels) + 2 * ex_waiting (tm_write_stream two_channels) + 3 = 7"
    using two_channels_ready by (simp_all add: ready_def plain_write_def) (simp_all add: two_channels_def tm_init_def ex_init_def ex_waiting_def)
  with telemetry_fair [OF two_channels_reach tm_run.start i]
  show "\<exists>m outs y. m \<le> 7 \<and> tm_advance plain_text m (two_channels, []) = Inr (outs, y)
      \<and> TmWrite (emit_text (tm_element_at two_channels 0)) (TellResponse ToRelease) \<in> set outs" by auto
qed

end
