(* ===== verification/Spec2Isabelle.thy ===== *)
theory Spec2Isabelle
  imports Rs485_Frame_Stream Fdcanusb_Stream Server_Safety Log_Files Event_Queue Telemetry_Progress
begin

text \<open>
  A verification development for mjlib, the C++ library under \<open>src/mjlib\<close>.

  \<^bold>\<open>The program.\<close> mjlib has three parts of its own logic. \<^emph>\<open>multiplex\<close> is a protocol for registers
  and byte tunnels between a host and devices on a shared bus: frames with ids, a size and a
  checksum, whose payload is a list of subframes. The host side is \<open>frame.cc\<close>,
  \<open>rs485_frame_stream.cc\<close> and \<open>register.cc\<close>, the device side \<open>micro_stream_datagram.cc\<close> and
  \<open>micro_server.cc\<close>. \<^emph>\<open>telemetry\<close> is a self-describing binary format: archives that write an object
  and the schema of its type, a parser for schemas, and log files of blocks with an index and seek
  markers. \<^emph>\<open>micro\<close> is the firmware side: an interrupt-safe event queue, a command line, named
  structures that can be listed, printed, set and stored in flash, and telemetry channels that are
  sent over the output the command line uses too. The parts meet in byte streams
  (\<open>base/stream.h\<close>), in the archives (the flash and the channels hold archived structures), and in
  the shared output (\<open>micro/async_exclusive.h\<close>).

  \<^bold>\<open>How code is modelled.\<close> A class is a record of its members and an operation a function from the
  record to the new one, in the order of the source. A call that cannot return (a failed
  \<open>MJ_ASSERT\<close>, an access outside an object, an empty optional or callback, an exception) gives a
  value of \<open>fault\<close>; the results are sums \<open>fault + 'a\<close> (\<open>res\<close>), chained by \<open>sbind\<close>. Machine integers
  are words of their width wherever they can wrap. An asynchronous call is an output (\<open>StartRead\<close>,
  \<open>WriteOut d k\<close>, ...) and its completion an event, handled by the function that models the callback.
  Templates over streams take the stream's operation as an argument, so one definition serves
  all instances; \<open>write_stream\<close>, \<open>collecting_stream\<close>, \<open>steady_stream\<close>, \<open>object_stream\<close> and \<open>read_stream\<close>
  are the interfaces of \<open>base/stream.h\<close> with their laws, interpreted for every stream class.

  \<^bold>\<open>Theories.\<close>
  \<^item> \<open>Prelude\<close>: bytes, faults, little-endian scalars, base-128 numbers (\<open>leb128\<close>).
  \<^item> \<open>Byte_Streams\<close>: \<open>base/buffer_stream.h\<close>, \<open>fast_stream.h\<close>, \<open>crc_stream.h\<close>, \<open>recording_stream.h\<close>,
    \<open>null_stream.h\<close>, and the locales.
  \<^item> \<open>Multiplex_Stream\<close>: \<open>multiplex/stream.h\<close>; what \<open>ReadVaruint\<close> makes of every input, round trip, and
    that the specialisations for buffers agree with the generic code.
  \<^item> \<open>Multiplex_Frame\<close>, \<open>Rs485_Frame_Stream\<close>: \<open>frame.cc\<close> and \<open>rs485_frame_stream.cc\<close>; frames are delivered
    from noise and in pieces, only frames with a matching checksum are, and a reader never stalls.
  \<^item> \<open>Fdcanusb_Stream\<close>: \<open>fdcanusb_frame_stream.cc\<close>; frames as lines of text, delivered padded and in
    pieces, and two cases in which they are not.
  \<^item> \<open>Stream_Datagram\<close>: \<open>micro_stream_datagram.cc\<close>; it refines a scan over a list, writes what
    \<open>Frame::encode\<close> does, and stalls exactly after a false header.
  \<^item> \<open>Register_Client\<close>, \<open>Micro_Server\<close>, \<open>Register_Server\<close>, \<open>Server_Safety\<close>: \<open>register.cc\<close> and
    \<open>micro_server.cc\<close>; a request is executed as its list of reads and writes and the reply parsed to
    their results; the parser ends on every input; frames without reply never fault, whatever a
    user of the tunnels does with one read and one write outstanding at a time.
  \<^item> \<open>Telemetry_Format\<close>, \<open>Telemetry_Archive\<close>: \<open>telemetry/format.h\<close>, \<open>binary_write_archive.h\<close>,
    \<open>binary_read_archive.h\<close>; objects of all types are read back into fresh ones.
  \<^item> \<open>Binary_Schema\<close>: \<open>binary_schema_parser.cc\<close>; a written schema describes the written data, the
    parser ends on every input, the iteration is in preorder.
  \<^item> \<open>File_Writer\<close>, \<open>File_Reader\<close>, \<open>Log_Files\<close>: \<open>file_writer.cc\<close> with \<open>base/thread_writer.h\<close>, and
    \<open>file_reader.cc\<close>; the bytes of a log in every interleaving with the writing thread, and that a
    log, with its index or without, is read back.
  \<^item> \<open>Event_Queue\<close>: \<open>micro/atomic_event_queue.h\<close> at the grain of its atomic operations.
  \<^item> \<open>Command_Manager\<close>: \<open>base/tokenizer.h\<close>, \<open>micro/pool_map.h\<close>, \<open>async_exclusive.h\<close>, \<open>async_read.h\<close>,
    \<open>command_manager.cc\<close>; the state machine refines splitting into lines, and what is outstanding
    is accepted when it comes, as long as the output has a place for a command to wait.
  \<^item> \<open>Config_Items\<close>, \<open>Config_Fields\<close>: \<open>micro/serializable_handler.h\<close> and its detail; the printed fields
    of a structure set it again.
  \<^item> \<open>Persistent_Config\<close>: \<open>micro/persistent_config.cc\<close> and \<open>flash.h\<close>; what is written to flash is loaded.
  \<^item> \<open>Telemetry_Manager\<close>, \<open>Telemetry_Progress\<close>: \<open>micro/telemetry_manager.cc\<close>; marked channels are sent
    in turn, and when what is outstanding completes, the data of each are sent within a bound.

  Here, at the root, is the composition of the multiplex layers.

  \<^bold>\<open>Parameters.\<close> The checksums of boost (\<open>crc\<close>, \<open>crc32\<close>), snappy, the formatting and parsing of
  floating point numbers, the application behind the register server, the registered commands
  and the flash are parameters; the laws asked of them are hypotheses of the theorems or a locale
  (\<open>flash_interface\<close>), and the witnesses show that they can hold. A floating point number is its
  bits.

  \<^bold>\<open>Bounds and fuel.\<close> Loops are functions with termination proofs. The schema parser, which recurses
  on its input, has a bound on its depth, one more than the length of the input, and an outcome of
  its own, \<open>OutOfFuel\<close>, that is never reached (\<open>schema_parser_terminates\<close>). \<open>Poll\<close> of the event queue, run alone, is bounded by eight steps for
  each entry and one. Sizes that only grow are natural numbers; where the code computes with a
  fixed width (sizes of frames, identifiers, rates) the width is kept.

  \<^bold>\<open>Not modelled.\<close> What is only a binding to an operating system, a bus or a user interface: the boost
  asio streams, timers and executors of \<open>io\<close>, \<open>stream_asio_client.cc\<close>, \<open>socketcan_frame_stream.cc\<close>, the
  tools and their options, \<open>imgui\<close>, \<open>thread_writer.h\<close>'s thread and signal handling (its queue is
  modelled). The JSON archives, \<open>pid.h\<close> and the conversions to seconds, which compute with floating
  point numbers. Containers the modelled code does not use. \<open>inplace_function.h\<close> and \<open>gl3w\<close> are
  third-party code.
\<close>

text \<open>
  C1: a register exchange from a host to a device and back,
  through all layers. The host builds a request from any list of reads and writes and writes it
  to the wire in a frame. The bytes arrive at the device after noise and in any pieces. Then the
  datagram layer of the device delivers exactly the request to the server; the server performs
  the requested operations, in order, and answers; the datagram layer writes a frame; and however
  that arrives at the host, the host's frame stream delivers the reply, and
  \<open>ParseRegisterReply\<close> finds in it exactly the results of the operations. The buffers must be large
  enough for the request and for the largest possible answer.
\<close>

theorem register_exchange_on_the_wire:
  assumes request: "build_request reqs rr_init = Inr rr" "\<forall>r \<in> set reqs. req_ok r"
    and frame: "g = \<lparr>source_id = host, request_reply = True, dest_id = config_id s AND 0x7f, payload = rr_bytes rr\<rparr>"
      "unat host < 128" "config_id s AND 0x7f \<noteq> 0x7f" "length (rr_bytes rr) \<le> 4096"
    and sent: "rs_AsyncWrite crc tx g = Inr (tx', [StartWrite w])"
    and device: "dg_waiting d [] cap sz" "length (rr_bytes rr) \<le> cap" "length w \<le> sz"
    and wire: "0x54 \<notin> set junk" "concat cs @ c = junk @ w @ rest" "length (concat cs) < length (junk @ w)"
    and server: "ms_server s = Some sv" "reads_typed sv" "\<not> write_outstanding s"
      "run_requests True sv reqs (StartFrame sv (ms_app s)) = (app, its)" "CompleteFrame sv app = (kAccept, app')"
    and room: "sum_list (map reply_bound reqs) \<le> length (ms_write_buffer s)"
      "dg_write d = None" "length (dg_wbuf d) = sz" "sum_list (map reply_bound reqs) + 11 < sz" "sz \<le> 2 ^ 31"
    and host: "rs_waiting r []"
  shows "\<exists>d1 es d2 h s' h' reply d3 w'. dg_feed crc d cs = Inr (d1, es)
    \<and> dg_HandleReadFrame crc d1 False c = Inr (d2, [dg_ReadDone dg_ok (Some h) (rr_bytes rr)])
    \<and> HandleReadDatagram False h (rr_bytes rr) s = Inr (s', [ms_StartWrite h' reply h, ms_StartRead])
    \<and> ms_app s' = app'
    \<and> dg_AsyncWrite crc d2 h' reply = Inr (d3, [dg_StartWrite w']) \<and> w' \<noteq> []
    \<and> (\<forall>junk' cs' c' rest'. 0x54 \<notin> set junk' \<longrightarrow> concat cs' @ c' = junk' @ w' @ rest' \<longrightarrow>
         length (concat cs') < length (junk' @ w') \<longrightarrow>
         (\<exists>r1 r2. rs_feed crc r cs' = Inr (r1, replicate (length cs') StartRead)
            \<and> rs_HandleRead crc r1 Success c' = Inr (r2, [PostCallback Success
                \<lparr>source_id = config_id s AND 0x7f, request_reply = False, dest_id = host, payload = reply\<rparr>])))
    \<and> map_option fst (ParseRegisterReply_vector fis_read (fis_init reply)) = Some (concat (map item_pairs its))"
proof -
  let ?id = "config_id s AND 0x7f"
  have host7: "host AND 0x7f = host"
    using frame(2) by (simp add: and_7f_word)
  have w: "w = frame_bytes crc (host OR 0x80) ?id (rr_bytes rr)"
    using rs_AsyncWrite_bytes [of g crc tx] frame(1,4) sent by (auto simp: frame_source_def)
  let ?h = "\<lparr>hd_source = uint (host OR 0x80), hd_destination = uint ?id, hd_size = int (length (rr_bytes rr))\<rparr>"
  obtain d1 es d2 where d: "dg_feed crc d cs = Inr (d1, es)"
      "dg_HandleReadFrame crc d1 False c = Inr (d2, [dg_ReadDone dg_ok (Some ?h) (rr_bytes rr)])"
      "dg_write d2 = None" "length (dg_wbuf d2) = sz" "dg_size d2 = sz"
    using dg_delivers [OF device(1) frame(4), of crc "host OR 0x80" ?id junk cs c rest] device wire room(2,3) w
    by (auto simp: dg_waiting_def)
  obtain s' h' reply where m: "HandleReadDatagram False ?h (rr_bytes rr) s = Inr (s', [ms_StartWrite h' reply ?h, ms_StartRead])"
      "ms_app s' = app'" "hd_destination h' = uint (host AND 0x7f)" "hd_source h' = uint ?id"
      "map_option fst (ParseRegisterReply_vector fis_read (fis_init reply)) = Some (concat (map item_pairs its))"
      "length reply \<le> sum_list (map reply_bound reqs)"
    using rpc_end_to_end [OF request server(1-3) _ frame(3), of ?h host app its app'] room(1) server(4,5) by auto
  have len: "length reply < 2 ^ 31" "6 + length (leb128 (length reply)) + length reply < sz"
    using m(6) room(4,5) length_leb128_u32 [of "of_nat (length reply)"] by (simp_all add: unat_of_nat_u32)
  let ?w = "frame_bytes crc ?id host reply"
  obtain wbuf where dw: "dg_AsyncWrite crc d2 h' reply = Inr (d2\<lparr>dg_wbuf := wbuf, dg_write := Some (length reply)\<rparr>, [dg_StartWrite ?w])"
    using dg_AsyncWrite_frame [OF d(3), of reply ?id h' host crc] d(4,5) len m(3,4) host7 by auto
  let ?g = "\<lparr>source_id = ?id, request_reply = False, dest_id = host, payload = reply\<rparr>"
  have id: "unat ?id < 128" by (simp add: and_7f_word unat_of_nat take_bit_eq_mod)
  obtain t where t: "rs_AsyncWrite crc tx ?g = Inr (t, [StartWrite ?w])"
    using rs_AsyncWrite_bytes [of ?g crc tx] len(1) by (auto simp: frame_source_def)
  have "\<exists>r1 r2. rs_feed crc r cs' = Inr (r1, replicate (length cs') StartRead)
            \<and> rs_HandleRead crc r1 Success c' = Inr (r2, [PostCallback Success ?g])"
    if "0x54 \<notin> set junk'" "concat cs' @ c' = junk' @ ?w @ rest'" "length (concat cs') < length (junk' @ ?w)" for junk' cs' c' rest'
    using rs_delivers [of ?g, OF _ _ t that host] id len(1) by auto
  with d(1,2) m(1,2,5) dw frame_bytes_not_Nil show ?thesis by blast
qed

theorem register_exchange_on_the_wire_witness:
  "\<exists>rr tx' w d1 es d2 h s' h' reply d3 w' r1 r2.
    build_request [WriteReq 5 [VInt8 7], ReadReq 0 1 5] rr_init = Inr rr
    \<and> rs_AsyncWrite (\<lambda>_. 0x1234) rs_init \<lparr>source_id = 3, request_reply = True, dest_id = 1, payload = rr_bytes rr\<rparr> = Inr (tx', [StartWrite w])
    \<and> dg_feed (\<lambda>_. 0x1234) ((dg_init 128 (replicate 128 0))\<lparr>dg_read := Some 16\<rparr>) [take 4 w] = Inr (d1, es)
    \<and> dg_HandleReadFrame (\<lambda>_. 0x1234) d1 False (drop 4 w) = Inr (d2, [dg_ReadDone dg_ok (Some h) (rr_bytes rr)])
    \<and> HandleReadDatagram False h (rr_bytes rr) demo_state = Inr (s', [ms_StartWrite h' reply h, ms_StartRead])
    \<and> ms_app s' = 7
    \<and> dg_AsyncWrite (\<lambda>_. 0x1234) d2 h' reply = Inr (d3, [dg_StartWrite w'])
    \<and> rs_HandleRead (\<lambda>_. 0x1234) r1 Success w' = Inr (r2, [PostCallback Success
          \<lparr>source_id = 1, request_reply = False, dest_id = 3, payload = reply\<rparr>])
    \<and> map_option fst (ParseRegisterReply_vector fis_read (fis_init reply)) = Some [(5, RValue (VInt8 7))]"
proof -
  let ?reqs = "[WriteReq 5 [VInt8 7], ReadReq 0 1 5]" and ?crc = "\<lambda>_ :: byte list. 0x1234 :: u16"
  let ?d = "(dg_init 128 (replicate 128 0))\<lparr>dg_read := Some 16\<rparr>"
  let ?r = "rs_init\<lparr>rs_frame := Some frame_init, rs_callback := True, rs_outstanding := True\<rparr>"
  have ok: "\<forall>r \<in> set ?reqs. req_ok r" by simp
  obtain rr where rr: "build_request ?reqs rr_init = Inr rr" "rr_bytes rr = concat (map req_bytes ?reqs)"
    using build_request_bytes [OF rr_init_ok(1) ok] by (auto simp: rr_init_ok(2))
  have len: "length (rr_bytes rr) = 5"
    unfolding rr(2)
    by (simp add: write_bytes_def read_bytes_def subframe_head_def short_len_def value_index_def
        values_bytes_def value_bytes_def subframe_codes leb128_small)
  let ?g = "\<lparr>source_id = 3, request_reply = True, dest_id = 1, payload = rr_bytes rr\<rparr> :: frame"
  let ?w = "frame_bytes ?crc (frame_source ?g) 1 (rr_bytes rr)"
  obtain tx' where tx: "rs_AsyncWrite ?crc rs_init ?g = Inr (tx', [StartWrite ?w])"
    using rs_AsyncWrite_bytes [of ?g ?crc rs_init] len by auto
  have wlen: "length ?w = 12" using len by (simp add: length_frame_bytes leb128_small)
  have typed: "reads_typed demo_server" by (auto simp: reads_typed_def demo_server_def value_index_def)
  have run: "run_requests True demo_server ?reqs (StartFrame demo_server (ms_app demo_state)) = (7, [Values 0 1 5 [VInt8 7]])"
    by (simp add: demo_server_def demo_state_def short_len_def)
  have dev: "dg_waiting ?d [] 16 128" by (simp add: dg_waiting_def dg_init_def)
  have host: "rs_waiting ?r []" by (simp add: rs_waiting_def rs_init_def DiscardUntil_def)
  have id: "config_id demo_state AND 0x7f = 1" by (simp add: demo_state_def ms_init_def)
  note on_wire = register_exchange_on_the_wire [OF rr(1) ok _ _ _ _ tx dev _ _ _ _ _ _ typed _ run _ _ _ _ _ _ host,
      where host = 3 and junk = "[]" and cs = "[take 4 ?w]" and c = "drop 4 ?w" and rest = "[]" and app' = 7, unfolded id]
  have "\<exists>d1 es d2 h s' h' reply d3 w'. dg_feed ?crc ?d [take 4 ?w] = Inr (d1, es)
    \<and> dg_HandleReadFrame ?crc d1 False (drop 4 ?w) = Inr (d2, [dg_ReadDone dg_ok (Some h) (rr_bytes rr)])
    \<and> HandleReadDatagram False h (rr_bytes rr) demo_state = Inr (s', [ms_StartWrite h' reply h, ms_StartRead])
    \<and> ms_app s' = 7
    \<and> dg_AsyncWrite ?crc d2 h' reply = Inr (d3, [dg_StartWrite w']) \<and> w' \<noteq> []
    \<and> (\<forall>junk' cs' c' rest'. 0x54 \<notin> set junk' \<longrightarrow> concat cs' @ c' = junk' @ w' @ rest' \<longrightarrow>
         length (concat cs') < length (junk' @ w') \<longrightarrow>
         (\<exists>r1 r2. rs_feed ?crc ?r cs' = Inr (r1, replicate (length cs') StartRead)
            \<and> rs_HandleRead ?crc r1 Success c' = Inr (r2, [PostCallback Success
                \<lparr>source_id = 1, request_reply = False, dest_id = 3, payload = reply\<rparr>])))
    \<and> map_option fst (ParseRegisterReply_vector fis_read (fis_init reply)) = Some (concat (map item_pairs [Values 0 1 5 [VInt8 7]]))"
    by (rule on_wire) (use len wlen in \<open>simp_all add: demo_state_def demo_server_def ms_init_def dg_init_def\<close>)
  then obtain d1 es d2 h s' h' reply d3 w' where x: "dg_feed ?crc ?d [take 4 ?w] = Inr (d1, es)"
    "dg_HandleReadFrame ?crc d1 False (drop 4 ?w) = Inr (d2, [dg_ReadDone dg_ok (Some h) (rr_bytes rr)])"
    "HandleReadDatagram False h (rr_bytes rr) demo_state = Inr (s', [ms_StartWrite h' reply h, ms_StartRead])"
    "ms_app s' = 7" "dg_AsyncWrite ?crc d2 h' reply = Inr (d3, [dg_StartWrite w'])" "w' \<noteq> []"
    "\<forall>junk' cs' c' rest'. 0x54 \<notin> set junk' \<longrightarrow> concat cs' @ c' = junk' @ w' @ rest' \<longrightarrow>
         length (concat cs') < length (junk' @ w') \<longrightarrow>
         (\<exists>r1 r2. rs_feed ?crc ?r cs' = Inr (r1, replicate (length cs') StartRead)
            \<and> rs_HandleRead ?crc r1 Success c' = Inr (r2, [PostCallback Success
                \<lparr>source_id = 1, request_reply = False, dest_id = 3, payload = reply\<rparr>]))"
    "map_option fst (ParseRegisterReply_vector fis_read (fis_init reply)) = Some [(5, RValue (VInt8 7))]"
    by auto
  obtain r1 r2 where "rs_HandleRead ?crc r1 Success w' = Inr (r2, [PostCallback Success
      \<lparr>source_id = 1, request_reply = False, dest_id = 3, payload = reply\<rparr>])"
    using x(6) x(7) [rule_format, of "[]" "[]" w' "[]"] by auto
  with rr(1) tx x(1-5,8) show ?thesis by blast
qed

end
